(* ===== verification/Prelude.thy ===== *)
theory Prelude
  imports Main "HOL-Library.Word" "HOL-Library.Sublist"
begin

unbundle bit_operations_syntax

text \<open>
  The vocabulary the component theories share: machine integers of the C sources, byte
  strings, the few functions of the C library the sources call on them, and the lemmas
  about prefixes and first occurrences that the text components rest on.

  A NUL-terminated C string is a \<^typ>\<open>string\<close> (a list of bytes without the terminator);
  a moving pointer into it is the remaining suffix, and the read at the terminator is the
  empty suffix. A counted memory block is a list of bytes, either \<^typ>\<open>string\<close> or a list
  of \<open>8 word\<close> values where the code does bit arithmetic.
\<close>

section \<open>Machine types\<close>

type_synonym u8 = "8 word"
type_synonym u16 = "16 word"
type_synonym u32 = "32 word"
type_synonym u64 = "64 word"

type_synonym bytes = "u8 list"

abbreviation UINT32_MAX :: nat where "UINT32_MAX \<equiv> 4294967295"
abbreviation UINT64_MAX :: nat where "UINT64_MAX \<equiv> 18446744073709551615"
abbreviation SIZE_MAX :: nat where "SIZE_MAX \<equiv> 18446744073709551615"
abbreviation INT_MAX :: int where "INT_MAX \<equiv> 2147483647"
abbreviation INT64_MAX :: nat where "INT64_MAX \<equiv> 9223372036854775807"

named_theorems cstr_simps \<open>evaluation of the C string functions on literals\<close>

section \<open>Prefixes of byte strings\<close>

text \<open>\<open>strncmp(s, lit, strlen(lit)) == 0\<close> on a NUL-terminated string is \<open>prefix lit s\<close>.\<close>

lemma prefix_drop_append: "prefix p s \<Longrightarrow> s = p @ drop (length p) s"
  by (auto simp: prefix_def)

lemma prefix_append_iff:
  "length p \<le> length s \<Longrightarrow> prefix p (s @ t) \<longleftrightarrow> prefix p s"
  by (auto simp: prefix_def append_eq_append_conv2)

lemma prefix_comparable_append:
  "(\<exists>x. prefix p (s @ x)) \<longleftrightarrow> prefix p s \<or> prefix s p"
proof
  assume "\<exists>x. prefix p (s @ x)"
  then obtain x where "prefix p (s @ x)" by blast
  moreover have "prefix s (s @ x)" by simp
  ultimately show "prefix p s \<or> prefix s p" by (rule prefix_same_cases)
next
  assume "prefix p s \<or> prefix s p"
  then show "\<exists>x. prefix p (s @ x)"
    by (auto simp: prefix_def)
qed

lemma prefix_same_length:
  "length w = length l \<Longrightarrow> prefix (w @ q) (l @ t) \<longleftrightarrow> w = l \<and> prefix q t"
  by (auto simp: prefix_def)

lemma prefix_take_iff: "prefix p s \<longleftrightarrow> take (length p) s = p"
  by (metis append_eq_conv_conj prefix_def take_is_prefix)

lemma find_upt: "P (k + n) \<Longrightarrow> (\<And>j. j < n \<Longrightarrow> \<not> P (k + j)) \<Longrightarrow> k + n < m \<Longrightarrow> find P [k..<m] = Some (k + n)"
  unfolding find_Some_iff by (intro exI [of _ n]) auto

section \<open>strstr\<close>

text \<open>The offset of the first occurrence of a needle, the pointer \<open>strstr\<close> returns.\<close>

fun strstr :: "string \<Rightarrow> string \<Rightarrow> nat option" where
  "strstr needle [] = (if needle = [] then Some 0 else None)"
| "strstr needle (c # s) =
     (if prefix needle (c # s) then Some 0 else map_option Suc (strstr needle s))"

lemma strstr_Some_prefix: "strstr n s = Some i \<Longrightarrow> i \<le> length s \<and> prefix n (drop i s)"
proof (induction s arbitrary: i)
  case Nil
  then show ?case by (auto split: if_splits)
next
  case (Cons c s)
  then show ?case by (auto split: if_splits)
qed

lemma strstr_Some_first: "strstr n s = Some i \<Longrightarrow> j < i \<Longrightarrow> \<not> prefix n (drop j s)"
proof (induction s arbitrary: i j)
  case Nil
  then show ?case by (auto split: if_splits)
next
  case (Cons c s)
  then show ?case by (cases j) (auto split: if_splits)
qed

lemma strstr_None: "strstr n s = None \<longleftrightarrow> \<not> sublist n s"
proof (induction s)
  case Nil
  then show ?case by auto
next
  case (Cons c s)
  then show ?case by (auto simp: sublist_Cons_right)
qed

text \<open>The characterisation the delimiter proofs use: the first offset at which the needle matches.\<close>

lemma strstr_eqI:
  assumes "prefix n (drop i s)" and "\<And>j. j < i \<Longrightarrow> \<not> prefix n (drop j s)" and "i \<le> length s"
  shows "strstr n s = Some i"
  using assms
proof (induction s arbitrary: i)
  case Nil
  then show ?case by auto
next
  case (Cons c s)
  show ?case
  proof (cases i)
    case 0
    with Cons.prems show ?thesis by simp
  next
    case (Suc k)
    have "\<not> prefix n (c # s)" using Cons.prems(2) [of 0] Suc by simp
    moreover have "strstr n s = Some k"
    proof (rule Cons.IH)
      show "prefix n (drop k s)" using Cons.prems(1) Suc by simp
      show "k \<le> length s" using Cons.prems(3) Suc by simp
      show "\<not> prefix n (drop j s)" if "j < k" for j
        using Cons.prems(2) [of "Suc j"] that Suc by simp
    qed
    ultimately show ?thesis using Suc by simp
  qed
qed

section \<open>Numbers as words\<close>

lemma unat_of_nat_u32: "n < 2 ^ 32 \<Longrightarrow> unat (of_nat n :: u32) = n"
  by (simp add: unat_of_nat)

lemma unat_of_nat_u64: "n < 2 ^ 64 \<Longrightarrow> unat (of_nat n :: u64) = n"
  by (simp add: unat_of_nat)

lemma ucast_of_nat_u32: "n < 2 ^ 32 \<Longrightarrow> ucast (of_nat n :: u32) = (of_nat n :: u64)"
  by (simp add: unsigned_of_nat take_bit_nat_eq_self)

lemma of_nat_u32_nonzero: "0 < n \<Longrightarrow> n < 2 ^ 32 \<Longrightarrow> (of_nat n :: u32) \<noteq> 0"
  using unat_of_nat_u32 [of n] by auto

lemma sint_of_nat_u32: "n < 2 ^ 31 \<Longrightarrow> sint (of_nat n :: u32) = int n"
  by (simp add: signed_of_nat signed_take_bit_int_eq_self)

section \<open>Counting and updating list entries\<close>

definition cnt :: "('a \<Rightarrow> bool) \<Rightarrow> 'a list \<Rightarrow> nat" where
  "cnt P xs = length (filter P xs)"

lemma cnt_update:
  "i < length xs \<Longrightarrow> cnt P (xs[i := x]) + (if P (xs ! i) then 1 else 0) = cnt P xs + (if P x then 1 else 0)"
proof (induction xs arbitrary: i)
  case (Cons y ys)
  then show ?case by (cases i) (force simp: cnt_def)+
qed simp

lemma cnt_update_same [simp]: "i < length xs \<Longrightarrow> P x = P (xs ! i) \<Longrightarrow> cnt P (xs[i := x]) = cnt P xs"
  using cnt_update [of i xs P x] by (simp split: if_splits)

lemma cnt_update_in: "i < length xs \<Longrightarrow> P x \<Longrightarrow> \<not> P (xs ! i) \<Longrightarrow> cnt P (xs[i := x]) = Suc (cnt P xs)"
  using cnt_update [of i xs P x] by simp

lemma cnt_update_out: "i < length xs \<Longrightarrow> \<not> P x \<Longrightarrow> P (xs ! i) \<Longrightarrow> Suc (cnt P (xs[i := x])) = cnt P xs"
  using cnt_update [of i xs P x] by simp

lemma cnt_pos: "i < length xs \<Longrightarrow> P (xs ! i) \<Longrightarrow> 0 < cnt P xs"
  by (auto simp: cnt_def filter_empty_conv intro: nth_mem)

lemma cnt_zero: "cnt P xs = 0 \<longleftrightarrow> (\<forall>i < length xs. \<not> P (xs ! i))"
  unfolding cnt_def length_0_conv filter_empty_conv all_set_conv_all_nth ..

lemma cnt_indices: "length (filter (\<lambda>i. P (xs ! i)) [0..<length xs]) = cnt P xs"
proof -
  have "filter P xs = map ((!) xs) (filter (\<lambda>i. P (xs ! i)) [0..<length xs])"
    by (metis (no_types, lifting) comp_apply filter_cong filter_map map_nth)
  then show ?thesis by (simp add: cnt_def)
qed

section \<open>Reachable states\<close>

text \<open>The states a step relation with labels reaches, and the contract an inductive invariant has to keep.\<close>

inductive reachable :: "('s \<Rightarrow> bool) \<Rightarrow> ('s \<Rightarrow> 'a \<Rightarrow> 's \<Rightarrow> bool) \<Rightarrow> 's \<Rightarrow> bool"
  for init :: "'s \<Rightarrow> bool" and step :: "'s \<Rightarrow> 'a \<Rightarrow> 's \<Rightarrow> bool" where
  start: "init s \<Longrightarrow> reachable init step s"
| extend: "reachable init step s \<Longrightarrow> step s a t \<Longrightarrow> reachable init step t"

locale inductive_invariant =
  fixes init :: "'s \<Rightarrow> bool" and step :: "'s \<Rightarrow> 'a \<Rightarrow> 's \<Rightarrow> bool" and inv :: "'s \<Rightarrow> bool"
  assumes init_inv: "init s \<Longrightarrow> inv s"
    and step_inv: "inv s \<Longrightarrow> step s a t \<Longrightarrow> inv t"
begin

lemma reachable_inv: "reachable init step s \<Longrightarrow> inv s"
  by (induction rule: reachable.induct) (auto intro: init_inv step_inv)

end

end
