(* ===== verification/Clib.thy ===== *)
theory Clib
  imports Prelude
begin

text \<open>
  The parts of the C library the parsers and printers call: character classes of the "C"
  locale, decimal printing, \<open>strtol\<close>/\<open>strtoul\<close>/\<open>strtoull\<close> in base 10 with their
  end pointer and \<open>ERANGE\<close>, and the rounding of \<open>printf("%.1f")\<close> on a size in bytes.
  \<open>long\<close> and \<open>unsigned long\<close> have 64 bits, as on every platform the Makefile builds for.
\<close>

section \<open>Character classes\<close>

definition c_isdigit :: "char \<Rightarrow> bool" where
  "c_isdigit c \<longleftrightarrow> 48 \<le> (of_char c :: nat) \<and> (of_char c :: nat) \<le> 57"

definition c_isspace :: "char \<Rightarrow> bool" where
  "c_isspace c \<longleftrightarrow> (of_char c :: nat) = 32 \<or> (9 \<le> (of_char c :: nat) \<and> (of_char c :: nat) \<le> 13)"

definition c_isxdigit :: "char \<Rightarrow> bool" where
  "c_isxdigit c \<longleftrightarrow> c_isdigit c
     \<or> (97 \<le> (of_char c :: nat) \<and> (of_char c :: nat) \<le> 102)
     \<or> (65 \<le> (of_char c :: nat) \<and> (of_char c :: nat) \<le> 70)"

definition c_tolower :: "char \<Rightarrow> char" where
  "c_tolower c = (if 65 \<le> (of_char c :: nat) \<and> (of_char c :: nat) \<le> 90
                  then char_of ((of_char c :: nat) + 32) else c)"

section \<open>Decimal numerals\<close>

definition digit_char :: "nat \<Rightarrow> char" where
  "digit_char d = char_of (48 + d)"

definition digit_val :: "char \<Rightarrow> nat" where
  "digit_val c = of_char c - 48"

fun show_nat :: "nat \<Rightarrow> string" where
  "show_nat n = (if n < 10 then [digit_char n] else show_nat (n div 10) @ [digit_char (n mod 10)])"

declare show_nat.simps [simp del]

definition show_int :: "int \<Rightarrow> string" where
  "show_int i = (if i < 0 then CHR ''-'' # show_nat (nat (- i)) else show_nat (nat i))"

fun dec_val :: "nat \<Rightarrow> string \<Rightarrow> nat" where
  "dec_val acc [] = acc"
| "dec_val acc (c # s) = dec_val (acc * 10 + digit_val c) s"

lemma of_char_digit_char [simp]: "d < 10 \<Longrightarrow> (of_char (digit_char d) :: nat) = 48 + d"
  by (simp add: digit_char_def)

lemma digit_char_digit [simp]: "d < 10 \<Longrightarrow> c_isdigit (digit_char d)"
  by (simp add: c_isdigit_def)

lemma digit_val_char [simp]: "d < 10 \<Longrightarrow> digit_val (digit_char d) = d"
  by (simp add: digit_val_def)

lemma isdigit_not_space: "c_isdigit c \<Longrightarrow> \<not> c_isspace c"
  by (auto simp: c_isdigit_def c_isspace_def)

lemma isdigit_neq:
  "c_isdigit c \<Longrightarrow> c \<noteq> CHR ''-'' \<and> c \<noteq> CHR ''+'' \<and> c \<noteq> CHR '','' \<and> c \<noteq> CHR '' ''"
  by (auto simp: c_isdigit_def)

lemma dec_val_append: "dec_val a (s @ t) = dec_val (dec_val a s) t"
  by (induction s arbitrary: a) simp_all

lemma dec_val_show_nat [simp]: "dec_val 0 (show_nat n) = n"
proof (induction n rule: show_nat.induct)
  case (1 n)
  then show ?case
    by (cases "n < 10") (simp_all add: show_nat.simps [of n] dec_val_append)
qed

lemma show_nat_digits: "list_all c_isdigit (show_nat n)"
proof (induction n rule: show_nat.induct)
  case (1 n)
  then show ?case by (cases "n < 10") (simp_all add: show_nat.simps [of n])
qed

lemma show_nat_not_Nil [simp]: "show_nat n \<noteq> []"
  by (subst show_nat.simps) simp

lemma show_nat_inj: "show_nat m = show_nat n \<longleftrightarrow> m = n"
  by (metis dec_val_show_nat)

lemma dec_val_bound: "dec_val a s \<ge> a * 10 ^ length s"
proof (induction s arbitrary: a)
  case Nil
  show ?case by simp
next
  case (Cons c s)
  have "a * 10 ^ length (c # s) \<le> (a * 10 + digit_val c) * 10 ^ length s" by (simp add: algebra_simps)
  also have "\<dots> \<le> dec_val (a * 10 + digit_val c) s" by (rule Cons)
  finally show ?case by simp
qed

section \<open>strtol and its unsigned siblings\<close>

text \<open>
  The subject sequence: white space, an optional sign, digits. \<open>None\<close> is "no conversion":
  the C functions return 0 and set the end pointer to the start.
\<close>

definition strto_scan :: "string \<Rightarrow> (bool \<times> nat \<times> string) option" where
  "strto_scan s =
     (let s1 = dropWhile c_isspace s;
          neg = (case s1 of c # _ \<Rightarrow> c = CHR ''-'' | [] \<Rightarrow> False);
          s2 = (case s1 of c # t \<Rightarrow> (if c = CHR ''-'' \<or> c = CHR ''+'' then t else s1) | [] \<Rightarrow> []);
          ds = takeWhile c_isdigit s2
      in if ds = [] then None else Some (neg, dec_val 0 ds, dropWhile c_isdigit s2))"

text \<open>The value, whether \<open>errno\<close> was set to \<open>ERANGE\<close>, and the end pointer (the rest).\<close>

definition c_strtol :: "string \<Rightarrow> int \<times> bool \<times> string" where
  "c_strtol s =
     (case strto_scan s of
        None \<Rightarrow> (0, False, s)
      | Some (neg, v, rest) \<Rightarrow>
          if neg then (if v \<le> INT64_MAX + 1 then (- int v, False, rest)
                       else (- int INT64_MAX - 1, True, rest))
          else (if v \<le> INT64_MAX then (int v, False, rest) else (int INT64_MAX, True, rest)))"

definition c_strtoull :: "string \<Rightarrow> nat \<times> bool \<times> string" where
  "c_strtoull s =
     (case strto_scan s of
        None \<Rightarrow> (0, False, s)
      | Some (neg, v, rest) \<Rightarrow>
          if v > UINT64_MAX then (UINT64_MAX, True, rest)
          else if neg then ((2 ^ 64 - v) mod 2 ^ 64, False, rest)
          else (v, False, rest))"

abbreviation c_strtoul :: "string \<Rightarrow> nat \<times> bool \<times> string" where
  "c_strtoul \<equiv> c_strtoull"

lemma takeWhile_digits_append:
  "list_all c_isdigit ds \<Longrightarrow> (rest = [] \<or> \<not> c_isdigit (hd rest)) \<Longrightarrow>
   takeWhile c_isdigit (ds @ rest) = ds \<and> dropWhile c_isdigit (ds @ rest) = rest"
proof (induction ds)
  case Nil
  then show ?case by (cases rest) auto
qed auto

lemma strto_scan_digits:
  assumes "ds \<noteq> []" and "list_all c_isdigit ds" and "rest = [] \<or> \<not> c_isdigit (hd rest)"
  shows "strto_scan (ds @ rest) = Some (False, dec_val 0 ds, rest)"
proof -
  obtain d u where ds: "ds = d # u" using assms(1) by (cases ds) auto
  have "dropWhile c_isspace (ds @ rest) = ds @ rest"
    using assms(2) ds isdigit_not_space by simp
  moreover have "d \<noteq> CHR ''-'' \<and> d \<noteq> CHR ''+''"
    using assms(2) ds isdigit_neq by simp
  ultimately show ?thesis
    using ds takeWhile_digits_append [OF assms(2,3)] by (simp add: strto_scan_def Let_def)
qed

lemmas strto_scan_show_nat = strto_scan_digits [OF show_nat_not_Nil show_nat_digits]

section \<open>printf of a byte count in GiB\<close>

definition round_half_even :: "nat \<Rightarrow> nat \<Rightarrow> nat" where
  "round_half_even n d =
     (let q = n div d; r = n mod d
      in if 2 * r < d then q else if 2 * r > d then Suc q else if even q then q else Suc q)"

fun bit_length :: "nat \<Rightarrow> nat" where
  "bit_length n = (if n = 0 then 0 else Suc (bit_length (n div 2)))"

declare bit_length.simps [simp del]

text \<open>\<open>(double)x\<close> for an integer \<open>x\<close>: the nearest multiple of the 53-bit ulp, ties to even.\<close>

definition double_of_nat :: "nat \<Rightarrow> nat" where
  "double_of_nat x =
     (let e = bit_length x - 53 in 2 ^ e * round_half_even x (2 ^ e))"

text \<open>\<open>%.1f\<close> of \<open>n / d\<close>, \<open>%.0f\<close> of \<open>n / d\<close>.\<close>

definition fmt_fixed1 :: "nat \<Rightarrow> nat \<Rightarrow> string" where
  "fmt_fixed1 n d =
     (let t = round_half_even (10 * n) d in show_nat (t div 10) @ ''.'' @ [digit_char (t mod 10)])"

definition fmt_fixed0 :: "nat \<Rightarrow> nat \<Rightarrow> string" where
  "fmt_fixed0 n d = show_nat (round_half_even n d)"

lemma round_half_even_mult [simp]: "0 < d \<Longrightarrow> round_half_even (q * d) d = q"
  by (simp add: round_half_even_def)

section \<open>strtod\<close>

text \<open>
  How far \<open>strtod\<close> reads in the "C" locale: white space, a sign, then \<open>inf\<close>/\<open>infinity\<close>,
  \<open>nan\<close> with an optional parenthesised tag, a hexadecimal or a decimal floating number. The value is
  not modelled; \<open>None\<close> is "no conversion".
\<close>

definition prefix_ci :: "string \<Rightarrow> string \<Rightarrow> bool" where
  "prefix_ci lit s \<longleftrightarrow> prefix lit (map c_tolower s)"

definition c_isnanchar :: "char \<Rightarrow> bool" where
  "c_isnanchar c \<longleftrightarrow> c_isdigit c \<or> (97 \<le> (of_char (c_tolower c) :: nat) \<and> (of_char (c_tolower c) :: nat) \<le> 122) \<or> c = CHR ''_''"

text \<open>Mantissa digits with at most one point: the rest, and whether a digit was read.\<close>

definition strto_mantissa :: "(char \<Rightarrow> bool) \<Rightarrow> string \<Rightarrow> bool \<times> string" where
  "strto_mantissa dig s =
     (let a = takeWhile dig s; r = dropWhile dig s
      in case r of
           c # t \<Rightarrow> if c = CHR ''.'' then (a \<noteq> [] \<or> takeWhile dig t \<noteq> [], dropWhile dig t) else (a \<noteq> [], r)
         | [] \<Rightarrow> (a \<noteq> [], []))"

definition strto_exponent :: "char \<Rightarrow> string \<Rightarrow> string" where
  "strto_exponent e s =
     (case s of
        c # t \<Rightarrow>
          if c_tolower c = e
          then let u = (case t of d # v \<Rightarrow> if d = CHR ''-'' \<or> d = CHR ''+'' then v else t | [] \<Rightarrow> [])
               in if takeWhile c_isdigit u = [] then s else dropWhile c_isdigit u
          else s
      | [] \<Rightarrow> [])"

definition strtod_end :: "string \<Rightarrow> string option" where
  "strtod_end s =
     (let s1 = dropWhile c_isspace s;
          s2 = (case s1 of c # t \<Rightarrow> (if c = CHR ''-'' \<or> c = CHR ''+'' then t else s1) | [] \<Rightarrow> [])
      in if prefix_ci ''infinity'' s2 then Some (drop 8 s2)
         else if prefix_ci ''inf'' s2 then Some (drop 3 s2)
         else if prefix_ci ''nan'' s2
         then (let r = drop 3 s2
               in if r \<noteq> [] \<and> hd r = CHR ''('' \<and> prefix '')'' (dropWhile c_isnanchar (tl r))
                  then Some (tl (dropWhile c_isnanchar (tl r))) else Some r)
         else if prefix_ci ''0x'' s2 \<and> fst (strto_mantissa c_isxdigit (drop 2 s2))
         then Some (strto_exponent (CHR ''p'') (snd (strto_mantissa c_isxdigit (drop 2 s2))))
         else (case strto_mantissa c_isdigit s2 of
                 (True, r) \<Rightarrow> Some (strto_exponent (CHR ''e'') r)
               | (False, _) \<Rightarrow> None))"

lemma length_dropWhile_less: "takeWhile P s \<noteq> [] \<Longrightarrow> length (dropWhile P s) < length s"
  by (metis append_eq_append_conv2 append_self_conv2 length_append length_greater_0_conv less_add_same_cancel2 takeWhile_dropWhile_id)

lemma strto_mantissa_shorter: "strto_mantissa dig s = (True, r) \<Longrightarrow> length r < length s"
proof -
  assume a: "strto_mantissa dig s = (True, r)"
  have le: "length (dropWhile dig x) \<le> length x" for x by (rule length_dropWhile_le)
  show "length r < length s"
  proof (cases "dropWhile dig s")
    case Nil
    then show ?thesis using a length_dropWhile_less [of dig s] unfolding strto_mantissa_def Let_def Nil by auto
  next
    case (Cons c t)
    then have "length t < length s" using le [of s] by simp
    then show ?thesis
    proof (cases "c = CHR ''.''")
      case True
      then have "r = dropWhile dig t" using a unfolding strto_mantissa_def Let_def Cons by simp
      then show ?thesis using le [of t] \<open>length t < length s\<close> by simp
    next
      case False
      then have "r = dropWhile dig s" "takeWhile dig s \<noteq> []" using a unfolding strto_mantissa_def Let_def Cons by simp_all
      then show ?thesis using length_dropWhile_less by metis
    qed
  qed
qed

lemma strto_exponent_le: "length (strto_exponent e s) \<le> length s"
proof -
  have le: "length (dropWhile c_isdigit x) \<le> length x" for x by (rule length_dropWhile_le)
  show ?thesis
    using le by (auto simp: strto_exponent_def Let_def split: list.splits intro: le_SucI order_trans [OF le])
qed

lemma strtod_end_shorter:
  assumes "strtod_end s = Some r"
  shows "length r < length s"
proof -
  define s1 where "s1 = dropWhile c_isspace s"
  define s2 where "s2 = (case s1 of c # t \<Rightarrow> (if c = CHR ''-'' \<or> c = CHR ''+'' then t else s1) | [] \<Rightarrow> [])"
  have "length s1 \<le> length s" unfolding s1_def by (rule length_dropWhile_le)
  moreover have "length s2 \<le> length s1" by (auto simp: s2_def split: list.splits)
  ultimately have le: "length s2 \<le> length s" by simp
  have ci: "length lit \<le> length s2" if "prefix_ci lit s2" for lit
    using that prefix_length_le [of lit "map c_tolower s2"] by (simp add: prefix_ci_def)
  have "length r < length s2"
  proof (cases "prefix_ci ''infinity'' s2 \<or> prefix_ci ''inf'' s2")
    case True
    then have "s2 \<noteq> []" using ci by force
    then show ?thesis using assms True by (auto simp: strtod_end_def Let_def s1_def [symmetric] s2_def [symmetric] split: if_splits)
  next
    case noinf: False
    show ?thesis
    proof (cases "prefix_ci ''nan'' s2")
      case True
      have "length (tl (dropWhile c_isnanchar (tl (drop 3 s2)))) \<le> length (drop 3 s2)"
        using length_dropWhile_le [of c_isnanchar "tl (drop 3 s2)"] by simp
      then show ?thesis
        using assms ci [OF True] True noinf
        by (auto simp: strtod_end_def Let_def s1_def [symmetric] s2_def [symmetric] split: if_splits)
    next
      case False
      show ?thesis
      proof (cases "prefix_ci ''0x'' s2 \<and> fst (strto_mantissa c_isxdigit (drop 2 s2))")
        case True
        then obtain m where "strto_mantissa c_isxdigit (drop 2 s2) = (True, m)" by (metis (full_types) prod.collapse)
        then show ?thesis
          using assms True noinf False strto_mantissa_shorter [of c_isxdigit "drop 2 s2" m] strto_exponent_le [of "CHR ''p''" m]
          by (auto simp: strtod_end_def Let_def s1_def [symmetric] s2_def [symmetric])
      next
        case F: False
        then have "\<exists>m. strto_mantissa c_isdigit s2 = (True, m) \<and> r = strto_exponent (CHR ''e'') m"
          using assms noinf False
          by (auto simp: strtod_end_def Let_def s1_def [symmetric] s2_def [symmetric] split: prod.splits bool.splits)
        then obtain m where "strto_mantissa c_isdigit s2 = (True, m)" "r = strto_exponent (CHR ''e'') m" by blast
        then show ?thesis using strto_mantissa_shorter [of c_isdigit s2 m] strto_exponent_le [of "CHR ''e''" m] by simp
      qed
    qed
  qed
  then show ?thesis using le by simp
qed

end
