(* ===== verification/Kv_Codec.thy ===== *)
theory Kv_Codec
  imports Clib
begin

text \<open>
  The checkpoint file header (\<open>ds4_kvstore.c\<close>): little-endian integers, the fixed 48-byte
  header with the 4-byte text length that follows it, the file names, and the reason codes. An
  integer codec is an interface: a writer, a reader and a width with the law that reading gives
  back what was written. The client lemmas are proved once from it and used at both widths.
\<close>

section \<open>Little-endian integers\<close>

definition ds4_kvstore_le_put32 :: "u32 \<Rightarrow> bytes" where
  "ds4_kvstore_le_put32 v =
     [ucast v, ucast (drop_bit 8 v), ucast (drop_bit 16 v), ucast (drop_bit 24 v)]"

definition kv_le_put64 :: "u64 \<Rightarrow> bytes" where
  "kv_le_put64 v = map (\<lambda>i. ucast (drop_bit (8 * i) v)) [0..<8]"

definition ds4_kvstore_le_get32 :: "bytes \<Rightarrow> u32" where
  "ds4_kvstore_le_get32 p =
     ucast (p ! 0) OR push_bit 8 (ucast (p ! 1)) OR push_bit 16 (ucast (p ! 2)) OR push_bit 24 (ucast (p ! 3))"

text \<open>The loop from \<open>p[7]\<close> down to \<open>p[0]\<close>: \<open>v = (v << 8) | p[i]\<close>.\<close>

definition kv_le_get64 :: "bytes \<Rightarrow> u64" where
  "kv_le_get64 p = fold (\<lambda>i v. push_bit 8 v OR ucast (p ! i)) [7, 6, 5, 4, 3, 2, 1, 0] 0"

section \<open>Reason codes, options, names\<close>

definition DS4_KVSTORE_FIXED_HEADER :: nat where "DS4_KVSTORE_FIXED_HEADER = 48"

definition DS4_KVSTORE_EXT_TOOL_MAP :: u8 where "DS4_KVSTORE_EXT_TOOL_MAP = 1"
definition DS4_KVSTORE_EXT_RESPONSES_VISIBLE :: u8 where "DS4_KVSTORE_EXT_RESPONSES_VISIBLE = 2"
definition DS4_KVSTORE_EXT_THINKING_VISIBLE :: u8 where "DS4_KVSTORE_EXT_THINKING_VISIBLE = 4"
definition DS4_KVSTORE_EXT_SESSION_TITLE :: u8 where "DS4_KVSTORE_EXT_SESSION_TITLE = 8"

definition DS4_KVSTORE_REASON_UNKNOWN :: u8 where "DS4_KVSTORE_REASON_UNKNOWN = 0"
definition DS4_KVSTORE_REASON_COLD :: u8 where "DS4_KVSTORE_REASON_COLD = 1"
definition DS4_KVSTORE_REASON_CONTINUED :: u8 where "DS4_KVSTORE_REASON_CONTINUED = 2"
definition DS4_KVSTORE_REASON_EVICT :: u8 where "DS4_KVSTORE_REASON_EVICT = 3"
definition DS4_KVSTORE_REASON_SHUTDOWN :: u8 where "DS4_KVSTORE_REASON_SHUTDOWN = 4"
definition DS4_KVSTORE_REASON_AGENT_SYSTEM :: u8 where "DS4_KVSTORE_REASON_AGENT_SYSTEM = 5"
definition DS4_KVSTORE_REASON_AGENT_SESSION :: u8 where "DS4_KVSTORE_REASON_AGENT_SESSION = 6"

lemmas kv_reason_defs = DS4_KVSTORE_REASON_UNKNOWN_def DS4_KVSTORE_REASON_COLD_def
  DS4_KVSTORE_REASON_CONTINUED_def DS4_KVSTORE_REASON_EVICT_def DS4_KVSTORE_REASON_SHUTDOWN_def
  DS4_KVSTORE_REASON_AGENT_SYSTEM_def DS4_KVSTORE_REASON_AGENT_SESSION_def

definition ds4_kvstore_reason_code :: "string option \<Rightarrow> u8" where
  "ds4_kvstore_reason_code reason =
     (case reason of
        None \<Rightarrow> DS4_KVSTORE_REASON_UNKNOWN
      | Some r \<Rightarrow>
          if r = ''cold'' then DS4_KVSTORE_REASON_COLD
          else if r = ''continued'' then DS4_KVSTORE_REASON_CONTINUED
          else if r = ''evict'' then DS4_KVSTORE_REASON_EVICT
          else if r = ''shutdown'' then DS4_KVSTORE_REASON_SHUTDOWN
          else if r = ''agent-system'' then DS4_KVSTORE_REASON_AGENT_SYSTEM
          else if r = ''agent-session'' then DS4_KVSTORE_REASON_AGENT_SESSION
          else DS4_KVSTORE_REASON_UNKNOWN)"

definition ds4_kvstore_key_kind :: "u8 \<Rightarrow> string" where
  "ds4_kvstore_key_kind ext_flags =
     (if ext_flags AND DS4_KVSTORE_EXT_RESPONSES_VISIBLE \<noteq> 0 then ''responses-visible''
      else if ext_flags AND DS4_KVSTORE_EXT_THINKING_VISIBLE \<noteq> 0 then ''thinking-visible''
      else ''token-text'')"

text \<open>The hash spelled by a file name, lower case.\<close>

definition ds4_kvstore_sha_hex_name :: "string \<Rightarrow> string option" where
  "ds4_kvstore_sha_hex_name name =
     (if length name \<noteq> 43 \<or> drop 40 name \<noteq> ''.kv'' then None
      else if list_all c_isxdigit (take 40 name) then Some (map c_tolower (take 40 name))
      else None)"

definition ds4_kvstore_path_join :: "string \<Rightarrow> string \<Rightarrow> string" where
  "ds4_kvstore_path_join dir name =
     dir @ (if dir = [] \<or> last dir \<noteq> CHR ''/'' then ''/'' else []) @ name"

definition ds4_kvstore_path_for_sha :: "string \<Rightarrow> string \<Rightarrow> string" where
  "ds4_kvstore_path_for_sha dir sha = ds4_kvstore_path_join dir (take 40 sha @ ''.kv'')"

section \<open>The entry and its header\<close>

record ds4_kvstore_entry =
  sha :: string
  path :: string
  quant_bits :: u8
  model_id :: u8
  reason :: u8
  tokens :: u32
  hits :: u32
  ctx_size :: u32
  ext_flags :: u8
  created_at :: u64
  last_used :: u64
  payload_bytes :: u64
  text_bytes :: u64
  file_size :: u64

definition zero_entry :: ds4_kvstore_entry where
  "zero_entry = \<lparr>sha = [], path = [], quant_bits = 0, model_id = 0, reason = 0, tokens = 0, hits = 0,
     ctx_size = 0, ext_flags = 0, created_at = 0, last_used = 0, payload_bytes = 0, text_bytes = 0,
     file_size = 0\<rparr>"

text \<open>\<open>memset\<close> to zero, then the fields at their offsets.\<close>

definition ds4_kvstore_fill_header ::
  "u8 \<Rightarrow> u8 \<Rightarrow> u8 \<Rightarrow> u8 \<Rightarrow> u32 \<Rightarrow> u32 \<Rightarrow> u32 \<Rightarrow> u64 \<Rightarrow> u64 \<Rightarrow> u64 \<Rightarrow> bytes" where
  "ds4_kvstore_fill_header model quant why ext toks hit ctx created used payload =
     [0x4B, 0x56, 0x43, 1, quant, why, ext, model]
     @ ds4_kvstore_le_put32 toks @ ds4_kvstore_le_put32 hit @ ds4_kvstore_le_put32 ctx
     @ [2, 0, 0, 0]
     @ kv_le_put64 created @ kv_le_put64 used @ kv_le_put64 payload"

text \<open>
  Reading from a stream: the entry, the text length and the unread bytes. A header that is
  rejected is \<open>None\<close>; every caller then ignores the fields already filled in.
\<close>

definition ds4_kvstore_read_header :: "bytes \<Rightarrow> (ds4_kvstore_entry \<times> u32 \<times> bytes) option" where
  "ds4_kvstore_read_header fp =
     (let h = take 48 fp; fp1 = drop 48 fp
      in if length h \<noteq> 48 then None
         else if h ! 0 \<noteq> 0x4B \<or> h ! 1 \<noteq> 0x56 \<or> h ! 2 \<noteq> 0x43 \<or> h ! 3 \<noteq> 1 then None
         else if h ! 20 \<noteq> 2 then None
         else
           let tb = take 4 fp1;
               e = zero_entry\<lparr>
                     quant_bits := h ! 4,
                     reason := (if h ! 5 \<le> DS4_KVSTORE_REASON_AGENT_SESSION then h ! 5
                                else DS4_KVSTORE_REASON_UNKNOWN),
                     ext_flags := h ! 6,
                     model_id := h ! 7,
                     tokens := ds4_kvstore_le_get32 (drop 8 h),
                     hits := ds4_kvstore_le_get32 (drop 12 h),
                     ctx_size := ds4_kvstore_le_get32 (drop 16 h),
                     created_at := kv_le_get64 (drop 24 h),
                     last_used := kv_le_get64 (drop 32 h),
                     payload_bytes := kv_le_get64 (drop 40 h),
                     text_bytes := ucast (ds4_kvstore_le_get32 tb)\<rparr>
           in if length tb \<noteq> 4 then None
              else if tokens e \<noteq> 0 \<and> (quant_bits e = 2 \<or> quant_bits e = 4)
              then Some (e, ds4_kvstore_le_get32 tb, drop 4 fp1)
              else None)"

section \<open>Text as bytes\<close>

definition str_bytes :: "string \<Rightarrow> bytes" where "str_bytes s = map (\<lambda>c. of_nat (of_char c)) s"

definition bytes_str :: "bytes \<Rightarrow> string" where "bytes_str b = map (\<lambda>x. char_of (unat x)) b"

lemma str_bytes_length [simp]: "length (str_bytes s) = length s"
  by (simp add: str_bytes_def)

lemma bytes_str_bytes [simp]: "bytes_str (str_bytes s) = s"
proof -
  have "char_of (unat (of_nat (of_char c) :: u8)) = c" for c :: char
  proof -
    have "(of_char c :: nat) < 256" by (rule nat_of_char_less_256)
    then have "unat (of_nat (of_char c) :: u8) = of_char c" by (simp add: unat_of_nat)
    then show ?thesis by simp
  qed
  then show ?thesis by (simp add: bytes_str_def str_bytes_def comp_def)
qed

section \<open>Codecs as an interface\<close>

locale byte_codec =
  fixes put :: "'v \<Rightarrow> bytes" and get :: "bytes \<Rightarrow> 'v" and width :: nat
  assumes put_width: "length (put v) = width"
    and get_put: "get (put v @ rest) = v"
begin

lemma put_inj: "put v = put w \<longleftrightarrow> v = w"
  using get_put by metis

lemma field_at: "length before = off \<Longrightarrow> get (drop off (before @ put v @ after)) = v"
  by (simp add: get_put)

lemma field_in: "get (drop (length before) ((before @ put v @ after) @ rest)) = v"
  by (simp add: get_put)

lemma self_delimiting: "put v @ s = put w @ t \<longleftrightarrow> v = w \<and> s = t"
  using get_put [of v s] get_put [of w t] by (metis same_append_eq)

end

text \<open>Putting one byte back under the bits above it.\<close>

lemma byte_step:
  fixes v :: "'a :: len word"
  assumes "8 \<le> LENGTH('a)"
  shows "push_bit 8 (drop_bit (n + 8) v) OR ucast (ucast (drop_bit n v) :: u8) = drop_bit n v"
proof (rule bit_word_eqI)
  fix i assume "i < LENGTH('a)"
  then show "bit (push_bit 8 (drop_bit (n + 8) v) OR ucast (ucast (drop_bit n v) :: u8)) i = bit (drop_bit n v) i"
    using assms by (cases "i < 8") (auto simp: bit_simps add.commute add.left_commute)
qed

lemma byte_step_top:
  fixes v :: "'a :: len word"
  assumes "LENGTH('a) = n + 8"
  shows "ucast (ucast (drop_bit n v) :: u8) = drop_bit n v"
proof (rule bit_word_eqI)
  fix i assume "i < LENGTH('a)"
  then show "bit (ucast (ucast (drop_bit n v) :: u8) :: 'a word) i = bit (drop_bit n v) i"
    using assms by (auto simp: bit_simps dest: bit_imp_le_length)
qed

lemma le_get32_put32: "ds4_kvstore_le_get32 (ds4_kvstore_le_put32 v @ rest) = v"
proof -
  let ?b = "\<lambda>n. ucast (ucast (drop_bit n v) :: u8) :: u32"
  have "ds4_kvstore_le_get32 (ds4_kvstore_le_put32 v @ rest)
      = ?b 0 OR push_bit 8 (?b 8) OR push_bit 16 (?b 16) OR push_bit 24 (?b 24)"
    by (simp add: ds4_kvstore_le_get32_def ds4_kvstore_le_put32_def)
  also have "\<dots> = push_bit 8 (push_bit 8 (push_bit 8 (?b 24) OR ?b 16) OR ?b 8) OR ?b 0"
    by (simp add: push_bit_or push_bit_push_bit ac_simps del: push_bit_numeral)
  also have "\<dots> = v"
    using byte_step_top [of 24 v] byte_step [of 16 v] byte_step [of 8 v] byte_step [of 0 v] by simp
  finally show ?thesis .
qed

lemma le_get64_put64: "kv_le_get64 (kv_le_put64 v @ rest) = v"
proof -
  let ?b = "\<lambda>n. ucast (ucast (drop_bit n v) :: u8) :: u64"
  have nth: "(kv_le_put64 v @ rest) ! i = ucast (drop_bit (8 * i) v)" if "i < 8" for i
    using that by (simp add: kv_le_put64_def nth_append)
  have "kv_le_get64 (kv_le_put64 v @ rest)
      = push_bit 8 (push_bit 8 (push_bit 8 (push_bit 8 (push_bit 8 (push_bit 8 (push_bit 8
          (?b 56) OR ?b 48) OR ?b 40) OR ?b 32) OR ?b 24) OR ?b 16) OR ?b 8) OR ?b 0"
    by (simp add: kv_le_get64_def nth del: push_bit_numeral)
  also have "\<dots> = v"
    using byte_step_top [of 56 v] byte_step [of 48 v] byte_step [of 40 v] byte_step [of 32 v]
      byte_step [of 24 v] byte_step [of 16 v] byte_step [of 8 v] byte_step [of 0 v] by simp
  finally show ?thesis .
qed

interpretation le32: byte_codec ds4_kvstore_le_put32 ds4_kvstore_le_get32 4
  by unfold_locales (simp add: ds4_kvstore_le_put32_def, rule le_get32_put32)

interpretation le64: byte_codec kv_le_put64 kv_le_get64 8
  by unfold_locales (simp add: kv_le_put64_def, rule le_get64_put64)

lemmas kv_field_simps = le32.put_width le64.put_width le32.get_put le64.get_put

section \<open>Header round trips\<close>

lemma fill_header_length [simp]:
  "length (ds4_kvstore_fill_header model quant why ext toks hit ctx created used payload) = 48"
  by (simp add: ds4_kvstore_fill_header_def kv_field_simps)

definition known_reason :: "u8 \<Rightarrow> u8" where
  "known_reason why = (if why \<le> DS4_KVSTORE_REASON_AGENT_SESSION then why else DS4_KVSTORE_REASON_UNKNOWN)"

definition header_entry :: "u8 \<Rightarrow> u8 \<Rightarrow> u8 \<Rightarrow> u8 \<Rightarrow> u32 \<Rightarrow> u32 \<Rightarrow> u32 \<Rightarrow> u64 \<Rightarrow> u64 \<Rightarrow> u64 \<Rightarrow> u32 \<Rightarrow> ds4_kvstore_entry" where
  "header_entry model quant why ext toks hit ctx created used payload tb =
     \<lparr>sha = [], path = [], quant_bits = quant, model_id = model, reason = known_reason why, tokens = toks,
      hits = hit, ctx_size = ctx, ext_flags = ext, created_at = created, last_used = used,
      payload_bytes = payload, text_bytes = ucast tb, file_size = 0\<rparr>"

lemma read_fill_header:
  assumes "toks \<noteq> 0" and "quant = 2 \<or> quant = 4"
  shows "ds4_kvstore_read_header
      (ds4_kvstore_fill_header model quant why ext toks hit ctx created used payload @ ds4_kvstore_le_put32 tb @ rest)
    = Some (header_entry model quant why ext toks hit ctx created used payload tb, tb, rest)"
proof -
  let ?h = "ds4_kvstore_fill_header model quant why ext toks hit ctx created used payload"
  have "?h ! 0 = 0x4B" "?h ! 1 = 0x56" "?h ! 2 = 0x43" "?h ! 3 = 1" "?h ! 20 = 2"
    "?h ! 4 = quant" "?h ! 5 = why" "?h ! 6 = ext" "?h ! 7 = model"
    by (simp_all add: ds4_kvstore_fill_header_def nth_append kv_field_simps)
  moreover have "ds4_kvstore_le_get32 (drop 8 ?h) = toks" "ds4_kvstore_le_get32 (drop 12 ?h) = hit"
    "ds4_kvstore_le_get32 (drop 16 ?h) = ctx"
    "kv_le_get64 (drop 24 ?h) = created" "kv_le_get64 (drop 32 ?h) = used"
    "kv_le_get64 (drop 40 ?h) = payload"
    using le64.get_put [of payload "[]"]
    by (simp_all add: ds4_kvstore_fill_header_def kv_field_simps)
  moreover have "ds4_kvstore_le_get32 (ds4_kvstore_le_put32 tb) = tb" using le32.get_put [of tb "[]"] by simp
  ultimately show ?thesis
    using assms
    by (simp add: ds4_kvstore_read_header_def Let_def kv_field_simps zero_entry_def header_entry_def known_reason_def)
qed

text \<open>
  A checkpoint header survives the file: every field written with the magic, the version and
  the payload ABI is read back unchanged, together with the text length that follows and exactly
  the bytes after it, for any non-zero token count and a routed quantisation of 2 or 4 bits (an
  unknown reason byte is read as \<open>UNKNOWN\<close>).
\<close>

lemma kv_header_roundtrip:
  assumes "toks \<noteq> 0" and "quant = 2 \<or> quant = 4"
  shows "ds4_kvstore_read_header
      (ds4_kvstore_fill_header model quant why ext toks hit ctx created used payload @ ds4_kvstore_le_put32 tb @ rest)
    = Some (header_entry model quant why ext toks hit ctx created used payload tb, tb, rest)"
  using assms by (rule read_fill_header)

text \<open>
  A header is accepted only with the magic, version and ABI bytes, a non-zero token count and a
  2- or 4-bit quantisation, from at least 52 bytes; the reason read is a known code, and the rest of
  the stream starts at byte 52.
\<close>

lemma kv_header_accepts_only:
  assumes "ds4_kvstore_read_header fp = Some (e, tb, rest)"
  shows "52 \<le> length fp \<and> take 4 fp = [0x4B, 0x56, 0x43, 1] \<and> fp ! 20 = 2 \<and> tokens e \<noteq> 0
    \<and> quant_bits e \<in> {2, 4} \<and> reason e \<le> DS4_KVSTORE_REASON_AGENT_SESSION
    \<and> text_bytes e = ucast tb \<and> rest = drop 52 fp"
proof -
  have len: "52 \<le> length fp" using assms by (auto simp: ds4_kvstore_read_header_def Let_def split: if_splits)
  then have "take 4 fp = [fp ! 0, fp ! 1, fp ! 2, fp ! 3]"
    by (intro nth_equalityI) (auto simp: eval_nat_numeral less_Suc_eq)
  with assms len show ?thesis
    by (auto simp: ds4_kvstore_read_header_def Let_def zero_entry_def kv_reason_defs split: if_splits)
qed

section \<open>File names\<close>

lemma isxdigit_tolower: "c_isxdigit c \<Longrightarrow> c_isxdigit (c_tolower c)"
  by (auto simp: c_isxdigit_def c_isdigit_def c_tolower_def)

definition lower_hex :: "string \<Rightarrow> bool" where
  "lower_hex s \<longleftrightarrow> length s = 40 \<and> list_all (\<lambda>c. c_isxdigit c \<and> c_tolower c = c) s"

lemma sha_hex_name_own: "lower_hex s \<Longrightarrow> ds4_kvstore_sha_hex_name (s @ ''.kv'') = Some s"
  by (auto simp: lower_hex_def ds4_kvstore_sha_hex_name_def list_all_iff intro!: map_idI)

lemma c_tolower_idem: "c_tolower (c_tolower c) = c_tolower c"
  by (auto simp: c_tolower_def)

lemma sha_hex_name_lower: "ds4_kvstore_sha_hex_name name = Some s \<Longrightarrow> lower_hex s"
  by (auto simp: ds4_kvstore_sha_hex_name_def lower_hex_def list_all_iff c_tolower_idem isxdigit_tolower
      split: if_splits)

end
