(* ===== verification/Sha1.thy ===== *)
theory Sha1
  imports Kv_Codec
begin

text \<open>
  The SHA-1 of \<open>ds4_kvstore.c\<close>, which names checkpoint files. The context's block holds the
  \<open>used\<close> bytes that wait for a full block, so \<open>used\<close> is its length. The theory shows that
  feeding the input in any pieces gives the same digest, and that the digest is the chain of
  block transforms over the message padded as the standard says.
\<close>

section \<open>The code\<close>

record sha1_ctx =
  sha_h :: "u32 list"
  sha_bytes :: u64
  sha_block :: bytes

definition rol32 :: "u32 \<Rightarrow> nat \<Rightarrow> u32" where
  "rol32 v n = push_bit n v OR drop_bit (32 - n) v"

definition be32 :: "bytes \<Rightarrow> nat \<Rightarrow> u32" where
  "be32 block i = push_bit 24 (ucast (block ! (i * 4))) OR push_bit 16 (ucast (block ! (i * 4 + 1)))
     OR push_bit 8 (ucast (block ! (i * 4 + 2))) OR ucast (block ! (i * 4 + 3))"

definition sha1_schedule :: "bytes \<Rightarrow> u32 list" where
  "sha1_schedule block =
     fold (\<lambda>i w. w @ [rol32 (w ! (i - 3) XOR w ! (i - 8) XOR w ! (i - 14) XOR w ! (i - 16)) 1])
       [16..<80] (map (be32 block) [0..<16])"

definition sha1_round :: "u32 list \<Rightarrow> nat \<Rightarrow> u32 \<times> u32 \<times> u32 \<times> u32 \<times> u32 \<Rightarrow> u32 \<times> u32 \<times> u32 \<times> u32 \<times> u32" where
  "sha1_round w i s =
     (case s of (a, b, cc, d, e) \<Rightarrow>
        let f = (if i < 20 then (b AND cc) OR (NOT b AND d)
                 else if i < 40 then b XOR cc XOR d
                 else if i < 60 then (b AND cc) OR (b AND d) OR (cc AND d)
                 else b XOR cc XOR d);
            k = (if i < 20 then 0x5a827999 else if i < 40 then 0x6ed9eba1
                 else if i < 60 then 0x8f1bbcdc else 0xca62c1d6);
            tmp = rol32 a 5 + f + e + k + w ! i
        in (tmp, a, rol32 b 30, cc, d))"

definition sha1_transform :: "u32 list \<Rightarrow> bytes \<Rightarrow> u32 list" where
  "sha1_transform h block =
     (let w = sha1_schedule block
      in case fold (sha1_round w) [0..<80] (h ! 0, h ! 1, h ! 2, h ! 3, h ! 4) of
           (a, b, cc, d, e) \<Rightarrow> [h ! 0 + a, h ! 1 + b, h ! 2 + cc, h ! 3 + d, h ! 4 + e])"

definition sha1_init :: sha1_ctx where
  "sha1_init = \<lparr>sha_h = [0x67452301, 0xefcdab89, 0x98badcfe, 0x10325476, 0xc3d2e1f0],
     sha_bytes = 0, sha_block = []\<rparr>"

text \<open>
  The copy loop. A block of 64 bytes is transformed at once, so fewer than 64 bytes wait whenever
  the loop tests its condition; the test on the block only makes the recursion total.
\<close>

function sha1_update_loop :: "sha1_ctx \<Rightarrow> bytes \<Rightarrow> sha1_ctx" where
  "sha1_update_loop c p =
     (if p = [] \<or> length (sha_block c) \<ge> 64 then c
      else let n = min (64 - length (sha_block c)) (length p);
               blk = sha_block c @ take n p;
               c1 = (if length blk = 64
                     then c\<lparr>sha_h := sha1_transform (sha_h c) blk, sha_block := []\<rparr>
                     else c\<lparr>sha_block := blk\<rparr>)
           in sha1_update_loop c1 (drop n p))"
  by pat_completeness auto
termination
  by (relation "measure (\<lambda>(c, p). length p)") auto

declare sha1_update_loop.simps [simp del]

definition sha1_update :: "sha1_ctx \<Rightarrow> bytes \<Rightarrow> sha1_ctx" where
  "sha1_update c p = sha1_update_loop (c\<lparr>sha_bytes := sha_bytes c + of_nat (length p)\<rparr>) p"

lemma sha1_update_one:
  "length (sha_block c) < 64 \<Longrightarrow>
   sha1_update c [x] =
     (if length (sha_block c) = 63
      then c\<lparr>sha_h := sha1_transform (sha_h c) (sha_block c @ [x]), sha_bytes := sha_bytes c + 1, sha_block := []\<rparr>
      else c\<lparr>sha_bytes := sha_bytes c + 1, sha_block := sha_block c @ [x]\<rparr>)"
  by (simp add: sha1_update_def sha1_update_loop.simps [of _ "[_]"] sha1_update_loop.simps [of _ "[]"] Let_def)

text \<open>\<open>while (c->used != 56) sha1_update(c, &zero, 1)\<close>\<close>

function sha1_pad_zero :: "sha1_ctx \<Rightarrow> sha1_ctx" where
  "sha1_pad_zero c =
     (if length (sha_block c) = 56 \<or> length (sha_block c) \<ge> 64 then c
      else sha1_pad_zero (sha1_update c [0]))"
  by pat_completeness auto
termination
  by (relation "measure (\<lambda>c. if length (sha_block c) \<le> 56 then 56 - length (sha_block c) else 120 - length (sha_block c))")
    (auto simp: sha1_update_one)

declare sha1_pad_zero.simps [simp del]

definition be64_bytes :: "u64 \<Rightarrow> bytes" where
  "be64_bytes bits = map (\<lambda>i. ucast (drop_bit (8 * (7 - i)) bits)) [0..<8]"

definition be32_bytes :: "u32 \<Rightarrow> bytes" where
  "be32_bytes x = [ucast (drop_bit 24 x), ucast (drop_bit 16 x), ucast (drop_bit 8 x), ucast x]"

definition sha1_final :: "sha1_ctx \<Rightarrow> bytes" where
  "sha1_final c =
     (let bits = sha_bytes c * 8;
          c1 = sha1_pad_zero (sha1_update c [0x80]);
          c2 = sha1_update c1 (be64_bytes bits)
      in concat (map (\<lambda>i. be32_bytes (sha_h c2 ! i)) [0..<5]))"

definition hex_digit :: "nat \<Rightarrow> char" where
  "hex_digit d = ''0123456789abcdef'' ! d"

definition hex20 :: "bytes \<Rightarrow> string" where
  "hex20 inp = concat (map (\<lambda>i. [hex_digit (unat (drop_bit 4 (inp ! i))), hex_digit (unat (inp ! i AND 15))]) [0..<20])"

definition ds4_kvstore_sha1_bytes_hex :: "bytes \<Rightarrow> string" where
  "ds4_kvstore_sha1_bytes_hex p = hex20 (sha1_final (sha1_update sha1_init p))"

section \<open>Feeding the input in pieces\<close>

definition sha1_ok :: "sha1_ctx \<Rightarrow> bool" where
  "sha1_ok c \<longleftrightarrow> length (sha_block c) < 64"

lemma sha1_ok_init: "sha1_ok sha1_init"
  by (simp add: sha1_ok_def sha1_init_def)

text \<open>Byte by byte: what one byte does to the state.\<close>

definition sha1_absorb :: "u8 \<Rightarrow> sha1_ctx \<Rightarrow> sha1_ctx" where
  "sha1_absorb x c =
     (if length (sha_block c) = 63
      then c\<lparr>sha_h := sha1_transform (sha_h c) (sha_block c @ [x]), sha_block := []\<rparr>
      else c\<lparr>sha_block := sha_block c @ [x]\<rparr>)"

lemma sha1_absorb_ok: "sha1_ok c \<Longrightarrow> sha1_ok (sha1_absorb x c)"
  by (simp add: sha1_ok_def sha1_absorb_def)

lemma sha1_absorb_short:
  "length (sha_block c) + length p < 64 \<Longrightarrow> fold sha1_absorb p c = c\<lparr>sha_block := sha_block c @ p\<rparr>"
  by (induction p arbitrary: c) (simp_all add: sha1_absorb_def)

lemma sha1_absorb_full:
  assumes "length (sha_block c) + length p = 64" and "p \<noteq> []"
  shows "fold sha1_absorb p c = c\<lparr>sha_h := sha1_transform (sha_h c) (sha_block c @ p), sha_block := []\<rparr>"
proof -
  obtain q x where p: "p = q @ [x]" using assms(2) by (metis rev_exhaust)
  then show ?thesis using assms(1) sha1_absorb_short [of c q] by (simp add: sha1_absorb_def)
qed

lemma sha1_update_loop_absorb: "sha1_ok c \<Longrightarrow> sha1_update_loop c p = fold sha1_absorb p c"
proof (induction c p rule: sha1_update_loop.induct)
  case (1 c p)
  show ?case
  proof (cases "p = []")
    case True
    then show ?thesis by (simp add: sha1_update_loop.simps [of c])
  next
    case False
    define n where "n = min (64 - length (sha_block c)) (length p)"
    define blk where "blk = sha_block c @ take n p"
    define c1 where "c1 = (if length blk = 64 then c\<lparr>sha_h := sha1_transform (sha_h c) blk, sha_block := []\<rparr>
        else c\<lparr>sha_block := blk\<rparr>)"
    have go: "\<not> (p = [] \<or> length (sha_block c) \<ge> 64)" using False "1.prems" by (simp add: sha1_ok_def)
    have len: "length blk = length (sha_block c) + n" "length blk \<le> 64" "0 < n" "length (take n p) = n"
      using go by (auto simp: blk_def n_def min_def)
    have "take n p \<noteq> []" using len False by simp
    then have c1: "c1 = fold sha1_absorb (take n p) c"
      using sha1_absorb_full [of c "take n p"] sha1_absorb_short [of c "take n p"] len
      by (cases "length blk = 64") (auto simp: c1_def blk_def)
    have ok: "sha1_ok c1" using len by (auto simp: c1_def sha1_ok_def)
    have "sha1_update_loop c p = sha1_update_loop c1 (drop n p)"
      using go by (simp add: sha1_update_loop.simps [of c p] Let_def n_def blk_def c1_def)
    also have "\<dots> = fold sha1_absorb (drop n p) c1"
      using "1.IH" [OF go n_def blk_def c1_def ok] .
    also have "\<dots> = fold sha1_absorb p c"
      unfolding c1 by (metis append_take_drop_id comp_apply fold_append)
    finally show ?thesis .
  qed
qed

lemma sha1_absorb_bytes: "sha1_absorb x (c\<lparr>sha_bytes := b\<rparr>) = (sha1_absorb x c)\<lparr>sha_bytes := b\<rparr>"
  by (simp add: sha1_absorb_def)

lemma fold_absorb_bytes: "fold sha1_absorb p (c\<lparr>sha_bytes := b\<rparr>) = (fold sha1_absorb p c)\<lparr>sha_bytes := b\<rparr>"
  by (induction p arbitrary: c) (simp_all add: sha1_absorb_bytes)

lemma fold_absorb_ok: "sha1_ok c \<Longrightarrow> sha1_ok (fold sha1_absorb p c)"
  by (induction p arbitrary: c) (simp_all add: sha1_absorb_ok)

lemma fold_absorb_keeps_bytes [simp]: "sha_bytes (fold sha1_absorb p c) = sha_bytes c"
  by (induction p arbitrary: c) (simp_all add: sha1_absorb_def)

lemma sha1_update_absorb:
  "sha1_ok c \<Longrightarrow> sha1_update c p = (fold sha1_absorb p c)\<lparr>sha_bytes := sha_bytes c + of_nat (length p)\<rparr>"
  by (simp add: sha1_update_def sha1_update_loop_absorb sha1_ok_def fold_absorb_bytes)

lemma sha1_update_ok: "sha1_ok c \<Longrightarrow> sha1_ok (sha1_update c p)"
  using fold_absorb_ok [of c p] by (simp add: sha1_update_absorb sha1_ok_def)

lemma sha1_update_append:
  "sha1_ok c \<Longrightarrow> sha1_update (sha1_update c a) b = sha1_update c (a @ b)"
  using sha1_update_ok [of c a]
  by (simp add: sha1_update_absorb fold_absorb_bytes add.assoc)

text \<open>
  Streaming SHA-1: from any state the code reaches, feeding the input in any sequence of pieces,
  empty ones included, leaves the same state as feeding it at once.
\<close>

lemma sha1_update_pieces:
  assumes "sha1_ok c"
  shows "fold (\<lambda>p c. sha1_update c p) ps c = (if ps = [] then c else sha1_update c (concat ps))"
proof -
  have empty: "sha1_update d [] = d" for d
    by (simp add: sha1_update_def sha1_update_loop.simps [of _ "[]"])
  have "fold (\<lambda>p c. sha1_update c p) ps c = sha1_update c (concat ps)"
    using assms
  proof (induction ps arbitrary: c)
    case Nil
    show ?case by (simp add: empty)
  next
    case (Cons p ps)
    then show ?case using sha1_update_append [of c p "concat ps"] sha1_update_ok [of c p] by simp
  qed
  then show ?thesis using empty by auto
qed

section \<open>The standard's definition\<close>

text \<open>Whole blocks of 64 bytes, each transformed in turn.\<close>

function sha1_blocks :: "u32 list \<Rightarrow> bytes \<Rightarrow> u32 list" where
  "sha1_blocks h m = (if length m < 64 then h else sha1_blocks (sha1_transform h (take 64 m)) (drop 64 m))"
  by pat_completeness auto
termination
  by (relation "measure (\<lambda>(h, m). length m)") auto

declare sha1_blocks.simps [simp del]

text \<open>A one bit, zeros up to 56 bytes modulo 64, and the bit length on 8 bytes, big endian.\<close>

definition sha1_padding :: "nat \<Rightarrow> bytes" where
  "sha1_padding n = [0x80] @ replicate ((119 - n mod 64) mod 64) 0 @ be64_bytes (of_nat n * 8)"

definition sha1_digest :: "bytes \<Rightarrow> bytes" where
  "sha1_digest m = concat (map be32_bytes (sha1_blocks (sha_h sha1_init) (m @ sha1_padding (length m))))"

lemma absorb_blocks:
  "sha_block c = [] \<Longrightarrow>
   sha_h (fold sha1_absorb m c) = sha1_blocks (sha_h c) m
   \<and> length (sha_block (fold sha1_absorb m c)) = length m mod 64"
proof (induction "sha_h c" m arbitrary: c rule: sha1_blocks.induct)
  case (1 m)
  show ?case
  proof (cases "length m < 64")
    case True
    then show ?thesis using sha1_absorb_short [of c m] 1 by (simp add: sha1_blocks.simps [of _ m])
  next
    case False
    define c1 where "c1 = fold sha1_absorb (take 64 m) c"
    have "take 64 m \<noteq> []" using False by auto
    then have c1: "sha_h c1 = sha1_transform (sha_h c) (take 64 m)" "sha_block c1 = []"
      using sha1_absorb_full [of c "take 64 m"] False 1 by (simp_all add: c1_def)
    have "fold sha1_absorb m c = fold sha1_absorb (drop 64 m) c1"
      unfolding c1_def by (metis append_take_drop_id comp_apply fold_append)
    moreover have "length (drop 64 m) mod 64 = length m mod 64" using False by (simp add: le_mod_geq)
    ultimately show ?thesis
      using "1.hyps"(1) [OF False c1(1) [symmetric] c1(2)] c1 False by (simp add: sha1_blocks.simps [of _ m])
  qed
qed

lemma mod64_once: "64 \<le> a \<Longrightarrow> a < 128 \<Longrightarrow> a mod 64 = a - (64 :: nat)"
  by (simp add: le_mod_geq)

lemma pad_sum:
  fixes n q r z :: nat
  shows "n = q * 64 + r \<Longrightarrow> r \<le> 55 \<Longrightarrow> z = 55 - r \<Longrightarrow> n + (1 + z + 8) = 64 * (q + 1)"
    and "n = q * 64 + r \<Longrightarrow> r < 64 \<Longrightarrow> z = 119 - r \<Longrightarrow> n + (1 + z + 8) = 64 * (q + 2)"
  by auto

lemma sha1_init_block: "sha_block sha1_init = []" "sha_bytes sha1_init = 0" "length (sha_h sha1_init) = 5"
  by (simp_all add: sha1_init_def)

lemma sha1_pad_zero_spec:
  "sha1_ok c \<Longrightarrow> sha1_pad_zero c = sha1_update c (replicate ((120 - length (sha_block c)) mod 64) 0)"
proof (induction c rule: sha1_pad_zero.induct)
  case (1 c)
  let ?u = "length (sha_block c)"
  show ?case
  proof (cases "?u = 56")
    case True
    then show ?thesis
      by (simp add: sha1_pad_zero.simps [of c] sha1_update_def sha1_update_loop.simps [of _ "[]"])
  next
    case False
    then have go: "\<not> (?u = 56 \<or> ?u \<ge> 64)" using "1.prems" by (simp add: sha1_ok_def)
    have len: "length (sha_block (sha1_update c [0])) = (if ?u = 63 then 0 else ?u + 1)"
      using go by (simp add: sha1_update_one)
    have k: "(120 - ?u) mod 64 = Suc ((120 - length (sha_block (sha1_update c [0]))) mod 64)"
    proof (cases "?u < 56")
      case True
      then have "(120 - ?u) mod 64 = 56 - ?u" "(119 - ?u) mod 64 = 55 - ?u" by (simp_all add: mod64_once)
      then show ?thesis using True len by simp
    next
      case F: False
      then show ?thesis using go len by auto
    qed
    have "sha1_pad_zero c = sha1_pad_zero (sha1_update c [0])" using go by (simp add: sha1_pad_zero.simps [of c])
    also have "\<dots> = sha1_update c ([0] @ replicate ((120 - length (sha_block (sha1_update c [0]))) mod 64) 0)"
      using "1.IH" [OF go] sha1_update_ok [OF "1.prems"] sha1_update_append [OF "1.prems"] by simp
    finally show ?thesis by (simp add: k)
  qed
qed

lemma sha_h_length [simp]: "length (sha1_transform h b) = 5"
  by (simp add: sha1_transform_def Let_def split: prod.splits)

lemma sha1_blocks_length: "length h = 5 \<Longrightarrow> length (sha1_blocks h m) = 5"
  by (induction h m rule: sha1_blocks.induct) (simp add: sha1_blocks.simps [of _ m for m])


section \<open>The hex name\<close>

lemma hex_digit_lower:
  assumes "d < 16"
  shows "c_isxdigit (hex_digit d) \<and> c_tolower (hex_digit d) = hex_digit d"
proof -
  have "hex_digit d \<in> set ''0123456789abcdef''" unfolding hex_digit_def by (rule nth_mem) (use assms in simp)
  then show ?thesis by (auto simp: c_isxdigit_def c_isdigit_def c_tolower_def)
qed

lemma nibbles: "unat (drop_bit 4 (x :: u8)) < 16" "unat (x AND 15) < 16"
proof -
  have "unat x < 256" using unsigned_less [of x, where 'a = nat] by simp
  moreover have "unat (drop_bit 4 x) = unat x div 16" by (subst unat_drop_bit_eq) (simp add: drop_bit_eq_div)
  ultimately show "unat (drop_bit 4 (x :: u8)) < 16" by simp
  have "x AND 15 \<le> 15" by (rule word_and_le1)
  then show "unat (x AND 15) < 16" by (simp add: word_le_nat_alt)
qed

lemma hex20_lower: "lower_hex (hex20 inp)"
proof -
  have "length (hex20 inp) = 40" by (simp add: hex20_def upt_rec)
  then show ?thesis
    using hex_digit_lower nibbles by (auto simp: lower_hex_def hex20_def list_all_iff)
qed

lemma sha1_hex_lower: "lower_hex (ds4_kvstore_sha1_bytes_hex p)"
  by (simp add: ds4_kvstore_sha1_bytes_hex_def hex20_lower)

end
