(* ===== verification/Kv_Policy.thy ===== *)
theory Kv_Policy
  imports Sha1 "HOL-Library.Signed_Division"
begin

text \<open>
  When the disk cache stores a checkpoint and how much room it needs (\<open>ds4_kvstore.c\<close>): the
  options, the boundary trimming and alignment, the chat anchor, the continued-store cadence with
  its suppression, and the 64-bit file size arithmetic. Token counts are C \<open>int\<close>s inside the
  range of the sources' values, with \<open>/\<close> and \<open>%\<close> truncating as in C; sizes are
  64-bit words.
\<close>

section \<open>State\<close>

record ds4_kvstore_options =
  min_tokens :: int
  cold_max_tokens :: int
  continued_interval_tokens :: int
  boundary_trim_tokens :: int
  boundary_align_tokens :: int

record ds4_kvstore =
  enabled :: bool
  dir :: string
  budget_bytes :: u64
  reject_different_quant :: bool
  opt :: ds4_kvstore_options
  continued_last_store_tokens :: int
  entry :: "ds4_kvstore_entry list"

definition ds4_kvstore_default_options :: ds4_kvstore_options where
  "ds4_kvstore_default_options = \<lparr>min_tokens = 512, cold_max_tokens = 30000,
     continued_interval_tokens = 10000, boundary_trim_tokens = 32, boundary_align_tokens = 2048\<rparr>"

section \<open>Where to cut\<close>

definition ds4_kvstore_store_len :: "ds4_kvstore \<Rightarrow> int \<Rightarrow> int" where
  "ds4_kvstore_store_len kc toks =
     (let trim = boundary_trim_tokens (opt kc); align = boundary_align_tokens (opt kc)
      in if toks > min_tokens (opt kc) + trim
         then let stable0 = toks - trim;
                  stable = (if align > 0 then stable0 - stable0 smod align else stable0)
              in if stable \<ge> min_tokens (opt kc) then stable else toks
         else toks)"

text \<open>The loop over the prompt: stop at the first assistant marker, remember the last user marker.\<close>

fun anchor_scan :: "int list \<Rightarrow> int \<Rightarrow> int \<Rightarrow> int \<Rightarrow> int \<Rightarrow> int" where
  "anchor_scan [] user assistant i last_user = last_user"
| "anchor_scan (tok # rest) user assistant i last_user =
     (if tok = assistant then last_user
      else anchor_scan rest user assistant (i + 1) (if tok = user then i else last_user))"

definition ds4_kvstore_chat_anchor_pos :: "ds4_kvstore \<Rightarrow> int list option \<Rightarrow> int \<Rightarrow> int \<Rightarrow> int" where
  "ds4_kvstore_chat_anchor_pos kc prompt user_token_id assistant_token_id =
     (case prompt of
        None \<Rightarrow> -1
      | Some v \<Rightarrow>
          if user_token_id < 0 \<or> assistant_token_id < 0 then -1
          else let last_user = anchor_scan v user_token_id assistant_token_id 0 (-1)
               in if last_user \<ge> min_tokens (opt kc) then last_user else -1)"

section \<open>The continued cadence\<close>

definition kv_cache_continued_step :: "ds4_kvstore \<Rightarrow> int" where
  "kv_cache_continued_step kc =
     (if \<not> enabled kc \<or> continued_interval_tokens (opt kc) \<le> 0 then 0
      else let step = continued_interval_tokens (opt kc); align = boundary_align_tokens (opt kc)
           in if align > 0
              then let s = ((step + align - 1) sdiv align) * align in if s \<le> 0 then align else s
              else step)"

definition ds4_kvstore_continued_store_target :: "ds4_kvstore \<Rightarrow> int \<Rightarrow> int" where
  "ds4_kvstore_continued_store_target kc live_tokens =
     (let step = kv_cache_continued_step kc
      in if step \<le> 0 then 0
         else if live_tokens < min_tokens (opt kc) then 0
         else if live_tokens smod step \<noteq> 0 then 0
         else if live_tokens \<le> continued_last_store_tokens kc then 0
         else live_tokens)"

definition ds4_kvstore_note_store :: "ds4_kvstore \<Rightarrow> int \<Rightarrow> ds4_kvstore" where
  "ds4_kvstore_note_store kc toks =
     (if toks > continued_last_store_tokens kc then kc\<lparr>continued_last_store_tokens := toks\<rparr> else kc)"

definition ds4_kvstore_suppress_continued_store :: "ds4_kvstore \<Rightarrow> int \<Rightarrow> int \<times> ds4_kvstore" where
  "ds4_kvstore_suppress_continued_store kc toks =
     (if ds4_kvstore_continued_store_target kc toks \<noteq> toks then (-1, kc)
      else (continued_last_store_tokens kc, ds4_kvstore_note_store kc toks))"

definition ds4_kvstore_restore_suppressed_continued :: "ds4_kvstore \<Rightarrow> int \<Rightarrow> int \<Rightarrow> ds4_kvstore" where
  "ds4_kvstore_restore_suppressed_continued kc old_tokens suppressed_tokens =
     (if old_tokens \<ge> 0 \<and> continued_last_store_tokens kc = suppressed_tokens
      then kc\<lparr>continued_last_store_tokens := old_tokens\<rparr> else kc)"

section \<open>Sizes\<close>

abbreviation U64_MAX :: u64 where "U64_MAX \<equiv> 0xFFFFFFFFFFFFFFFF"

definition kv_cache_file_size_bytes :: "u64 \<Rightarrow> u64 \<Rightarrow> u64 \<Rightarrow> u64 option" where
  "kv_cache_file_size_bytes text_b payload_b trailer_b =
     (let fixed = of_nat DS4_KVSTORE_FIXED_HEADER + 4
      in if U64_MAX - fixed < text_b \<or> U64_MAX - fixed - text_b < payload_b
            \<or> U64_MAX - fixed - text_b - payload_b < trailer_b
         then None else Some (fixed + text_b + payload_b + trailer_b))"

definition kv_cache_budget_required :: "u64 \<Rightarrow> u64 option" where
  "kv_cache_budget_required file_bytes =
     (let slack = file_bytes div 100 + (if file_bytes mod 100 \<noteq> 0 then 1 else 0)
      in if U64_MAX - file_bytes < slack then None else Some (file_bytes + slack))"

text \<open>
  Whether the file fits, with the two outputs the caller reads: the file size and the size with
  the safety margin (both start at 0 in the callers).
\<close>

definition ds4_kvstore_file_size_fits :: "ds4_kvstore option \<Rightarrow> u64 \<Rightarrow> u64 \<Rightarrow> u64 \<Rightarrow> bool \<times> u64 \<times> u64" where
  "ds4_kvstore_file_size_fits kc text_b payload_b trailer_b =
     (case kv_cache_file_size_bytes text_b payload_b trailer_b of
        None \<Rightarrow> (False, 0, 0)
      | Some file_bytes \<Rightarrow>
          (case kc of
             None \<Rightarrow> (True, file_bytes, 0)
           | Some k \<Rightarrow>
               if budget_bytes k = 0 then (True, file_bytes, 0)
               else (case kv_cache_budget_required file_bytes of
                       None \<Rightarrow> (False, file_bytes, 0)
                     | Some required \<Rightarrow> (required \<le> budget_bytes k, file_bytes, required))))"

section \<open>Cut positions\<close>

lemma smod_nonneg: "0 \<le> a \<Longrightarrow> 0 < b \<Longrightarrow> a smod b = a mod (b :: int)"
  by (simp add: signed_modulo_int_def sgn_if)

lemma sdiv_nonneg: "0 \<le> a \<Longrightarrow> 0 < b \<Longrightarrow> a sdiv b = a div (b :: int)"
  by (simp add: signed_divide_int_def sgn_if)

text \<open>
  Trimming keeps the checkpoint usable: the length to store never exceeds the prompt; when it is
  cut, at least the trim is dropped, less than the trim plus one alignment unit is, the cut falls on
  an alignment boundary and at least the minimum number of tokens remains.
\<close>

lemma kv_store_len_cut:
  assumes "0 \<le> min_tokens (opt kc)" and "0 \<le> boundary_trim_tokens (opt kc)" and "0 \<le> boundary_align_tokens (opt kc)"
    and "ds4_kvstore_store_len kc toks = n"
  shows "n \<le> toks \<and> (n = toks \<or>
      (min_tokens (opt kc) \<le> n \<and> n \<le> toks - boundary_trim_tokens (opt kc)
       \<and> toks - boundary_trim_tokens (opt kc) - max 1 (boundary_align_tokens (opt kc)) < n
       \<and> (boundary_align_tokens (opt kc) = 0 \<or> boundary_align_tokens (opt kc) dvd n)))"
proof (cases "0 < boundary_align_tokens (opt kc) \<and> toks > min_tokens (opt kc) + boundary_trim_tokens (opt kc)")
  case True
  define al where "al = boundary_align_tokens (opt kc)"
  define st where "st = toks - boundary_trim_tokens (opt kc)"
  have st: "0 \<le> st" "0 < al" using True assms by (auto simp: st_def al_def)
  have "st mod al < al" "0 \<le> st mod al" "al dvd st - st mod al"
    using st by (simp_all add: dvd_minus_mod)
  moreover have "n = (if st - st mod al \<ge> min_tokens (opt kc) then st - st mod al else toks)"
    unfolding assms(4) [symmetric] ds4_kvstore_store_len_def Let_def st_def [symmetric] al_def [symmetric]
      smod_nonneg [OF st] using True by (simp add: al_def)
  moreover have "st \<le> toks" using assms(2) by (simp add: st_def)
  ultimately show ?thesis
    unfolding st_def [symmetric] al_def [symmetric] by (auto split: if_splits)
next
  case False
  then show ?thesis using assms by (auto simp: ds4_kvstore_store_len_def Let_def split: if_splits)
qed

definition demo_store :: ds4_kvstore where
  "demo_store = \<lparr>enabled = True, dir = ''/kv'', budget_bytes = 1000000, reject_different_quant = False,
     opt = ds4_kvstore_default_options, continued_last_store_tokens = 0, entry = []\<rparr>"

lemmas demo_store_simps = demo_store_def ds4_kvstore_default_options_def

text \<open>A user marker counts when no assistant marker stands before it.\<close>

definition early_user :: "int list \<Rightarrow> int \<Rightarrow> int \<Rightarrow> nat \<Rightarrow> bool" where
  "early_user v user assistant k \<longleftrightarrow> k < length v \<and> v ! k = user \<and> assistant \<notin> set (take (Suc k) v)"

lemma early_user_Cons:
  "early_user (tok # v) user assistant (Suc k) \<longleftrightarrow> tok \<noteq> assistant \<and> early_user v user assistant k"
  "early_user (tok # v) user assistant 0 \<longleftrightarrow> tok = user \<and> tok \<noteq> assistant"
  by (auto simp: early_user_def)

lemma anchor_scan_spec:
  "lu < i \<Longrightarrow> anchor_scan v user assistant i lu = p \<Longrightarrow>
   (p = lu \<or> (\<exists>k. p = i + int k \<and> early_user v user assistant k))
   \<and> (\<forall>k. early_user v user assistant k \<longrightarrow> i + int k \<le> p)"
proof (induction v arbitrary: i lu)
  case Nil
  then show ?case by (simp add: early_user_def)
next
  case (Cons tok v)
  show ?case
  proof (cases "tok = assistant")
    case True
    then have "\<not> early_user (tok # v) user assistant k" for k by (cases k) (auto simp: early_user_Cons)
    then show ?thesis using Cons.prems True by simp
  next
    case False
    define lu' where "lu' = (if tok = user then i else lu)"
    have "lu' < i + 1" "anchor_scan v user assistant (i + 1) lu' = p"
      using Cons.prems False by (auto simp: lu'_def)
    from Cons.IH [OF this]
    have a: "p = lu' \<or> (\<exists>k. p = i + 1 + int k \<and> early_user v user assistant k)"
      and b: "\<And>k. early_user v user assistant k \<Longrightarrow> i + 1 + int k \<le> p" by auto
    have "p = lu \<or> (\<exists>k. p = i + int k \<and> early_user (tok # v) user assistant k)"
      using a
    proof (elim disjE exE conjE)
      assume "p = lu'"
      then show ?thesis
        using False early_user_Cons(2) [of tok v user assistant] by (auto simp: lu'_def split: if_splits)
    next
      fix k assume "p = i + 1 + int k" "early_user v user assistant k"
      then show ?thesis using False by (intro disjI2 exI [of _ "Suc k"]) (simp add: early_user_Cons)
    qed
    moreover have "i + int k \<le> p" if "early_user (tok # v) user assistant k" for k
    proof (cases k)
      case 0
      then have "lu' = i" using that by (simp add: early_user_Cons lu'_def)
      then show ?thesis using 0 a by auto
    next
      case (Suc m)
      then show ?thesis using that b [of m] by (simp add: early_user_Cons)
    qed
    ultimately show ?thesis by blast
  qed
qed

text \<open>
  The chat anchor is the last user marker before the first assistant marker: when a position is
  returned, a user marker stands there with no assistant marker at or before it, every other such user
  marker is earlier, and at least the minimum number of tokens precede it.
\<close>

lemma kv_chat_anchor_exact:
  assumes "ds4_kvstore_chat_anchor_pos kc (Some v) user assistant = p" and "0 \<le> p"
  shows "early_user v user assistant (nat p) \<and> min_tokens (opt kc) \<le> p
    \<and> (\<forall>k. early_user v user assistant k \<longrightarrow> k \<le> nat p)"
proof -
  have s: "anchor_scan v user assistant 0 (-1) = p" and m: "min_tokens (opt kc) \<le> p"
    using assms by (auto simp: ds4_kvstore_chat_anchor_pos_def Let_def split: if_splits)
  from anchor_scan_spec [OF _ s] assms(2) m show ?thesis by fastforce
qed

section \<open>The cadence of continued stores\<close>

lemma continued_step_pos:
  assumes "enabled kc" and "0 < continued_interval_tokens (opt kc)"
  shows "0 < kv_cache_continued_step kc \<and> continued_interval_tokens (opt kc) \<le> kv_cache_continued_step kc
    \<and> (0 < boundary_align_tokens (opt kc) \<longrightarrow> boundary_align_tokens (opt kc) dvd kv_cache_continued_step kc
        \<and> kv_cache_continued_step kc < continued_interval_tokens (opt kc) + boundary_align_tokens (opt kc))"
proof (cases "0 < boundary_align_tokens (opt kc)")
  case True
  define a where "a = boundary_align_tokens (opt kc)"
  define s where "s = continued_interval_tokens (opt kc)"
  have pos: "0 < a" "0 < s" using True assms by (auto simp: a_def s_def)
  define q where "q = (s + a - 1) div a"
  have q: "q * a = s + a - 1 - (s + a - 1) mod a" unfolding q_def by (simp add: minus_mod_eq_div_mult)
  have m: "0 \<le> (s + a - 1) mod a" "(s + a - 1) mod a < a" using pos by simp_all
  have qa: "s \<le> q * a" "q * a < s + a" using q m by linarith+
  have "kv_cache_continued_step kc = q * a"
    unfolding kv_cache_continued_step_def Let_def a_def [symmetric] s_def [symmetric]
    using assms pos qa sdiv_nonneg [of "s + a - 1" a] by (simp add: q_def)
  then show ?thesis using qa pos by (simp add: a_def [symmetric] s_def [symmetric])
next
  case False
  then show ?thesis using assms by (simp add: kv_cache_continued_step_def Let_def)
qed

text \<open>
  Continued checkpoints are aligned waypoints that only move forward: a target is the live length
  itself, a positive multiple of a step that is at least the configured interval and a multiple of the
  alignment, past the last store and the minimum; once noted, no length up to it is a target again.
\<close>

lemma kv_continued_target_waypoint:
  assumes "ds4_kvstore_continued_store_target kc live = t" and "t \<noteq> 0" and "0 \<le> min_tokens (opt kc)"
  shows "t = live \<and> kv_cache_continued_step kc dvd t \<and> continued_interval_tokens (opt kc) \<le> kv_cache_continued_step kc
    \<and> (0 < boundary_align_tokens (opt kc) \<longrightarrow> boundary_align_tokens (opt kc) dvd t)
    \<and> min_tokens (opt kc) \<le> t \<and> continued_last_store_tokens kc < t
    \<and> (\<forall>l \<le> t. ds4_kvstore_continued_store_target (ds4_kvstore_note_store kc t) l = 0)"
proof -
  define s where "s = kv_cache_continued_step kc"
  have g: "0 < s" "min_tokens (opt kc) \<le> live" "live smod s = 0" "continued_last_store_tokens kc < live" "t = live"
    using assms(1,2) by (auto simp: ds4_kvstore_continued_store_target_def Let_def s_def split: if_splits)
  have en: "enabled kc" "0 < continued_interval_tokens (opt kc)"
    using g(1) by (auto simp: s_def kv_cache_continued_step_def split: if_splits)
  note st = continued_step_pos [OF en, folded s_def]
  have "s dvd live" using g smod_nonneg [of live s] assms(3) by (simp add: dvd_eq_mod_eq_0)
  moreover have "ds4_kvstore_continued_store_target (ds4_kvstore_note_store kc t) l = 0" if "l \<le> t" for l
    using that g by (simp add: ds4_kvstore_continued_store_target_def ds4_kvstore_note_store_def Let_def)
  ultimately show ?thesis using g st unfolding s_def [symmetric] by (auto intro: dvd_trans)
qed

text \<open>
  Suppressing a continued store and restoring it is undone exactly: when the suppression took
  effect on a store whose last length is not negative, restoring with the value it returned gives
  back the original state, unless another store was noted in between, which is then kept.
\<close>

lemma kv_suppress_restore:
  assumes "ds4_kvstore_suppress_continued_store kc toks = (old, kc1)" and "0 \<le> continued_last_store_tokens kc"
    and "0 < toks"
  shows "ds4_kvstore_restore_suppressed_continued kc1 old toks = kc
    \<and> (toks < m \<longrightarrow> ds4_kvstore_restore_suppressed_continued (ds4_kvstore_note_store kc1 m) old toks
         = ds4_kvstore_note_store kc1 m)"
proof (cases "ds4_kvstore_continued_store_target kc toks = toks")
  case True
  then have "continued_last_store_tokens kc < toks"
    using assms(3) by (auto simp: ds4_kvstore_continued_store_target_def Let_def split: if_splits)
  with assms True show ?thesis
    by (auto simp: ds4_kvstore_suppress_continued_store_def ds4_kvstore_note_store_def
        ds4_kvstore_restore_suppressed_continued_def)
next
  case False
  with assms show ?thesis
    by (auto simp: ds4_kvstore_suppress_continued_store_def ds4_kvstore_restore_suppressed_continued_def)
qed

section \<open>File sizes\<close>

lemma u64_sub: "b \<le> a \<Longrightarrow> unat (a - b :: u64) = unat a - unat b"
  by (simp add: unat_sub)

lemma kv_file_size_exact:
  "(\<exists>n. kv_cache_file_size_bytes t p r = Some n) \<longleftrightarrow> 52 + unat t + unat p + unat r < 2 ^ 64"
  "kv_cache_file_size_bytes t p r = Some n \<Longrightarrow> unat n = 52 + unat t + unat p + unat r"
proof -
  have c: "kv_cache_file_size_bytes t p r =
      (if U64_MAX - 52 < t \<or> U64_MAX - 52 - t < p \<or> U64_MAX - 52 - t - p < r
       then None else Some (52 + t + p + r))"
    by (simp add: kv_cache_file_size_bytes_def Let_def DS4_KVSTORE_FIXED_HEADER_def)
  have ok: "\<not> (U64_MAX - 52 < t \<or> U64_MAX - 52 - t < p \<or> U64_MAX - 52 - t - p < r)
      \<longleftrightarrow> 52 + unat t + unat p + unat r < 2 ^ 64"
  proof (cases "t \<le> U64_MAX - 52 \<and> p \<le> U64_MAX - 52 - t")
    case True
    then have "unat (U64_MAX - 52 - t) = 18446744073709551563 - unat t"
      and "unat (U64_MAX - 52 - t - p) = 18446744073709551563 - unat t - unat p"
      using u64_sub [of t "U64_MAX - 52"] u64_sub [of p "U64_MAX - 52 - t"] by simp_all
    moreover have "unat t \<le> 18446744073709551563" "unat p \<le> 18446744073709551563 - unat t"
      using True u64_sub [of t "U64_MAX - 52"] by (simp_all add: word_le_nat_alt)
    ultimately show ?thesis using True by (simp add: not_less word_le_nat_alt) linarith
  next
    case False
    then show ?thesis using u64_sub [of t "U64_MAX - 52"] by (auto simp: not_less not_le word_less_nat_alt word_le_nat_alt)
  qed
  show "(\<exists>n. kv_cache_file_size_bytes t p r = Some n) \<longleftrightarrow> 52 + unat t + unat p + unat r < 2 ^ 64"
    using ok by (auto simp: c)
  assume "kv_cache_file_size_bytes t p r = Some n"
  then have n: "n = 52 + t + p + r" and b: "52 + unat t + unat p + unat r < 2 ^ 64"
    using ok by (auto simp: c split: if_splits)
  have "unat (52 + t) = 52 + unat t" using b by (subst unat_add_lem [THEN iffD1]) auto
  moreover from this have "unat (52 + t + p) = 52 + unat t + unat p" using b by (subst unat_add_lem [THEN iffD1]) auto
  moreover from this have "unat (52 + t + p + r) = 52 + unat t + unat p + unat r"
    using b by (subst unat_add_lem [THEN iffD1]) auto
  ultimately show "unat n = 52 + unat t + unat p + unat r" using n by simp
qed

lemma div100_up: "(n + 99) div 100 = n div 100 + (if n mod 100 \<noteq> 0 then 1 else 0 :: nat)"
proof -
  define q where "q = n div 100"
  define r where "r = n mod 100"
  have n: "n = q * 100 + r" "r < 100" by (simp_all add: q_def r_def)
  have "(q * 100 + r + 99) div 100 = q + (r + 99) div 100"
    by (metis add.assoc div_mult_self3 zero_neq_numeral)
  moreover have "(r + 99) div 100 = (if r \<noteq> 0 then 1 else 0)"
    using n(2) by (auto intro!: div_nat_eqI)
  ultimately show ?thesis using n by simp
qed

lemma kv_budget_required_exact:
  "kv_cache_budget_required f = Some q \<Longrightarrow> unat q = unat f + (unat f + 99) div 100"
  "kv_cache_budget_required f = None \<longleftrightarrow> 2 ^ 64 \<le> unat f + (unat f + 99) div 100"
proof -
  define sl where "sl = f div 100 + (if f mod 100 \<noteq> 0 then 1 else 0)"
  have f: "unat f < 2 ^ 64" using unsigned_less [of f, where 'a = nat] by simp
  have d: "unat (f div 100) = unat f div 100" "unat (f mod 100) = unat f mod 100"
    by (simp_all add: unat_div unat_mod)
  have sl: "unat sl = (unat f + 99) div 100"
  proof (cases "f mod 100 = 0")
    case True
    then have "unat f mod 100 = 0" using d(2) by (metis unat_0)
    then show ?thesis unfolding div100_up sl_def using True d(1) by simp
  next
    case False
    then have nz: "unat f mod 100 \<noteq> 0" using d(2) by (metis unat_eq_zero)
    have "unat (f div 100 + 1) = unat f div 100 + 1"
      using f d(1) by (subst unat_add_lem [THEN iffD1]) auto
    then show ?thesis unfolding div100_up sl_def using False nz by simp
  qed
  have mx: "unat U64_MAX = 2 ^ 64 - 1" by simp
  have "f \<le> U64_MAX" unfolding word_le_nat_alt mx using f by linarith
  then have "unat (U64_MAX - f) = 2 ^ 64 - 1 - unat f" using u64_sub [of f U64_MAX] mx by simp
  then have le: "U64_MAX - f < sl \<longleftrightarrow> 2 ^ 64 \<le> unat f + unat sl"
    unfolding word_less_nat_alt using f by linarith
  show "kv_cache_budget_required f = None \<longleftrightarrow> 2 ^ 64 \<le> unat f + (unat f + 99) div 100"
    using le sl by (simp add: kv_cache_budget_required_def Let_def sl_def [symmetric])
  assume "kv_cache_budget_required f = Some q"
  then have "q = f + sl" "unat f + unat sl < 2 ^ 64"
    using le by (auto simp: kv_cache_budget_required_def Let_def sl_def [symmetric] split: if_splits)
  then show "unat q = unat f + (unat f + 99) div 100"
    using sl by (simp add: unat_add_lem [THEN iffD1])
qed

text \<open>
  The admission test is exact arithmetic: a file fits a budgeted store exactly when its size (48-byte
  header, 4-byte length, text, payload, trailer) plus one percent, rounded up, is at most the budget, taken
  over the integers; the sizes reported are those numbers, so no 64-bit sum has wrapped.
\<close>

lemma kv_file_size_fits_exact:
  assumes "ds4_kvstore_file_size_fits (Some kc) t p r = (ok, fb, rb)" and "budget_bytes kc \<noteq> 0"
    and "sz = 52 + unat t + unat p + unat r"
  shows "(ok \<longleftrightarrow> sz + (sz + 99) div 100 \<le> unat (budget_bytes kc))
    \<and> (ok \<longrightarrow> unat fb = sz \<and> unat rb = sz + (sz + 99) div 100)"
proof (cases "kv_cache_file_size_bytes t p r")
  case None
  then have "2 ^ 64 \<le> sz" using kv_file_size_exact(1) [of t p r] assms(3) by auto
  moreover have "unat (budget_bytes kc) < 2 ^ 64" using unsigned_less [of "budget_bytes kc", where 'a = nat] by simp
  ultimately show ?thesis using None assms(1) by (simp add: ds4_kvstore_file_size_fits_def)
next
  case (Some n)
  then have n: "unat n = sz" using kv_file_size_exact(2) assms(3) by simp
  show ?thesis
  proof (cases "kv_cache_budget_required n")
    case None
    have "unat (budget_bytes kc) < 2 ^ 64" using unsigned_less [of "budget_bytes kc", where 'a = nat] by simp
    then show ?thesis
      using None Some n assms(1,2) kv_budget_required_exact(2) [of n] by (simp add: ds4_kvstore_file_size_fits_def)
  next
    case (Some q)
    then show ?thesis
      using \<open>kv_cache_file_size_bytes t p r = Some n\<close> n assms(1,2) kv_budget_required_exact(1) [of n q]
      by (auto simp: ds4_kvstore_file_size_fits_def word_le_nat_alt)
  qed
qed

end
