(* ===== verification/Kv_Disk.thy ===== *)
theory Kv_Disk
  imports Kv_Policy Complex_Main
begin

text \<open>
  The cache directory and what the store does to the files in it (\<open>ds4_kvstore.c\<close>): reading
  entries, refreshing the index, touching a file on a hit, scoring, eviction, opening, and the
  longest-prefix lookup.

  A disk is an association list from paths to contents, in the order \<open>readdir\<close> lists them; the
  operations the code uses of it are an interface (locale \<open>file_store\<close>). What the operating
  system decides - whether a file can be opened or removed, how many bytes of a write reach it, the
  time - is the environment record. Scores are real numbers: the model does not round.
\<close>

section \<open>Disk and environment\<close>

type_synonym disk = "(string \<times> bytes) list"

definition fs_lookup :: "disk \<Rightarrow> string \<Rightarrow> bytes option" where
  "fs_lookup d p = map_of d p"

definition fs_unlink :: "disk \<Rightarrow> string \<Rightarrow> disk" where
  "fs_unlink d p = filter (\<lambda>(q, _). q \<noteq> p) d"

fun fs_write :: "disk \<Rightarrow> string \<Rightarrow> bytes \<Rightarrow> disk" where
  "fs_write [] p b = [(p, b)]"
| "fs_write ((q, c) # d) p b = (if q = p then (p, b) # d else (q, c) # fs_write d p b)"

definition fs_rename :: "disk \<Rightarrow> string \<Rightarrow> string \<Rightarrow> disk" where
  "fs_rename d a b = (case fs_lookup d a of None \<Rightarrow> d | Some c \<Rightarrow> fs_write (fs_unlink d a) b c)"

text \<open>The names \<open>readdir\<close> gives for a directory: the files directly in it.\<close>

definition fs_readdir :: "disk \<Rightarrow> string \<Rightarrow> string list" where
  "fs_readdir d dr =
     (let pre = ds4_kvstore_path_join dr []
      in map (drop (length pre)) (filter (\<lambda>p. prefix pre p \<and> CHR ''/'' \<notin> set (drop (length pre) p)) (map fst d)))"

record kv_env =
  now :: u64
  pid :: nat
  can_list :: bool
  can_open :: "string \<Rightarrow> bool"
  can_create :: "string \<Rightarrow> bool"
  can_unlink :: "string \<Rightarrow> bool"
  can_rename :: bool
  can_seek :: bool
  written :: "string \<Rightarrow> nat"

text \<open>\<open>fopen\<close> for reading.\<close>

definition fs_open :: "kv_env \<Rightarrow> disk \<Rightarrow> string \<Rightarrow> bytes option" where
  "fs_open env d p = (if can_open env p then fs_lookup d p else None)"

text \<open>Overwriting the start of an existing file: what reaches it, and whether all did.\<close>

definition fs_overwrite :: "kv_env \<Rightarrow> disk \<Rightarrow> string \<Rightarrow> bytes \<Rightarrow> bytes \<Rightarrow> bool \<times> disk" where
  "fs_overwrite env d p content h =
     (let k = min (written env p) (length h)
      in (k = length h, fs_write d p (take k h @ drop k content)))"

locale file_store =
  fixes look :: "'d \<Rightarrow> string \<Rightarrow> bytes option" and put :: "'d \<Rightarrow> string \<Rightarrow> bytes \<Rightarrow> 'd" and del :: "'d \<Rightarrow> string \<Rightarrow> 'd"
  assumes look_put: "look (put d p b) q = (if q = p then Some b else look d q)"
    and look_remove: "look (del d p) q = (if q = p then None else look d q)"
begin

lemma look_remove_list:
  "look (fold (\<lambda>p d. del d p) ps d) q = (if q \<in> set ps then None else look d q)"
  by (induction ps arbitrary: d) (auto simp: look_remove)

lemma put_then_move:
  "look d a = Some c \<Longrightarrow> look (put (del d a) b c) q = (if q = b then Some c else if q = a then None else look d q)"
  by (simp add: look_put look_remove)

end

lemma fs_look_write: "fs_lookup (fs_write d p b) q = (if q = p then Some b else fs_lookup d q)"
  by (induction d p b rule: fs_write.induct) (auto simp: fs_lookup_def)

lemma fs_look_unlink: "fs_lookup (fs_unlink d p) q = (if q = p then None else fs_lookup d q)"
  by (induction d) (auto simp: fs_lookup_def fs_unlink_def)

interpretation fs: file_store fs_lookup fs_write fs_unlink
  by unfold_locales (rule fs_look_write, rule fs_look_unlink)

section \<open>Reading entries\<close>

text \<open>The size \<open>stat\<close> reports is the length of the content.\<close>

definition ds4_kvstore_read_entry_file :: "kv_env \<Rightarrow> disk \<Rightarrow> string \<Rightarrow> string \<Rightarrow> ds4_kvstore_entry option" where
  "ds4_kvstore_read_entry_file env d p s =
     (case fs_lookup d p of
        None \<Rightarrow> None
      | Some st \<Rightarrow>
          if length st < 52 then None
          else case fs_open env d p of
            None \<Rightarrow> None
          | Some fp \<Rightarrow>
              (case ds4_kvstore_read_header fp of
                 None \<Rightarrow> None
               | Some (e, tb, _) \<Rightarrow>
                   if U64_MAX - 52 < ucast tb \<or> U64_MAX - 52 - ucast tb < payload_bytes e then None
                   else if (of_nat (length st) :: u64) < 52 + ucast tb + payload_bytes e then None
                   else Some (e\<lparr>sha := s, path := p, file_size := of_nat (length st)\<rparr>)))"

definition ds4_kvstore_clear :: "ds4_kvstore \<Rightarrow> ds4_kvstore" where
  "ds4_kvstore_clear kc = kc\<lparr>entry := []\<rparr>"

definition kv_cache_push :: "ds4_kvstore \<Rightarrow> ds4_kvstore_entry \<Rightarrow> ds4_kvstore" where
  "kv_cache_push kc e = kc\<lparr>entry := entry kc @ [e]\<rparr>"

definition kv_cache_refresh :: "kv_env \<Rightarrow> disk \<Rightarrow> ds4_kvstore \<Rightarrow> ds4_kvstore" where
  "kv_cache_refresh env d kc =
     (if \<not> enabled kc then kc
      else let kc1 = ds4_kvstore_clear kc
           in if \<not> can_list env then kc1
              else fold (\<lambda>name k.
                     case ds4_kvstore_sha_hex_name name of
                       None \<Rightarrow> k
                     | Some s \<Rightarrow>
                         (case ds4_kvstore_read_entry_file env d (ds4_kvstore_path_join (dir kc) name) s of
                            None \<Rightarrow> k
                          | Some e \<Rightarrow> kv_cache_push k e))
                   (fs_readdir d (dir kc)) kc1)"

definition ds4_kvstore_touch_file :: "kv_env \<Rightarrow> disk \<Rightarrow> string \<Rightarrow> u32 \<Rightarrow> bool \<times> disk" where
  "ds4_kvstore_touch_file env d p h =
     (case fs_open env d p of
        None \<Rightarrow> (False, d)
      | Some fp \<Rightarrow>
          (case ds4_kvstore_read_header fp of
             None \<Rightarrow> (False, d)
           | Some (e, _, _) \<Rightarrow>
               fs_overwrite env d p fp
                 (ds4_kvstore_fill_header (model_id e) (quant_bits e) (reason e) (ext_flags e)
                    (tokens e) h (ctx_size e) (created_at e) (now env) (payload_bytes e))))"

section \<open>Scores and eviction\<close>

record ds4_kvstore_eviction_context =
  inc_text :: "bytes option"
  inc_model_id :: u8
  inc_quant_bits :: u8
  inc_ctx_size :: u32
  inc_reject_different_quant :: bool

definition kv_cache_incoming_supersedes_continued ::
  "ds4_kvstore_entry \<Rightarrow> ds4_kvstore_eviction_context option \<Rightarrow> bool" where
  "kv_cache_incoming_supersedes_continued e incoming =
     (case incoming of
        None \<Rightarrow> False
      | Some i \<Rightarrow>
          (case inc_text i of
             None \<Rightarrow> False
           | Some text \<Rightarrow>
               reason e = DS4_KVSTORE_REASON_CONTINUED
               \<and> text_bytes e \<noteq> 0
               \<and> unat (text_bytes e) < length text
               \<and> model_id e = inc_model_id i
               \<and> \<not> (inc_reject_different_quant i \<and> quant_bits e \<noteq> inc_quant_bits i)
               \<and> \<not> inc_ctx_size i > ctx_size e
               \<and> ds4_kvstore_sha1_bytes_hex (take (unat (text_bytes e)) text) = sha e))"

definition kv_cache_reason_is_anchor :: "u8 \<Rightarrow> bool" where
  "kv_cache_reason_is_anchor r \<longleftrightarrow>
     r = DS4_KVSTORE_REASON_COLD \<or> r = DS4_KVSTORE_REASON_EVICT \<or> r = DS4_KVSTORE_REASON_SHUTDOWN"

definition effective_hits :: "ds4_kvstore_entry \<Rightarrow> u64 \<Rightarrow> real" where
  "effective_hits e t =
     (let used_at = (if last_used e \<noteq> 0 then last_used e else created_at e)
      in if used_at = 0 then 0
         else if t > used_at
         then (let h = real (unat (hits e)) * 2 powr (- real (unat (t - used_at)) / real (6 * 60 * 60))
               in if h < 1 / 100 then 0 else h)
         else real (unat (hits e)))"

definition ds4_kvstore_entry_eviction_score ::
  "ds4_kvstore_entry \<Rightarrow> u64 \<Rightarrow> ds4_kvstore_eviction_context option \<Rightarrow> real" where
  "ds4_kvstore_entry_eviction_score e t incoming =
     (if file_size e = 0 then 0
      else let eh = effective_hits e t;
               s0 = (eh + 1) * real (unat (tokens e)) / real (unat (file_size e));
               s1 = (if kv_cache_reason_is_anchor (reason e) then s0 * 2 else s0)
           in if kv_cache_incoming_supersedes_continued e incoming
              then (let h = (if eh > 0 then eh / (eh + 1) else 0) in s1 * (5 / 100 + 45 / 100 * h))
              else s1)"

text \<open>The scan for the victim over the first \<open>n\<close> entries, as the loop goes.\<close>

definition victim_scan :: "(ds4_kvstore_entry \<Rightarrow> real) \<Rightarrow> ds4_kvstore_entry list \<Rightarrow> nat \<Rightarrow> nat" where
  "victim_scan score es n =
     fold (\<lambda>i victim. if score (es ! i) < score (es ! victim)
             \<or> (score (es ! i) = score (es ! victim) \<and> last_used (es ! i) < last_used (es ! victim))
           then i else victim) [1..<n] 0"

function evict_loop ::
  "kv_env \<Rightarrow> (ds4_kvstore_entry \<Rightarrow> real) \<Rightarrow> u64 \<Rightarrow> u64 \<Rightarrow> ds4_kvstore_entry list \<Rightarrow> disk \<Rightarrow> ds4_kvstore_entry list \<times> disk" where
  "evict_loop env score target tot es d =
     (if tot > target \<and> es \<noteq> []
      then let v = victim_scan score es (length es); e = es ! v; es1 = take v es @ drop (v + 1) es
           in if can_unlink env (path e)
              then evict_loop env score target (if tot \<ge> file_size e then tot - file_size e else 0) es1
                     (fs_unlink d (path e))
              else evict_loop env score target 0 es1 d
      else (es, d))"
  by pat_completeness auto

lemma victim_scan_Suc:
  "0 < n \<Longrightarrow> victim_scan score es (Suc n) =
     (let v = victim_scan score es n
      in if score (es ! n) < score (es ! v) \<or> (score (es ! n) = score (es ! v) \<and> last_used (es ! n) < last_used (es ! v))
         then n else v)"
  by (simp add: victim_scan_def Let_def)

lemma victim_scan_one: "victim_scan score es (Suc 0) = 0"
  by (simp add: victim_scan_def)

text \<open>The victim has the least score and, among those, is the least recently used.\<close>

lemma victim_scan_least:
  "0 < n \<Longrightarrow> victim_scan score es n < n
   \<and> (\<forall>i < n. score (es ! victim_scan score es n) < score (es ! i)
        \<or> score (es ! victim_scan score es n) = score (es ! i) \<and> last_used (es ! victim_scan score es n) \<le> last_used (es ! i))"
proof (induction n rule: nat_induct_non_zero)
  case 1
  show ?case by (simp add: victim_scan_one)
next
  case (Suc n)
  then show ?case
    unfolding victim_scan_Suc [OF Suc.hyps] Let_def
    by (auto simp: less_Suc_eq split: if_splits)
qed

lemma victim_scan_bound: "es \<noteq> [] \<Longrightarrow> victim_scan score es (length es) < length es"
  using victim_scan_least [of "length es" score es] by simp

termination evict_loop
proof (relation "measure (\<lambda>(_, _, _, _, es, _). length es)", goal_cases)
  case 1
  show ?case by simp
next
  case (2 env score target tot es d v e es1)
  then have "v < length es" using victim_scan_bound [of es score] by simp
  then show ?case using 2 by simp
next
  case (3 env score target tot es d v e es1)
  then have "v < length es" using victim_scan_bound [of es score] by simp
  then show ?case using 3 by simp
qed

declare evict_loop.simps [simp del]

definition ds4_kvstore_evict ::
  "kv_env \<Rightarrow> ds4_kvstore \<Rightarrow> u64 \<Rightarrow> ds4_kvstore_eviction_context option \<Rightarrow> disk \<Rightarrow> ds4_kvstore \<times> disk" where
  "ds4_kvstore_evict env kc extra_bytes incoming d =
     (if \<not> enabled kc \<or> budget_bytes kc = 0 then (kc, d)
      else if extra_bytes > budget_bytes kc then (kc, d)
      else let kc1 = kv_cache_refresh env d kc;
               tot = fold (\<lambda>e s. s + file_size e) (entry kc1) 0;
               target = budget_bytes kc - extra_bytes
           in case evict_loop env (\<lambda>e. ds4_kvstore_entry_eviction_score e (now env) incoming)
                    target tot (entry kc1) d of
                (es, d1) \<Rightarrow> (kc1\<lparr>entry := es\<rparr>, d1))"

section \<open>The index after a refresh\<close>

definition kv_scan :: "kv_env \<Rightarrow> disk \<Rightarrow> string \<Rightarrow> ds4_kvstore_entry list" where
  "kv_scan env d dr =
     concat (map (\<lambda>name. case ds4_kvstore_sha_hex_name name of
                     None \<Rightarrow> []
                   | Some s \<Rightarrow> (case ds4_kvstore_read_entry_file env d (ds4_kvstore_path_join dr name) s of
                                 None \<Rightarrow> [] | Some e \<Rightarrow> [e]))
              (fs_readdir d dr))"

lemma refresh_scan:
  assumes "enabled kc" and "can_list env"
  shows "kv_cache_refresh env d kc = kc\<lparr>entry := kv_scan env d (dir kc)\<rparr>"
proof -
  have "fold (\<lambda>name k. case ds4_kvstore_sha_hex_name name of
            None \<Rightarrow> k
          | Some s \<Rightarrow> (case ds4_kvstore_read_entry_file env d (ds4_kvstore_path_join dr name) s of
                         None \<Rightarrow> k | Some e \<Rightarrow> kv_cache_push k e)) names k0
      = k0\<lparr>entry := entry k0 @ concat (map (\<lambda>name. case ds4_kvstore_sha_hex_name name of
                     None \<Rightarrow> []
                   | Some s \<Rightarrow> (case ds4_kvstore_read_entry_file env d (ds4_kvstore_path_join dr name) s of
                                 None \<Rightarrow> [] | Some e \<Rightarrow> [e])) names)\<rparr>" for dr names and k0 :: ds4_kvstore
    by (induction names arbitrary: k0) (auto simp: kv_cache_push_def split: option.splits)
  then show ?thesis
    using assms by (simp add: kv_cache_refresh_def Let_def ds4_kvstore_clear_def kv_scan_def)
qed

section \<open>Opening and closing\<close>

text \<open>
  \<open>kv_mkdir_p\<close>: every parent (a slash at index 1 or later) and then the path itself, each
  \<open>mkdir\<close> succeeding or finding the directory there.
\<close>

definition kv_mkdir_p :: "(string \<Rightarrow> bool) \<Rightarrow> string option \<Rightarrow> bool" where
  "kv_mkdir_p mk p =
     (case p of
        None \<Rightarrow> False
      | Some q \<Rightarrow> q \<noteq> [] \<and> list_all (\<lambda>i. q ! i = CHR ''/'' \<longrightarrow> mk (take i q)) [1..<length q] \<and> mk q)"

definition closed_store :: ds4_kvstore where
  "closed_store = \<lparr>enabled = False, dir = [], budget_bytes = 0, reject_different_quant = False,
     opt = \<lparr>min_tokens = 0, cold_max_tokens = 0, continued_interval_tokens = 0, boundary_trim_tokens = 0,
            boundary_align_tokens = 0\<rparr>,
     continued_last_store_tokens = 0, entry = []\<rparr>"

definition ds4_kvstore_open ::
  "kv_env \<Rightarrow> (string \<Rightarrow> bool) \<Rightarrow> string option \<Rightarrow> u64 \<Rightarrow> bool \<Rightarrow> ds4_kvstore_options \<Rightarrow> disk \<Rightarrow> bool \<times> ds4_kvstore \<times> disk" where
  "ds4_kvstore_open env mk dr budget_mb reject_diff options d =
     (case dr of
        None \<Rightarrow> (False, closed_store, d)
      | Some q \<Rightarrow>
          if \<not> kv_mkdir_p mk dr then (False, closed_store, d)
          else let mb = (if budget_mb = 0 then 4096 else budget_mb);
                   kc = closed_store\<lparr>enabled := True, dir := q, budget_bytes := mb * 1024 * 1024,
                          reject_different_quant := reject_diff, opt := options\<rparr>
               in (case ds4_kvstore_evict env kc 0 None d of (kc1, d1) \<Rightarrow> (True, kc1, d1)))"

definition ds4_kvstore_close :: "ds4_kvstore \<Rightarrow> ds4_kvstore" where
  "ds4_kvstore_close kc = closed_store"

section \<open>Lookup\<close>

definition ds4_kvstore_byte_prefix_match :: "bytes \<Rightarrow> bytes \<Rightarrow> bool" where
  "ds4_kvstore_byte_prefix_match text pre \<longleftrightarrow>
     length pre \<le> length text \<and> (length pre = 0 \<or> take (length pre) text = pre)"

definition entry_eligible :: "ds4_kvstore \<Rightarrow> bytes \<Rightarrow> int \<Rightarrow> int \<Rightarrow> int \<Rightarrow> ds4_kvstore_entry \<Rightarrow> bool" where
  "entry_eligible kc prompt_text model quant ctx e \<longleftrightarrow>
     \<not> unat (text_bytes e) > length prompt_text
     \<and> \<not> sint (tokens e) < min_tokens (opt kc)
     \<and> \<not> model_id e \<noteq> of_int model
     \<and> \<not> (of_int ctx :: u32) < ctx_size e
     \<and> \<not> (reject_different_quant kc \<and> quant_bits e \<noteq> of_int quant)"

definition entry_matches :: "bytes \<Rightarrow> ds4_kvstore_entry \<Rightarrow> bool" where
  "entry_matches prompt_text e \<longleftrightarrow>
     ds4_kvstore_sha1_bytes_hex (take (unat (text_bytes e)) prompt_text) = sha e"

text \<open>One iteration: the index of the best entry so far.\<close>

definition find_step ::
  "ds4_kvstore \<Rightarrow> bytes \<Rightarrow> int \<Rightarrow> int \<Rightarrow> int \<Rightarrow> ds4_kvstore_entry list \<Rightarrow> nat \<Rightarrow> nat option \<Rightarrow> nat option" where
  "find_step kc prompt_text model quant ctx es i best =
     (let e = es ! i
      in if \<not> entry_eligible kc prompt_text model quant ctx e then best
         else if (case best of
                    None \<Rightarrow> False
                  | Some b \<Rightarrow> text_bytes e < text_bytes (es ! b)
                              \<or> (text_bytes e = text_bytes (es ! b) \<and> tokens e \<le> tokens (es ! b)))
         then best
         else if entry_matches prompt_text e then Some i else best)"

definition ds4_kvstore_find_text_prefix ::
  "kv_env \<Rightarrow> disk \<Rightarrow> ds4_kvstore \<Rightarrow> bytes option \<Rightarrow> int \<Rightarrow> int \<Rightarrow> int \<Rightarrow> nat option \<times> ds4_kvstore" where
  "ds4_kvstore_find_text_prefix env d kc prompt_text model quant ctx =
     (case prompt_text of
        None \<Rightarrow> (None, kc)
      | Some text \<Rightarrow>
          let kc1 = kv_cache_refresh env d kc
          in (fold (find_step kc1 text model quant ctx (entry kc1)) [0..<length (entry kc1)] None, kc1))"

section \<open>Eviction keeps the budget\<close>

lemma fold_file_size: "fold (\<lambda>e s. s + file_size e) es s0 = s0 + sum_list (map file_size es)"
  by (induction es arbitrary: s0) (simp_all add: add.assoc)

abbreviation sizes :: "ds4_kvstore_entry list \<Rightarrow> nat" where
  "sizes es \<equiv> sum_list (map (\<lambda>e. unat (file_size e)) es)"

lemma unat_sum_sizes: "sizes es < 2 ^ 64 \<Longrightarrow> unat (sum_list (map file_size es)) = sizes es"
proof (induction es)
  case Nil
  show ?case by simp
next
  case (Cons e es)
  then have "unat (sum_list (map file_size es)) = sizes es" by simp
  then show ?case using Cons.prems by (simp add: unat_add_lem [THEN iffD1])
qed

text \<open>
  What the loop does when files can be removed: it removes entries one by one, each of least score
  among those left, until the rest fits.
\<close>

lemma sizes_remove: "v < length es \<Longrightarrow> sizes es = unat (file_size (es ! v)) + sizes (take v es @ drop (Suc v) es)"
proof -
  assume v: "v < length es"
  have "sizes es = sizes (take v es @ es ! v # drop (Suc v) es)"
    by (rule arg_cong [where f = sizes, OF id_take_nth_drop [OF v]])
  then show ?thesis by simp
qed

lemma set_remove: "v < length es \<Longrightarrow> set es = insert (es ! v) (set (take v es @ drop (Suc v) es))"
proof -
  assume v: "v < length es"
  have "set es = set (take v es @ es ! v # drop (Suc v) es)" by (rule arg_cong [OF id_take_nth_drop [OF v]])
  then show ?thesis by auto
qed

lemma evict_loop_budget:
  "\<forall>p. can_unlink env p \<Longrightarrow> unat tot = sizes es \<Longrightarrow> evict_loop env score target tot es d = (es', d') \<Longrightarrow>
    sizes es' \<le> unat target \<and> set es' \<subseteq> set es
    \<and> (\<forall>k \<in> set es'. \<forall>e \<in> set es - set es'. score e \<le> score k)
    \<and> (\<exists>gone. set gone \<subseteq> set es \<and> d' = fold (\<lambda>p d. fs_unlink d p) (map path gone) d \<and> set es = set gone \<union> set es')"
proof (induction env score target tot es d rule: evict_loop.induct)
  case (1 env score target tot es d)
  show ?case
  proof (cases "tot > target \<and> es \<noteq> []")
    case False
    have "evict_loop env score target tot es d = (es, d)"
      by (subst evict_loop.simps) (simp only: False if_False)
    then have "es' = es" "d' = d" using "1.prems"(3) by simp_all
    moreover have "sizes es \<le> unat target"
      using False "1.prems"(2) by (cases "es = []") (auto simp: not_less word_le_nat_alt)
    moreover have "set [] \<subseteq> set es \<and> d = fold (\<lambda>p d. fs_unlink d p) (map path []) d \<and> set es = set [] \<union> set es"
      by simp
    ultimately show ?thesis by blast
  next
    case True
    define v where "v = victim_scan score es (length es)"
    define e where "e = es ! v"
    define es1 where "es1 = take v es @ drop (v + 1) es"
    have v: "v < length es" using True victim_scan_bound v_def by simp
    have sz: "sizes es = unat (file_size e) + sizes es1" using sizes_remove [OF v] by (simp add: e_def es1_def)
    have st: "set es = insert e (set es1)" using set_remove [OF v] by (simp add: e_def es1_def)
    have least: "score e \<le> score k" if "k \<in> set es" for k
    proof -
      from that obtain i where i: "i < length es" "es ! i = k" by (auto simp: in_set_conv_nth)
      have "0 < length es" using i(1) by linarith
      note r = victim_scan_least [OF this, of score es, folded v_def, THEN conjunct2, rule_format, OF i(1)]
      then show ?thesis unfolding e_def i(2) by linarith
    qed
    have ge: "tot \<ge> file_size e" using "1.prems"(2) sz by (simp add: word_le_nat_alt)
    then have tot1: "unat (tot - file_size e) = sizes es1" using "1.prems"(2) sz by (simp add: unat_sub)
    have rec: "evict_loop env score target (if tot \<ge> file_size e then tot - file_size e else 0) es1 (fs_unlink d (path e)) = (es', d')"
      using "1.prems"(3) True "1.prems"(1)
      unfolding evict_loop.simps [of env score target tot es] Let_def v_def [symmetric] e_def [symmetric] es1_def [symmetric]
      by simp
    have un: "can_unlink env (path e)" using "1.prems"(1) by simp
    have "unat (if tot \<ge> file_size e then tot - file_size e else 0) = sizes es1" using tot1 ge by simp
    note IH = "1.IH"(1) [OF True v_def e_def es1_def un "1.prems"(1) this rec]
    from IH obtain gone where g: "set gone \<subseteq> set es1" "set es1 = set gone \<union> set es'"
      "d' = fold (\<lambda>p d. fs_unlink d p) (map path gone) (fs_unlink d (path e))" by blast
    have sc: "\<forall>k \<in> set es'. \<forall>e' \<in> set es1 - set es'. score e' \<le> score k" using IH by blast
    have sub: "set es' \<subseteq> set es1" using IH by blast
    have "\<forall>k \<in> set es'. \<forall>e' \<in> set es - set es'. score e' \<le> score k"
    proof (intro ballI)
      fix k e' assume k: "k \<in> set es'" and e': "e' \<in> set es - set es'"
      have "k \<in> set es" using k sub st by auto
      show "score e' \<le> score k"
      proof (cases "e' = e")
        case True
        then show ?thesis using least [OF \<open>k \<in> set es\<close>] by simp
      next
        case False
        then have "e' \<in> set es1 - set es'" using e' st by simp
        then show ?thesis using sc k by simp
      qed
    qed
    moreover have "set (e # gone) \<subseteq> set es \<and> d' = fold (\<lambda>p d. fs_unlink d p) (map path (e # gone)) d
        \<and> set es = set (e # gone) \<union> set es'"
      using g st by auto
    moreover have "set es' \<subseteq> set es" "sizes es' \<le> unat target" using IH st by auto
    ultimately show ?thesis by (intro conjI exI [of _ "e # gone"]) auto
  qed
qed


text \<open>A disk with one three-byte checkpoint, and a budget it exceeds.\<close>

definition demo_name :: string where "demo_name = replicate 40 (CHR ''a'') @ ''.kv''"

definition demo_file :: bytes where
  "demo_file = ds4_kvstore_fill_header 0 2 1 0 600 0 4096 7 7 3 @ ds4_kvstore_le_put32 0 @ [1, 2, 3]"

definition demo_disk :: disk where
  "demo_disk = [(''/kv/'' @ demo_name, demo_file), (''/kv/notes'', [9])]"

definition demo_env :: kv_env where
  "demo_env = \<lparr>now = 7, pid = 1, can_list = True, can_open = (\<lambda>_. True), can_create = (\<lambda>_. True),
     can_unlink = (\<lambda>_. True), can_rename = True, can_seek = True, written = (\<lambda>_. 1000)\<rparr>"

definition demo_entry :: ds4_kvstore_entry where
  "demo_entry = (header_entry 0 2 1 0 600 0 4096 7 7 3 0)\<lparr>sha := replicate 40 (CHR ''a''),
     path := ''/kv/'' @ demo_name, file_size := 55\<rparr>"

lemma demo_read_entry:
  "ds4_kvstore_read_entry_file demo_env demo_disk (''/kv/'' @ demo_name) s = Some (demo_entry\<lparr>sha := s\<rparr>)"
proof -
  have "length demo_file = 55" by (simp add: demo_file_def kv_field_simps)
  moreover have "ds4_kvstore_read_header demo_file = Some (header_entry 0 2 1 0 600 0 4096 7 7 3 0, 0, [1, 2, 3])"
    unfolding demo_file_def by (rule read_fill_header) simp_all
  moreover have "fs_lookup demo_disk (''/kv/'' @ demo_name) = Some demo_file" by (simp add: fs_lookup_def demo_disk_def)
  ultimately show ?thesis
    by (simp add: ds4_kvstore_read_entry_file_def fs_open_def demo_env_def demo_entry_def header_entry_def)
qed

lemma demo_readdir: "fs_readdir demo_disk ''/kv'' = [demo_name, ''notes'']"
  by (simp add: fs_readdir_def ds4_kvstore_path_join_def demo_disk_def demo_name_def)

lemma demo_sha_name: "ds4_kvstore_sha_hex_name demo_name = Some (replicate 40 (CHR ''a''))"
  unfolding demo_name_def
  by (rule sha_hex_name_own) (simp add: lower_hex_def list_all_iff c_isxdigit_def c_tolower_def)

lemma demo_scan: "kv_scan demo_env demo_disk ''/kv'' = [demo_entry]"
proof -
  have "ds4_kvstore_path_join ''/kv'' demo_name = ''/kv/'' @ demo_name" by (simp add: ds4_kvstore_path_join_def)
  moreover have "ds4_kvstore_sha_hex_name ''notes'' = None" by (simp add: ds4_kvstore_sha_hex_name_def)
  moreover have "demo_entry\<lparr>sha := replicate 40 (CHR ''a'')\<rparr> = demo_entry" by (simp add: demo_entry_def)
  ultimately show ?thesis
    using demo_read_entry [of "replicate 40 (CHR ''a'')"]
    by (simp add: kv_scan_def demo_readdir demo_sha_name)
qed

lemma demo_refresh: "kv_cache_refresh demo_env demo_disk demo_store = demo_store\<lparr>entry := [demo_entry]\<rparr>"
proof -
  have "enabled demo_store" "can_list demo_env" "dir demo_store = ''/kv''"
    by (simp_all add: demo_store_def demo_env_def)
  then show ?thesis by (simp add: refresh_scan demo_scan)
qed

definition demo_small :: ds4_kvstore where
  "demo_small = demo_store\<lparr>budget_bytes := 54\<rparr>"

lemma demo_small_refresh: "kv_cache_refresh demo_env demo_disk demo_small = demo_small\<lparr>entry := [demo_entry]\<rparr>"
proof -
  have "enabled demo_small" "can_list demo_env" "dir demo_small = ''/kv''"
    by (simp_all add: demo_small_def demo_store_def demo_env_def)
  then show ?thesis by (simp add: refresh_scan demo_scan)
qed

lemma demo_small_evict:
  "ds4_kvstore_evict demo_env demo_small 0 None demo_disk = (demo_small\<lparr>entry := []\<rparr>, fs_unlink demo_disk (path demo_entry))"
proof -
  have "victim_scan sc [demo_entry] (Suc 0) = 0" for sc by (rule victim_scan_one)
  moreover have "file_size demo_entry = 55" "can_unlink demo_env p" for p
    by (simp_all add: demo_entry_def demo_env_def)
  ultimately have "evict_loop demo_env sc 54 55 [demo_entry] demo_disk = ([], fs_unlink demo_disk (path demo_entry))" for sc
    by (simp add: evict_loop.simps [of _ _ _ 55] evict_loop.simps [of _ _ _ 0] Let_def)
  then show ?thesis
    by (simp add: ds4_kvstore_evict_def demo_small_refresh Let_def) (simp add: demo_small_def demo_store_def demo_entry_def)
qed


section \<open>The lookup finds the longest usable prefix\<close>

definition better :: "ds4_kvstore_entry \<Rightarrow> ds4_kvstore_entry \<Rightarrow> bool" where
  "better a b \<longleftrightarrow> text_bytes b < text_bytes a \<or> (text_bytes b = text_bytes a \<and> tokens b < tokens a)"

definition entry_usable :: "ds4_kvstore \<Rightarrow> bytes \<Rightarrow> int \<Rightarrow> int \<Rightarrow> int \<Rightarrow> ds4_kvstore_entry \<Rightarrow> bool" where
  "entry_usable kc text m q c e \<longleftrightarrow> entry_eligible kc text m q c e \<and> entry_matches text e"

lemma find_step_best:
  "case fold (find_step kc text m q c es) [0..<n] None of
      None \<Rightarrow> \<forall>i < n. \<not> entry_usable kc text m q c (es ! i)
    | Some b \<Rightarrow> b < n \<and> entry_usable kc text m q c (es ! b) \<and> (\<forall>i < n. entry_usable kc text m q c (es ! i) \<longrightarrow> \<not> better (es ! i) (es ! b))"
proof (induction n)
  case 0
  show ?case by simp
next
  case (Suc n)
  define r where "r = fold (find_step kc text m q c es) [0..<n] None"
  have step: "fold (find_step kc text m q c es) [0..<Suc n] None = find_step kc text m q c es n r" by (simp add: r_def)
  note IH = Suc [folded r_def]
  show ?case
  proof (cases r)
    case None
    then show ?thesis unfolding step using IH
      by (auto simp: find_step_def entry_usable_def better_def less_Suc_eq Let_def)
  next
    case (Some b)
    then show ?thesis unfolding step using IH
      by (auto simp: find_step_def entry_usable_def better_def less_Suc_eq Let_def)
  qed
qed

text \<open>
  The lookup is a longest-prefix search: it returns an entry of the refreshed index whose hash is the
  hash of that many leading bytes of the prompt and which this model, context and quantisation may load, and no
  other such entry has a longer text or the same text with more tokens; it returns nothing only when there is no
  such entry.
\<close>

lemma kv_find_longest_prefix:
  assumes "ds4_kvstore_find_text_prefix env d kc (Some text) m q c = (r, kc1)"
  shows "case r of
      None \<Rightarrow> \<not> (\<exists>e \<in> set (entry kc1). entry_usable kc1 text m q c e)
    | Some b \<Rightarrow> b < length (entry kc1) \<and> entry_usable kc1 text m q c (entry kc1 ! b)
        \<and> \<not> (\<exists>e \<in> set (entry kc1). entry_usable kc1 text m q c e \<and> better e (entry kc1 ! b))"
proof -
  have r: "r = fold (find_step kc1 text m q c (entry kc1)) [0..<length (entry kc1)] None"
    using assms by (auto simp: ds4_kvstore_find_text_prefix_def Let_def)
  show ?thesis
    using find_step_best [where kc = kc1 and ?text = "text" and m = m and q = q and c = c and es = "entry kc1" and n = "length (entry kc1)"]
    unfolding r [symmetric] by (cases r) (auto simp: in_set_conv_nth)
qed

section \<open>Scores\<close>

lemma effective_hits_nonneg: "0 \<le> effective_hits e t"
  by (simp add: effective_hits_def Let_def del: of_nat_unat)

text \<open>
  A continued checkpoint that the incoming store extends becomes a cheap victim but keeps the value of
  recent hits: its score drops to between one twentieth and one half of what it was, and it stays at one
  twentieth exactly when its hits have decayed away.
\<close>

lemma kv_score_superseded:
  assumes "kv_cache_incoming_supersedes_continued e incoming" and "file_size e \<noteq> 0" and "tokens e \<noteq> 0"
    and "ds4_kvstore_entry_eviction_score e t None = s"
  shows "0 < s \<and> s / 20 \<le> ds4_kvstore_entry_eviction_score e t incoming
    \<and> ds4_kvstore_entry_eviction_score e t incoming < s / 2
    \<and> (ds4_kvstore_entry_eviction_score e t incoming = s / 20 \<longleftrightarrow> effective_hits e t = 0)"
proof -
  define eh where "eh = effective_hits e t"
  define h where "h = (if eh > 0 then eh / (eh + 1) else 0)"
  have eh: "0 \<le> eh" by (simp add: eh_def effective_hits_nonneg)
  have h: "0 \<le> h" "h < 1" "h = 0 \<longleftrightarrow> eh = 0" using eh by (auto simp: h_def)
  have none: "\<not> kv_cache_incoming_supersedes_continued e None"
    by (simp add: kv_cache_incoming_supersedes_continued_def)
  have "0 < unat (tokens e)" "0 < unat (file_size e)"
    using assms(2,3) by (simp_all add: unat_gt_0)
  moreover define s0 where "s0 = (eh + 1) * real (unat (tokens e)) / real (unat (file_size e))"
  ultimately have "0 < s0" using eh by (simp del: of_nat_unat)
  moreover have "s = (if kv_cache_reason_is_anchor (reason e) then s0 * 2 else s0)"
    using assms(2,4) none
    unfolding ds4_kvstore_entry_eviction_score_def Let_def eh_def [symmetric] s0_def [symmetric] by simp
  ultimately have pos: "0 < s" by simp
  have sc: "ds4_kvstore_entry_eviction_score e t incoming = s * (5 / 100 + 45 / 100 * h)"
    using assms none
    by (auto simp: ds4_kvstore_entry_eviction_score_def Let_def eh_def [symmetric] h_def [symmetric] split: if_splits)
  have "s * (5 / 100) \<le> s * (5 / 100 + 45 / 100 * h)" "s * (5 / 100 + 45 / 100 * h) < s * (1 / 2)"
    using pos h by simp_all
  moreover have "s * (5 / 100 + 45 / 100 * h) = s / 20 \<longleftrightarrow> h = 0" using pos by (auto simp: field_simps)
  ultimately show ?thesis using pos h(3) by (simp add: sc eh_def)
qed

definition demo_waypoint :: ds4_kvstore_entry where
  "demo_waypoint = demo_entry\<lparr>reason := DS4_KVSTORE_REASON_CONTINUED, text_bytes := 1, hits := 3,
     sha := ds4_kvstore_sha1_bytes_hex [104]\<rparr>"

definition demo_incoming :: ds4_kvstore_eviction_context where
  "demo_incoming = \<lparr>inc_text = Some [104, 105], inc_model_id = 0, inc_quant_bits = 2, inc_ctx_size = 4096,
     inc_reject_different_quant = False\<rparr>"

end
