(* ===== verification/Kv_Store.thy ===== *)
theory Kv_Store
  imports Kv_Disk
begin

text \<open>
  Storing the live session as a checkpoint and loading one for a prompt (\<open>ds4_kvstore.c\<close>). The
  inference engine and the session are parameters: a record of the functions the store calls. The
  trailer hooks are optional functions, as in the code. Log lines are not modelled.
\<close>

section \<open>Engine, session and hooks\<close>

record 's ds4_api =
  routed_quant_bits :: int
  engine_model_id :: int
  token_text :: "int \<Rightarrow> bytes"
  tokenize_rendered_chat :: "bytes \<Rightarrow> int list"
  session_tokens :: "'s \<Rightarrow> int list option"
  session_ctx :: "'s \<Rightarrow> int"
  stage_payload :: "'s \<Rightarrow> string + bytes"
  load_payload :: "'s \<Rightarrow> bytes \<Rightarrow> u64 \<Rightarrow> string option \<times> 's \<times> bytes"
  session_invalidate :: "'s \<Rightarrow> 's"

text \<open>A writer gives whether it succeeded and the bytes it wrote; a reader updates the owner's data.\<close>

record 'u ds4_kvstore_trailer_hooks =
  ext_flag :: u8
  serialized_size :: "(bytes \<Rightarrow> bool \<times> u64) option"
  hook_write :: "(bytes \<Rightarrow> bool \<times> bytes) option"
  hook_load :: "('u \<Rightarrow> bytes \<Rightarrow> 'u) option"

section \<open>Tokens and text\<close>

definition ds4_kvstore_render_tokens_text :: "'s ds4_api \<Rightarrow> int list \<Rightarrow> bytes" where
  "ds4_kvstore_render_tokens_text api toks = concat (map (token_text api) toks)"

definition ds4_kvstore_tokens_copy_prefix :: "int list option \<Rightarrow> int \<Rightarrow> int list" where
  "ds4_kvstore_tokens_copy_prefix src n = (case src of None \<Rightarrow> [] | Some v \<Rightarrow> take (nat (min n (int (length v)))) v)"

definition tokens_append :: "int list \<Rightarrow> int list \<Rightarrow> int list" where
  "tokens_append dst src = dst @ src"

definition ds4_kvstore_build_prompt_from_exact_prefix_and_text_suffix ::
  "'s ds4_api \<Rightarrow> int list \<Rightarrow> bytes option \<Rightarrow> int list" where
  "ds4_kvstore_build_prompt_from_exact_prefix_and_text_suffix api exact_prefix suffix_text =
     tokens_append exact_prefix
       (tokenize_rendered_chat api (case suffix_text of None \<Rightarrow> [] | Some t \<Rightarrow> t))"

section \<open>Existing files and trailers\<close>

definition kv_cache_file_text_matches :: "kv_env \<Rightarrow> disk \<Rightarrow> string \<Rightarrow> string \<Rightarrow> bytes \<Rightarrow> bool" where
  "kv_cache_file_text_matches env d p s text =
     (if length text > UINT32_MAX then False
      else case fs_open env d p of
        None \<Rightarrow> False
      | Some fp \<Rightarrow>
          (case ds4_kvstore_read_header fp of
             None \<Rightarrow> False
           | Some (_, tb, rest) \<Rightarrow>
               if tb \<noteq> of_nat (length text) then False
               else let stored = take (unat tb) rest
                    in if length stored \<noteq> unat tb then False
                       else ds4_kvstore_sha1_bytes_hex stored = s \<and> (length text = 0 \<or> stored = text)))"

definition kv_cache_existing_compatible ::
  "kv_env \<Rightarrow> disk \<Rightarrow> ds4_kvstore \<Rightarrow> string \<Rightarrow> string \<Rightarrow> bytes \<Rightarrow> int \<Rightarrow> int \<Rightarrow> int \<Rightarrow> bool \<times> disk" where
  "kv_cache_existing_compatible env d kc p s text model quant ctx =
     (if fs_lookup d p = None then (False, d)
      else case ds4_kvstore_read_entry_file env d p s of
        None \<Rightarrow> (False, d)
      | Some e \<Rightarrow>
          if model_id e = of_int model
             \<and> (\<not> reject_different_quant kc \<or> quant_bits e = of_int quant)
             \<and> ctx_size e \<le> of_int ctx
             \<and> kv_cache_file_text_matches env d p s text
          then (True, d)
          else (False, if can_unlink env p then fs_unlink d p else d))"

definition kv_trailer_serialized_size :: "'u ds4_kvstore_trailer_hooks option \<Rightarrow> bytes \<Rightarrow> bool \<times> u64" where
  "kv_trailer_serialized_size hooks text =
     (case hooks of
        None \<Rightarrow> (True, 0)
      | Some h \<Rightarrow> (case serialized_size h of None \<Rightarrow> (True, 0) | Some f \<Rightarrow> f text))"

definition kv_trailer_write :: "'u ds4_kvstore_trailer_hooks option \<Rightarrow> bytes \<Rightarrow> bool \<times> bytes" where
  "kv_trailer_write hooks text =
     (case hooks of
        None \<Rightarrow> (True, [])
      | Some h \<Rightarrow> (case hook_write h of None \<Rightarrow> (True, []) | Some f \<Rightarrow> f text))"

text \<open>
  Truncate after the payload, write the trailer, then set its flag and the time in the header. A
  write that is cut short leaves what reached the file.
\<close>

definition kv_cache_rewrite_trailer ::
  "kv_env \<Rightarrow> disk \<Rightarrow> string \<Rightarrow> bytes \<Rightarrow> 'u ds4_kvstore_trailer_hooks option \<Rightarrow> disk" where
  "kv_cache_rewrite_trailer env d p text hooks =
     (case hooks of
        None \<Rightarrow> d
      | Some hk \<Rightarrow>
          if hook_write hk = None \<or> serialized_size hk = None
             \<or> \<not> fst (kv_trailer_serialized_size hooks text)
             \<or> snd (kv_trailer_serialized_size hooks text) = 0
          then d
          else case fs_open env d p of
            None \<Rightarrow> d
          | Some fp \<Rightarrow>
              (case ds4_kvstore_read_header fp of
                 None \<Rightarrow> d
               | Some (hdr, tb, _) \<Rightarrow>
                   let fin = (52 + ucast tb + payload_bytes hdr :: u64)
                   in if \<not> (fin \<le> of_nat INT64_MAX \<and> can_seek env) then d
                      else let base = take (unat fin) fp @ replicate (unat fin - length fp) 0;
                               (ok, trailer) = kv_trailer_write hooks text;
                               k = min (written env p) (length trailer);
                               body = base @ take k trailer;
                               d1 = fs_write d p body
                           in if ok \<and> k = length trailer \<and> trailer \<noteq> []
                              then snd (fs_overwrite env d1 p body
                                     (ds4_kvstore_fill_header (model_id hdr) (quant_bits hdr) (reason hdr)
                                        (ext_flags hdr OR ext_flag hk) (tokens hdr) (hits hdr) (ctx_size hdr)
                                        (created_at hdr) (now env) (payload_bytes hdr)))
                              else d1))"

section \<open>Storing\<close>

definition kv_tmp_name :: "kv_env \<Rightarrow> string \<Rightarrow> string" where
  "kv_tmp_name env p = p @ ''.tmp.'' @ show_nat (pid env)"

text \<open>The bytes of a checkpoint file.\<close>

definition kv_file_bytes ::
  "kv_env \<Rightarrow> 's ds4_api \<Rightarrow> 's \<Rightarrow> u8 \<Rightarrow> u8 \<Rightarrow> nat \<Rightarrow> bytes \<Rightarrow> bytes \<Rightarrow> bytes \<Rightarrow> bytes" where
  "kv_file_bytes env api ses why ext n text payload trailer =
     ds4_kvstore_fill_header (of_int (engine_model_id api)) (of_int (routed_quant_bits api)) why ext
       (of_nat n) 0 (of_int (session_ctx api ses)) (now env) (now env) (of_nat (length payload))
     @ ds4_kvstore_le_put32 (of_nat (length text)) @ text @ payload @ trailer"

text \<open>
  Writing the temporary file and publishing it: success, whether the final size check failed, and
  the disk. A failure removes the temporary file.
\<close>

definition kv_write_and_rename ::
  "kv_env \<Rightarrow> ds4_kvstore \<Rightarrow> string \<Rightarrow> string \<Rightarrow> bytes \<Rightarrow> nat \<Rightarrow> nat \<Rightarrow> bool \<Rightarrow> nat \<Rightarrow> disk \<Rightarrow> bool \<times> disk" where
  "kv_write_and_rename env kc tmp p file text_len payload_len trailer_ok trailer_len d =
     (let k = min (written env tmp) (length file);
          d1 = fs_write d tmp (take k file);
          ok1 = (k = length file \<and> trailer_ok);
          ok2 = (ok1 \<and> fst (ds4_kvstore_file_size_fits (Some kc) (of_nat text_len) (of_nat payload_len) (of_nat trailer_len)));
          ok3 = (ok2 \<and> can_rename env)
      in if ok3 then (True, fs_rename d1 tmp p)
         else (False, if can_unlink env tmp then fs_unlink d1 tmp else d1))"

definition ds4_kvstore_store_live_prefix_text ::
  "kv_env \<Rightarrow> 's ds4_api \<Rightarrow> ds4_kvstore \<Rightarrow> 's \<Rightarrow> int list option \<Rightarrow> int \<Rightarrow> string option \<Rightarrow> bytes option \<Rightarrow> u8
   \<Rightarrow> 'u ds4_kvstore_trailer_hooks option \<Rightarrow> disk \<Rightarrow> bool \<times> ds4_kvstore \<times> disk" where
  "ds4_kvstore_store_live_prefix_text env api kc ses toks store_len why cache_text_override cache_text_ext hooks d =
     (if \<not> enabled kc then (False, kc, d)
      else if toks = None \<or> store_len < min_tokens (opt kc) then (False, kc, d)
      else
        let store_tokens = ds4_kvstore_tokens_copy_prefix toks store_len;
            quant = routed_quant_bits api;
            model = engine_model_id api
        in if quant \<noteq> 2 \<and> quant \<noteq> 4 then (False, kc, d)
           else if session_tokens api ses = None \<or> the (session_tokens api ses) \<noteq> store_tokens then (False, kc, d)
           else
             let text_override = (case cache_text_override of None \<Rightarrow> False | Some t \<Rightarrow> t \<noteq> []);
                 text = (if text_override then the cache_text_override
                         else ds4_kvstore_render_tokens_text api store_tokens)
             in if length text > UINT32_MAX then (False, kc, d)
                else case kv_trailer_serialized_size hooks text of
                  (size_ok, trailer_est) \<Rightarrow>
                    if \<not> size_ok then (False, kc, d)
                    else
                      let s = ds4_kvstore_sha1_bytes_hex text;
                          p = ds4_kvstore_path_for_sha (dir kc) s;
                          why_code = ds4_kvstore_reason_code why
                      in (case kv_cache_existing_compatible env d kc p s text model quant (session_ctx api ses) of
                           (True, d1) \<Rightarrow> (True, kc, kv_cache_rewrite_trailer env d1 p text hooks)
                         | (False, d1) \<Rightarrow>
                             (case stage_payload api ses of
                                Inl _ \<Rightarrow> (False, kc, d1)
                              | Inr payload \<Rightarrow>
                                  (case ds4_kvstore_file_size_fits (Some kc) (of_nat (length text))
                                          (of_nat (length payload)) trailer_est of
                                     (fits, est_file_bytes, _) \<Rightarrow>
                                       if \<not> fits then (False, kc, d1)
                                       else
                                         let incoming = \<lparr>inc_text = Some text, inc_model_id = of_int model,
                                               inc_quant_bits = of_int quant, inc_ctx_size = of_int (session_ctx api ses),
                                               inc_reject_different_quant = reject_different_quant kc\<rparr>
                                         in (case ds4_kvstore_evict env kc est_file_bytes (Some incoming) d1 of
                                              (kc2, d2) \<Rightarrow>
                                                let tmp = kv_tmp_name env p
                                                in if \<not> can_create env tmp then (False, kc2, d2)
                                                   else
                                                     let ext0 = (if trailer_est > 0 then (case hooks of Some h \<Rightarrow> ext_flag h | None \<Rightarrow> 0) else 0);
                                                         ext = (if text_override then ext0 OR cache_text_ext else ext0);
                                                         (tr_ok, trailer) = kv_trailer_write hooks text;
                                                         (ok, d3) = kv_write_and_rename env kc2 tmp p
                                                           (kv_file_bytes env api ses why_code ext (length store_tokens) text payload trailer)
                                                           (length text) (length payload) tr_ok (length trailer) d2
                                                     in (ok, kc2, d3))))))"

definition ds4_kvstore_store_live_prefix ::
  "kv_env \<Rightarrow> 's ds4_api \<Rightarrow> ds4_kvstore \<Rightarrow> 's \<Rightarrow> int list option \<Rightarrow> int \<Rightarrow> string option
   \<Rightarrow> 'u ds4_kvstore_trailer_hooks option \<Rightarrow> disk \<Rightarrow> bool \<times> ds4_kvstore \<times> disk" where
  "ds4_kvstore_store_live_prefix env api kc ses toks store_len why hooks d =
     ds4_kvstore_store_live_prefix_text env api kc ses toks store_len why None 0 hooks d"

definition ds4_kvstore_maybe_store_continued ::
  "kv_env \<Rightarrow> 's ds4_api \<Rightarrow> ds4_kvstore \<Rightarrow> 's \<Rightarrow> 'u ds4_kvstore_trailer_hooks option \<Rightarrow> disk \<Rightarrow> bool \<times> ds4_kvstore \<times> disk" where
  "ds4_kvstore_maybe_store_continued env api kc ses hooks d =
     (case session_tokens api ses of
        None \<Rightarrow> (False, kc, d)
      | Some toks \<Rightarrow>
          let target = ds4_kvstore_continued_store_target kc (int (length toks))
          in if target = 0 then (False, kc, d)
             else (case ds4_kvstore_store_live_prefix env api kc ses (Some toks) target (Some ''continued'') hooks d of
                     (True, kc1, d1) \<Rightarrow> (True, ds4_kvstore_note_store kc1 target, d1)
                   | (False, kc1, d1) \<Rightarrow> (False, kc1, d1)))"

section \<open>Loading\<close>

record ds4_kvstore_load_result =
  res_tokens :: int
  res_text_bytes :: u32
  res_quant_bits :: u8
  res_ext_flags :: u8
  res_path :: string

text \<open>The checks on the opened file: the header, the text length and the unread stream, or why not.\<close>

definition kv_load_check ::
  "bytes \<Rightarrow> bytes \<Rightarrow> int \<Rightarrow> string \<Rightarrow> string + (ds4_kvstore_entry \<times> u32 \<times> bytes)" where
  "kv_load_check fp prompt_text model s =
     (case ds4_kvstore_read_header fp of
        None \<Rightarrow> Inl ''invalid header''
      | Some (hdr, tb, rest) \<Rightarrow>
          if model_id hdr \<noteq> of_int model then Inl ''cached checkpoint was written for a different model''
          else if unat tb > length prompt_text then Inl ''cached text is longer than prompt''
          else if length (take (unat tb) rest) \<noteq> unat tb then Inl ''truncated cached text''
          else if ds4_kvstore_sha1_bytes_hex (take (unat tb) rest) \<noteq> s then Inl ''cached text hash mismatch''
          else if \<not> ds4_kvstore_byte_prefix_match prompt_text (take (unat tb) rest) then Inl ''cached text prefix mismatch''
          else Inr (hdr, tb, drop (unat tb) rest))"

record ('s, 'u) kv_load_state =
  ld_loaded :: int
  ld_prompt :: "int list"
  ld_result :: "ds4_kvstore_load_result option"
  ld_session :: 's
  ld_store :: ds4_kvstore
  ld_disk :: disk
  ld_hook :: 'u

definition ds4_kvstore_try_load_text ::
  "kv_env \<Rightarrow> 's ds4_api \<Rightarrow> ds4_kvstore \<Rightarrow> 's \<Rightarrow> bytes option \<Rightarrow> 'u ds4_kvstore_trailer_hooks option \<Rightarrow> 'u \<Rightarrow> disk
   \<Rightarrow> ('s, 'u) kv_load_state" where
  "ds4_kvstore_try_load_text env api kc ses prompt_text hooks ud d =
     (let miss = (\<lambda>k. \<lparr>ld_loaded = 0, ld_prompt = [], ld_result = None, ld_session = ses, ld_store = k,
                       ld_disk = d, ld_hook = ud\<rparr>)
      in if \<not> enabled kc \<or> prompt_text = None then miss kc
         else if routed_quant_bits api \<noteq> 2 \<and> routed_quant_bits api \<noteq> 4 then miss kc
         else
           let text = the prompt_text; model = engine_model_id api
           in (case ds4_kvstore_find_text_prefix env d kc prompt_text model (routed_quant_bits api) (session_ctx api ses) of
                (None, kc1) \<Rightarrow> miss kc1
              | (Some idx, kc1) \<Rightarrow>
                  let e = entry kc1 ! idx; p = path e
                  in (case fs_open env d p of
                        None \<Rightarrow> miss kc1
                      | Some fp \<Rightarrow>
                          (case kv_load_check fp text model (sha e) of
                             Inl _ \<Rightarrow> miss kc1
                           | Inr (hdr, tb, stream) \<Rightarrow>
                               (case load_payload api ses stream (payload_bytes hdr) of
                                  (Some _, ses1, _) \<Rightarrow> (miss kc1)\<lparr>ld_session := session_invalidate api ses1\<rparr>
                                | (None, ses1, stream1) \<Rightarrow>
                                    if (case session_tokens api ses1 of None \<Rightarrow> False
                                        | Some t \<Rightarrow> int (length t) = sint (tokens hdr))
                                    then
                                      let loaded = sint (tokens hdr);
                                          prompt = ds4_kvstore_build_prompt_from_exact_prefix_and_text_suffix api
                                            (the (session_tokens api ses1)) (Some (drop (unat tb) text));
                                          ud1 = (case hooks of
                                                   None \<Rightarrow> ud
                                                 | Some h \<Rightarrow> (case hook_load h of
                                                               None \<Rightarrow> ud
                                                             | Some f \<Rightarrow> if ext_flags hdr AND ext_flag h \<noteq> 0 then f ud stream1 else ud))
                                      in if loaded > 0
                                         then \<lparr>ld_loaded = loaded, ld_prompt = prompt,
                                               ld_result = Some \<lparr>res_tokens = loaded, res_text_bytes = tb,
                                                 res_quant_bits = quant_bits hdr, res_ext_flags = ext_flags hdr, res_path = p\<rparr>,
                                               ld_session = ses1,
                                               ld_store = kc1\<lparr>continued_last_store_tokens := loaded\<rparr>,
                                               ld_disk = snd (ds4_kvstore_touch_file env d p (hits hdr + 1)),
                                               ld_hook = ud1\<rparr>
                                         else (miss kc1)\<lparr>ld_loaded := loaded, ld_prompt := prompt, ld_session := ses1, ld_hook := ud1\<rparr>
                                    else (miss kc1)\<lparr>ld_session := session_invalidate api ses1,
                                           ld_disk := if can_unlink env p then fs_unlink d p else d\<rparr>)))))"

section \<open>What storing does to the files\<close>

lemma evict_loop_only_removes:
  "evict_loop env score target tot es d = (es', d') \<Longrightarrow> fs_lookup d' q = fs_lookup d q \<or> fs_lookup d' q = None"
proof (induction env score target tot es d rule: evict_loop.induct)
  case (1 env score target tot es d)
  show ?case
  proof (cases "tot > target \<and> es \<noteq> []")
    case False
    have "evict_loop env score target tot es d = (es, d)" by (subst evict_loop.simps) (simp only: False if_False)
    with 1 show ?thesis by simp
  next
    case True
    define v where "v = victim_scan score es (length es)"
    define e where "e = es ! v"
    define es1 where "es1 = take v es @ drop (v + 1) es"
    have rec: "(if can_unlink env (path e)
        then evict_loop env score target (if tot \<ge> file_size e then tot - file_size e else 0) es1 (fs_unlink d (path e))
        else evict_loop env score target 0 es1 d) = (es', d')"
      using "1.prems" True
      unfolding evict_loop.simps [of env score target tot es] Let_def v_def [symmetric] e_def [symmetric] es1_def [symmetric]
      by simp
    show ?thesis
    proof (cases "can_unlink env (path e)")
      case un: True
      with rec "1.IH"(1) [OF True v_def e_def es1_def un] show ?thesis by (auto simp: fs.look_remove split: if_splits)
    next
      case un: False
      with rec "1.IH"(2) [OF True v_def e_def es1_def un] show ?thesis by simp
    qed
  qed
qed

lemma evict_only_removes:
  "ds4_kvstore_evict env kc extra incoming d = (kc', d') \<Longrightarrow>
   (fs_lookup d' q = fs_lookup d q \<or> fs_lookup d' q = None) \<and> budget_bytes kc' = budget_bytes kc \<and> dir kc' = dir kc"
proof -
  assume a: "ds4_kvstore_evict env kc extra incoming d = (kc', d')"
  have push: "budget_bytes (kv_cache_push k e) = budget_bytes k" "dir (kv_cache_push k e) = dir k" for k e
    by (simp_all add: kv_cache_push_def)
  have fd: "budget_bytes (fold (\<lambda>name k. case f name of None \<Rightarrow> k | Some s \<Rightarrow> (case g name s of None \<Rightarrow> k | Some e \<Rightarrow> kv_cache_push k e)) names k0) = budget_bytes k0
      \<and> dir (fold (\<lambda>name k. case f name of None \<Rightarrow> k | Some s \<Rightarrow> (case g name s of None \<Rightarrow> k | Some e \<Rightarrow> kv_cache_push k e)) names k0) = dir k0"
    for f :: "string \<Rightarrow> string option" and g names and k0 :: ds4_kvstore
    by (induction names arbitrary: k0) (auto simp: push split: option.splits)
  have "budget_bytes (kv_cache_refresh env d kc) = budget_bytes kc \<and> dir (kv_cache_refresh env d kc) = dir kc"
    by (simp add: kv_cache_refresh_def Let_def fd ds4_kvstore_clear_def)
  with a show ?thesis
    by (auto simp: ds4_kvstore_evict_def Let_def dest: evict_loop_only_removes split: if_splits prod.splits)
qed

lemma tmp_neq: "kv_tmp_name env p \<noteq> p"
  by (simp add: kv_tmp_name_def)

lemma write_and_rename:
  assumes "kv_write_and_rename env kc tmp p file a b tr c d = (ok, d')" and "tmp \<noteq> p"
  shows "(if ok then tr \<and> fs_lookup d' p = Some file else fs_lookup d' p = fs_lookup d p)
    \<and> (\<forall>q. q \<noteq> p \<and> q \<noteq> tmp \<longrightarrow> fs_lookup d' q = fs_lookup d q)"
  using assms
  by (auto simp: kv_write_and_rename_def Let_def fs_rename_def fs.look_put fs.look_remove split: if_splits)

text \<open>
  (C25) A checkpoint appears under its name complete or not at all. Storing under a name that is not on disk
  either reports success, and then the name holds exactly the header, the text length, the rendered text, the
  staged payload and the trailer of the live session, or reports failure, and then the name is still absent.
  Every other file except the temporary one is unchanged or, if eviction took it, removed.
\<close>

theorem kv_store_all_or_nothing:
  assumes "fs_lookup d p = None" and "stored = ds4_kvstore_tokens_copy_prefix (Some toks) n"
    and "text = ds4_kvstore_render_tokens_text api stored"
    and "p = ds4_kvstore_path_for_sha (dir kc) (ds4_kvstore_sha1_bytes_hex text)"
    and "ds4_kvstore_store_live_prefix env api kc ses (Some toks) n why hooks d = (ok, kc', d')"
  shows "(if ok
          then session_tokens api ses = Some stored \<and>
            (\<exists>payload trailer ext. stage_payload api ses = Inr payload \<and> kv_trailer_write hooks text = (True, trailer)
              \<and> fs_lookup d' p = Some (kv_file_bytes env api ses (ds4_kvstore_reason_code why) ext (length stored) text payload trailer))
          else fs_lookup d' p = None)
    \<and> (\<forall>q. q \<noteq> p \<and> q \<noteq> kv_tmp_name env p \<longrightarrow> fs_lookup d' q = fs_lookup d q \<or> fs_lookup d' q = None)"
proof -
  have nc: "kv_cache_existing_compatible env d kc p s text m q c = (False, d)" for s m q c
    using assms(1) by (simp add: kv_cache_existing_compatible_def)

  consider (fail) "ok = False" "d' = d" | (evicted) kc2 x i where "ok = False" "ds4_kvstore_evict env kc x i d = (kc2, d')"
    | (wrote) kc2 x i d2 ext tr payload trailer where "ds4_kvstore_evict env kc x i d = (kc2, d2)"
        "session_tokens api ses = Some stored" "stage_payload api ses = Inr payload"
        "kv_trailer_write hooks text = (tr, trailer)"
        "kv_write_and_rename env kc2 (kv_tmp_name env p) p
           (kv_file_bytes env api ses (ds4_kvstore_reason_code why) ext (length stored) text payload trailer)
           (length text) (length payload) tr (length trailer) d2 = (ok, d')"
    using assms(5)
    unfolding ds4_kvstore_store_live_prefix_def ds4_kvstore_store_live_prefix_text_def
      assms(2) [symmetric] Let_def if_False option.simps assms(3) [symmetric] assms(4) [symmetric] nc
    by (auto split: if_splits prod.splits sum.splits option.splits)
  then show ?thesis
  proof cases
    case fail
    then show ?thesis using assms(1) by simp
  next
    case (evicted kc2 x i)
    then show ?thesis
      using evict_only_removes [OF evicted(2)] evict_only_removes [OF evicted(2), of p] assms(1) by simp
  next
    case (wrote kc2 x i d2 ext tr payload trailer)
    note ev = evict_only_removes [OF wrote(1)]
    note wr = write_and_rename [OF wrote(5) tmp_neq]
    have "fs_lookup d2 p = None" using ev assms(1) by metis
    then show ?thesis using ev wr wrote(2,3,4) by (cases ok) auto
  qed
qed

text \<open>A session that is its token list, with one byte per token in the payload.\<close>

definition demo_api :: "int list ds4_api" where
  "demo_api = \<lparr>routed_quant_bits = 2, engine_model_id = 0, token_text = (\<lambda>t. [of_int t]),
     tokenize_rendered_chat = map uint, session_tokens = Some, session_ctx = (\<lambda>_. 4096),
     stage_payload = (\<lambda>s. Inr (map of_int s)),
     load_payload = (\<lambda>_ st n. (None, map uint (take (unat n) st), drop (unat n) st)),
     session_invalidate = (\<lambda>_. [])\<rparr>"

definition demo_kc :: ds4_kvstore where
  "demo_kc = demo_store\<lparr>opt := ds4_kvstore_default_options\<lparr>min_tokens := 1\<rparr>\<rparr>"

lemma demo_copy_prefix: "ds4_kvstore_tokens_copy_prefix (Some [104, 105, 33]) 2 = [104, 105]"
  by (simp add: ds4_kvstore_tokens_copy_prefix_def eval_nat_numeral)

abbreviation demo_stored :: "bool \<times> ds4_kvstore \<times> disk" where
  "demo_stored \<equiv> ds4_kvstore_store_live_prefix demo_env demo_api demo_kc [104, 105] (Some [104, 105, 33]) 2 (Some ''cold'')
     (None :: unit ds4_kvstore_trailer_hooks option) []"

theorem kv_store_all_or_nothing_witness:
  "(if fst demo_stored
    then session_tokens demo_api [104, 105] = Some (ds4_kvstore_tokens_copy_prefix (Some [104, 105, 33]) 2) \<and>
      (\<exists>payload trailer ext. stage_payload demo_api [104, 105] = Inr payload
        \<and> kv_trailer_write (None :: unit ds4_kvstore_trailer_hooks option)
            (ds4_kvstore_render_tokens_text demo_api (ds4_kvstore_tokens_copy_prefix (Some [104, 105, 33]) 2)) = (True, trailer)
        \<and> fs_lookup (snd (snd demo_stored)) (ds4_kvstore_path_for_sha (dir demo_kc) (ds4_kvstore_sha1_bytes_hex
              (ds4_kvstore_render_tokens_text demo_api (ds4_kvstore_tokens_copy_prefix (Some [104, 105, 33]) 2))))
          = Some (kv_file_bytes demo_env demo_api [104, 105] (ds4_kvstore_reason_code (Some ''cold'')) ext
              (length (ds4_kvstore_tokens_copy_prefix (Some [104, 105, 33]) 2))
              (ds4_kvstore_render_tokens_text demo_api (ds4_kvstore_tokens_copy_prefix (Some [104, 105, 33]) 2)) payload trailer))
    else fs_lookup (snd (snd demo_stored)) (ds4_kvstore_path_for_sha (dir demo_kc) (ds4_kvstore_sha1_bytes_hex
              (ds4_kvstore_render_tokens_text demo_api (ds4_kvstore_tokens_copy_prefix (Some [104, 105, 33]) 2)))) = None)"
proof -
  have "(if fst demo_stored
      then session_tokens demo_api [104, 105] = Some (ds4_kvstore_tokens_copy_prefix (Some [104, 105, 33]) 2) \<and>
        (\<exists>payload trailer ext. stage_payload demo_api [104, 105] = Inr payload
          \<and> kv_trailer_write (None :: unit ds4_kvstore_trailer_hooks option)
              (ds4_kvstore_render_tokens_text demo_api (ds4_kvstore_tokens_copy_prefix (Some [104, 105, 33]) 2)) = (True, trailer)
          \<and> fs_lookup (snd (snd demo_stored)) (ds4_kvstore_path_for_sha (dir demo_kc) (ds4_kvstore_sha1_bytes_hex
                (ds4_kvstore_render_tokens_text demo_api (ds4_kvstore_tokens_copy_prefix (Some [104, 105, 33]) 2))))
            = Some (kv_file_bytes demo_env demo_api [104, 105] (ds4_kvstore_reason_code (Some ''cold'')) ext
                (length (ds4_kvstore_tokens_copy_prefix (Some [104, 105, 33]) 2))
                (ds4_kvstore_render_tokens_text demo_api (ds4_kvstore_tokens_copy_prefix (Some [104, 105, 33]) 2)) payload trailer))
      else fs_lookup (snd (snd demo_stored)) (ds4_kvstore_path_for_sha (dir demo_kc) (ds4_kvstore_sha1_bytes_hex
                (ds4_kvstore_render_tokens_text demo_api (ds4_kvstore_tokens_copy_prefix (Some [104, 105, 33]) 2)))) = None)
     \<and> (\<forall>q. q \<noteq> ds4_kvstore_path_for_sha (dir demo_kc) (ds4_kvstore_sha1_bytes_hex
                (ds4_kvstore_render_tokens_text demo_api (ds4_kvstore_tokens_copy_prefix (Some [104, 105, 33]) 2)))
          \<and> q \<noteq> kv_tmp_name demo_env (ds4_kvstore_path_for_sha (dir demo_kc) (ds4_kvstore_sha1_bytes_hex
                (ds4_kvstore_render_tokens_text demo_api (ds4_kvstore_tokens_copy_prefix (Some [104, 105, 33]) 2))))
          \<longrightarrow> fs_lookup (snd (snd demo_stored)) q = fs_lookup [] q \<or> fs_lookup (snd (snd demo_stored)) q = None)"
    by (rule kv_store_all_or_nothing [OF _ refl refl refl, where kc' = "fst (snd demo_stored)"])
      (simp_all add: fs_lookup_def)
  then show ?thesis by (rule conjunct1)
qed

section \<open>A stored checkpoint is found again\<close>

text \<open>Reading a complete file back as an index entry.\<close>

definition stored_entry :: "kv_env \<Rightarrow> 's ds4_api \<Rightarrow> 's \<Rightarrow> u8 \<Rightarrow> u8 \<Rightarrow> nat \<Rightarrow> bytes \<Rightarrow> bytes \<Rightarrow> bytes \<Rightarrow> string \<Rightarrow> ds4_kvstore_entry" where
  "stored_entry env api ses why ext n text payload trailer p =
     (header_entry (of_int (engine_model_id api)) (of_int (routed_quant_bits api)) why ext (of_nat n) 0
        (of_int (session_ctx api ses)) (now env) (now env) (of_nat (length payload)) (of_nat (length text)))
     \<lparr>sha := ds4_kvstore_sha1_bytes_hex text, path := p,
      file_size := of_nat (length (kv_file_bytes env api ses why ext n text payload trailer))\<rparr>"

lemma kv_file_bytes_length:
  "length (kv_file_bytes env api ses why ext n text payload trailer) = 52 + length text + length payload + length trailer"
  by (simp add: kv_file_bytes_def kv_field_simps)

lemma read_stored_header:
  assumes "0 < n" and "n < 2 ^ 31" and "routed_quant_bits api = 2 \<or> routed_quant_bits api = 4"
  shows "ds4_kvstore_read_header (kv_file_bytes env api ses why ext n text payload trailer)
    = Some (header_entry (of_int (engine_model_id api)) (of_int (routed_quant_bits api)) why ext (of_nat n) 0
        (of_int (session_ctx api ses)) (now env) (now env) (of_nat (length payload)) (of_nat (length text)),
        of_nat (length text), text @ payload @ trailer)"
  unfolding kv_file_bytes_def
  using assms of_nat_u32_nonzero [of n] by (intro read_fill_header) auto

lemma read_stored_entry:
  assumes "fs_lookup d p = Some (kv_file_bytes env api ses why ext n text payload trailer)" and "can_open env' p"
    and "0 < n" and "n < 2 ^ 31" and "routed_quant_bits api = 2 \<or> routed_quant_bits api = 4"
    and "length text < 2 ^ 32" and "52 + length text + length payload + length trailer < 2 ^ 64"
  shows "ds4_kvstore_read_entry_file env' d p (ds4_kvstore_sha1_bytes_hex text)
    = Some (stored_entry env api ses why ext n text payload trailer p)"
proof -
  let ?f = "kv_file_bytes env api ses why ext n text payload trailer"
  define t where "t = (of_nat (length text) :: u64)"
  define pl where "pl = (of_nat (length payload) :: u64)"
  define fl where "fl = (of_nat (length ?f) :: u64)"
  have u: "unat t = length text" "unat pl = length payload"
    using assms(7) by (simp_all add: t_def pl_def unat_of_nat_u64)
  have fl: "unat fl = length ?f"
    unfolding fl_def by (rule unat_of_nat_u64) (use assms(7) in \<open>simp add: kv_file_bytes_length\<close>)
  have "kv_cache_file_size_bytes t pl 0 \<noteq> None"
    using kv_file_size_exact(1) [of t pl 0] u assms(7) by (auto simp: not_None_eq)
  then have g: "\<not> (U64_MAX - 52 < t \<or> U64_MAX - 52 - t < pl)"
    and sz: "kv_cache_file_size_bytes t pl 0 = Some (52 + t + pl)"
    by (auto simp: kv_cache_file_size_bytes_def Let_def DS4_KVSTORE_FIXED_HEADER_def split: if_splits)
  have "unat (52 + t + pl) = 52 + length text + length payload"
    using kv_file_size_exact(2) [OF sz] u by simp
  then have ge: "\<not> fl < 52 + t + pl"
    using fl by (simp add: word_less_nat_alt kv_file_bytes_length)
  have len: "\<not> length ?f < 52" by (simp add: kv_file_bytes_length)
  show ?thesis
    unfolding ds4_kvstore_read_entry_file_def fs_open_def assms(1) fl_def [symmetric]
    using assms(2) g ge len read_stored_header [OF assms(3,4,5)] ucast_of_nat_u32 [OF assms(6)]
    by (simp add: header_entry_def stored_entry_def fl_def [symmetric] t_def [symmetric] pl_def [symmetric])
qed

lemma path_for_sha_name:
  "lower_hex s \<Longrightarrow> ds4_kvstore_path_for_sha dr s = ds4_kvstore_path_join dr (s @ ''.kv'')"
  by (simp add: ds4_kvstore_path_for_sha_def lower_hex_def)

lemma hex_name_no_slash: "lower_hex s \<Longrightarrow> CHR ''/'' \<notin> set (s @ ''.kv'')"
  by (auto simp: lower_hex_def list_all_iff c_isxdigit_def c_isdigit_def)

lemma path_join_split: "ds4_kvstore_path_join dr name = ds4_kvstore_path_join dr [] @ name"
  by (simp add: ds4_kvstore_path_join_def)

lemma readdir_has:
  assumes "fs_lookup d (ds4_kvstore_path_join dr name) = Some c" and "CHR ''/'' \<notin> set name"
  shows "name \<in> set (fs_readdir d dr)"
proof -
  let ?pre = "ds4_kvstore_path_join dr []"
  have "?pre @ name \<in> set (map fst d)"
    using assms(1) map_of_SomeD [of d "?pre @ name" c] by (force simp: fs_lookup_def path_join_split [of dr name])
  then show ?thesis
    using assms(2) unfolding fs_readdir_def Let_def set_map set_filter image_iff
    by (intro bexI [of _ "?pre @ name"]) auto
qed

lemma scan_has_stored:
  assumes "p = ds4_kvstore_path_for_sha dr (ds4_kvstore_sha1_bytes_hex text)"
    and "fs_lookup d p = Some c" and "ds4_kvstore_read_entry_file env d p (ds4_kvstore_sha1_bytes_hex text) = Some e"
  shows "e \<in> set (kv_scan env d dr)"
proof -
  let ?s = "ds4_kvstore_sha1_bytes_hex text"
  have p: "p = ds4_kvstore_path_join dr (?s @ ''.kv'')" using assms(1) path_for_sha_name [OF sha1_hex_lower] by simp
  have "?s @ ''.kv'' \<in> set (fs_readdir d dr)"
    using assms(2) hex_name_no_slash [OF sha1_hex_lower] unfolding p by (rule readdir_has)
  then show ?thesis
    using assms(3) sha_hex_name_own [OF sha1_hex_lower] unfolding p kv_scan_def
    by (auto intro!: bexI [of _ "?s @ ''.kv''"])
qed


definition demo_text :: bytes where "demo_text = [104, 105]"

definition demo_path :: string where
  "demo_path = ds4_kvstore_path_for_sha (dir demo_kc) (ds4_kvstore_sha1_bytes_hex demo_text)"

definition demo_stored_file :: bytes where
  "demo_stored_file = kv_file_bytes demo_env demo_api [104, 105] 1 0 2 demo_text [111, 112] []"


section \<open>Loading is sound\<close>

text \<open>What a load that reports tokens did: the file it used, what the engine restored from it, and the prompt it built.\<close>

lemma kv_load_facts:
  assumes "ds4_kvstore_try_load_text env api kc ses (Some text) hooks ud d = st" and "0 < ld_loaded st"
  shows "\<exists>res content hdr tb rest toks left. ld_result st = Some res \<and> fs_lookup d (res_path res) = Some content
    \<and> ds4_kvstore_read_header content = Some (hdr, tb, rest) \<and> model_id hdr = of_int (engine_model_id api)
    \<and> prefix (take (unat tb) rest) text \<and> length (take (unat tb) rest) = unat tb
    \<and> (\<exists>e \<in> set (entry (ld_store st)). path e = res_path res \<and> sha e = ds4_kvstore_sha1_bytes_hex (take (unat tb) rest))
    \<and> load_payload api ses (drop (unat tb) rest) (payload_bytes hdr) = (None, ld_session st, left)
    \<and> session_tokens api (ld_session st) = Some toks \<and> int (length toks) = ld_loaded st
    \<and> ld_prompt st = toks @ tokenize_rendered_chat api (drop (unat tb) text)
    \<and> continued_last_store_tokens (ld_store st) = ld_loaded st"
proof -
  obtain idx kc1 where f: "ds4_kvstore_find_text_prefix env d kc (Some text) (engine_model_id api)
      (routed_quant_bits api) (session_ctx api ses) = (Some idx, kc1)"
    using assms by (auto simp: ds4_kvstore_try_load_text_def Let_def split: if_splits option.splits prod.splits)
  have idx: "idx < length (entry kc1)"
    using f find_step_best [where kc = kc1 and ?text = "text" and m = "engine_model_id api"
        and q = "routed_quant_bits api" and c = "session_ctx api ses" and es = "entry kc1" and n = "length (entry kc1)"]
    by (auto simp: ds4_kvstore_find_text_prefix_def Let_def split: option.splits)
  define e where "e = entry kc1 ! idx"
  have e: "e \<in> set (entry kc1)" using idx by (simp add: e_def)
  obtain fp hdr tb stream ses1 stream1 where
    op: "fs_open env d (path e) = Some fp"
    and ck: "kv_load_check fp text (engine_model_id api) (sha e) = Inr (hdr, tb, stream)"
    and ld: "load_payload api ses stream (payload_bytes hdr) = (None, ses1, stream1)"
    and tk: "case session_tokens api ses1 of None \<Rightarrow> False | Some t \<Rightarrow> int (length t) = sint (tokens hdr)"
    and st: "ld_loaded st = sint (tokens hdr)" "ld_session st = ses1"
      "ld_prompt st = ds4_kvstore_build_prompt_from_exact_prefix_and_text_suffix api (the (session_tokens api ses1))
          (Some (drop (unat tb) text))"
      "ld_store st = kc1\<lparr>continued_last_store_tokens := sint (tokens hdr)\<rparr>"
      "\<exists>res. ld_result st = Some res \<and> res_path res = path e"
    using assms unfolding ds4_kvstore_try_load_text_def Let_def f
    by (auto simp: e_def [symmetric] split: if_splits option.splits prod.splits sum.splits)
  obtain rest where h: "ds4_kvstore_read_header fp = Some (hdr, tb, rest)" "model_id hdr = of_int (engine_model_id api)"
    "length (take (unat tb) rest) = unat tb" "ds4_kvstore_sha1_bytes_hex (take (unat tb) rest) = sha e"
    "ds4_kvstore_byte_prefix_match text (take (unat tb) rest)" "stream = drop (unat tb) rest"
    using ck unfolding kv_load_check_def
    by (cases "ds4_kvstore_read_header fp") (auto split: if_splits prod.splits)
  have pre: "prefix (take (unat tb) rest) text"
    using h(3,5) unfolding ds4_kvstore_byte_prefix_match_def prefix_take_iff by (metis take0 length_0_conv)
  have look: "fs_lookup d (path e) = Some fp" using op by (auto simp: fs_open_def split: if_splits)
  obtain toks where toks: "session_tokens api ses1 = Some toks" "int (length toks) = sint (tokens hdr)"
    using tk by (auto split: option.splits)
  from st(5) obtain res where res: "ld_result st = Some res" "res_path res = path e" by blast
  show ?thesis
    by (rule exI [of _ res], rule exI [of _ fp], rule exI [of _ hdr], rule exI [of _ tb], rule exI [of _ rest],
        rule exI [of _ toks], rule exI [of _ stream1])
      (use res look h pre toks st e ld in \<open>auto simp: ds4_kvstore_build_prompt_from_exact_prefix_and_text_suffix_def tokens_append_def\<close>)
qed

text \<open>
  A checkpoint is only resumed for the prompt it belongs to. When a load reports tokens, the file it used is
  on disk with a valid header of this model, the text stored in it is the beginning of the prompt and hashes to
  the file's name, the restored session holds exactly the reported number of tokens, and the prompt to run is those
  tokens followed by the tokens of the remaining text; the cadence continues from there.
\<close>

lemma kv_load_sound:
  assumes "ds4_kvstore_try_load_text env api kc ses (Some text) hooks ud d = st" and "0 < ld_loaded st"
  shows "\<exists>res content hdr tb rest toks. ld_result st = Some res \<and> fs_lookup d (res_path res) = Some content
    \<and> ds4_kvstore_read_header content = Some (hdr, tb, rest) \<and> model_id hdr = of_int (engine_model_id api)
    \<and> prefix (take (unat tb) rest) text \<and> length (take (unat tb) rest) = unat tb
    \<and> (\<exists>e \<in> set (entry (ld_store st)). path e = res_path res \<and> sha e = ds4_kvstore_sha1_bytes_hex (take (unat tb) rest))
    \<and> session_tokens api (ld_session st) = Some toks \<and> int (length toks) = ld_loaded st
    \<and> ld_prompt st = toks @ tokenize_rendered_chat api (drop (unat tb) text)
    \<and> continued_last_store_tokens (ld_store st) = ld_loaded st"
  using kv_load_facts [OF assms] by blast

abbreviation demo_found :: ds4_kvstore_entry where
  "demo_found \<equiv> stored_entry demo_env demo_api [104, 105] 1 0 2 demo_text [111, 112] [] demo_path"

lemma demo_found_scan: "kv_scan demo_env [(demo_path, demo_stored_file)] (dir demo_kc) = [demo_found]"
proof -
  let ?s = "ds4_kvstore_sha1_bytes_hex demo_text"
  have dr: "dir demo_kc = ''/kv''" by (simp add: demo_kc_def demo_store_def)
  have p: "demo_path = ''/kv/'' @ ?s @ ''.kv''"
    using path_for_sha_name [OF sha1_hex_lower, of "''/kv''" demo_text]
    by (simp add: demo_path_def dr ds4_kvstore_path_join_def)
  have rd: "fs_readdir [(demo_path, demo_stored_file)] ''/kv'' = [?s @ ''.kv'']"
    using hex_name_no_slash [OF sha1_hex_lower, of demo_text]
    by (simp add: fs_readdir_def ds4_kvstore_path_join_def p)
  have j: "ds4_kvstore_path_join ''/kv'' (?s @ ''.kv'') = demo_path" by (simp add: ds4_kvstore_path_join_def p)
  have "ds4_kvstore_read_entry_file demo_env [(demo_path, demo_stored_file)] demo_path ?s = Some demo_found"
    by (rule read_stored_entry)
      (simp_all add: fs_lookup_def demo_stored_file_def demo_env_def demo_api_def demo_text_def)
  then show ?thesis unfolding dr kv_scan_def rd by (simp add: sha_hex_name_own [OF sha1_hex_lower] j)
qed

definition demo_loaded :: "(int list, unit) kv_load_state" where
  "demo_loaded = ds4_kvstore_try_load_text demo_env demo_api demo_kc [] (Some [104, 105, 33])
     None () [(demo_path, demo_stored_file)]"

lemma demo_loaded_tokens: "ld_loaded demo_loaded = 2"
proof -
  let ?d = "[(demo_path, demo_stored_file)]"
  define kc1 where "kc1 = demo_kc\<lparr>entry := [demo_found]\<rparr>"
  have "enabled demo_kc" "can_list demo_env" by (simp_all add: demo_kc_def demo_store_def demo_env_def)
  then have rf: "kv_cache_refresh demo_env ?d demo_kc = kc1" by (simp add: refresh_scan demo_found_scan kc1_def)
  have us: "entry_eligible kc1 [104, 105, 33] 0 2 4096 demo_found" "entry_matches [104, 105, 33] demo_found"
    by (simp_all add: entry_eligible_def entry_matches_def stored_entry_def header_entry_def demo_text_def kc1_def
        demo_kc_def demo_store_def ds4_kvstore_default_options_def demo_api_def)
  then have f: "ds4_kvstore_find_text_prefix demo_env ?d demo_kc (Some [104, 105, 33]) 0 2 4096 = (Some 0, kc1)"
    unfolding ds4_kvstore_find_text_prefix_def option.simps Let_def rf by (simp add: kc1_def find_step_def)
  have hd: "ds4_kvstore_read_header demo_stored_file
      = Some (header_entry 0 2 1 0 2 0 4096 7 7 2 2, 2, [104, 105, 111, 112])"
    unfolding demo_stored_file_def
    by (subst read_stored_header) (simp_all add: demo_api_def demo_env_def demo_text_def)
  have ck: "kv_load_check demo_stored_file [104, 105, 33] 0 (sha demo_found)
      = Inr (header_entry 0 2 1 0 2 0 4096 7 7 2 2, 2, [111, 112])"
    unfolding kv_load_check_def hd
    by (simp add: header_entry_def stored_entry_def demo_text_def ds4_kvstore_byte_prefix_match_def)
  have e: "entry kc1 ! 0 = demo_found" "path demo_found = demo_path" by (simp_all add: kc1_def stored_entry_def)
  have op: "fs_open demo_env ?d demo_path = Some demo_stored_file"
    by (simp add: fs_open_def fs_lookup_def demo_env_def)
  have api: "routed_quant_bits demo_api = 2" "engine_model_id demo_api = 0" "session_ctx demo_api [] = 4096"
    by (simp_all add: demo_api_def)
  show ?thesis
    unfolding demo_loaded_def ds4_kvstore_try_load_text_def Let_def api option.sel
    using \<open>enabled demo_kc\<close> by (simp add: f e op ck) (simp add: demo_api_def header_entry_def)
qed

end
