(* ===== verification/Layer_Pack.thy ===== *)
theory Layer_Pack
  imports Clib
begin

text \<open>
  The multi-GPU layer packer (\<open>ds4_layer_pack.c\<close>): a greedy, monotone placement of the
  model's entries (embedding, layers, output head) on devices with byte budgets, and its
  textual summary. The placement is shown to respect every budget, to be contiguous, and to
  be pointwise the earliest of all contiguous placements that respect the budgets, so that no
  such placement keeps more entries off the CPU.
\<close>

section \<open>State\<close>

definition DS4_LAYER_PACK_MAX_GPUS :: int where "DS4_LAYER_PACK_MAX_GPUS = 16"
definition DS4_LAYER_PACK_CPU :: int where "DS4_LAYER_PACK_CPU = -1"

record ds4_layer_pack_config =
  gpu_budget_bytes :: "nat list"
  n_gpus :: int

section \<open>Placement\<close>

text \<open>The inner \<open>while\<close>: advance to the first device that can still hold the entry.\<close>

function advance :: "nat list \<Rightarrow> nat \<Rightarrow> nat \<Rightarrow> nat \<Rightarrow> nat" where
  "advance budget n e d = (if d < n \<and> e > budget ! d then advance budget n e (Suc d) else d)"
  by pat_completeness auto
termination
  by (relation "measure (\<lambda>(budget, n, e, d). n - d)") auto

declare advance.simps [simp del]

text \<open>The loop over entries, with the local copy of the budgets and the current device.\<close>

fun place_entries :: "nat list \<Rightarrow> nat \<Rightarrow> nat \<Rightarrow> nat list \<Rightarrow> int list" where
  "place_entries budget n d [] = []"
| "place_entries budget n d (e # es) =
     (let d' = advance budget n e d
      in if d' < n
         then int d' # place_entries (budget[d' := budget ! d' - e]) n d' es
         else DS4_LAYER_PACK_CPU # place_entries budget n d' es)"

text \<open>
  \<open>None\<close> stands for a NULL pointer. The C function writes \<open>n_entries\<close> devices; the
  model returns them, or the error code.
\<close>

definition ds4_compute_layer_placement ::
  "nat list option \<Rightarrow> int \<Rightarrow> ds4_layer_pack_config option \<Rightarrow> bool \<Rightarrow> int + int list" where
  "ds4_compute_layer_placement entry_bytes n_entries cfg have_out =
     (case (entry_bytes, cfg, have_out) of
        (Some eb, Some c, True) \<Rightarrow>
          if n_entries < 0 then Inl 2
          else if n_gpus c < 0 \<or> n_gpus c > DS4_LAYER_PACK_MAX_GPUS then Inl 3
          else let n = nat (n_gpus c)
               in Inr (place_entries (take n (gpu_budget_bytes c)) n 0 (take (nat n_entries) eb))
      | _ \<Rightarrow> Inl 1)"

section \<open>The printed summary\<close>

text \<open>\<open>strncat\<close> into a 64-byte buffer: the longest result has 26 bytes and is never cut.\<close>

definition append_pseudo_layer_tags :: "int list \<Rightarrow> int \<Rightarrow> int \<Rightarrow> int \<Rightarrow> string" where
  "append_pseudo_layer_tags dev tier n_entries n_layers =
     (if n_entries > 0 \<and> dev ! 0 = tier then '' + embedding'' else '''')
     @ (if n_entries > 1 \<and> n_layers + 1 < n_entries \<and> dev ! nat (n_layers + 1) = tier
        then '' + output head'' else '''')"

text \<open>The scan for the first and last layer of a tier; \<open>-1\<close> is "none seen".\<close>

function scan_layer_range ::
  "int list \<Rightarrow> int \<Rightarrow> int \<Rightarrow> int \<Rightarrow> int \<Rightarrow> int \<Rightarrow> int \<Rightarrow> int \<times> int" where
  "scan_layer_range dev tier n_entries n_layers i fi la =
     (if i \<le> n_layers \<and> i < n_entries then
        (if dev ! nat i = tier
         then scan_layer_range dev tier n_entries n_layers (i + 1)
                (if fi < 0 then i - 1 else fi) (i - 1)
         else scan_layer_range dev tier n_entries n_layers (i + 1) fi la)
      else (fi, la))"
  by pat_completeness auto
termination
  by (relation "measure (\<lambda>(dev, tier, n_entries, n_layers, i, fi, la). nat (n_entries - i))") auto

declare scan_layer_range.simps [simp del]

definition print_layer_range_for_tier :: "int list \<Rightarrow> int \<Rightarrow> int \<Rightarrow> int \<Rightarrow> string" where
  "print_layer_range_for_tier dev tier n_entries n_layers =
     (case scan_layer_range dev tier n_entries n_layers 1 (-1) (-1) of
        (fi, la) \<Rightarrow>
          if fi < 0 then ''(no transformer layers)''
          else if fi = la then ''layer '' @ show_int fi
          else ''layers '' @ show_int fi @ ''-'' @ show_int la)"

definition gib_text :: "nat \<Rightarrow> string" where
  "gib_text bytes = fmt_fixed1 (double_of_nat bytes) 1073741824"

definition gpu_line ::
  "int list \<Rightarrow> int \<Rightarrow> int \<Rightarrow> (nat list \<times> nat list) option \<Rightarrow> nat \<Rightarrow> string" where
  "gpu_line dev n_entries n_layers usage d =
     ''  GPU'' @ show_nat d @ '': ''
     @ print_layer_range_for_tier dev (int d) n_entries n_layers
     @ append_pseudo_layer_tags dev (int d) n_entries n_layers
     @ (case usage of
          None \<Rightarrow> ''''
        | Some (used, budget) \<Rightarrow>
            ''  ('' @ gib_text (used ! d) @ '' / '' @ gib_text (budget ! d) @ '' GB)'')
     @ [CHR 0x0A]"

definition ds4_layer_pack_print ::
  "int list option \<Rightarrow> int \<Rightarrow> int \<Rightarrow> (nat list \<times> nat list) option \<Rightarrow> int \<Rightarrow> string" where
  "ds4_layer_pack_print device_for_entry n_entries n_layers usage ngpus =
     (case device_for_entry of
        None \<Rightarrow> ''''
      | Some dev \<Rightarrow>
          ''multi-GPU layout:'' @ [CHR 0x0A]
          @ concat (map (gpu_line dev n_entries n_layers usage) [0..<nat ngpus])
          @ (if \<exists>i < nat n_entries. dev ! i = DS4_LAYER_PACK_CPU
             then ''  CPU : ''
                  @ print_layer_range_for_tier dev DS4_LAYER_PACK_CPU n_entries n_layers
                  @ append_pseudo_layer_tags dev DS4_LAYER_PACK_CPU n_entries n_layers
                  @ [CHR 0x0A]
             else ''''))"


section \<open>Specification of a placement\<close>

text \<open>Devices as ranks: the CPU is the rank after the last GPU.\<close>

definition rank :: "nat \<Rightarrow> int \<Rightarrow> nat" where
  "rank n d = (if d = DS4_LAYER_PACK_CPU then n else nat d)"

text \<open>Bytes assigned to rank \<open>k\<close>.\<close>

fun load :: "nat \<Rightarrow> nat list \<Rightarrow> nat list \<Rightarrow> nat" where
  "load k (e # es) (f # fs) = (if f = k then e else 0) + load k es fs"
| "load k _ _ = 0"

text \<open>A contiguous placement from device \<open>d\<close> on that respects the budgets.\<close>

definition contiguous_within :: "nat list \<Rightarrow> nat \<Rightarrow> nat \<Rightarrow> nat list \<Rightarrow> nat list \<Rightarrow> bool" where
  "contiguous_within b n d es fs \<longleftrightarrow>
     length fs = length es \<and> sorted (d # fs) \<and> (\<forall>f \<in> set fs. f \<le> n) \<and> (\<forall>k < n. load k es fs \<le> b ! k)"

lemma advance_bounds:
  "d \<le> n \<Longrightarrow> d \<le> advance b n e d \<and> advance b n e d \<le> n
     \<and> (advance b n e d < n \<longrightarrow> e \<le> b ! advance b n e d)
     \<and> (\<forall>k. d \<le> k \<and> k < advance b n e d \<longrightarrow> b ! k < e)"
proof (induction b n e d rule: advance.induct)
  case (1 b n e d)
  show ?case
  proof (cases "d < n \<and> e > b ! d")
    case True
    then have eq: "advance b n e d = advance b n e (Suc d)" by (simp add: advance.simps [of b n e d])
    have IH: "Suc d \<le> advance b n e (Suc d) \<and> advance b n e (Suc d) \<le> n
     \<and> (advance b n e (Suc d) < n \<longrightarrow> e \<le> b ! advance b n e (Suc d))
     \<and> (\<forall>k. Suc d \<le> k \<and> k < advance b n e (Suc d) \<longrightarrow> b ! k < e)"
      using "1.IH" [OF True] True by simp
    with True show ?thesis unfolding eq by (metis Suc_leD le_antisym not_less_eq_eq)
  next
    case False
    then have "advance b n e d = d" by (subst advance.simps) auto
    with False "1.prems" show ?thesis by auto
  qed
qed

lemma rank_int [simp]: "rank n (int d) = d"
  by (simp add: rank_def DS4_LAYER_PACK_CPU_def)

lemma rank_CPU [simp]: "rank n DS4_LAYER_PACK_CPU = n"
  by (simp add: rank_def)

lemma place_entries_contiguous:
  "d \<le> n \<Longrightarrow> length b = n \<Longrightarrow>
   contiguous_within b n d es (map (rank n) (place_entries b n d es))"
proof (induction es arbitrary: b d)
  case Nil
  then show ?case by (simp add: contiguous_within_def)
next
  case (Cons e es)
  define d' where "d' = advance b n e d"
  note adv = advance_bounds [OF Cons.prems(1), of b e, folded d'_def]
  show ?case
  proof (cases "d' < n")
    case True
    let ?b = "b[d' := b ! d' - e]"
    have IH: "contiguous_within ?b n d' es (map (rank n) (place_entries ?b n d' es))"
      using Cons True by simp
    have "load k (e # es) (d' # map (rank n) (place_entries ?b n d' es)) \<le> b ! k" if "k < n" for k
    proof -
      have "load k es (map (rank n) (place_entries ?b n d' es)) \<le> ?b ! k"
        using IH that by (simp add: contiguous_within_def)
      then show ?thesis
        using that adv True Cons.prems(2) by (cases "k = d'") auto
    qed
    with IH adv True show ?thesis
      by (auto simp: contiguous_within_def d'_def [symmetric] Let_def)
  next
    case False
    with adv have "d' = n" by simp
    moreover have "contiguous_within b n n es (map (rank n) (place_entries b n n es))"
      using Cons by simp
    ultimately show ?thesis using adv
      by (auto simp: contiguous_within_def d'_def [symmetric] Let_def)
  qed
qed

text \<open>
  Greedy stays ahead: against any contiguous placement within smaller budgets that starts no
  earlier, every entry goes to a device at most as late.
\<close>

lemma place_entries_earliest:
  assumes "contiguous_within b2 n d2 es fs" and "d \<le> d2" and "d2 \<le> n"
    and "length b = n" and "length b2 = n" and "\<And>k. d2 \<le> k \<Longrightarrow> k < n \<Longrightarrow> b2 ! k \<le> b ! k"
  shows "list_all2 (\<le>) (map (rank n) (place_entries b n d es)) fs"
  using assms
proof (induction es arbitrary: b b2 d d2 fs)
  case Nil
  then show ?case by (simp add: contiguous_within_def)
next
  case (Cons e es)
  from Cons.prems(1) obtain f gs where fs: "fs = f # gs" and f: "d2 \<le> f" "f \<le> n"
    by (cases fs) (auto simp: contiguous_within_def)
  define d' where "d' = advance b n e d"
  have adv: "d \<le> d' \<and> d' \<le> n \<and> (d' < n \<longrightarrow> e \<le> b ! d') \<and> (\<forall>k. d \<le> k \<and> k < d' \<longrightarrow> b ! k < e)"
    using advance_bounds [of d n b e] Cons.prems(2,3) by (simp add: d'_def)
  have ef: "e \<le> b2 ! f" if "f < n"
  proof -
    have "load f (e # es) (f # gs) \<le> b2 ! f"
      using Cons.prems(1) that fs by (auto simp: contiguous_within_def)
    then show ?thesis by simp
  qed
  have le: "d' \<le> f"
  proof (rule ccontr)
    assume "\<not> d' \<le> f"
    with adv f Cons.prems(2) have "b ! f < e" "f < n" by auto
    with ef Cons.prems(6) [of f] f show False by fastforce
  qed
  define b' where "b' = (if d' < n then b[d' := b ! d' - e] else b)"
  define b2' where "b2' = (if f < n then b2[f := b2 ! f - e] else b2)"
  have tail: "contiguous_within b2' n f es gs"
  proof -
    have "load k es gs \<le> b2' ! k" if "k < n" for k
    proof -
      have "load k (e # es) (f # gs) \<le> b2 ! k"
        using Cons.prems(1) that fs by (auto simp: contiguous_within_def)
      then show ?thesis using that Cons.prems(5) by (auto simp: b2'_def nth_list_update split: if_splits)
    qed
    with Cons.prems(1) fs show ?thesis by (auto simp: contiguous_within_def)
  qed
  have budgets: "b2' ! k \<le> b' ! k" if "f \<le> k" "k < n" for k
    using that le f Cons.prems(4,5) Cons.prems(6) [of k]
    by (auto simp: b'_def b2'_def nth_list_update diff_le_mono intro: le_trans [OF diff_le_self])
  have "list_all2 (\<le>) (map (rank n) (place_entries b' n d' es)) gs"
    using Cons.IH [OF tail le f(2) _ _ budgets] Cons.prems(4,5) by (simp add: b'_def b2'_def)
  with le f adv show ?case
    by (auto simp: fs b'_def d'_def [symmetric] Let_def split: if_splits)
qed


lemma placement_InrE:
  assumes "ds4_compute_layer_placement eb ne cfg out = Inr dev"
  obtains es c where "eb = Some es" and "cfg = Some c" and "0 \<le> ne" and "0 \<le> n_gpus c"
    and "n_gpus c \<le> 16"
    and "dev = place_entries (take (nat (n_gpus c)) (gpu_budget_bytes c)) (nat (n_gpus c)) 0 (take (nat ne) es)"
  using assms
  by (auto simp: ds4_compute_layer_placement_def Let_def DS4_LAYER_PACK_MAX_GPUS_def
      split: option.splits bool.splits if_splits)

text \<open>
  A successful placement assigns a device to every entry, devices never go backwards
  (with the CPU after the last GPU), and the bytes placed on each GPU stay within its budget.
\<close>

lemma layer_placement_within_budgets:
  assumes "ds4_compute_layer_placement (Some es) ne (Some c) True = Inr dev"
    and "length (gpu_budget_bytes c) = 16" and "nat ne \<le> length es"
  shows "length dev = nat ne
    \<and> sorted (map (rank (nat (n_gpus c))) dev)
    \<and> set dev \<subseteq> insert DS4_LAYER_PACK_CPU {0..<n_gpus c}
    \<and> (\<forall>k < nat (n_gpus c).
         load k (take (nat ne) es) (map (rank (nat (n_gpus c))) dev) \<le> gpu_budget_bytes c ! k)"
proof -
  let ?n = "nat (n_gpus c)"
  from assms(1) have n: "0 \<le> n_gpus c" "n_gpus c \<le> 16"
    and dev: "dev = place_entries (take ?n (gpu_budget_bytes c)) ?n 0 (take (nat ne) es)"
    by (auto elim: placement_InrE)
  have "contiguous_within (take ?n (gpu_budget_bytes c)) ?n 0 (take (nat ne) es) (map (rank ?n) dev)"
    unfolding dev using n assms(2) by (intro place_entries_contiguous) auto
  moreover have "set (place_entries b n d xs) \<subseteq> insert DS4_LAYER_PACK_CPU (int ` {0..<n})" for b n d xs
    by (induction b n d xs rule: place_entries.induct) (auto simp: Let_def)
  then have "set dev \<subseteq> insert DS4_LAYER_PACK_CPU (int ` {0..<?n})" unfolding dev by blast
  moreover have "int ` {0..<?n} = {0..<n_gpus c}" using n by (simp add: image_int_atLeastLessThan)
  ultimately show ?thesis using assms(3) by (auto simp: contiguous_within_def)
qed

definition demo_config :: ds4_layer_pack_config where
  "demo_config = \<lparr>gpu_budget_bytes = [8, 6] @ replicate 14 0, n_gpus = 2\<rparr>"

text \<open>
  (C38) No contiguous placement that respects the budgets does better: every entry is placed on
  a device no later than in any such placement, so the fewest entries spill to the CPU.
\<close>

theorem layer_placement_earliest:
  assumes "ds4_compute_layer_placement (Some es) ne (Some c) True = Inr dev"
    and "length (gpu_budget_bytes c) = 16"
    and "contiguous_within (gpu_budget_bytes c) (nat (n_gpus c)) 0 (take (nat ne) es) fs"
  shows "list_all2 (\<le>) (map (rank (nat (n_gpus c))) dev) fs"
proof -
  let ?n = "nat (n_gpus c)" and ?b = "take (nat (n_gpus c)) (gpu_budget_bytes c)"
  from assms(1) have n: "0 \<le> n_gpus c" "n_gpus c \<le> 16"
    and dev: "dev = place_entries ?b ?n 0 (take (nat ne) es)"
    by (auto elim: placement_InrE)
  have "contiguous_within ?b ?n 0 (take (nat ne) es) fs"
    using assms(3) by (simp add: contiguous_within_def)
  then show ?thesis unfolding dev
    using n assms(2) by (intro place_entries_earliest [of ?b]) auto
qed

theorem layer_placement_earliest_witness:
  "list_all2 (\<le>) (map (rank (nat (n_gpus demo_config))) [0, 1, 1, -1]) [0, 1, 2, 2]"
  by (rule layer_placement_earliest [where es = "[5, 4, 2, 9]" and ne = 4 and c = demo_config])
    (code_simp, code_simp, code_simp)

section \<open>The printed range of a tier\<close>

abbreviation tier_layer :: "int list \<Rightarrow> int \<Rightarrow> int \<Rightarrow> int \<Rightarrow> int \<Rightarrow> int \<Rightarrow> bool" where
  "tier_layer dev tier ne nl i j \<equiv> i \<le> j \<and> j \<le> nl \<and> j < ne \<and> dev ! nat j = tier"

lemma scan_layer_range_spec:
  assumes "scan_layer_range dev tier ne nl i fi la = (f, l)" and "1 \<le> i"
  shows "((\<forall>j. \<not> tier_layer dev tier ne nl i j) \<longrightarrow> f = fi \<and> l = la)
    \<and> ((\<exists>j. tier_layer dev tier ne nl i j) \<longrightarrow>
        tier_layer dev tier ne nl i (l + 1)
        \<and> (if fi < 0 then tier_layer dev tier ne nl i (f + 1) else f = fi)
        \<and> (\<forall>j. tier_layer dev tier ne nl i j \<longrightarrow> j \<le> l + 1 \<and> (fi < 0 \<longrightarrow> f + 1 \<le> j)))"
  using assms
proof (induction dev tier ne nl i fi la rule: scan_layer_range.induct)
  case (1 dev tier ne nl i fi la)
  show ?case
  proof (cases "i \<le> nl \<and> i < ne")
    case False
    then have "\<not> tier_layer dev tier ne nl i j" for j by auto
    moreover have "f = fi" "l = la"
      using False "1.prems" by (auto simp: scan_layer_range.simps [of dev tier ne nl i] split: if_splits)
    ultimately show ?thesis by blast
  next
    case True
    have split: "tier_layer dev tier ne nl i j \<longleftrightarrow>
        (j = i \<and> dev ! nat i = tier) \<or> tier_layer dev tier ne nl (i + 1) j" for j
      using True by (cases "j = i") auto
    show ?thesis
    proof (cases "dev ! nat i = tier")
      case t: True
      with True "1.prems" have r: "scan_layer_range dev tier ne nl (i + 1)
          (if fi < 0 then i - 1 else fi) (i - 1) = (f, l)"
        by (simp add: scan_layer_range.simps [of dev tier ne nl i])
      have i: "i - 1 \<ge> 0" "1 \<le> i + 1" using "1.prems"(2) by simp_all
      note IH = "1.IH"(1) [OF True t r i(2)]
      show ?thesis
      proof (cases "\<exists>j. tier_layer dev tier ne nl (i + 1) j")
        case True
        with IH i t show ?thesis unfolding split by (cases "fi < 0") auto
      next
        case False
        with IH i t show ?thesis unfolding split by (cases "fi < 0") auto
      qed
    next
      case f: False
      with True "1.prems" have r: "scan_layer_range dev tier ne nl (i + 1) fi la = (f, l)"
        by (simp add: scan_layer_range.simps [of dev tier ne nl i])
      from "1.IH"(2) [OF True f r] "1.prems"(2) f show ?thesis
        unfolding split by auto
    qed
  qed
qed


lemma rank_eq_device:
  "a \<in> insert DS4_LAYER_PACK_CPU {0..<int n} \<Longrightarrow> b \<in> insert DS4_LAYER_PACK_CPU {0..<int n} \<Longrightarrow>
   rank n a = rank n b \<Longrightarrow> a = b"
  by (auto simp: rank_def DS4_LAYER_PACK_CPU_def split: if_splits)

lemma sorted_rank_between:
  assumes "sorted (map (rank n) dev)" and "set dev \<subseteq> insert DS4_LAYER_PACK_CPU {0..<int n}"
    and "i \<le> j" and "j \<le> k" and "k < length dev" and "dev ! i = dev ! k"
  shows "dev ! j = dev ! k"
proof (rule rank_eq_device)
  have "map (rank n) dev ! i \<le> map (rank n) dev ! j"
    using assms(1) by (rule sorted_nth_mono) (use assms in simp_all)
  moreover have "map (rank n) dev ! j \<le> map (rank n) dev ! k"
    using assms(1) by (rule sorted_nth_mono) (use assms in simp_all)
  ultimately have "rank n (dev ! i) \<le> rank n (dev ! j)" "rank n (dev ! j) \<le> rank n (dev ! k)"
    using assms(3-5) by simp_all
  with assms(6) show "rank n (dev ! j) = rank n (dev ! k)" by simp
  show "dev ! j \<in> insert DS4_LAYER_PACK_CPU {0..<int n}" "dev ! k \<in> insert DS4_LAYER_PACK_CPU {0..<int n}"
    using assms(2,4,5) by (auto simp: subset_iff)
qed

text \<open>
  The layer range printed for a tier is exact: on a contiguous placement the transformer
  layers printed as "first-last" are exactly the layers of that tier, and the text
  "(no transformer layers)" is chosen exactly when the tier has none.
\<close>

lemma printed_range_exact:
  assumes "sorted (map (rank n) dev)" and "set dev \<subseteq> insert DS4_LAYER_PACK_CPU {0..<int n}"
    and "scan_layer_range dev tier (int (length dev)) nl 1 (-1) (-1) = (f, l)"
  shows "if f < 0 then \<forall>j. 1 \<le> j \<and> j \<le> nl \<and> j < int (length dev) \<longrightarrow> dev ! nat j \<noteq> tier
         else \<forall>j. 1 \<le> j \<and> j \<le> nl \<and> j < int (length dev) \<longrightarrow>
                (dev ! nat j = tier \<longleftrightarrow> f \<le> j - 1 \<and> j - 1 \<le> l)"
proof -
  let ?P = "tier_layer dev tier (int (length dev)) nl 1"
  note sp = scan_layer_range_spec [OF assms(3), simplified]
  show ?thesis
  proof (cases "\<exists>j. ?P j")
    case False
    with sp show ?thesis by auto
  next
    case True
    with sp have l: "?P (l + 1)" and f: "?P (f + 1)"
      and out: "\<And>j. ?P j \<Longrightarrow> j \<le> l + 1 \<and> f + 1 \<le> j" by auto
    have between: "dev ! nat j = tier" if "f + 1 \<le> j" "j \<le> l + 1" for j
      using sorted_rank_between [OF assms(1,2), of "nat (f + 1)" "nat j" "nat (l + 1)"] f l that
      by auto
    have "dev ! nat j = tier \<longleftrightarrow> f \<le> j - 1 \<and> j - 1 \<le> l"
      if "1 \<le> j" "j \<le> nl" "j < int (length dev)" for j
    proof
      assume "dev ! nat j = tier"
      with that out [of j] show "f \<le> j - 1 \<and> j - 1 \<le> l" by simp
    next
      assume "f \<le> j - 1 \<and> j - 1 \<le> l"
      then show "dev ! nat j = tier" by (intro between) simp_all
    qed
    moreover have "\<not> f < 0" using f by simp
    ultimately show ?thesis by simp
  qed
qed

end
