(* ===== verification/Ssd.thy ===== *)
theory Ssd
  imports Clib
begin

text \<open>
  SSD streaming support (\<open>ds4_ssd.c\<close>): the size arguments of the command line, the split of
  the recommended memory between resident weights and the routed-expert cache, and the
  memory lock that simulates used memory. Byte counts are natural numbers; where the C
  expression could leave 64 bits the wrap-around is written out, and the lemmas show that the
  guards exclude it.
\<close>

section \<open>Size arguments\<close>

definition DS4_GIB :: nat where "DS4_GIB = 1073741824"

text \<open>\<open>len > 2\<close> and the last two bytes spell GB in any case.\<close>

definition gb_suffix :: "string \<Rightarrow> bool" where
  "gb_suffix s \<longleftrightarrow> length s > 2
     \<and> (s ! (length s - 2) = CHR ''g'' \<or> s ! (length s - 2) = CHR ''G'')
     \<and> (s ! (length s - 1) = CHR ''b'' \<or> s ! (length s - 1) = CHR ''B'')"

text \<open>The bytes before the suffix, which are copied to \<open>numbuf\<close>.\<close>

definition gib_numbuf :: "string \<Rightarrow> string" where
  "gib_numbuf s = take (if gb_suffix s then length s - 2 else length s) s"

text \<open>\<open>None\<close> is the result \<open>false\<close> (the output stays 0); a NULL or empty argument is refused.\<close>

definition ds4_parse_gib_arg :: "string option \<Rightarrow> nat option" where
  "ds4_parse_gib_arg arg =
     (case arg of
        None \<Rightarrow> None
      | Some s \<Rightarrow>
          if s = [] then None
          else let numbuf = gib_numbuf s
               in if length numbuf = 0 then None
                  else if \<not> list_all c_isdigit numbuf then None
                  else if length numbuf \<ge> 32 then None
                  else (case c_strtoull numbuf of
                          (v, erange, _) \<Rightarrow>
                            if erange \<or> v = 0 \<or> v > UINT64_MAX div DS4_GIB then None
                            else Some ((v * DS4_GIB) mod 2 ^ 64)))"

text \<open>The pair (experts, bytes): exactly one of them is set on success.\<close>

definition ds4_parse_streaming_cache_experts_arg :: "string option \<Rightarrow> (nat \<times> nat) option" where
  "ds4_parse_streaming_cache_experts_arg arg =
     (case arg of
        None \<Rightarrow> None
      | Some s \<Rightarrow>
          if s = [] then None
          else if gb_suffix s then map_option (\<lambda>b. (0, b)) (ds4_parse_gib_arg arg)
          else if \<not> list_all c_isdigit s then None
          else (case c_strtoul s of
                  (v, erange, _) \<Rightarrow>
                    if erange \<or> v = 0 \<or> v > UINT32_MAX then None else Some (v, 0)))"

section \<open>The cache plan\<close>

definition ds4_ssd_cache_experts_for_byte_budget :: "nat \<Rightarrow> nat \<Rightarrow> nat" where
  "ds4_ssd_cache_experts_for_byte_budget bytes per_expert =
     (if bytes = 0 \<or> per_expert = 0 then 0
      else let experts = bytes div per_expert
           in if experts = 0 \<or> experts > UINT32_MAX then 0 else experts)"

text \<open>\<open>env\<close> is the value of \<open>DS4_SSD_AUTO_CACHE_PCT\<close>.\<close>

definition ds4_ssd_auto_cache_percent :: "string option \<Rightarrow> nat \<Rightarrow> nat" where
  "ds4_ssd_auto_cache_percent env default_percent =
     (case env of
        None \<Rightarrow> default_percent
      | Some e \<Rightarrow>
          if e = [] then default_percent
          else (case c_strtoul e of
                  (v, erange, rest) \<Rightarrow>
                    if rest \<noteq> e \<and> rest = [] \<and> \<not> erange \<and> v \<ge> 50 \<and> v \<le> 95 then v
                    else default_percent))"

record ds4_ssd_cache_plan =
  model_target_bytes :: nat
  cache_bytes :: nat
  effective_cache_bytes :: nat
  cache_experts :: nat

definition empty_plan :: ds4_ssd_cache_plan where
  "empty_plan = \<lparr>model_target_bytes = 0, cache_bytes = 0, effective_cache_bytes = 0, cache_experts = 0\<rparr>"

definition ds4_ssd_auto_cache_plan ::
  "string option \<Rightarrow> nat \<Rightarrow> nat \<Rightarrow> nat \<Rightarrow> nat \<Rightarrow> nat \<Rightarrow> nat \<Rightarrow> bool \<times> ds4_ssd_cache_plan" where
  "ds4_ssd_auto_cache_plan env recommended default_percent model_limit non_routed per_expert max_experts =
     (if recommended = 0 \<or> per_expert = 0 \<or> default_percent < 50 \<or> default_percent > 95
      then (False, empty_plan)
      else
        let pct = ds4_ssd_auto_cache_percent env default_percent;
            t0 = (if recommended > UINT64_MAX div pct then UINT64_MAX else (recommended * pct) div 100);
            t1 = (if model_limit \<noteq> 0 \<and> t0 > model_limit then model_limit else t0);
            cb = (if t1 > non_routed then t1 - non_routed else 0);
            e0 = cb div per_expert;
            e1 = (if e0 = 0 then 1 else e0);
            e2 = (if max_experts \<noteq> 0 \<and> e1 > max_experts then max_experts else e1);
            e3 = (if e2 > UINT32_MAX then UINT32_MAX else e2)
        in (e3 \<noteq> 0,
            \<lparr>model_target_bytes = t1, cache_bytes = cb,
             effective_cache_bytes = (e3 * per_expert) mod 2 ^ 64, cache_experts = e3\<rparr>))"

section \<open>The simulated memory lock\<close>

text \<open>
  The operating system is a parameter: whether \<open>mmap\<close> succeeds, the page size
  \<open>sysconf\<close> reports, and whether \<open>mlock\<close> of a range succeeds. The calls made are
  recorded in order. \<open>mmap\<close> grants no size within a chunk of the 64-bit limit, so the
  offsets below do not wrap.
\<close>

datatype mem_event =
    Touch nat nat          \<comment> \<open>offset, byte written\<close>
  | Mlock nat nat bool     \<comment> \<open>offset, length, success\<close>
  | Munlock nat            \<comment> \<open>length, from the start of the mapping\<close>
  | Munmap nat             \<comment> \<open>length\<close>

record mem_os =
  os_mmap :: "nat \<Rightarrow> bool"
  os_page :: int
  os_mlock :: "nat \<Rightarrow> nat \<Rightarrow> bool"

definition chunk_bytes :: nat where "chunk_bytes = 268435456"

text \<open>\<open>for (pos = off; pos < off + len; pos += page) p[pos] = (unsigned char)(pos / page)\<close>\<close>

function touch_pages :: "nat \<Rightarrow> nat \<Rightarrow> nat \<Rightarrow> mem_event list" where
  "touch_pages page pos stop =
     (if page \<noteq> 0 \<and> pos < stop
      then Touch pos ((pos div page) mod 256) # touch_pages page (pos + page) stop else [])"
  by pat_completeness auto
termination
  by (relation "measure (\<lambda>(page, pos, stop). stop - pos)") auto

declare touch_pages.simps [simp del]

text \<open>The chunk loop: the events, and whether every chunk was locked.\<close>

function lock_chunks :: "mem_os \<Rightarrow> nat \<Rightarrow> nat \<Rightarrow> nat \<Rightarrow> nat \<Rightarrow> mem_event list \<times> bool" where
  "lock_chunks os page bytes off locked =
     (if off < bytes then
        let len = (if bytes - off > chunk_bytes then chunk_bytes else bytes - off);
            touched = touch_pages page off (off + len) @ (if len \<noteq> 0 then [Touch (off + len - 1) 1] else [])
        in if \<not> os_mlock os off len
           then (touched @ [Mlock off len False] @ (if locked \<noteq> 0 then [Munlock locked] else [])
                 @ [Munmap bytes], False)
           else (case lock_chunks os page bytes (off + chunk_bytes) (locked + len) of
                   (evs, ok) \<Rightarrow> (touched @ Mlock off len True # evs, ok))
      else ([], True))"
  by pat_completeness auto
termination
  by (relation "measure (\<lambda>(os, page, bytes, off, locked). bytes - off)") (auto simp: chunk_bytes_def)

declare lock_chunks.simps [simp del]

text \<open>The lock object: \<open>None\<close> is \<open>ptr = NULL, bytes = 0\<close>.\<close>

definition ds4_ssd_memory_lock_acquire :: "mem_os \<Rightarrow> nat \<Rightarrow> mem_event list \<times> nat option \<times> bool" where
  "ds4_ssd_memory_lock_acquire os bytes =
     (if bytes = 0 then ([], None, True)
      else if bytes > SIZE_MAX then ([], None, False)
      else if \<not> os_mmap os bytes then ([], None, False)
      else let page = (if os_page os > 0 then nat (os_page os) else 4096)
           in case lock_chunks os page bytes 0 0 of
                (evs, ok) \<Rightarrow> (evs, if ok then Some bytes else None, ok))"

definition ds4_ssd_memory_lock_release :: "nat option \<Rightarrow> mem_event list \<times> nat option" where
  "ds4_ssd_memory_lock_release lock =
     (case lock of
        None \<Rightarrow> ([], None)
      | Some bytes \<Rightarrow> if bytes = 0 then ([], lock) else ([Munlock bytes, Munmap bytes], None))"

section \<open>Size arguments: what is accepted\<close>

lemma c_strtoull_digits:
  "ds \<noteq> [] \<Longrightarrow> list_all c_isdigit ds \<Longrightarrow>
   c_strtoull ds = (if dec_val 0 ds > UINT64_MAX then (UINT64_MAX, True, []) else (dec_val 0 ds, False, []))"
  using strto_scan_digits [of ds "[]"] by (simp add: c_strtoull_def)

lemma parse_gib_eq:
  "ds4_parse_gib_arg (Some s) =
     (let ds = gib_numbuf s; v = dec_val 0 ds
      in if ds \<noteq> [] \<and> list_all c_isdigit ds \<and> length ds < 32 \<and> 0 < v \<and> v \<le> 17179869183
         then Some (v * DS4_GIB) else None)"
proof -
  have "gib_numbuf [] = []" by (simp add: gib_numbuf_def)
  moreover have "v * DS4_GIB mod 2 ^ 64 = v * DS4_GIB" if "v \<le> 17179869183" for v
    using that by (simp add: DS4_GIB_def)
  ultimately show ?thesis
    by (auto simp: ds4_parse_gib_arg_def Let_def c_strtoull_digits DS4_GIB_def)
qed

abbreviation gb_spellings :: "string list" where
  "gb_spellings \<equiv> [''gb'', ''gB'', ''Gb'', ''GB'']"

lemma gb_suffix_iff: "gb_suffix s \<longleftrightarrow> (\<exists>ds g. s = ds @ g \<and> ds \<noteq> [] \<and> g \<in> set gb_spellings)"
proof
  assume g: "gb_suffix s"
  define k where "k = length s - 2"
  have k: "Suc (Suc k) = length s" "0 < k" using g by (auto simp: gb_suffix_def k_def)
  have "s = take k s @ [s ! k, s ! Suc k]"
    using k by (metis Cons_nth_drop_Suc append_take_drop_id drop_all lessI less_SucI order_refl)
  moreover have "[s ! k, s ! Suc k] \<in> set gb_spellings"
    using g k by (auto simp: gb_suffix_def k_def Suc_diff_Suc numeral_2_eq_2)
  moreover have "take k s \<noteq> []" using k by auto
  ultimately show "\<exists>ds g. s = ds @ g \<and> ds \<noteq> [] \<and> g \<in> set gb_spellings" by blast
next
  assume "\<exists>ds g. s = ds @ g \<and> ds \<noteq> [] \<and> g \<in> set gb_spellings"
  then show "gb_suffix s" by (auto simp: gb_suffix_def nth_append)
qed

lemma gib_numbuf_suffix [simp]: "ds \<noteq> [] \<Longrightarrow> g \<in> set gb_spellings \<Longrightarrow> gib_numbuf (ds @ g) = ds"
  using gb_suffix_iff [of "ds @ g"] by (auto simp: gib_numbuf_def)

lemma gib_numbuf_digits [simp]: "list_all c_isdigit ds \<Longrightarrow> gib_numbuf ds = ds"
proof -
  assume d: "list_all c_isdigit ds"
  have "\<not> gb_suffix ds"
  proof
    assume "gb_suffix ds"
    then obtain xs g where "ds = xs @ g" "g \<in> set gb_spellings" by (auto simp: gb_suffix_iff)
    with d show False by (auto simp: c_isdigit_def)
  qed
  then show ?thesis by (simp add: gib_numbuf_def)
qed

lemma gib_numbuf_cases: "s = gib_numbuf s \<or> (\<exists>g \<in> set gb_spellings. s = gib_numbuf s @ g)"
proof (cases "gb_suffix s")
  case True
  then obtain ds g where "s = ds @ g" "ds \<noteq> []" "g \<in> set gb_spellings" by (auto simp: gb_suffix_iff)
  then show ?thesis using gib_numbuf_suffix by metis
qed (simp add: gib_numbuf_def)

text \<open>
  The GiB argument accepts exactly a positive decimal number of at most 31 digits,
  optionally followed by "gb" in any case, whose byte count fits 64 bits; the result is the
  number times 2^30, with no wrap-around.
\<close>

lemma gib_arg_exact:
  "ds4_parse_gib_arg (Some s) = Some b \<longleftrightarrow>
     (\<exists>ds g. s = ds @ g \<and> g \<in> set ([] # gb_spellings) \<and> ds \<noteq> [] \<and> list_all c_isdigit ds
        \<and> length ds < 32 \<and> 0 < dec_val 0 ds \<and> dec_val 0 ds * DS4_GIB < 2 ^ 64
        \<and> b = dec_val 0 ds * DS4_GIB)"
proof
  assume "ds4_parse_gib_arg (Some s) = Some b"
  then have *: "gib_numbuf s \<noteq> []" "list_all c_isdigit (gib_numbuf s)" "length (gib_numbuf s) < 32"
      "0 < dec_val 0 (gib_numbuf s)" "dec_val 0 (gib_numbuf s) \<le> 17179869183"
      "b = dec_val 0 (gib_numbuf s) * DS4_GIB"
    by (auto simp: parse_gib_eq Let_def split: if_splits)
  then have "dec_val 0 (gib_numbuf s) * DS4_GIB < 2 ^ 64" by (simp add: DS4_GIB_def)
  with * gib_numbuf_cases [of s] show "\<exists>ds g. s = ds @ g \<and> g \<in> set ([] # gb_spellings) \<and> ds \<noteq> []
        \<and> list_all c_isdigit ds \<and> length ds < 32 \<and> 0 < dec_val 0 ds
        \<and> dec_val 0 ds * DS4_GIB < 2 ^ 64 \<and> b = dec_val 0 ds * DS4_GIB"
    by (metis append_Nil2 list.set_intros)
next
  assume "\<exists>ds g. s = ds @ g \<and> g \<in> set ([] # gb_spellings) \<and> ds \<noteq> [] \<and> list_all c_isdigit ds
        \<and> length ds < 32 \<and> 0 < dec_val 0 ds \<and> dec_val 0 ds * DS4_GIB < 2 ^ 64
        \<and> b = dec_val 0 ds * DS4_GIB"
  then obtain ds g where *: "s = ds @ g" "g = [] \<or> g \<in> set gb_spellings" "ds \<noteq> []"
      "list_all c_isdigit ds" "length ds < 32" "0 < dec_val 0 ds"
      "dec_val 0 ds * DS4_GIB < 2 ^ 64" "b = dec_val 0 ds * DS4_GIB" by auto
  then have "gib_numbuf s = ds" using gib_numbuf_suffix gib_numbuf_digits by auto
  with * show "ds4_parse_gib_arg (Some s) = Some b"
    by (simp add: parse_gib_eq Let_def DS4_GIB_def)
qed


section \<open>The cache plan: bounds\<close>

lemma auto_cache_percent_range:
  "50 \<le> d \<Longrightarrow> d \<le> 95 \<Longrightarrow> 50 \<le> ds4_ssd_auto_cache_percent env d \<and> ds4_ssd_auto_cache_percent env d \<le> 95"
  by (auto simp: ds4_ssd_auto_cache_percent_def split: option.splits prod.splits)

lemma capped_experts_bytes:
  assumes "(e::nat) \<le> max 1 (cb div per)"
  shows "e * per \<le> max cb per"
proof (cases "cb div per = 0")
  case True
  with assms have "e \<le> 1" by simp
  then have "e * per \<le> 1 * per" by (rule mult_le_mono1)
  also have "\<dots> \<le> max cb per" by simp
  finally show ?thesis .
next
  case False
  with assms have "e \<le> cb div per" by simp
  then have "e * per \<le> (cb div per) * per" by (rule mult_le_mono1)
  also have "\<dots> \<le> cb" by (rule div_times_less_eq_dividend)
  finally show ?thesis by simp
qed

text \<open>
  A cache plan for 64-bit sizes holds at least one expert and no more than the model has
  or 32 bits can count; resident weights and expert cache together stay within the target,
  the target within the model limit and within the configured share of the recommended
  memory; and the reported cache size is the exact product, never wrapped.
\<close>

lemma auto_cache_plan_bounds:
  assumes "ds4_ssd_auto_cache_plan env recommended dp model_limit non_routed per max_experts = (True, p)"
    and "per < 2 ^ 64" and "recommended < 2 ^ 64" and "model_limit < 2 ^ 64"
  shows "1 \<le> cache_experts p \<and> cache_experts p \<le> UINT32_MAX
    \<and> (max_experts \<noteq> 0 \<longrightarrow> cache_experts p \<le> max_experts)
    \<and> effective_cache_bytes p = cache_experts p * per
    \<and> effective_cache_bytes p \<le> max (cache_bytes p) per
    \<and> (cache_bytes p \<noteq> 0 \<longrightarrow> non_routed + cache_bytes p = model_target_bytes p)
    \<and> (model_limit \<noteq> 0 \<longrightarrow> model_target_bytes p \<le> model_limit)
    \<and> (recommended \<le> UINT64_MAX div 95 \<longrightarrow> model_target_bytes p * 100 \<le> recommended * 95)"
proof -
  have "\<not> (recommended = 0 \<or> per = 0 \<or> dp < 50 \<or> dp > 95)"
  proof
    assume "recommended = 0 \<or> per = 0 \<or> dp < 50 \<or> dp > 95"
    then have "ds4_ssd_auto_cache_plan env recommended dp model_limit non_routed per max_experts = (False, empty_plan)"
      unfolding ds4_ssd_auto_cache_plan_def by (rule if_P)
    with assms(1) show False by simp
  qed
  then have c: "50 \<le> dp" "dp \<le> 95" and ok: "recommended \<noteq> 0" "per \<noteq> 0" by auto
  define pct where "pct = ds4_ssd_auto_cache_percent env dp"
  have pct: "50 \<le> pct" "pct \<le> 95" using auto_cache_percent_range c by (auto simp: pct_def)
  define t0 where "t0 = (if recommended > UINT64_MAX div pct then UINT64_MAX else (recommended * pct) div 100)"
  define t1 where "t1 = (if model_limit \<noteq> 0 \<and> t0 > model_limit then model_limit else t0)"
  define cb where "cb = (if t1 > non_routed then t1 - non_routed else 0)"
  define e1 where "e1 = (if cb div per = 0 then 1 else cb div per)"
  define e2 where "e2 = (if max_experts \<noteq> 0 \<and> e1 > max_experts then max_experts else e1)"
  define e3 where "e3 = (if e2 > UINT32_MAX then UINT32_MAX else e2)"
  have p: "p = \<lparr>model_target_bytes = t1, cache_bytes = cb,
             effective_cache_bytes = (e3 * per) mod 2 ^ 64, cache_experts = e3\<rparr>" and e3: "e3 \<noteq> 0"
    using assms(1) c ok
    unfolding ds4_ssd_auto_cache_plan_def Let_def pct_def [symmetric] t0_def [symmetric]
      t1_def [symmetric] cb_def [symmetric] e1_def [symmetric] e2_def [symmetric] e3_def [symmetric]
    by auto
  have t10: "t1 \<le> t0" by (simp add: t1_def)
  have t0: "t0 \<le> UINT64_MAX"
  proof (cases "recommended > UINT64_MAX div pct")
    case False
    then have "recommended * pct \<le> (UINT64_MAX div pct) * pct" by (intro mult_le_mono1) simp
    also have "\<dots> \<le> UINT64_MAX" by (rule div_times_less_eq_dividend)
    finally have "recommended * pct div 100 \<le> UINT64_MAX div 100" by (rule div_le_mono)
    with False show ?thesis by (simp add: t0_def)
  qed (simp add: t0_def)
  have e2: "e2 \<le> max 1 (cb div per)" by (simp add: e2_def e1_def)
  have e32: "e3 \<le> e2" by (simp add: e3_def)
  with e2 have "e3 \<le> max 1 (cb div per)" by (rule le_trans [rotated])
  then have e3_per: "e3 * per \<le> max cb per" by (rule capped_experts_bytes)
  moreover have "cb \<le> t1" by (simp add: cb_def)
  then have "cb \<le> UINT64_MAX" using t0 t10 by (meson le_trans)
  ultimately have nowrap: "e3 * per mod 2 ^ 64 = e3 * per" using assms(2) by simp
  have share: "t1 * 100 \<le> recommended * 95" if r: "recommended \<le> UINT64_MAX div 95"
  proof -
    have "UINT64_MAX div 95 \<le> UINT64_MAX div pct" using pct by (intro div_le_mono2) simp_all
    with r have "t0 = recommended * pct div 100" by (simp add: t0_def)
    with t10 have "t1 * 100 \<le> (recommended * pct div 100) * 100" by simp
    also have "\<dots> \<le> recommended * pct" by (rule div_times_less_eq_dividend)
    also have "\<dots> \<le> recommended * 95" using pct by simp
    finally show ?thesis .
  qed
  have "max_experts \<noteq> 0 \<Longrightarrow> e2 \<le> max_experts" by (simp add: e2_def)
  with e32 have "max_experts \<noteq> 0 \<Longrightarrow> e3 \<le> max_experts" by (blast intro: le_trans)
  moreover have "e3 \<le> UINT32_MAX" by (simp add: e3_def)
  moreover have "cb \<noteq> 0 \<Longrightarrow> non_routed + cb = t1" by (simp add: cb_def split: if_splits)
  moreover have "model_limit \<noteq> 0 \<Longrightarrow> t1 \<le> model_limit" by (simp add: t1_def)
  moreover have "1 \<le> e3" using e3 by simp
  ultimately show ?thesis using e3_per share
    unfolding p ds4_ssd_cache_plan.select_convs nowrap by blast
qed

definition demo_plan :: ds4_ssd_cache_plan where
  "demo_plan = \<lparr>model_target_bytes = 80, cache_bytes = 60, effective_cache_bytes = 56, cache_experts = 8\<rparr>"

section \<open>The memory lock: coverage and clean-up\<close>

text \<open>The ranges locked, in order, and what it means that they tile an interval.\<close>

fun locked_ranges :: "mem_event list \<Rightarrow> (nat \<times> nat) list" where
  "locked_ranges [] = []"
| "locked_ranges (Mlock off len True # evs) = (off, len) # locked_ranges evs"
| "locked_ranges (_ # evs) = locked_ranges evs"

fun tiles :: "nat \<Rightarrow> nat \<Rightarrow> (nat \<times> nat) list \<Rightarrow> bool" where
  "tiles a b [] \<longleftrightarrow> a = b"
| "tiles a b ((off, len) # r) \<longleftrightarrow> off = a \<and> 0 < len \<and> len \<le> chunk_bytes \<and> tiles (a + len) b r"

lemma locked_ranges_append [simp]: "locked_ranges (xs @ ys) = locked_ranges xs @ locked_ranges ys"
  by (induction xs rule: locked_ranges.induct) auto

lemma locked_ranges_touch [simp]: "locked_ranges (touch_pages page pos stop) = []"
proof (induction page pos stop rule: touch_pages.induct)
  case (1 page pos stop)
  then show ?case by (simp add: touch_pages.simps [of page pos stop])
qed

lemma touch_pages_covers:
  "page \<noteq> 0 \<Longrightarrow> page dvd pos \<Longrightarrow> pos \<le> k * page \<Longrightarrow> k * page < stop \<Longrightarrow>
   \<exists>v. Touch (k * page) v \<in> set (touch_pages page pos stop)"
proof (induction page pos stop rule: touch_pages.induct)
  case (1 page pos stop)
  show ?case
  proof (cases "pos = k * page")
    case True
    with "1.prems" show ?thesis by (subst touch_pages.simps) auto
  next
    case False
    from "1.prems"(2) obtain m where m: "pos = m * page" by (metis dvd_def mult.commute)
    with False "1.prems" have "m * page < k * page" by simp
    then have "Suc m \<le> k" by simp
    then have "pos + page \<le> k * page" using m by (metis add.commute mult_Suc mult_le_mono1)
    with "1.IH" "1.prems" show ?thesis by (auto simp: touch_pages.simps [of page pos stop])
  qed
qed

lemma lock_chunks_success:
  assumes "lock_chunks os page bytes off locked = (evs, True)" and "off \<le> bytes"
    and "page \<noteq> 0" and "page dvd chunk_bytes" and "page dvd off"
  shows "tiles off bytes (locked_ranges evs)
    \<and> (\<forall>k. off \<le> k * page \<and> k * page < bytes \<longrightarrow> (\<exists>v. Touch (k * page) v \<in> set evs))"
  using assms
proof (induction os page bytes off locked arbitrary: evs rule: lock_chunks.induct)
  case (1 os page bytes off locked)
  show ?case
  proof (cases "off < bytes")
    case False
    with "1.prems" show ?thesis by (auto simp: lock_chunks.simps [of os page bytes off locked])
  next
    case True
    define len where "len = (if bytes - off > chunk_bytes then chunk_bytes else bytes - off)"
    define touched where "touched = touch_pages page off (off + len) @ (if len \<noteq> 0 then [Touch (off + len - 1) 1] else [])"
    obtain evs2 ok where r: "lock_chunks os page bytes (off + chunk_bytes) (locked + len) = (evs2, ok)"
      by (cases "lock_chunks os page bytes (off + chunk_bytes) (locked + len)")
    from "1.prems"(1) True r have evs: "evs = touched @ Mlock off len True # evs2" and ok: "ok"
      and ml: "os_mlock os off len"
      by (cases "os_mlock os off len"; simp add: lock_chunks.simps [of os page bytes off locked] Let_def
          len_def [symmetric] touched_def)+
    have len: "0 < len" "len \<le> chunk_bytes" using True by (auto simp: len_def chunk_bytes_def)
    have lr: "locked_ranges evs = (off, len) # locked_ranges evs2" by (simp add: evs touched_def)
    have here: "\<exists>v. Touch (k * page) v \<in> set evs" if "off \<le> k * page" "k * page < off + len" for k
      using touch_pages_covers [OF "1.prems"(3,5) that] by (auto simp: evs touched_def)
    show ?thesis
    proof (cases "off + chunk_bytes \<le> bytes \<and> bytes - off > chunk_bytes")
      case more: True
      then have l: "len = chunk_bytes" by (simp add: len_def)
      have "page dvd off + chunk_bytes" using "1.prems" by simp
      moreover have "\<not> \<not> os_mlock os off len" using ml by simp
      moreover have "lock_chunks os page bytes (off + chunk_bytes) (locked + len) = (evs2, True)"
        using r ok by simp
      ultimately have IH: "tiles (off + chunk_bytes) bytes (locked_ranges evs2)"
        "\<forall>k. off + chunk_bytes \<le> k * page \<and> k * page < bytes \<longrightarrow> (\<exists>v. Touch (k * page) v \<in> set evs2)"
        using "1.IH" [OF True len_def touched_def] more "1.prems"(3,4) by blast+
      have "\<exists>v. Touch (k * page) v \<in> set evs" if "off \<le> k * page" "k * page < bytes" for k
      proof (cases "k * page < off + len")
        case True
        with here that show ?thesis by blast
      next
        case False
        with that l IH(2) have "\<exists>v. Touch (k * page) v \<in> set evs2" by simp
        then show ?thesis by (auto simp: evs)
      qed
      with IH(1) len l show ?thesis by (simp add: lr)
    next
      case False
      then have l: "off + len = bytes" using True by (auto simp: len_def)
      with r len have "evs2 = []" by (simp add: lock_chunks.simps [of os page bytes "off + chunk_bytes"] split: if_splits)
      with l len here show ?thesis by (simp add: lr)
    qed
  qed
qed



lemma lock_chunks_failure:
  assumes "lock_chunks os page bytes off locked = (evs, False)" and "off \<le> bytes" and "locked = off"
  shows "\<exists>pre at len. evs = pre @ [Mlock at len False] @ (if at \<noteq> 0 then [Munlock at] else []) @ [Munmap bytes]
    \<and> at < bytes \<and> tiles off at (locked_ranges pre)"
  using assms
proof (induction os page bytes off locked arbitrary: evs rule: lock_chunks.induct)
  case (1 os page bytes off locked)
  have lt: "off < bytes"
    using "1.prems"(1) by (simp add: lock_chunks.simps [of os page bytes off locked] split: if_splits)
  define len where "len = (if bytes - off > chunk_bytes then chunk_bytes else bytes - off)"
  define touched where "touched = touch_pages page off (off + len) @ (if len \<noteq> 0 then [Touch (off + len - 1) 1] else [])"
  have tr: "locked_ranges touched = []" by (simp add: touched_def)
  show ?case
  proof (cases "os_mlock os off len")
    case False
    then have "evs = touched @ [Mlock off len False] @ (if off \<noteq> 0 then [Munlock off] else []) @ [Munmap bytes]"
      using "1.prems"(1) lt unfolding "1.prems"(3)
      by (simp add: lock_chunks.simps [of os page bytes off off] Let_def len_def [symmetric] touched_def)
    with lt tr show ?thesis by (intro exI [of _ touched] exI [of _ off] exI [of _ len]) simp
  next
    case True
    obtain evs2 ok where r: "lock_chunks os page bytes (off + chunk_bytes) (locked + len) = (evs2, ok)"
      by (cases "lock_chunks os page bytes (off + chunk_bytes) (locked + len)")
    then have evs: "evs = touched @ Mlock off len True # evs2" and ok: "\<not> ok"
      using "1.prems"(1) lt True
      by (simp_all add: lock_chunks.simps [of os page bytes off locked] Let_def len_def [symmetric] touched_def)
    have more: "off + chunk_bytes < bytes"
      using r ok by (simp add: lock_chunks.simps [of os page bytes "off + chunk_bytes"] split: if_splits)
    then have "chunk_bytes < bytes - off" by linarith
    then have l: "len = chunk_bytes" by (simp add: len_def)
    have "\<not> \<not> os_mlock os off len" using True by simp
    moreover have "lock_chunks os page bytes (off + chunk_bytes) (locked + len) = (evs2, False)"
      using r ok by simp
    moreover have "locked + len = off + chunk_bytes" using l "1.prems"(3) by simp
    ultimately obtain pre at n where
      IH: "evs2 = pre @ [Mlock at n False] @ (if at \<noteq> 0 then [Munlock at] else []) @ [Munmap bytes]"
        "at < bytes" "tiles (off + chunk_bytes) at (locked_ranges pre)"
      using "1.IH" [OF lt len_def touched_def] more by (metis less_imp_le)
    then have "evs = (touched @ Mlock off len True # pre) @ [Mlock at n False]
        @ (if at \<noteq> 0 then [Munlock at] else []) @ [Munmap bytes]" by (simp add: evs)
    moreover have "tiles off at (locked_ranges (touched @ Mlock off len True # pre))"
      using IH(3) tr l by (simp add: chunk_bytes_def)
    ultimately show ?thesis using IH(2) by blast
  qed
qed

text \<open>
  (C39) The simulated memory lock. On success the locked ranges tile the whole mapping in
  chunks of at most 256 MiB, every page was written, and the lock records the size. On a
  failed \<open>mlock\<close> exactly the part locked so far is unlocked, the whole mapping is unmapped,
  and the lock stays empty.
\<close>

theorem memory_lock_all_or_nothing:
  assumes "ds4_ssd_memory_lock_acquire os bytes = (evs, lock, ok)"
    and "0 < bytes" and "bytes \<le> SIZE_MAX" and "os_mmap os bytes"
    and "os_page os > 0" and "nat (os_page os) dvd chunk_bytes"
  shows "if ok
    then lock = Some bytes \<and> tiles 0 bytes (locked_ranges evs)
      \<and> (\<forall>k. k * nat (os_page os) < bytes \<longrightarrow> (\<exists>v. Touch (k * nat (os_page os)) v \<in> set evs))
    else lock = None \<and> (\<exists>pre at len.
        evs = pre @ [Mlock at len False] @ (if at \<noteq> 0 then [Munlock at] else []) @ [Munmap bytes]
        \<and> at < bytes \<and> tiles 0 at (locked_ranges pre))"
proof -
  let ?page = "nat (os_page os)"
  obtain evs2 ok2 where r: "lock_chunks os ?page bytes 0 0 = (evs2, ok2)"
    by (cases "lock_chunks os ?page bytes 0 0")
  with assms have eq: "evs2 = evs" "ok2 = ok" "lock = (if ok then Some bytes else None)"
    by (auto simp: ds4_ssd_memory_lock_acquire_def)
  show ?thesis
  proof (cases ok)
    case True
    with r eq assms lock_chunks_success [of os ?page bytes 0 0 evs] show ?thesis by simp
  next
    case False
    with r eq lock_chunks_failure [of os ?page bytes 0 0 evs] show ?thesis by simp
  qed
qed

definition demo_os :: mem_os where
  "demo_os = \<lparr>os_mmap = (\<lambda>_. True), os_page = 4096, os_mlock = (\<lambda>off _. off < 268435456)\<rparr>"

theorem memory_lock_all_or_nothing_witness:
  "(if True
    then Some 5000 = Some (5000::nat) \<and> tiles 0 5000 (locked_ranges [Touch 0 0, Touch 4096 1, Touch 4999 1, Mlock 0 5000 True])
      \<and> (\<forall>k. k * nat (os_page demo_os) < 5000 \<longrightarrow> (\<exists>v. Touch (k * nat (os_page demo_os)) v
            \<in> set [Touch 0 0, Touch 4096 1, Touch 4999 1, Mlock 0 5000 True]))
    else Some (5000::nat) = None \<and> (\<exists>pre at len.
        [Touch 0 0, Touch 4096 1, Touch 4999 1, Mlock 0 5000 True]
        = pre @ [Mlock at len False] @ (if at \<noteq> 0 then [Munlock at] else []) @ [Munmap 5000]
        \<and> at < 5000 \<and> tiles 0 at (locked_ranges pre)))"
proof (rule memory_lock_all_or_nothing)
  show "ds4_ssd_memory_lock_acquire demo_os 5000
    = ([Touch 0 0, Touch 4096 1, Touch 4999 1, Mlock 0 5000 True], Some 5000, True)"
    by (simp add: ds4_ssd_memory_lock_acquire_def demo_os_def lock_chunks.simps touch_pages.simps
        chunk_bytes_def Let_def)
qed (simp_all add: demo_os_def chunk_bytes_def)

end
