(* ===== verification/Gpu_Args.thy ===== *)
theory Gpu_Args
  imports Clib
begin

text \<open>
  The \<open>--gpu-vram\<close> / \<open>--gpu-devices\<close> parser (\<open>ds4_gpu_args.c\<close>) and its echo line.
  Errors are the messages the code formats, before they are cut to the caller's buffer by
  \<open>errbuf_set\<close>. The CUDA probe behind \<open>auto\<close> is a parameter, absent in a build without
  CUDA.
\<close>

section \<open>State\<close>

definition DS4_MAX_GPUS :: nat where "DS4_MAX_GPUS = 16"
definition DS4_GPU_ARGS_DEFAULT_SAFETY_MARGIN :: nat where
  "DS4_GPU_ARGS_DEFAULT_SAFETY_MARGIN = 512 * 1024 * 1024"
definition DS4_GPU_ARGS_MAX_VRAM_GB :: int where "DS4_GPU_ARGS_MAX_VRAM_GB = 16384"
definition DS4_GPU_ARGS_MAX_DEVICE_INDEX :: int where "DS4_GPU_ARGS_MAX_DEVICE_INDEX = 1023"

text \<open>The arrays hold the first \<open>n_gpus\<close> entries.\<close>

record ds4_gpu_config =
  device_indices :: "int list"
  vram_bytes :: "nat list"
  n_gpus :: nat
  safety_margin_bytes :: nat

section \<open>Parsing\<close>

definition errbuf_set :: "nat \<Rightarrow> string \<Rightarrow> string" where
  "errbuf_set outlen msg = (if outlen = 0 then [] else take (outlen - 1) msg)"

definition blank :: "char \<Rightarrow> bool" where
  "blank c \<longleftrightarrow> c = CHR '' '' \<or> c = CHR 0x09"

definition quoted :: "string \<Rightarrow> string" where
  "quoted s = [CHR 0x27] @ s @ [CHR 0x27]"

lemma strto_scan_rest: "strto_scan s = Some (neg, v, r) \<Longrightarrow> length r < length s"
proof -
  assume a: "strto_scan s = Some (neg, v, r)"
  define s1 where "s1 = dropWhile c_isspace s"
  define s2 where "s2 = (case s1 of c # t \<Rightarrow> (if c = CHR ''-'' \<or> c = CHR ''+'' then t else s1) | [] \<Rightarrow> [])"
  have "length s1 \<le> length s" unfolding s1_def by (rule length_dropWhile_le)
  moreover have "length s2 \<le> length s1" by (auto simp: s2_def split: list.splits)
  moreover have r: "r = dropWhile c_isdigit s2" and ne: "takeWhile c_isdigit s2 \<noteq> []"
    using a by (auto simp: strto_scan_def Let_def s1_def [symmetric] s2_def [symmetric] split: if_splits)
  moreover have "length (takeWhile c_isdigit s2) + length r = length s2"
    unfolding r by (metis length_append takeWhile_dropWhile_id)
  moreover have "0 < length (takeWhile c_isdigit s2)" using ne by simp
  ultimately show "length r < length s" by linarith
qed

lemma c_strtol_rest: "c_strtol s = (v, e, r) \<Longrightarrow> r \<noteq> s \<Longrightarrow> length r < length s"
  by (auto simp: c_strtol_def dest: strto_scan_rest split: option.splits if_splits)

lemma csv_step_shorter:
  assumes "c_strtol (dropWhile blank p) = (v, e, r)" and "r \<noteq> dropWhile blank p"
    and "dropWhile blank r = c # e2"
  shows "length e2 < length p"
proof -
  have "length (dropWhile blank p) \<le> length p" by (rule length_dropWhile_le)
  moreover have "length r < length (dropWhile blank p)" using c_strtol_rest assms by metis
  moreover have "length (dropWhile blank r) \<le> length r" by (rule length_dropWhile_le)
  ultimately show ?thesis using assms(3) by simp
qed

text \<open>The loop of \<open>parse_csv_int_list\<close>: \<open>p\<close> is the unread text, \<open>acc\<close> the values so far.\<close>

function parse_csv_loop :: "string \<Rightarrow> int list \<Rightarrow> nat \<Rightarrow> int \<Rightarrow> string \<Rightarrow> string + int list" where
  "parse_csv_loop p acc max_count max_value what =
     (if p = [] then
        (if acc = [] then Inl (what @ '': no values parsed'') else Inr acc)
      else
        let q = dropWhile blank p
        in (case c_strtol q of
             (v, erange, end) \<Rightarrow>
               if end = q then Inl (what @ '': not a number: '' @ quoted q)
               else if erange \<or> v < 0 \<or> v > max_value
               then Inl (what @ '': out-of-range value: '' @ quoted q @ '' (allowed 0..'' @ show_int max_value @ '')'')
               else if length acc \<ge> max_count
               then Inl (what @ '': too many entries (max '' @ show_nat max_count @ '')'')
               else let e1 = dropWhile blank end
                    in (case e1 of
                         [] \<Rightarrow> parse_csv_loop [] (acc @ [v]) max_count max_value what
                       | c # e2 \<Rightarrow>
                           if c = CHR '',''
                           then (if e2 = [] \<or> hd e2 = CHR '',''
                                 then Inl (what @ '': empty entry near '' @ quoted e2)
                                 else parse_csv_loop e2 (acc @ [v]) max_count max_value what)
                           else Inl (what @ '': junk after value: '' @ quoted e1))))"
  by pat_completeness auto
termination
  by (relation "measure (\<lambda>(p, _). length p)") (simp_all, metis csv_step_shorter)

declare parse_csv_loop.simps [simp del]

definition parse_csv_int_list :: "string option \<Rightarrow> nat \<Rightarrow> int \<Rightarrow> string \<Rightarrow> string + int list" where
  "parse_csv_int_list arg max_count max_value what =
     (case arg of
        None \<Rightarrow> Inl (what @ '': empty value'')
      | Some s \<Rightarrow> if s = [] then Inl (what @ '': empty value'')
                  else parse_csv_loop s [] max_count max_value what)"

text \<open>
  The CUDA probe gets the device filter and the safety margin. The result is the
  configuration and whether CUDA is skipped. Both arguments absent is an internal error.
\<close>

type_synonym cuda_probe = "int list option \<Rightarrow> nat \<Rightarrow> string + ds4_gpu_config"

definition empty_config :: ds4_gpu_config where
  "empty_config = \<lparr>device_indices = [], vram_bytes = [], n_gpus = 0,
     safety_margin_bytes = DS4_GPU_ARGS_DEFAULT_SAFETY_MARGIN\<rparr>"

definition parse_gpu_vram_arg ::
  "cuda_probe option \<Rightarrow> string option \<Rightarrow> string option \<Rightarrow> string + (ds4_gpu_config \<times> bool)" where
  "parse_gpu_vram_arg probe vram_arg devices_arg =
     (case (case devices_arg of
              None \<Rightarrow> Inr []
            | Some _ \<Rightarrow> parse_csv_int_list devices_arg DS4_MAX_GPUS DS4_GPU_ARGS_MAX_DEVICE_INDEX ''--gpu-devices'') of
        Inl err \<Rightarrow> Inl err
      | Inr dev_list \<Rightarrow>
          if vram_arg = None \<and> devices_arg = None
          then Inl ''internal: parse_gpu_vram_arg called with both args NULL''
          else
            let vram = (case vram_arg of None \<Rightarrow> ''auto'' | Some v \<Rightarrow> v)
            in if vram = ''0'' then
                 (if devices_arg \<noteq> None then Inl ''--gpu-vram 0 conflicts with --gpu-devices''
                  else Inr (empty_config, True))
               else if vram = ''auto'' then
                 (case probe of
                    None \<Rightarrow> Inl ''--gpu-vram auto requires a CUDA build''
                  | Some f \<Rightarrow>
                      (case f (if dev_list \<noteq> [] then Some dev_list else None)
                              (safety_margin_bytes empty_config) of
                         Inl err \<Rightarrow> Inl err
                       | Inr cfg \<Rightarrow> Inr (cfg, False)))
               else
                 (case parse_csv_int_list (Some vram) DS4_MAX_GPUS DS4_GPU_ARGS_MAX_VRAM_GB ''--gpu-vram'' of
                    Inl err \<Rightarrow> Inl err
                  | Inr vram_list \<Rightarrow>
                      if dev_list \<noteq> [] \<and> length dev_list \<noteq> length vram_list
                      then Inl (''--gpu-devices count ('' @ show_nat (length dev_list)
                                @ '') does not match --gpu-vram count ('' @ show_nat (length vram_list) @ '')'')
                      else Inr (empty_config\<lparr>
                             n_gpus := length vram_list,
                             device_indices := map (\<lambda>i. if dev_list \<noteq> [] then dev_list ! i else int i)
                                                 [0..<length vram_list],
                             vram_bytes := map (\<lambda>v. (nat v * 1073741824) mod 2 ^ 64) vram_list\<rparr>, False)))"

section \<open>The echo line\<close>

text \<open>
  Each \<open>snprintf\<close> appends at \<open>written\<close>; when it does not fit, the buffer holds what fits
  and the call returns the length reached so far plus what this piece would have taken.
\<close>

fun snprintf_pieces :: "nat \<Rightarrow> string \<Rightarrow> string list \<Rightarrow> string \<times> nat" where
  "snprintf_pieces outlen buf [] = (buf, length buf)"
| "snprintf_pieces outlen buf (piece # rest) =
     (if length buf + length piece \<ge> outlen
      then (take (outlen - 1) (buf @ piece), length buf + length piece)
      else snprintf_pieces outlen (buf @ piece) rest)"

definition gpu_layout_pieces :: "ds4_gpu_config \<Rightarrow> bool \<Rightarrow> string list" where
  "gpu_layout_pieces cfg was_auto =
     [''ds4: GPU config: '' @ show_nat (n_gpus cfg) @ '' device'' @ (if n_gpus cfg = 1 then '''' else ''s'') @ '' ['']
     @ map (\<lambda>i. (if i \<noteq> 0 then '','' else '''') @ show_int (device_indices cfg ! i)) [0..<n_gpus cfg]
     @ [''] requested, budgets '']
     @ map (\<lambda>i. (if i \<noteq> 0 then '','' else '''')
                @ fmt_fixed0 (double_of_nat (vram_bytes cfg ! i)) 1073741824) [0..<n_gpus cfg]
     @ ['' GB; auto='' @ (if was_auto then ''true'' else ''false'')]"

definition format_gpu_layout_line :: "ds4_gpu_config option \<Rightarrow> bool \<Rightarrow> nat \<Rightarrow> string \<times> int" where
  "format_gpu_layout_line cfg was_auto outlen =
     (if outlen = 0 then ([], -1)
      else case cfg of
        None \<Rightarrow> ([], -1)
      | Some c \<Rightarrow> (case snprintf_pieces outlen [] (gpu_layout_pieces c was_auto) of
                     (buf, n) \<Rightarrow> (buf, int n)))"


section \<open>Bounds of what is accepted\<close>

lemmas csv_eval = c_strtol_def strto_scan_def c_isdigit_def c_isspace_def blank_def digit_val_def Let_def
  DS4_MAX_GPUS_def DS4_GPU_ARGS_MAX_DEVICE_INDEX_def DS4_GPU_ARGS_MAX_VRAM_GB_def
  DS4_GPU_ARGS_DEFAULT_SAFETY_MARGIN_def

lemma parse_csv_loop_bounds:
  assumes "parse_csv_loop p acc mc mv what = Inr vs"
    and "list_all (\<lambda>v. 0 \<le> v \<and> v \<le> mv) acc" and "length acc \<le> mc"
  shows "vs \<noteq> [] \<and> length vs \<le> mc \<and> list_all (\<lambda>v. 0 \<le> v \<and> v \<le> mv) vs"
  using assms
proof (induction p acc mc mv what rule: parse_csv_loop.induct)
  case (1 p acc mc mv what)
  show ?case
  proof (cases "p = []")
    case True
    with "1.prems" show ?thesis by (auto simp: parse_csv_loop.simps [of "[]"] split: if_splits)
  next
    case False
    obtain v e r where st: "c_strtol (dropWhile blank p) = (v, e, r)" by (metis prod_cases3)
    from "1.prems"(1) False st have ok: "r \<noteq> dropWhile blank p" "\<not> (e \<or> v < 0 \<or> v > mv)" "\<not> length acc \<ge> mc"
      by (auto simp: parse_csv_loop.simps [of p] Let_def split: if_splits)
    have acc: "list_all (\<lambda>v. 0 \<le> v \<and> v \<le> mv) (acc @ [v])" "length (acc @ [v]) \<le> mc"
      using ok "1.prems"(2,3) by auto
    show ?thesis
    proof (cases "dropWhile blank r")
      case Nil
      with "1.prems"(1) False st ok have "parse_csv_loop [] (acc @ [v]) mc mv what = Inr vs"
        by (simp add: parse_csv_loop.simps [of p] Let_def)
      with "1.IH"(1) [OF False refl st [symmetric] refl ok refl Nil] acc show ?thesis by simp
    next
      case (Cons c e2)
      with "1.prems"(1) False st ok have c: "c = CHR '',''" "\<not> (e2 = [] \<or> hd e2 = CHR '','')"
        and rec: "parse_csv_loop e2 (acc @ [v]) mc mv what = Inr vs"
        by (auto simp: parse_csv_loop.simps [of p] Let_def split: if_splits)
      from "1.IH"(2) [OF False refl st [symmetric] refl ok refl Cons c] rec acc show ?thesis by simp
    qed
  qed
qed


lemma parse_csv_bounds:
  "parse_csv_int_list arg mc mv what = Inr vs \<Longrightarrow>
   vs \<noteq> [] \<and> length vs \<le> mc \<and> list_all (\<lambda>v. 0 \<le> v \<and> v \<le> mv) vs"
  using parse_csv_loop_bounds [of _ "[]"]
  by (auto simp: parse_csv_int_list_def split: option.splits if_splits)

text \<open>
  An accepted explicit budget list gives between 1 and 16 devices, with one device index
  in 0..1023 and one budget per device, and each budget is an exact number of GiB up to 16384:
  the 64-bit product never wraps.
\<close>

lemma gpu_vram_arg_bounds:
  assumes "parse_gpu_vram_arg probe (Some v) devs = Inr (cfg, skip)" and "v \<noteq> ''auto''" and "v \<noteq> ''0''"
  shows "\<not> skip \<and> 1 \<le> n_gpus cfg \<and> n_gpus cfg \<le> DS4_MAX_GPUS
    \<and> length (device_indices cfg) = n_gpus cfg \<and> length (vram_bytes cfg) = n_gpus cfg
    \<and> (\<forall>d \<in> set (device_indices cfg). 0 \<le> d \<and> d \<le> DS4_GPU_ARGS_MAX_DEVICE_INDEX)
    \<and> (\<forall>b \<in> set (vram_bytes cfg). \<exists>g \<le> 16384. b = g * 1073741824)"
proof -
  from assms obtain dl where
    dl: "(case devs of None \<Rightarrow> Inr []
          | Some _ \<Rightarrow> parse_csv_int_list devs DS4_MAX_GPUS DS4_GPU_ARGS_MAX_DEVICE_INDEX ''--gpu-devices'') = Inr dl"
    by (auto simp: parse_gpu_vram_arg_def split: sum.splits)
  have dlb: "list_all (\<lambda>d. 0 \<le> d \<and> d \<le> DS4_GPU_ARGS_MAX_DEVICE_INDEX) dl"
    using dl by (auto split: option.splits dest!: parse_csv_bounds)
  from assms dl obtain vl where
    vl: "parse_csv_int_list (Some v) DS4_MAX_GPUS DS4_GPU_ARGS_MAX_VRAM_GB ''--gpu-vram'' = Inr vl"
    and cnt: "dl \<noteq> [] \<longrightarrow> length dl = length vl" and ns: "\<not> skip"
    and cfg: "cfg = empty_config\<lparr>n_gpus := length vl,
        device_indices := map (\<lambda>i. if dl \<noteq> [] then dl ! i else int i) [0..<length vl],
        vram_bytes := map (\<lambda>v. (nat v * 1073741824) mod 2 ^ 64) vl\<rparr>"
    by (auto simp: parse_gpu_vram_arg_def Let_def split: sum.splits if_splits)
  note vlb = parse_csv_bounds [OF vl]
  have "\<exists>g \<le> 16384. (nat x * 1073741824) mod 2 ^ 64 = g * 1073741824" if "x \<in> set vl" for x
  proof -
    have "nat x \<le> 16384" using vlb that by (auto simp: list_all_iff DS4_GPU_ARGS_MAX_VRAM_GB_def)
    then show ?thesis by (intro exI [of _ "nat x"]) simp
  qed
  moreover have "0 \<le> d \<and> d \<le> DS4_GPU_ARGS_MAX_DEVICE_INDEX"
    if "d \<in> set (map (\<lambda>i. if dl \<noteq> [] then dl ! i else int i) [0..<length vl])" for d
    using that dlb cnt vlb
    by (auto simp: list_all_iff DS4_GPU_ARGS_MAX_DEVICE_INDEX_def DS4_MAX_GPUS_def split: if_splits)
  moreover have "1 \<le> length vl" using vlb by (simp add: Suc_le_eq)
  ultimately show ?thesis using ns vlb by (simp add: cfg)
qed

definition demo_gpu_config :: ds4_gpu_config where
  "demo_gpu_config = \<lparr>device_indices = [3, 1], vram_bytes = [42949672960, 12884901888], n_gpus = 2,
     safety_margin_bytes = 536870912\<rparr>"

section \<open>Printed lists are read back\<close>

fun csv :: "nat list \<Rightarrow> string" where
  "csv [] = []"
| "csv [n] = show_nat n"
| "csv (n # m # ns) = show_nat n @ '','' @ csv (m # ns)"

lemma show_nat_Cons: "\<exists>c t. show_nat n = c # t \<and> c_isdigit c"
  using show_nat_digits [of n] by (cases "show_nat n") (auto simp: show_nat_not_Nil)

lemma csv_Cons: "ns \<noteq> [] \<Longrightarrow> \<exists>c t. csv ns = c # t \<and> c_isdigit c"
proof (induction ns rule: csv.induct)
  case (2 n)
  then show ?case using show_nat_Cons by simp
next
  case (3 n m ns)
  obtain c t where "show_nat n = c # t" "c_isdigit c" using show_nat_Cons by blast
  then show ?case by simp
qed simp

lemma digit_not_blank: "c_isdigit c \<Longrightarrow> \<not> blank c"
  by (auto simp: c_isdigit_def blank_def)

lemma dropWhile_blank_digit: "c_isdigit c \<Longrightarrow> dropWhile blank (c # s) = c # s"
  by (simp add: digit_not_blank)

lemma c_strtol_show_nat:
  "n \<le> INT64_MAX \<Longrightarrow> rest = [] \<or> \<not> c_isdigit (hd rest) \<Longrightarrow> c_strtol (show_nat n @ rest) = (int n, False, rest)"
  using strto_scan_show_nat [of rest n] by (simp add: c_strtol_def)

lemma parse_csv_loop_csv:
  assumes "ns \<noteq> []" and "length acc + length ns \<le> mc" and "list_all (\<lambda>n. int n \<le> mv) ns" and "mv \<le> int INT64_MAX"
  shows "parse_csv_loop (csv ns) acc mc mv what = Inr (acc @ map int ns)"
  using assms
proof (induction ns arbitrary: acc rule: csv.induct)
  case 1
  then show ?case by simp
next
  case (2 n)
  obtain c t where ct: "show_nat n = c # t" "c_isdigit c" using show_nat_Cons by blast
  have st: "c_strtol (show_nat n) = (int n, False, [])"
    using c_strtol_show_nat [of n "[]"] 2 by simp
  have "dropWhile blank (show_nat n) = show_nat n" using ct dropWhile_blank_digit by simp
  with 2 st show ?case
    by (simp add: parse_csv_loop.simps [of "show_nat n"] parse_csv_loop.simps [of "[]"] Let_def
      show_nat_not_Nil [symmetric])
next
  case (3 n m ns)
  let ?r = "csv (m # ns)"
  obtain c t where ct: "show_nat n = c # t" "c_isdigit c" using show_nat_Cons by blast
  obtain d u where du: "?r = d # u" "c_isdigit d" using csv_Cons by blast
  have st: "c_strtol (show_nat n @ CHR '','' # ?r) = (int n, False, CHR '','' # ?r)"
    using c_strtol_show_nat [of n "CHR '','' # ?r"] 3 by (simp add: c_isdigit_def)
  have db: "dropWhile blank (show_nat n @ CHR '','' # ?r) = show_nat n @ CHR '','' # ?r"
    "dropWhile blank (CHR '','' # ?r) = CHR '','' # ?r"
    using ct dropWhile_blank_digit by (simp_all add: blank_def)
  have "hd ?r \<noteq> CHR '',''" using du isdigit_neq by simp
  moreover have "parse_csv_loop ?r (acc @ [int n]) mc mv what = Inr ((acc @ [int n]) @ map int (m # ns))"
    using 3 by (intro "3.IH") auto
  ultimately show ?case using 3 st db du
    by (simp add: parse_csv_loop.simps [of "show_nat n @ _"] Let_def)
qed

text \<open>
  Printing budgets and device indices as comma-separated lists and parsing them gives
  back exactly those budgets (in bytes) and devices, for every list of 1 to 16 entries in range
  other than the single budget 0, which means "skip CUDA".
\<close>

lemma gpu_vram_arg_roundtrip:
  assumes "gs \<noteq> []" and "length gs \<le> 16" and "length ds = length gs" and "gs \<noteq> [0]"
    and "list_all (\<lambda>g. g \<le> 16384) gs" and "list_all (\<lambda>d. d \<le> 1023) ds"
  shows "parse_gpu_vram_arg probe (Some (csv gs)) (Some (csv ds)) =
    Inr (\<lparr>device_indices = map int ds, vram_bytes = map (\<lambda>g. g * 1073741824) gs,
          n_gpus = length gs, safety_margin_bytes = 536870912\<rparr>, False)"
proof -
  have dne: "ds \<noteq> []" using assms by auto
  then have ne: "csv gs \<noteq> []" "csv ds \<noteq> []" using csv_Cons [of gs] csv_Cons [of ds] assms by auto
  have d: "parse_csv_int_list (Some (csv ds)) DS4_MAX_GPUS DS4_GPU_ARGS_MAX_DEVICE_INDEX w = Inr (map int ds)" for w
    unfolding parse_csv_int_list_def using assms dne ne
    by (simp add: parse_csv_loop_csv [of ds] DS4_MAX_GPUS_def DS4_GPU_ARGS_MAX_DEVICE_INDEX_def list_all_iff)
  have g: "parse_csv_int_list (Some (csv gs)) DS4_MAX_GPUS DS4_GPU_ARGS_MAX_VRAM_GB w = Inr (map int gs)" for w
    unfolding parse_csv_int_list_def using assms dne ne
    by (simp add: parse_csv_loop_csv [of gs] DS4_MAX_GPUS_def DS4_GPU_ARGS_MAX_VRAM_GB_def list_all_iff)
  have "csv gs \<noteq> ''auto''" using csv_Cons [OF assms(1)] by (auto simp: c_isdigit_def)
  moreover have "csv gs \<noteq> ''0''"
  proof
    assume z: "csv gs = ''0''"
    show False
    proof (cases gs rule: csv.cases)
      case (2 n)
      with z have "dec_val 0 (show_nat n) = dec_val 0 ''0''" by simp
      then have "n = 0" by (simp add: digit_val_def)
      with 2 assms(4) show False by simp
    next
      case (3 n m ns)
      with z have "CHR '','' \<in> set ''0''" by (metis append_Cons in_set_conv_decomp csv.simps(3))
      then show False by simp
    qed (use assms in simp)
  qed
  moreover have "map (\<lambda>i. if map int ds \<noteq> [] then map int ds ! i else int i) [0..<length gs] = map int ds"
    using assms by (intro nth_equalityI) auto
  moreover have "map (\<lambda>v. (nat v * 1073741824) mod 2 ^ 64) (map int gs) = map (\<lambda>g. g * 1073741824) gs"
    using assms(5) by (auto simp: list_all_iff)
  ultimately show ?thesis using assms d g
    by (simp add: parse_gpu_vram_arg_def empty_config_def DS4_GPU_ARGS_DEFAULT_SAFETY_MARGIN_def Let_def)
qed

section \<open>The echo line stays inside its buffer\<close>

lemma snprintf_pieces_fits:
  "length buf < outlen \<Longrightarrow> snprintf_pieces outlen buf ps = (b, n) \<Longrightarrow>
   length b < outlen \<and> length b \<le> n \<and> (n < outlen \<longrightarrow> b = buf @ concat ps \<and> n = length b)
   \<and> prefix b (buf @ concat ps)"
proof (induction ps arbitrary: buf)
  case Nil
  then show ?case by auto
next
  case (Cons p ps)
  show ?case
  proof (cases "length buf + length p \<ge> outlen")
    case True
    with Cons.prems have "b = take (outlen - 1) (buf @ p)" "n = length buf + length p" by auto
    moreover have "prefix (take (outlen - 1) (buf @ p)) ((buf @ p) @ concat ps)"
      by (intro prefix_prefix take_is_prefix)
    ultimately show ?thesis using True Cons.prems(1) by auto
  next
    case False
    with Cons.prems have "snprintf_pieces outlen (buf @ p) ps = (b, n)" "length (buf @ p) < outlen" by simp_all
    from Cons.IH [OF this(2,1)] show ?thesis by auto
  qed
qed

text \<open>
  The layout line never overruns its buffer (it leaves room for the terminator), what is
  stored is a prefix of the full line, and a returned count below the buffer size means the
  whole line was stored.
\<close>

lemma gpu_layout_line_bounded:
  assumes "0 < outlen" and "format_gpu_layout_line (Some c) was_auto outlen = (b, n)"
  shows "length b < outlen \<and> prefix b (concat (gpu_layout_pieces c was_auto))
    \<and> (n < int outlen \<longrightarrow> b = concat (gpu_layout_pieces c was_auto) \<and> n = int (length b))"
  using snprintf_pieces_fits [of "[]" outlen "gpu_layout_pieces c was_auto"] assms
  by (auto simp: format_gpu_layout_line_def split: prod.splits)

end
