(* ===== verification/Prompt_Prefix.thy ===== *)
theory Prompt_Prefix
  imports Clib
begin

text \<open>
  The prompt prefix file (\<open>ds4_prompt_prefix.c\<close>): alternating \<open>USER:\<close> and
  \<open>ASSISTANT:\<close> turns read from a text file. The position in the file is the remaining
  suffix; the allocations of a turn fail when the parameter \<open>oom\<close> says so of that turn's
  index, which is how the out-of-memory branches enter the model. The file system is a
  parameter of \<open>ds4_prompt_prefix_load\<close>.
\<close>

section \<open>Parsing\<close>

datatype ds4_prompt_prefix_role = DS4_PROMPT_PREFIX_USER | DS4_PROMPT_PREFIX_ASSISTANT

record ds4_prompt_prefix_turn =
  role :: ds4_prompt_prefix_role
  content :: string

fun role_name :: "ds4_prompt_prefix_role \<Rightarrow> string" where
  "role_name DS4_PROMPT_PREFIX_USER = ''USER''"
| "role_name DS4_PROMPT_PREFIX_ASSISTANT = ''ASSISTANT''"

definition prefix_marker_at :: "string \<Rightarrow> (ds4_prompt_prefix_role \<times> nat) option" where
  "prefix_marker_at s =
     (if prefix ''USER:'' s then Some (DS4_PROMPT_PREFIX_USER, 5)
      else if prefix ''ASSISTANT:'' s then Some (DS4_PROMPT_PREFIX_ASSISTANT, 10)
      else None)"

text \<open>
  The search for the next marker at the start of a line: the text before it, the text from it
  on (empty at the end of the file), and its line.
\<close>

fun prefix_scan :: "string \<Rightarrow> nat \<Rightarrow> string \<times> string \<times> nat" where
  "prefix_scan [] line = ([], [], line)"
| "prefix_scan (c # s) line =
     (if c \<noteq> CHR 0x0A
      then (case prefix_scan s line of (b, r, l) \<Rightarrow> (c # b, r, l))
      else if prefix_marker_at s \<noteq> None then ([c], s, line + 1)
      else (case prefix_scan s (line + 1) of (b, r, l) \<Rightarrow> (c # b, r, l)))"

definition skip_one_blank :: "string \<Rightarrow> string" where
  "skip_one_blank s = (case s of c # t \<Rightarrow> if c = CHR '' '' \<or> c = CHR 0x09 then t else s | [] \<Rightarrow> [])"

definition strip_line_end :: "string \<Rightarrow> string" where
  "strip_line_end b =
     (if b \<noteq> [] \<and> last b = CHR 0x0A
      then (let b1 = butlast b in if b1 \<noteq> [] \<and> last b1 = CHR 0x0D then butlast b1 else b1)
      else b)"

definition expected_role :: "nat \<Rightarrow> ds4_prompt_prefix_role" where
  "expected_role count = (if count mod 2 = 0 then DS4_PROMPT_PREFIX_USER else DS4_PROMPT_PREFIX_ASSISTANT)"

lemma prefix_scan_split: "prefix_scan s line = (b, r, l) \<Longrightarrow> s = b @ r"
  by (induction s arbitrary: line b r l) (auto split: if_splits prod.splits)

lemma skip_one_blank_le: "length (skip_one_blank s) \<le> length s"
  by (auto simp: skip_one_blank_def split: list.splits)

lemma prefix_turn_shorter:
  assumes "prefix_marker_at s = Some (ro, n)" and "prefix_scan (skip_one_blank (drop n s)) line = (b, r, l)"
  shows "length r < length s"
proof -
  have "length r \<le> length (skip_one_blank (drop n s))" using prefix_scan_split [OF assms(2)] by simp
  also have "\<dots> \<le> length (drop n s)" by (rule skip_one_blank_le)
  also have "\<dots> < length s"
    using assms(1) by (auto simp: prefix_marker_at_def prefix_def split: if_splits)
  finally show ?thesis .
qed

text \<open>The loop: unread text, turns so far, line of the unread text.\<close>

function prefix_parse_loop ::
  "(nat \<Rightarrow> bool) \<Rightarrow> string \<Rightarrow> ds4_prompt_prefix_turn list \<Rightarrow> nat \<Rightarrow> string + ds4_prompt_prefix_turn list" where
  "prefix_parse_loop oom s turns line =
     (if s = [] then Inr turns
      else case prefix_marker_at s of
        None \<Rightarrow> Inl (''line '' @ show_nat line @ '' must start with USER: or ASSISTANT:'')
      | Some (ro, marker_len) \<Rightarrow>
          let expected = expected_role (length turns)
          in if ro \<noteq> expected then Inl (''line '' @ show_nat line @ '': expected '' @ role_name expected @ '':'')
             else (case prefix_scan (skip_one_blank (drop marker_len s)) line of
                (body, next, next_line) \<Rightarrow>
                  let text = strip_line_end body
                  in if text = []
                     then Inl (''line '' @ show_nat line @ '' has an empty '' @ role_name ro @ '' turn'')
                     else if length turns = SIZE_MAX div 16 then Inl ''too many turns in prefix file''
                     else if oom (length turns) then Inl ''out of memory reading prefix file''
                     else prefix_parse_loop oom next (turns @ [\<lparr>role = ro, content = text\<rparr>])
                            (if next = [] then line else next_line)))"
  by pat_completeness auto
termination
  by (relation "measure (\<lambda>(_, s, _). length s)") (simp_all, metis prefix_turn_shorter)

declare prefix_parse_loop.simps [simp del]

definition ds4_prompt_prefix_parse :: "(nat \<Rightarrow> bool) \<Rightarrow> string option \<Rightarrow> string + ds4_prompt_prefix_turn list" where
  "ds4_prompt_prefix_parse oom data =
     (case data of
        None \<Rightarrow> Inl ''prefix file is empty''
      | Some s \<Rightarrow>
          if s = [] then Inl ''prefix file is empty''
          else if CHR 0x00 \<in> set s then Inl ''prefix file contains a NUL byte''
          else let body = (if prefix [CHR 0xEF, CHR 0xBB, CHR 0xBF] s then drop 3 s else s)
               in (case prefix_parse_loop oom body [] 1 of
                     Inl e \<Rightarrow> Inl e
                   | Inr turns \<Rightarrow>
                       if turns = [] then Inl ''prefix file contains no turns''
                       else if role (last turns) \<noteq> DS4_PROMPT_PREFIX_ASSISTANT
                       then Inl ''prefix file must end with an ASSISTANT turn''
                       else Inr turns))"

text \<open>
  Reading the file: what \<open>fopen\<close>, \<open>fseek\<close>, \<open>ftell\<close>, \<open>fread\<close> and \<open>fclose\<close> did,
  with the text of \<open>strerror\<close> where the code prints it.
\<close>

datatype prefix_file =
    open_failed string | seek_failed string | size_unknown | rewind_failed string
  | no_memory | short_read | close_failed string | file_data string

definition ds4_prompt_prefix_load ::
  "(nat \<Rightarrow> bool) \<Rightarrow> (string \<Rightarrow> prefix_file) \<Rightarrow> string option \<Rightarrow> nat \<Rightarrow> string + ds4_prompt_prefix_turn list" where
  "ds4_prompt_prefix_load oom fs path error_cap =
     (case path of
        None \<Rightarrow> Inl ''invalid prefix file path''
      | Some p \<Rightarrow>
          if p = [] then Inl ''invalid prefix file path''
          else case fs p of
            open_failed e \<Rightarrow> Inl (''cannot open prefix file '' @ p @ '': '' @ e)
          | seek_failed e \<Rightarrow> Inl (''cannot seek prefix file '' @ p @ '': '' @ e)
          | size_unknown \<Rightarrow> Inl (''cannot size prefix file '' @ p)
          | rewind_failed e \<Rightarrow> Inl (''cannot rewind prefix file '' @ p @ '': '' @ e)
          | no_memory \<Rightarrow> Inl ''out of memory reading prefix file''
          | short_read \<Rightarrow> Inl (''cannot read prefix file '' @ p)
          | close_failed e \<Rightarrow> Inl (''cannot close prefix file '' @ p @ '': '' @ e)
          | file_data d \<Rightarrow>
              (case ds4_prompt_prefix_parse oom (Some d) of
                 Inl e \<Rightarrow> Inl (let shown = take (error_cap - 1) e
                               in if shown = [] then [] else p @ '': '' @ take 255 shown)
               | Inr turns \<Rightarrow> Inr turns))"

section \<open>What an accepted file contains\<close>

text \<open>A line of the content that starts like a marker would have ended the turn.\<close>

definition no_marker_line :: "string \<Rightarrow> bool" where
  "no_marker_line t \<longleftrightarrow> (\<forall>u v. t = u @ CHR 0x0A # v \<longrightarrow> prefix_marker_at v = None)"

definition turns_ok :: "ds4_prompt_prefix_turn list \<Rightarrow> bool" where
  "turns_ok turns \<longleftrightarrow> (\<forall>i < length turns. role (turns ! i) = expected_role i \<and> content (turns ! i) \<noteq> []
     \<and> no_marker_line (content (turns ! i)))"

lemma turns_ok_snoc:
  "turns_ok (turns @ [t]) \<longleftrightarrow>
   turns_ok turns \<and> role t = expected_role (length turns) \<and> content t \<noteq> [] \<and> no_marker_line (content t)"
  by (auto simp: turns_ok_def nth_append less_Suc_eq)

lemma marker_prefix: "prefix_marker_at v \<noteq> None \<Longrightarrow> prefix_marker_at (v @ w) \<noteq> None"
  by (auto simp: prefix_marker_at_def intro: prefix_prefix split: if_splits)

lemma prefix_scan_body:
  "prefix_scan s line = (b, r, l) \<Longrightarrow> b = u @ CHR 0x0A # v \<Longrightarrow> v \<noteq> [] \<Longrightarrow> prefix_marker_at (v @ r) = None"
proof (induction s arbitrary: line b r l u)
  case Nil
  then show ?case by simp
next
  case (Cons c s)
  show ?case
  proof (cases "c = CHR 0x0A \<and> prefix_marker_at s \<noteq> None")
    case True
    with Cons.prems show ?thesis by (auto simp: append_eq_Cons_conv Cons_eq_append_conv)
  next
    case False
    then obtain b' l' line' where b': "prefix_scan s line' = (b', r, l')" "b = c # b'"
      using Cons.prems(1) by (auto split: if_splits prod.splits)
    show ?thesis
    proof (cases u)
      case Nil
      with Cons.prems(2) b' have "c = CHR 0x0A" "b' = v" by auto
      with False prefix_scan_split [OF b'(1)] show ?thesis by (cases "prefix_marker_at s") auto
    next
      case (Cons d u')
      then have "b' = u' @ CHR 0x0A # v" using Cons.prems(2) b' by simp
      then show ?thesis using Cons.IH [OF b'(1) _ Cons.prems(3)] by simp
    qed
  qed
qed

lemma no_marker_line_butlast: "no_marker_line b \<Longrightarrow> no_marker_line (butlast b)"
  unfolding no_marker_line_def
  by (metis append_Cons append_assoc append_butlast_last_id butlast.simps(1) marker_prefix append_is_Nil_conv list.distinct(1))

lemma prefix_scan_content:
  assumes "prefix_scan s line = (b, r, l)"
  shows "no_marker_line (strip_line_end b)"
proof -
  have "no_marker_line b"
    unfolding no_marker_line_def
  proof (intro allI impI)
    fix u v assume b: "b = u @ CHR 0x0A # v"
    show "prefix_marker_at v = None"
    proof (cases "v = []")
      case True
      then show ?thesis by (simp add: prefix_marker_at_def)
    next
      case False
      from prefix_scan_body [OF assms b False] show ?thesis using marker_prefix by blast
    qed
  qed
  then show ?thesis by (simp add: strip_line_end_def Let_def no_marker_line_butlast)
qed

lemma prefix_parse_loop_ok:
  "prefix_parse_loop oom s turns line = Inr ts \<Longrightarrow> turns_ok turns \<Longrightarrow> turns_ok ts"
proof (induction oom s turns line rule: prefix_parse_loop.induct)
  case (1 oom s turns line)
  show ?case
  proof (cases "s = []")
    case True
    with "1.prems" show ?thesis by (simp add: prefix_parse_loop.simps [of _ "[]"])
  next
    case False
    with "1.prems"(1) obtain ro n where m: "prefix_marker_at s = Some (ro, n)"
      by (auto simp: prefix_parse_loop.simps [of oom s] split: option.splits)
    obtain b r l where sc: "prefix_scan (skip_one_blank (drop n s)) line = (b, r, l)" by (metis prod_cases3)
    from "1.prems"(1) False m sc have g: "\<not> ro \<noteq> expected_role (length turns)" "\<not> strip_line_end b = []"
        "\<not> length turns = SIZE_MAX div 16" "\<not> oom (length turns)"
      and rec: "prefix_parse_loop oom r (turns @ [\<lparr>role = ro, content = strip_line_end b\<rparr>])
          (if r = [] then line else l) = Inr ts"
      by (auto simp: prefix_parse_loop.simps [of oom s] Let_def split: if_splits)
    have "turns_ok (turns @ [\<lparr>role = ro, content = strip_line_end b\<rparr>])"
      using g "1.prems"(2) prefix_scan_content [OF sc] by (simp add: turns_ok_snoc)
    from "1.IH" [OF False m refl refl g(1) sc [symmetric] refl refl g(2,3,4) rec this] show ?thesis .
  qed
qed

text \<open>
  (C40) An accepted prefix file is a conversation: at least one turn, the roles alternate and
  start with the user, the last turn is the assistant's (so the number of turns is even), and no
  turn is empty or contains a line that starts like a marker.
\<close>

theorem prompt_prefix_conversation:
  assumes "ds4_prompt_prefix_parse oom data = Inr turns"
  shows "turns \<noteq> [] \<and> even (length turns) \<and> turns_ok turns"
proof -
  from assms obtain s where s: "prefix_parse_loop oom s [] 1 = Inr turns" and ne: "turns \<noteq> []"
    and la: "role (last turns) = DS4_PROMPT_PREFIX_ASSISTANT"
    by (auto simp: ds4_prompt_prefix_parse_def Let_def split: option.splits sum.splits if_splits)
  have ok: "turns_ok turns" using prefix_parse_loop_ok [OF s] by (simp add: turns_ok_def)
  have "role (last turns) = expected_role (length turns - 1)"
    using ok ne by (simp add: turns_ok_def last_conv_nth)
  with la have "(length turns - 1) mod 2 \<noteq> 0" by (auto simp: expected_role_def split: if_splits)
  then show ?thesis using ne ok by (cases "length turns") (auto simp: mod2_eq_if split: if_splits)
qed

section \<open>Writing a conversation and reading it back\<close>

definition render_turn :: "ds4_prompt_prefix_turn \<Rightarrow> string" where
  "render_turn t = role_name (role t) @ '': '' @ content t @ [CHR 0x0A]"

definition render_turns :: "ds4_prompt_prefix_turn list \<Rightarrow> string" where
  "render_turns turns = concat (map render_turn turns)"

lemma marker_at_render:
  "prefix_marker_at (render_turn t @ s) = Some (role t, (case role t of DS4_PROMPT_PREFIX_USER \<Rightarrow> 5 | _ \<Rightarrow> 10))"
  by (cases "role t") (simp_all add: render_turn_def prefix_marker_at_def)

lemma marker_newline:
  "prefix_marker_at (v @ CHR 0x0A # w) \<noteq> None \<Longrightarrow> prefix_marker_at v \<noteq> None"
proof -
  have newline_free: "prefix m (v @ CHR 0x0A # w) \<Longrightarrow> CHR 0x0A \<notin> set m \<Longrightarrow> prefix m v" for m
  proof (induction v arbitrary: m)
    case Nil
    then show ?case by (cases m) auto
  next
    case (Cons a v)
    then show ?case by (cases m) auto
  qed
  assume "prefix_marker_at (v @ CHR 0x0A # w) \<noteq> None"
  then show ?thesis
    using newline_free [of "''USER:''"] newline_free [of "''ASSISTANT:''"]
    by (auto simp: prefix_marker_at_def split: if_splits)
qed

lemma no_marker_line_Cons: "no_marker_line (c # s) \<Longrightarrow> no_marker_line s"
  unfolding no_marker_line_def by (metis append_Cons)

lemma prefix_scan_content_line:
  assumes "no_marker_line t" and "rest = [] \<or> prefix_marker_at rest \<noteq> None"
  shows "\<exists>l. prefix_scan (t @ CHR 0x0A # rest) line = (t @ [CHR 0x0A], rest, l)"
  using assms(1)
proof (induction t arbitrary: line)
  case Nil
  show ?case using assms(2) by (auto simp: prefix_marker_at_def)
next
  case (Cons c t)
  have "prefix_marker_at (t @ CHR 0x0A # rest) = None" if "c = CHR 0x0A"
    using Cons.prems marker_newline [of t rest] that unfolding no_marker_line_def by (metis append_Nil)
  then show ?case
    using Cons.IH [OF no_marker_line_Cons [OF Cons.prems], of line]
      Cons.IH [OF no_marker_line_Cons [OF Cons.prems], of "line + 1"]
    by auto
qed

lemma strip_line_end_newline: "last t \<noteq> CHR 0x0D \<Longrightarrow> strip_line_end (t @ [CHR 0x0A]) = t"
  by (simp add: strip_line_end_def)

definition turn_plain :: "ds4_prompt_prefix_turn \<Rightarrow> bool" where
  "turn_plain t \<longleftrightarrow> content t \<noteq> [] \<and> last (content t) \<noteq> CHR 0x0D \<and> no_marker_line (content t)
     \<and> CHR 0x00 \<notin> set (content t)"

lemma prefix_parse_loop_render:
  assumes "\<forall>i < length ts. role (ts ! i) = expected_role (length turns + i) \<and> turn_plain (ts ! i)"
    and "\<forall>i. \<not> oom i" and "length turns + length ts \<le> SIZE_MAX div 16"
  shows "prefix_parse_loop oom (render_turns ts) turns line = Inr (turns @ ts)"
  using assms(1,3)
proof (induction ts arbitrary: turns line)
  case Nil
  then show ?case by (simp add: render_turns_def prefix_parse_loop.simps [of _ "[]"])
next
  case (Cons t ts)
  let ?rest = "render_turns ts"
  have t: "role t = expected_role (length turns)" "turn_plain t" using Cons.prems(1) by (auto dest: spec [of _ 0])
  have r: "?rest = [] \<or> prefix_marker_at ?rest \<noteq> None"
    by (cases ts) (simp_all add: render_turns_def marker_at_render)
  from prefix_scan_content_line [OF _ r] t(2) obtain l where
    sc: "prefix_scan (content t @ CHR 0x0A # ?rest) line = (content t @ [CHR 0x0A], ?rest, l)"
    by (auto simp: turn_plain_def)
  have all: "render_turns (t # ts) = render_turn t @ ?rest" by (simp add: render_turns_def)
  define n :: nat where "n = (case role t of DS4_PROMPT_PREFIX_USER \<Rightarrow> 5 | _ \<Rightarrow> 10)"
  have m: "prefix_marker_at (render_turns (t # ts)) = Some (role t, n)"
    by (simp add: all marker_at_render n_def)
  have sk: "skip_one_blank (drop n (render_turns (t # ts))) = content t @ CHR 0x0A # ?rest"
    by (cases "role t") (simp_all add: all render_turn_def n_def skip_one_blank_def)
  have ne: "render_turns (t # ts) \<noteq> []" by (simp add: all render_turn_def)
  have cont: "strip_line_end (content t @ [CHR 0x0A]) = content t" "content t \<noteq> []"
    using t(2) strip_line_end_newline by (auto simp: turn_plain_def)
  have IH: "prefix_parse_loop oom ?rest (turns @ [t]) l' = Inr ((turns @ [t]) @ ts)" for l'
    using Cons.prems by (intro Cons.IH) (auto dest: spec [of _ "Suc _"])
  have "length turns \<noteq> SIZE_MAX div 16" "\<not> oom (length turns)" using Cons.prems(2) assms(2) by simp_all
  moreover have "prefix_parse_loop oom ?rest (turns @ [\<lparr>role = expected_role (length turns), content = content t\<rparr>]) l'
      = Inr (turns @ t # ts)" for l'
    using IH t(1) by (cases t) simp
  ultimately show ?case
    using ne m sk sc cont t(1)
    by (simp add: prefix_parse_loop.simps [of oom "render_turns (t # ts)"] Let_def split del: if_split)
qed

text \<open>
  A conversation written one turn per marker is read back exactly: alternating roles ending
  with the assistant, and contents that are not empty, hold no NUL, do not end in a carriage
  return and have no line starting like a marker. Lines, blanks and trailing newlines inside a
  turn are kept.
\<close>

lemma prompt_prefix_roundtrip:
  assumes "turns \<noteq> []" and "even (length turns)"
    and "\<forall>i < length turns. role (turns ! i) = expected_role i \<and> turn_plain (turns ! i)"
    and "\<forall>i. \<not> oom i" and "length turns \<le> SIZE_MAX div 16"
  shows "ds4_prompt_prefix_parse oom (Some (render_turns turns)) = Inr turns"
proof -
  have nul: "CHR 0x00 \<notin> set (render_turns turns)"
  proof -
    have "CHR 0x00 \<notin> set (render_turn t)" if "t \<in> set turns" for t
      using assms(3) that by (cases "role t") (auto simp: render_turn_def turn_plain_def in_set_conv_nth)
    then show ?thesis by (auto simp: render_turns_def)
  qed
  obtain t ts where tt: "turns = t # ts" using assms(1) by (cases turns) auto
  have first: "\<exists>c s. render_turns turns = c # s \<and> c \<noteq> CHR 0xEF"
    by (cases "role t") (auto simp: tt render_turns_def render_turn_def)
  have "role (last turns) = expected_role (length turns - 1)"
    using assms(1,3) by (simp add: last_conv_nth)
  also have "\<dots> = DS4_PROMPT_PREFIX_ASSISTANT"
    using assms(1,2) by (cases "length turns") (auto simp: expected_role_def mod2_eq_if)
  finally show ?thesis
    using prefix_parse_loop_render [of turns "[]" oom 1] assms first nul
    by (auto simp: ds4_prompt_prefix_parse_def Let_def)
qed

definition demo_turns :: "ds4_prompt_prefix_turn list" where
  "demo_turns = [\<lparr>role = DS4_PROMPT_PREFIX_USER, content = ''hi''\<rparr>,
                 \<lparr>role = DS4_PROMPT_PREFIX_ASSISTANT, content = '' a b''\<rparr>]"

lemma no_marker_line_no_newline: "CHR 0x0A \<notin> set t \<Longrightarrow> no_marker_line t"
  by (auto simp: no_marker_line_def)

lemma demo_turns_plain:
  "\<forall>i < length demo_turns. role (demo_turns ! i) = expected_role i \<and> turn_plain (demo_turns ! i)"
  by (auto simp: demo_turns_def expected_role_def turn_plain_def no_marker_line_no_newline less_Suc_eq)

theorem prompt_prefix_conversation_witness:
  "demo_turns \<noteq> [] \<and> even (length demo_turns) \<and> turns_ok demo_turns"
proof (rule prompt_prefix_conversation)
  have "prefix_parse_loop (\<lambda>_. False) (render_turns demo_turns) [] 1 = Inr ([] @ demo_turns)"
    using demo_turns_plain by (intro prefix_parse_loop_render) (simp_all add: demo_turns_def)
  then show "ds4_prompt_prefix_parse (\<lambda>_. False) (Some (render_turns demo_turns)) = Inr demo_turns"
    by (simp add: ds4_prompt_prefix_parse_def demo_turns_def render_turns_def render_turn_def)
qed

end
