(* ===== verification/Tool_Text.thy ===== *)
theory Tool_Text
  imports Prelude
begin

text \<open>
  The closing-delimiter escape of tool bodies: \<open>ds4_tool_text.h\<close>, and the renderers and the
  attribute decoder of \<open>ds4_server.c\<close> that use it. A tool body is arbitrary text between an
  opening tag and a closing delimiter \<open>end\<close>; only spellings that collide with the delimiter
  are escaped. The theory shows that decoding undoes encoding, that an encoded body never
  contains its delimiter (so the reader that searches for it stops exactly at the end of the
  body), and that the streaming guard holds back exactly the fragments that may still become
  an escape.
\<close>

section \<open>ds4_tool_text.h\<close>

text \<open>\<open>while (!strncmp(s, "amp;", 4)) s += 4;\<close>\<close>

function skip_amp :: "string \<Rightarrow> string" where
  "skip_amp s = (if prefix ''amp;'' s then skip_amp (drop 4 s) else s)"
  by pat_completeness auto
termination
  by (relation "measure length") (auto simp: prefix_def)

declare skip_amp.simps [simp del]

text \<open>The read of \<open>end + 1\<close> skips the leading \<open><\<close> of the delimiter.\<close>

definition ds4_tool_text_escaped_close :: "string \<Rightarrow> string \<Rightarrow> bool" where
  "ds4_tool_text_escaped_close s end =
     (case s of
        [] \<Rightarrow> False
      | c # s1 \<Rightarrow>
          if c \<noteq> CHR ''&'' then False
          else let s2 = skip_amp s1
               in prefix ''lt;'' s2 \<and> prefix (tl end) (drop 3 s2))"

definition ds4_tool_text_needs_escape :: "string \<Rightarrow> string \<Rightarrow> bool" where
  "ds4_tool_text_needs_escape s end \<longleftrightarrow> prefix end s \<or> ds4_tool_text_escaped_close s end"

text \<open>
  The in-place decoder. The write position never passes the read position (each step writes
  one byte and reads at least one), so the bytes still to be read are the original suffix.
\<close>

function ds4_tool_text_unescape :: "string \<Rightarrow> string \<Rightarrow> string" where
  "ds4_tool_text_unescape s end =
     (case s of
        [] \<Rightarrow> []
      | c # s1 \<Rightarrow>
          if ds4_tool_text_escaped_close s end then
            (if prefix ''&amp;'' s then CHR ''&'' # ds4_tool_text_unescape (drop 5 s) end
             else CHR ''<'' # ds4_tool_text_unescape (drop 4 s) end)
          else c # ds4_tool_text_unescape s1 end)"
  by pat_completeness auto
termination
  by (relation "measure (\<lambda>(s, end). length s)") auto

declare ds4_tool_text_unescape.simps [simp del]


text \<open>
  The streaming guard. \<open>s\<close> is the fragment of \<open>n\<close> bytes the C code may read, so
  \<open>memcmp(s, lit, n)\<close> with \<open>n\<close> below the literal's length is \<open>prefix s lit\<close>.
\<close>

definition ds4_tool_text_partial_escape :: "string \<Rightarrow> string \<Rightarrow> bool" where
  "ds4_tool_text_partial_escape s end =
     (case s of
        [] \<Rightarrow> False
      | c # s1 \<Rightarrow>
          if c \<noteq> CHR ''&'' then False
          else let r = skip_amp s1
               in if length r < 4 \<and> prefix r ''amp;'' then True
                  else if length r < 3 then prefix r ''lt;''
                  else if \<not> prefix ''lt;'' r then False
                  else let q = drop 3 r
                       in length q < length (tl end) \<and> prefix q (tl end))"

section \<open>The renderers of ds4_server.c\<close>

text \<open>
  Each renderer appends to a \<open>buf\<close>; the model returns the bytes appended. A NULL text is
  read as the empty string. The byte sequence EF BD 9C is the full-width bar of the DSML tags.
\<close>

definition dsml_bar :: string where
  "dsml_bar = [CHR 0xEF, CHR 0xBD, CHR 0x9C]"

definition DS4_DSML :: string where "DS4_DSML = dsml_bar @ ''DSML'' @ dsml_bar"
definition DS4_DSML_SHORT :: string where "DS4_DSML_SHORT = ''DSML'' @ dsml_bar"

definition DS4_TOOL_CALLS_START :: string where "DS4_TOOL_CALLS_START = ''<'' @ DS4_DSML @ ''tool_calls>''"
definition DS4_TOOL_CALLS_END :: string where "DS4_TOOL_CALLS_END = ''</'' @ DS4_DSML @ ''tool_calls>''"
definition DS4_INVOKE_START :: string where "DS4_INVOKE_START = ''<'' @ DS4_DSML @ ''invoke''"
definition DS4_INVOKE_END :: string where "DS4_INVOKE_END = ''</'' @ DS4_DSML @ ''invoke>''"
definition DS4_PARAM_START :: string where "DS4_PARAM_START = ''<'' @ DS4_DSML @ ''parameter''"
definition DS4_PARAM_END :: string where "DS4_PARAM_END = ''</'' @ DS4_DSML @ ''parameter>''"
definition DS4_TOOL_CALLS_START_SHORT :: string where "DS4_TOOL_CALLS_START_SHORT = ''<'' @ DS4_DSML_SHORT @ ''tool_calls>''"
definition DS4_TOOL_CALLS_END_SHORT :: string where "DS4_TOOL_CALLS_END_SHORT = ''</'' @ DS4_DSML_SHORT @ ''tool_calls>''"
definition DS4_INVOKE_START_SHORT :: string where "DS4_INVOKE_START_SHORT = ''<'' @ DS4_DSML_SHORT @ ''invoke''"
definition DS4_INVOKE_END_SHORT :: string where "DS4_INVOKE_END_SHORT = ''</'' @ DS4_DSML_SHORT @ ''invoke>''"
definition DS4_PARAM_START_SHORT :: string where "DS4_PARAM_START_SHORT = ''<'' @ DS4_DSML_SHORT @ ''parameter''"
definition DS4_PARAM_END_SHORT :: string where "DS4_PARAM_END_SHORT = ''</'' @ DS4_DSML_SHORT @ ''parameter>''"

definition dsml_parameter_end :: string where
  "dsml_parameter_end = ''</'' @ dsml_bar @ ''DSML'' @ dsml_bar @ ''parameter>''"

fun append_glm_tag_body_text :: "string \<Rightarrow> string \<Rightarrow> string" where
  "append_glm_tag_body_text [] end = []"
| "append_glm_tag_body_text (c # s) end =
     (if ds4_tool_text_needs_escape (c # s) end
      then (if c = CHR ''<'' then ''&lt;'' else ''&amp;'') @ append_glm_tag_body_text s end
      else c # append_glm_tag_body_text s end)"

definition append_glm_arg_key_text :: "string \<Rightarrow> string" where
  "append_glm_arg_key_text s = append_glm_tag_body_text s ''</arg_key>''"

definition append_glm_arg_value_text :: "string \<Rightarrow> string" where
  "append_glm_arg_value_text s = append_glm_tag_body_text s ''</arg_value>''"

definition append_glm_tool_response_text :: "string \<Rightarrow> string" where
  "append_glm_tool_response_text s = append_glm_tag_body_text s ''</tool_response>''"

text \<open>These two repeat the loop of \<open>append_glm_tag_body_text\<close> with a fixed delimiter.\<close>

definition append_dsml_parameter_text :: "string \<Rightarrow> string" where
  "append_dsml_parameter_text s = append_glm_tag_body_text s dsml_parameter_end"

definition append_tool_result_text :: "string \<Rightarrow> string" where
  "append_tool_result_text s = append_glm_tag_body_text s ''</tool_result>''"

fun append_dsml_json_literal :: "string \<Rightarrow> string" where
  "append_dsml_json_literal [] = []"
| "append_dsml_json_literal (c # s) =
     (if prefix dsml_parameter_end (c # s)
      then CHR 0x5C # ''u003c'' @ append_dsml_json_literal s
      else c # append_dsml_json_literal s)"

fun append_dsml_attr_escaped :: "string \<Rightarrow> string" where
  "append_dsml_attr_escaped [] = []"
| "append_dsml_attr_escaped (c # s) =
     (if c = CHR ''&'' then ''&amp;''
      else if c = CHR ''<'' then ''&lt;''
      else if c = CHR ''>'' then ''&gt;''
      else if c = CHR 0x22 then ''&quot;''
      else [c]) @ append_dsml_attr_escaped s"

function dsml_unescape_text :: "string \<Rightarrow> string" where
  "dsml_unescape_text s =
     (case s of
        [] \<Rightarrow> []
      | c # s1 \<Rightarrow>
          if c \<noteq> CHR ''&'' then c # dsml_unescape_text s1
          else if prefix ''&amp;'' s then CHR ''&'' # dsml_unescape_text (drop 5 s)
          else if prefix ''&lt;'' s then CHR ''<'' # dsml_unescape_text (drop 4 s)
          else if prefix ''&gt;'' s then CHR ''>'' # dsml_unescape_text (drop 4 s)
          else if prefix ''&quot;'' s then CHR 0x22 # dsml_unescape_text (drop 6 s)
          else if prefix ''&apos;'' s then CHR 0x27 # dsml_unescape_text (drop 6 s)
          else CHR ''&'' # dsml_unescape_text s1)"
  by pat_completeness auto
termination
  by (relation "measure length") auto

declare dsml_unescape_text.simps [simp del]

record json_arg =
  arg_key :: string
  arg_value :: string
  arg_is_string :: bool
  arg_used :: bool

definition append_dsml_arg :: "json_arg \<Rightarrow> string" where
  "append_dsml_arg a =
     ''<'' @ dsml_bar @ ''DSML'' @ dsml_bar @ ''parameter name='' @ [CHR 0x22]
     @ append_dsml_attr_escaped (arg_key a)
     @ [CHR 0x22] @ '' string='' @ [CHR 0x22]
     @ (if arg_is_string a then ''true'' else ''false'')
     @ [CHR 0x22] @ ''>''
     @ (if arg_is_string a then append_dsml_parameter_text (arg_value a)
        else append_dsml_json_literal (arg_value a))
     @ dsml_parameter_end @ [CHR 0x0A]"

definition append_glm_arg :: "json_arg \<Rightarrow> string" where
  "append_glm_arg a =
     ''<arg_key>'' @ append_glm_arg_key_text (arg_key a)
     @ ''</arg_key><arg_value>'' @ append_glm_arg_value_text (arg_value a)
     @ ''</arg_value>''"

text \<open>
  \<open>dsml_attr\<close>: the pattern is cut to the 64-byte buffer of the \<open>snprintf\<close>; the tag is the
  text from \<open>p\<close> up to and including the first \<open>>\<close> (\<open>strchr\<close>), as the parameter reader cuts it.
\<close>

definition dsml_attr :: "string \<Rightarrow> string \<Rightarrow> string option" where
  "dsml_attr tag name =
     (let pat = take 63 (name @ ''='' @ [CHR 0x22])
      in case strstr pat tag of
           None \<Rightarrow> None
         | Some i \<Rightarrow>
             let p = drop (i + length pat) tag
             in if CHR 0x22 \<in> set p
                then Some (dsml_unescape_text (takeWhile (\<lambda>c. c \<noteq> CHR 0x22) p))
                else None)"

definition tag_text :: "string \<Rightarrow> string option" where
  "tag_text p = (if CHR ''>'' \<in> set p then Some (takeWhile (\<lambda>c. c \<noteq> CHR ''>'') p @ ''>'') else None)"

section \<open>Delimiters\<close>

text \<open>The shape of every delimiter in use: one leading \<open><\<close>, then neither \<open><\<close> nor \<open>&\<close>.\<close>

definition closing_delim :: "string \<Rightarrow> bool" where
  "closing_delim end \<longleftrightarrow>
     (case end of [] \<Rightarrow> False | c # t \<Rightarrow> c = CHR ''<'' \<and> CHR ''<'' \<notin> set t \<and> CHR ''&'' \<notin> set t)"

lemma closing_delimE:
  assumes "closing_delim end"
  obtains t where "end = CHR ''<'' # t" and "CHR ''<'' \<notin> set t" and "CHR ''&'' \<notin> set t"
  using assms by (auto simp: closing_delim_def split: list.splits)

lemma closing_delims_in_use:
  "closing_delim dsml_parameter_end" "closing_delim ''</arg_key>''"
  "closing_delim ''</arg_value>''" "closing_delim ''</tool_response>''"
  "closing_delim ''</tool_result>''"
  by (simp_all add: closing_delim_def dsml_parameter_end_def dsml_bar_def)

section \<open>Skipping runs of amp;\<close>

text \<open>\<open>amps k\<close> is \<open>amp;\<close> repeated; every string splits uniquely at the end of such a run.\<close>

definition amps :: "nat \<Rightarrow> string" where
  "amps k = concat (replicate k ''amp;'')"

lemma amps_0 [simp]: "amps 0 = []" and amps_Suc [simp]: "amps (Suc k) = ''amp;'' @ amps k"
  by (simp_all add: amps_def)

lemma amps_no_amp_lt: "CHR ''&'' \<notin> set (amps k)" "CHR ''<'' \<notin> set (amps k)"
  by (auto simp: amps_def)

lemma skip_amp_amps [simp]: "skip_amp (amps k @ s) = skip_amp s"
  by (induction k) (simp_all add: skip_amp.simps [of "''amp;'' @ _"] skip_amp.simps [of "CHR ''a'' # _"])

lemma skip_amp_id: "\<not> prefix ''amp;'' s \<Longrightarrow> skip_amp s = s"
  by (simp add: skip_amp.simps)

lemma skip_amp_split: "\<exists>k. s = amps k @ skip_amp s \<and> \<not> prefix ''amp;'' (skip_amp s)"
proof (induction s rule: skip_amp.induct)
  case (1 s)
  show ?case
  proof (cases "prefix ''amp;'' s")
    case True
    with "1.IH" obtain k where
      "drop 4 s = amps k @ skip_amp (drop 4 s)" "\<not> prefix ''amp;'' (skip_amp (drop 4 s))" by blast
    moreover have "s = ''amp;'' @ drop 4 s" using True by (auto simp: prefix_def)
    moreover have "skip_amp s = skip_amp (drop 4 s)" using True by (simp add: skip_amp.simps [of s])
    ultimately have "s = amps (Suc k) @ skip_amp s" "\<not> prefix ''amp;'' (skip_amp s)" by auto
    then show ?thesis by blast
  next
    case False
    then show ?thesis by (intro exI [of _ 0]) (simp add: skip_amp_id)
  qed
qed

text \<open>The words that follow the ampersand of an escaped delimiter, as a set of shapes.\<close>

definition close_word :: "string \<Rightarrow> nat \<Rightarrow> string" where
  "close_word end k = amps k @ ''lt;'' @ tl end"

lemma close_word_no_amp: "closing_delim end \<Longrightarrow> CHR ''&'' \<notin> set (close_word end k)"
  by (auto simp: close_word_def amps_no_amp_lt elim: closing_delimE)

lemma close_word_no_lt: "closing_delim end \<Longrightarrow> CHR ''<'' \<notin> set (close_word end k)"
  by (auto simp: close_word_def amps_no_amp_lt elim: closing_delimE)

lemma escaped_close_iff:
  "ds4_tool_text_escaped_close s end \<longleftrightarrow> (\<exists>k. prefix (CHR ''&'' # close_word end k) s)"
proof (cases s)
  case Nil
  then show ?thesis by (simp add: ds4_tool_text_escaped_close_def)
next
  case (Cons c u)
  have "prefix ''lt;'' (skip_amp u) \<and> prefix (tl end) (drop 3 (skip_amp u))
        \<longleftrightarrow> (\<exists>k. prefix (close_word end k) u)"
  proof
    assume a: "prefix ''lt;'' (skip_amp u) \<and> prefix (tl end) (drop 3 (skip_amp u))"
    obtain k where k: "u = amps k @ skip_amp u" using skip_amp_split by blast
    from a have "skip_amp u = ''lt;'' @ drop 3 (skip_amp u)" by (auto simp: prefix_def)
    with a have "prefix (''lt;'' @ tl end) (skip_amp u)" by (auto simp: prefix_def)
    then have "prefix (close_word end k) u"
      by (subst k) (simp add: close_word_def)
    then show "\<exists>k. prefix (close_word end k) u" by blast
  next
    assume "\<exists>k. prefix (close_word end k) u"
    then obtain k z where u: "u = amps k @ ''lt;'' @ tl end @ z"
      by (auto simp: close_word_def prefix_def)
    have "skip_amp u = ''lt;'' @ tl end @ z"
      unfolding u by (simp add: skip_amp_id)
    then show "prefix ''lt;'' (skip_amp u) \<and> prefix (tl end) (drop 3 (skip_amp u))" by simp
  qed
  with Cons show ?thesis by (simp add: ds4_tool_text_escaped_close_def Let_def)
qed


section \<open>Encoding keeps delimiter-free words, and invents none\<close>

lemma escape_copies_word:
  assumes "closing_delim end" and "CHR ''&'' \<notin> set w" and "CHR ''<'' \<notin> set w"
  shows "append_glm_tag_body_text (w @ s) end = w @ append_glm_tag_body_text s end"
  using assms(2,3)
proof (induction w)
  case Nil
  then show ?case by simp
next
  case (Cons c w)
  from Cons.prems have "c \<noteq> CHR ''&''" "c \<noteq> CHR ''<''" by auto
  then have "\<not> ds4_tool_text_needs_escape (c # w @ s) end"
    using assms(1)
    by (auto simp: ds4_tool_text_needs_escape_def escaped_close_iff elim!: closing_delimE)
  with Cons show ?case by simp
qed

text \<open>Up to the first ampersand of the encoded text every byte was copied.\<close>

lemma escape_word_reflect:
  "CHR ''&'' \<notin> set w \<Longrightarrow> prefix w (append_glm_tag_body_text s end) \<Longrightarrow> prefix w s"
proof (induction s arbitrary: w)
  case Nil
  then show ?case by simp
next
  case (Cons c s)
  show ?case
  proof (cases w)
    case Nil
    then show ?thesis by simp
  next
    case (Cons d v)
    with Cons.prems have "\<not> ds4_tool_text_needs_escape (c # s) end"
      by (auto split: if_splits)
    with Cons.prems Cons have "c = d" "prefix v (append_glm_tag_body_text s end)" by simp_all
    with Cons.IH [of v] Cons.prems(1) Cons show ?thesis by simp
  qed
qed

lemma escaped_close_escape_iff:
  assumes d: "closing_delim end"
  shows "ds4_tool_text_escaped_close (append_glm_tag_body_text (c # s) end) end
         \<longleftrightarrow> ds4_tool_text_needs_escape (c # s) end"
proof
  assume ne: "ds4_tool_text_needs_escape (c # s) end"
  then consider "prefix end (c # s)" | k where "prefix (CHR ''&'' # close_word end k) (c # s)"
    by (auto simp: ds4_tool_text_needs_escape_def escaped_close_iff)
  then show "ds4_tool_text_escaped_close (append_glm_tag_body_text (c # s) end) end"
  proof cases
    case 1
    from d obtain t where t: "end = CHR ''<'' # t" "CHR ''<'' \<notin> set t" "CHR ''&'' \<notin> set t"
      by (rule closing_delimE)
    with 1 obtain z where z: "c = CHR ''<''" "s = t @ z" by (auto simp: prefix_def)
    have "append_glm_tag_body_text (c # s) end = ''&lt;'' @ t @ append_glm_tag_body_text z end"
      using 1 z t escape_copies_word [OF d t(3) t(2)]
      by (simp add: ds4_tool_text_needs_escape_def)
    then have "prefix (CHR ''&'' # close_word end 0) (append_glm_tag_body_text (c # s) end)"
      by (simp add: close_word_def t)
    then show ?thesis unfolding escaped_close_iff by blast
  next
    case (2 k)
    then obtain z where z: "c = CHR ''&''" "s = close_word end k @ z" by (auto simp: prefix_def)
    have "append_glm_tag_body_text (c # s) end
          = ''&amp;'' @ close_word end k @ append_glm_tag_body_text z end"
      using ne z escape_copies_word [OF d close_word_no_amp close_word_no_lt, OF d d] by simp
    then have "prefix (CHR ''&'' # close_word end (Suc k)) (append_glm_tag_body_text (c # s) end)"
      by (simp add: close_word_def)
    then show ?thesis unfolding escaped_close_iff by blast
  qed
next
  assume a: "ds4_tool_text_escaped_close (append_glm_tag_body_text (c # s) end) end"
  show "ds4_tool_text_needs_escape (c # s) end"
  proof (rule ccontr)
    assume n: "\<not> ds4_tool_text_needs_escape (c # s) end"
    with a obtain k where "c = CHR ''&''" "prefix (close_word end k) (append_glm_tag_body_text s end)"
      by (auto simp: escaped_close_iff)
    with escape_word_reflect [OF close_word_no_amp [OF d]] have
      "ds4_tool_text_escaped_close (c # s) end" by (auto simp: escaped_close_iff)
    with n show False by (simp add: ds4_tool_text_needs_escape_def)
  qed
qed

lemma unescape_Cons_plain:
  "\<not> ds4_tool_text_escaped_close (c # s) end \<Longrightarrow>
   ds4_tool_text_unescape (c # s) end = c # ds4_tool_text_unescape s end"
  by (simp add: ds4_tool_text_unescape.simps [of "c # s"])

lemma unescape_amp:
  "ds4_tool_text_escaped_close (''&amp;'' @ s) end \<Longrightarrow>
   ds4_tool_text_unescape (''&amp;'' @ s) end = CHR ''&'' # ds4_tool_text_unescape s end"
  by (simp add: ds4_tool_text_unescape.simps [of "CHR ''&'' # _"])

lemma unescape_lt:
  "ds4_tool_text_escaped_close (''&lt;'' @ s) end \<Longrightarrow>
   ds4_tool_text_unescape (''&lt;'' @ s) end = CHR ''<'' # ds4_tool_text_unescape s end"
  by (simp add: ds4_tool_text_unescape.simps [of "CHR ''&'' # _"])

lemma unescape_Nil [simp]: "ds4_tool_text_unescape [] end = []"
  by (simp add: ds4_tool_text_unescape.simps)

text \<open>Decoding inverts encoding, for every body and every delimiter of the shape in use.\<close>

lemma tool_text_unescape_escape:
  assumes "closing_delim end"
  shows "ds4_tool_text_unescape (append_glm_tag_body_text s end) end = s"
proof (induction s)
  case Nil
  show ?case by simp
next
  case (Cons c s)
  note ec = escaped_close_escape_iff [OF assms, of c s]
  show ?case
  proof (cases "ds4_tool_text_needs_escape (c # s) end")
    case False
    with ec Cons show ?thesis by (simp add: unescape_Cons_plain)
  next
    case True
    then have "c = CHR ''<'' \<or> c = CHR ''&''"
      using assms
      by (auto simp: ds4_tool_text_needs_escape_def escaped_close_iff elim!: closing_delimE)
    with True ec Cons show ?thesis
      using unescape_amp unescape_lt by fastforce
  qed
qed

text \<open>No suffix of an encoded body followed by its delimiter starts the delimiter early.\<close>

lemma escape_no_delim:
  assumes d: "closing_delim end" and ne: "append_glm_tag_body_text s end \<noteq> []"
  shows "\<not> prefix end (append_glm_tag_body_text s end @ end @ rest)"
proof
  from d obtain t where t: "end = CHR ''<'' # t" "CHR ''<'' \<notin> set t" "CHR ''&'' \<notin> set t"
    by (rule closing_delimE)
  obtain c u where s: "s = c # u" using ne by (cases s) auto
  assume p: "prefix end (append_glm_tag_body_text s end @ end @ rest)"
  with t have plain: "\<not> ds4_tool_text_needs_escape s end"
    unfolding s by (auto split: if_splits)
  with p t have c: "c = CHR ''<''"
    and q: "prefix t (append_glm_tag_body_text u end @ CHR ''<'' # t @ rest)"
    unfolding s by (auto simp: ds4_tool_text_needs_escape_def)
  have "prefix t (append_glm_tag_body_text u end)"
  proof (cases "length t \<le> length (append_glm_tag_body_text u end)")
    case True
    with q show ?thesis by (simp add: prefix_append_iff)
  next
    case False
    with q have "CHR ''<'' \<in> set t"
      by (auto simp: prefix_def append_eq_append_conv2 Cons_eq_append_conv)
    with t(2) show ?thesis by simp
  qed
  with escape_word_reflect [OF t(3)] have "prefix t u" by blast
  with c t plain s show False by (simp add: ds4_tool_text_needs_escape_def)
qed

lemma escape_drop_shape:
  assumes "j < length (append_glm_tag_body_text s end)"
  shows "(\<exists>u. drop j (append_glm_tag_body_text s end) = append_glm_tag_body_text u end)
         \<or> hd (drop j (append_glm_tag_body_text s end)) \<noteq> CHR ''<''"
  using assms
proof (induction s arbitrary: j)
  case Nil
  then show ?case by simp
next
  case (Cons c s)
  show ?case
  proof (cases "ds4_tool_text_needs_escape (c # s) end")
    case False
    then have eq: "append_glm_tag_body_text (c # s) end = c # append_glm_tag_body_text s end"
      by simp
    show ?thesis
    proof (cases j)
      case 0
      then have "drop j (append_glm_tag_body_text (c # s) end) = append_glm_tag_body_text (c # s) end"
        by simp
      then show ?thesis by blast
    next
      case (Suc i)
      with Cons.prems eq have "i < length (append_glm_tag_body_text s end)" by simp
      from Cons.IH [OF this] show ?thesis by (simp only: eq Suc drop_Suc_Cons)
    qed
  next
    case True
    define e where "e = (if c = CHR ''<'' then ''&lt;'' else ''&amp;'')"
    have eq: "append_glm_tag_body_text (c # s) end = e @ append_glm_tag_body_text s end"
      using True by (simp add: e_def)
    show ?thesis
    proof (cases "j < length e")
      case True
      then have "hd (drop j (e @ append_glm_tag_body_text s end)) = e ! j"
        by (simp add: hd_drop_conv_nth nth_append)
      moreover have "e ! j \<noteq> CHR ''<''" using True
        by (auto simp: e_def less_Suc_eq numeral_eq_Suc split: if_splits)
      ultimately show ?thesis unfolding eq by simp
    next
      case False
      with Cons.prems eq have "j - length e < length (append_glm_tag_body_text s end)" by simp
      from Cons.IH [OF this] False show ?thesis unfolding eq by simp
    qed
  qed
qed

text \<open>The reader that searches for the delimiter stops exactly at the end of the encoded body.\<close>

lemma tool_text_delim_found:
  assumes d: "closing_delim end"
  shows "strstr end (append_glm_tag_body_text s end @ end @ rest)
         = Some (length (append_glm_tag_body_text s end))"
proof (rule strstr_eqI)
  let ?E = "append_glm_tag_body_text s end"
  show "prefix end (drop (length ?E) (?E @ end @ rest))" by simp
  show "length ?E \<le> length (?E @ end @ rest)" by simp
  fix j assume j: "j < length ?E"
  then have ne: "drop j ?E \<noteq> []" by simp
  have dr: "drop j (?E @ end @ rest) = drop j ?E @ end @ rest" using j by simp
  from escape_drop_shape [OF j] show "\<not> prefix end (drop j (?E @ end @ rest))"
  proof
    assume "\<exists>u. drop j ?E = append_glm_tag_body_text u end"
    with escape_no_delim [OF d] ne show ?thesis unfolding dr by metis
  next
    assume "hd (drop j ?E) \<noteq> CHR ''<''"
    moreover obtain x xs where "drop j ?E = x # xs" using ne by (cases "drop j ?E") auto
    ultimately show ?thesis unfolding dr using d by (auto elim!: closing_delimE)
  qed
qed


section \<open>The streaming guard\<close>

text \<open>
  A fragment is held back exactly when it is not yet an escaped delimiter and some
  continuation makes it one.
\<close>

lemma prefix_run_cases:
  assumes "\<not> prefix ''amp;'' r"
  shows "(\<exists>x k. prefix (close_word end k) (r @ x))
         \<longleftrightarrow> (length r < 4 \<and> prefix r ''amp;'') \<or> prefix (''lt;'' @ tl end) r \<or> prefix r (''lt;'' @ tl end)"
proof
  assume "\<exists>x k. prefix (close_word end k) (r @ x)"
  then obtain x k where p: "prefix (close_word end k) (r @ x)" by blast
  show "(length r < 4 \<and> prefix r ''amp;'') \<or> prefix (''lt;'' @ tl end) r \<or> prefix r (''lt;'' @ tl end)"
  proof (cases k)
    case 0
    with p prefix_comparable_append [of "''lt;'' @ tl end" r] show ?thesis
      by (auto simp: close_word_def)
  next
    case (Suc m)
    with p have "prefix ''amp;'' (r @ x)" by (auto simp: close_word_def prefix_def)
    with prefix_comparable_append [of "''amp;''" r] assms have "prefix r ''amp;''" by blast
    moreover from this assms have "length r < length ''amp;''"
      by (intro prefix_length_less) (auto simp: strict_prefix_def)
    ultimately show ?thesis by simp
  qed
next
  assume "(length r < 4 \<and> prefix r ''amp;'') \<or> prefix (''lt;'' @ tl end) r \<or> prefix r (''lt;'' @ tl end)"
  then consider "prefix r ''amp;''" | "prefix (close_word end 0) r \<or> prefix r (close_word end 0)"
    by (auto simp: close_word_def)
  then show "\<exists>x k. prefix (close_word end k) (r @ x)"
  proof cases
    case 1
    then have "prefix r (''amp;'' @ ''lt;'' @ tl end)" by (rule prefix_prefix)
    then have "prefix r (close_word end (Suc 0))" by (simp add: close_word_def)
    then show ?thesis using prefix_comparable_append by blast
  next
    case 2
    then show ?thesis using prefix_comparable_append by blast
  qed
qed


lemma close_word_amps:
  "(\<exists>k. prefix (close_word end k) (amps m @ y)) \<longleftrightarrow> (\<exists>k. prefix (close_word end k) y)"
proof (induction m)
  case 0
  show ?case by simp
next
  case (Suc m)
  have "prefix (close_word end k) (''amp;'' @ z) \<longleftrightarrow> (\<exists>j. k = Suc j \<and> prefix (close_word end j) z)"
    for k z by (cases k) (auto simp: close_word_def)
  with Suc show ?case by (metis amps_Suc append_assoc)
qed

lemma lt_word_split:
  "prefix r (''lt;'' @ t) \<and> \<not> prefix (''lt;'' @ t) r \<longleftrightarrow>
   (if length r < 3 then prefix r ''lt;''
    else prefix ''lt;'' r \<and> length (drop 3 r) < length t \<and> prefix (drop 3 r) t)"
proof -
  let ?L = "''lt;''"
  show ?thesis
  proof (cases "length r < 3")
    case True
    then have "\<not> prefix (?L @ t) r" by (auto dest: prefix_length_le)
    moreover have "prefix r (?L @ t) \<longleftrightarrow> prefix r ?L" using True by (intro prefix_append_iff) simp
    ultimately show ?thesis using True by simp
  next
    case False
    define w q where "w = take 3 r" and "q = drop 3 r"
    have r: "r = w @ q" and w: "length w = length ?L"
      using False by (simp_all add: w_def q_def)
    have "prefix r (?L @ t) \<longleftrightarrow> w = ?L \<and> prefix q t"
      and "prefix (?L @ t) r \<longleftrightarrow> w = ?L \<and> prefix t q"
      and "prefix ?L r \<longleftrightarrow> w = ?L"
      unfolding r using prefix_same_length [OF w] prefix_same_length [OF w [symmetric]]
        prefix_same_length [OF w [symmetric], of "[]"] by auto
    moreover have "prefix q t \<and> \<not> prefix t q \<longleftrightarrow> length q < length t \<and> prefix q t"
      by (auto simp: prefix_def)
    ultimately show ?thesis using False by (auto simp: q_def)
  qed
qed

lemma partial_escape_iff:
  "ds4_tool_text_partial_escape s end \<longleftrightarrow>
     \<not> ds4_tool_text_escaped_close s end \<and> s \<noteq> [] \<and> (\<exists>x. ds4_tool_text_escaped_close (s @ x) end)"
proof (cases s)
  case Nil
  then show ?thesis by (simp add: ds4_tool_text_partial_escape_def)
next
  case (Cons c u)
  obtain k where k: "u = amps k @ skip_amp u" "\<not> prefix ''amp;'' (skip_amp u)"
    using skip_amp_split by blast
  define r where "r = skip_amp u"
  define A where "A \<longleftrightarrow> length r < 4 \<and> prefix r ''amp;''"
  have ec: "ds4_tool_text_escaped_close s end \<longleftrightarrow> c = CHR ''&'' \<and> prefix (''lt;'' @ tl end) r"
    using Cons by (auto simp: ds4_tool_text_escaped_close_def r_def Let_def prefix_def)
  have "(\<exists>x. ds4_tool_text_escaped_close (s @ x) end)
        \<longleftrightarrow> c = CHR ''&'' \<and> (\<exists>x j. prefix (close_word end j) (amps k @ r @ x))"
  proof -
    have "u @ x = amps k @ r @ x" for x using k(1) unfolding r_def by (metis append_assoc)
    with Cons show ?thesis by (auto simp: escaped_close_iff)
  qed
  also have "\<dots> \<longleftrightarrow> c = CHR ''&'' \<and> (\<exists>x j. prefix (close_word end j) (r @ x))"
    by (simp add: close_word_amps)
  also have "\<dots> \<longleftrightarrow> c = CHR ''&'' \<and> (A \<or> prefix (''lt;'' @ tl end) r \<or> prefix r (''lt;'' @ tl end))"
    using prefix_run_cases [of r "end"] k(2) by (simp add: r_def A_def)
  finally have ex: "(\<exists>x. ds4_tool_text_escaped_close (s @ x) end)
        \<longleftrightarrow> c = CHR ''&'' \<and> (A \<or> prefix (''lt;'' @ tl end) r \<or> prefix r (''lt;'' @ tl end))" .
  have nA: "A \<Longrightarrow> \<not> prefix (''lt;'' @ tl end) r"
    by (cases r) (auto simp: A_def)
  have "ds4_tool_text_partial_escape s end \<longleftrightarrow> c = CHR ''&'' \<and>
      (A \<or> (if length r < 3 then prefix r ''lt;''
         else prefix ''lt;'' r \<and> length (drop 3 r) < length (tl end) \<and> prefix (drop 3 r) (tl end)))"
    using Cons
    by (simp add: ds4_tool_text_partial_escape_def A_def [symmetric] r_def [symmetric] Let_def)
  then have "ds4_tool_text_partial_escape s end \<longleftrightarrow>
      c = CHR ''&'' \<and> (A \<or> prefix r (''lt;'' @ tl end) \<and> \<not> prefix (''lt;'' @ tl end) r)"
    unfolding lt_word_split .
  with Cons ec ex nA show ?thesis by auto
qed

lemma escaped_close_append:
  "ds4_tool_text_escaped_close s end \<Longrightarrow> ds4_tool_text_escaped_close (s @ b) end"
  unfolding escaped_close_iff by (blast intro: prefix_prefix)

text \<open>
  Decoding distributes over a cut of the stream unless an escaped delimiter straddles it.
\<close>

lemma unescape_append:
  assumes "\<And>i. i < length a \<Longrightarrow> ds4_tool_text_escaped_close (drop i a @ b) end
             \<Longrightarrow> ds4_tool_text_escaped_close (drop i a) end"
  shows "ds4_tool_text_unescape (a @ b) end
         = ds4_tool_text_unescape a end @ ds4_tool_text_unescape b end"
  using assms
proof (induction a "end" rule: ds4_tool_text_unescape.induct)
  case (1 a "end")
  show ?case
  proof (cases a)
    case Nil
    then show ?thesis by simp
  next
    case (Cons c u)
    have sub: "ds4_tool_text_escaped_close (drop i (drop n a)) end"
      if "i < length (drop n a)" "ds4_tool_text_escaped_close (drop i (drop n a) @ b) end" for i n
      using "1.prems" [of "i + n"] that by (simp add: add.commute)
    show ?thesis
    proof (cases "ds4_tool_text_escaped_close a end")
      case True
      then have ab: "ds4_tool_text_escaped_close (a @ b) end"
        by (rule escaped_close_append)
      from True obtain k z where a: "a = CHR ''&'' # close_word end k @ z"
        by (auto simp: escaped_close_iff prefix_def)
      show ?thesis
      proof (cases k)
        case 0
        then have sp: "a = ''&lt;'' @ drop 4 a" "\<not> prefix ''&amp;'' a"
          using a by (auto simp: close_word_def)
        have "ds4_tool_text_unescape (drop 4 a @ b) end
              = ds4_tool_text_unescape (drop 4 a) end @ ds4_tool_text_unescape b end"
          using "1.IH"(2) [OF Cons True sp(2)] sub by blast
        with unescape_lt [of "drop 4 a"] unescape_lt [of "drop 4 a @ b"] sp(1) True ab
        show ?thesis by (metis append_Cons append_assoc)
      next
        case (Suc m)
        then have sp: "a = ''&amp;'' @ drop 5 a" "prefix ''&amp;'' a"
          using a by (auto simp: close_word_def)
        have "ds4_tool_text_unescape (drop 5 a @ b) end
              = ds4_tool_text_unescape (drop 5 a) end @ ds4_tool_text_unescape b end"
          using "1.IH"(1) [OF Cons True sp(2)] sub by blast
        with unescape_amp [of "drop 5 a"] unescape_amp [of "drop 5 a @ b"] sp(1) True ab
        show ?thesis by (metis append_Cons append_assoc)
      qed
    next
      case False
      then have "\<not> ds4_tool_text_escaped_close (a @ b) end"
        using "1.prems" [of 0] Cons by auto
      moreover have "ds4_tool_text_unescape (u @ b) end
          = ds4_tool_text_unescape u end @ ds4_tool_text_unescape b end"
        using "1.IH"(3) [OF Cons False] sub [of _ 1] Cons by simp
      ultimately show ?thesis using False Cons by (simp add: unescape_Cons_plain)
    qed
  qed
qed

section \<open>Attributes\<close>

lemma attr_escaped_no_markup:
  "set (append_dsml_attr_escaped s) \<inter> {CHR ''<'', CHR ''>'', CHR 0x22} = {}"
  by (induction s) auto

lemma dsml_unescape_Nil [simp]: "dsml_unescape_text [] = []"
  by (simp add: dsml_unescape_text.simps)

lemma dsml_unescape_attr_escaped: "dsml_unescape_text (append_dsml_attr_escaped s) = s"
proof (induction s)
  case Nil
  show ?case by simp
next
  case (Cons c s)
  consider "c = CHR ''&''" | "c = CHR ''<''" | "c = CHR ''>''" | "c = CHR 0x22"
    | "c \<noteq> CHR ''&''" "c \<noteq> CHR ''<''" "c \<noteq> CHR ''>''" "c \<noteq> CHR 0x22" by blast
  then show ?case
    using Cons by cases (simp_all add: dsml_unescape_text.simps [of "_ # _"])
qed

lemma attr_escaped_append: "append_dsml_attr_escaped (s @ t) = append_dsml_attr_escaped s @ append_dsml_attr_escaped t"
  by (induction s) simp_all

lemma attr_escaped_suffix:
  assumes "suffix w (append_dsml_attr_escaped s)" and "set w \<inter> {CHR ''&'', CHR '';''} = {}"
  shows "suffix w s"
  using assms
proof (induction s arbitrary: w rule: rev_induct)
  case Nil
  then show ?case by simp
next
  case (snoc c s)
  show ?case
  proof (cases w rule: rev_cases)
    case Nil
    then show ?thesis by simp
  next
    case (snoc u x)
    with snoc.prems have "x = c" "suffix u (append_dsml_attr_escaped s)"
      by (auto simp: attr_escaped_append suffix_def split: if_splits)
    with snoc snoc.prems snoc.IH [of u] show ?thesis by auto
  qed
qed

lemma takeWhile_mark: "q \<notin> set u \<Longrightarrow> takeWhile (\<lambda>c. c \<noteq> q) (u @ q # r) = u"
  by (induction u) auto

lemma prefix_upto_mark:
  assumes "prefix (w @ [q]) (u @ q # r)" and "q \<notin> set w" and "q \<notin> set u"
  shows "u = w"
proof -
  from assms(1) obtain z where "u @ q # r = w @ q # z" by (auto simp: prefix_def)
  then show ?thesis using assms(2,3) takeWhile_mark by metis
qed

text \<open>The opening tag of a rendered parameter, as the reader cuts it.\<close>

definition param_open :: "json_arg \<Rightarrow> string" where
  "param_open a = ''<'' @ dsml_bar @ ''DSML'' @ dsml_bar @ ''parameter name='' @ CHR 0x22
     # append_dsml_attr_escaped (arg_key a) @ CHR 0x22 # '' string='' @ CHR 0x22
     # (if arg_is_string a then ''true'' else ''false'') @ [CHR 0x22]"

lemma tag_text_dsml_arg: "tag_text (append_dsml_arg a @ rest) = Some (param_open a @ ''>'')"
proof -
  have "CHR ''>'' \<notin> set (param_open a)"
    using attr_escaped_no_markup [of "arg_key a"] by (auto simp: param_open_def dsml_bar_def)
  moreover obtain r where "append_dsml_arg a @ rest = param_open a @ CHR ''>'' # r"
    by (auto simp: append_dsml_arg_def param_open_def)
  ultimately show ?thesis
    by (simp add: tag_text_def takeWhile_mark del: append_assoc)
qed

lemma attr_value_quoted:
  "takeWhile (\<lambda>c. c \<noteq> CHR 0x22) (append_dsml_attr_escaped k @ CHR 0x22 # r) = append_dsml_attr_escaped k"
proof -
  have "CHR 0x22 \<notin> set (append_dsml_attr_escaped k)" using attr_escaped_no_markup by auto
  then show ?thesis by (rule takeWhile_mark)
qed

text \<open>
  Every argument name, whatever bytes it holds, is read back exactly: the tag cut at the
  first \<open>>\<close> of a rendered DSML parameter is its opening tag, and the decoded \<open>name\<close>
  attribute of that tag is the argument's key.
\<close>

lemma dsml_name_attr_read_back:
  "\<exists>tag. tag_text (append_dsml_arg a @ rest) = Some tag \<and> dsml_attr tag ''name'' = Some (arg_key a)"
  by (simp add: tag_text_dsml_arg dsml_attr_def param_open_def dsml_bar_def attr_value_quoted
      dsml_unescape_attr_escaped)

lemma strstr_skip:
  assumes "\<And>j. j < length u \<Longrightarrow> \<not> prefix n (drop j u @ s)"
  shows "strstr n (u @ s) = map_option ((+) (length u)) (strstr n s)"
  using assms
proof (induction u)
  case Nil
  show ?case by (simp add: option.map_ident)
next
  case (Cons c u)
  have "\<not> prefix n ((c # u) @ s)" using Cons.prems [of 0] by simp
  moreover have "strstr n (u @ s) = map_option ((+) (length u)) (strstr n s)"
    using Cons.prems [of "Suc _"] by (intro Cons.IH) auto
  ultimately show ?case by (simp add: option.map_comp comp_def)
qed

text \<open>
  The type flag of a rendered parameter is read back exactly when the argument's name does
  not end in \<open>string=\<close>.
\<close>

lemma dsml_string_attr_read_back:
  assumes "\<not> suffix ''string='' (arg_key a)"
  shows "\<exists>tag. tag_text (append_dsml_arg a @ rest) = Some tag
    \<and> dsml_attr tag ''string'' = Some (if arg_is_string a then ''true'' else ''false'')"
proof -
  let ?k = "append_dsml_attr_escaped (arg_key a)" and ?n = "''string='' @ [CHR 0x22]"
  have skip: "\<not> prefix ?n (drop j ?k @ CHR 0x22 # r)" if "j < length ?k" for j r
  proof
    assume "prefix ?n (drop j ?k @ CHR 0x22 # r)"
    moreover have "CHR 0x22 \<notin> set (drop j ?k)"
      using attr_escaped_no_markup [of "arg_key a"] by (auto dest: in_set_dropD)
    ultimately have "drop j ?k = ''string=''" by (intro prefix_upto_mark) auto
    then have "suffix ''string='' ?k" by (metis suffix_drop)
    then have "suffix ''string='' (arg_key a)" by (rule attr_escaped_suffix) auto
    with assms show False ..
  qed
  have "strstr ?n (?k @ CHR 0x22 # r) = map_option ((+) (length ?k)) (strstr ?n (CHR 0x22 # r))" for r
    by (rule strstr_skip) (rule skip)
  then show ?thesis
    by (simp add: tag_text_dsml_arg dsml_attr_def param_open_def dsml_bar_def dsml_unescape_text.simps)
qed

text \<open>
  A string argument whose name is \<open>string=\<close> loses its type: the search for the
  \<open>string\<close> attribute matches inside the name, and the flag read back is neither
  \<open>true\<close> nor \<open>false\<close>.
\<close>

lemma dsml_string_attr_misread:
  "\<exists>tag. tag_text (append_dsml_arg \<lparr>arg_key = ''string='', arg_value = ''x'', arg_is_string = True, arg_used = False\<rparr>)
       = Some tag \<and> dsml_attr tag ''string'' = Some '' string=''"
  using tag_text_dsml_arg [of "\<lparr>arg_key = ''string='', arg_value = ''x'', arg_is_string = True, arg_used = False\<rparr>" "[]"]
  by (simp add: dsml_attr_def param_open_def dsml_bar_def dsml_unescape_text.simps)

section \<open>Reading a body back\<close>

text \<open>
  (C33) A rendered tool body is read back exactly, whatever text it holds and whatever follows:
  the first occurrence of the closing delimiter is the one that closes the body, and decoding
  the bytes before it gives the original text.
\<close>

theorem tool_body_read_back:
  assumes "closing_delim end"
  shows "\<exists>n. strstr end (append_glm_tag_body_text s end @ end @ rest) = Some n
    \<and> ds4_tool_text_unescape (take n (append_glm_tag_body_text s end @ end @ rest)) end = s"
  using assms by (simp add: tool_text_delim_found tool_text_unescape_escape)

theorem tool_body_read_back_witness:
  "\<exists>n. strstr ''</arg_value>'' (append_glm_tag_body_text ''a</arg_value>&lt;/arg_value>'' ''</arg_value>''
       @ ''</arg_value>'' @ ''</tool_call>'') = Some n
    \<and> ds4_tool_text_unescape (take n (append_glm_tag_body_text ''a</arg_value>&lt;/arg_value>'' ''</arg_value>''
       @ ''</arg_value>'' @ ''</tool_call>'')) ''</arg_value>'' = ''a</arg_value>&lt;/arg_value>''"
  by (rule tool_body_read_back) (simp add: closing_delim_def)

end
