(* ===== verification/Stream_Text.thy ===== *)
theory Stream_Text
  imports Tool_Text
begin

text \<open>
  What a streaming response may already send (\<open>ds4_server.c\<close>): the stop list with its
  earliest-match search and hold-back, the UTF-8 boundary guard, and the guard on the text of a
  tool argument. The generated text only grows, so each guard is judged against every possible
  continuation of the text seen so far.
\<close>

section \<open>Stop sequences\<close>

record stop_list =
  stop_v :: "string list"
  stop_max_len :: nat

definition stop_list_empty :: stop_list where
  "stop_list_empty = \<lparr>stop_v = [], stop_max_len = 0\<rparr>"

definition stop_list_clear :: "stop_list \<Rightarrow> stop_list" where
  "stop_list_clear stops = stops\<lparr>stop_v := [], stop_max_len := 0\<rparr>"

text \<open>A \<open>NULL\<close> or empty string is dropped; the vector grows by doubling, which only allocates.\<close>

definition stop_list_push :: "stop_list \<Rightarrow> string option \<Rightarrow> stop_list" where
  "stop_list_push stops s =
     (case s of
        None \<Rightarrow> stops
      | Some t \<Rightarrow>
          if t = [] then stops
          else stops\<lparr>stop_max_len := (if length t > stop_max_len stops then length t else stop_max_len stops),
                     stop_v := stop_v stops @ [t]\<rparr>)"

text \<open>The loop of \<open>stop_list_find_from\<close> over the stops, with the best match so far.\<close>

fun stop_find_loop :: "string list \<Rightarrow> string \<Rightarrow> nat \<Rightarrow> (nat \<times> nat) option \<Rightarrow> (nat \<times> nat) option" where
  "stop_find_loop [] text from best = best"
| "stop_find_loop (s # stops) text from best =
     (case strstr s (drop from text) of
        None \<Rightarrow> stop_find_loop stops text from best
      | Some off \<Rightarrow>
          let ppos = from + off; plen = length s
          in stop_find_loop stops text from
               (case best of
                  None \<Rightarrow> Some (ppos, plen)
                | Some (best_pos, best_len) \<Rightarrow>
                    if ppos < best_pos then Some (ppos, plen) else Some (best_pos, best_len)))"

definition stop_list_find_from :: "stop_list \<Rightarrow> string option \<Rightarrow> nat \<Rightarrow> (nat \<times> nat) option" where
  "stop_list_find_from stops text from =
     (case text of
        None \<Rightarrow> None
      | Some t \<Rightarrow> if stop_v stops = [] then None else stop_find_loop (stop_v stops) t from None)"

definition stop_list_stream_safe_len :: "stop_list \<Rightarrow> nat \<Rightarrow> nat" where
  "stop_list_stream_safe_len stops text_len =
     (if stop_v stops = [] \<or> stop_max_len stops \<le> 1 then text_len
      else let hold = stop_max_len stops - 1
           in if text_len > hold then text_len - hold else 0)"

section \<open>UTF-8 boundaries\<close>

definition utf8_expected_len :: "char \<Rightarrow> nat" where
  "utf8_expected_len c =
     (let b = (of_char c :: nat)
      in if b < 0x80 then 1
         else if b \<ge> 0xc2 \<and> b \<le> 0xdf then 2
         else if b \<ge> 0xe0 \<and> b \<le> 0xef then 3
         else if b \<ge> 0xf0 \<and> b \<le> 0xf4 then 4
         else 1)"

text \<open>\<open>(c & 0xc0) == 0x80\<close>: the two high bits are 10.\<close>

definition utf8_cont :: "char \<Rightarrow> bool" where
  "utf8_cont c \<longleftrightarrow> (of_char c :: nat) div 64 = 2"

text \<open>The backward loop over at most four continuation bytes; the argument is \<open>p\<close>.\<close>

fun utf8_scan_back :: "string \<Rightarrow> nat \<Rightarrow> nat \<Rightarrow> nat \<Rightarrow> nat" where
  "utf8_scan_back s start 0 cont = 0"
| "utf8_scan_back s start (Suc q) cont =
     (if start < Suc q \<and> cont < 4 \<and> utf8_cont (s ! q)
      then utf8_scan_back s start q (Suc cont) else Suc q)"

definition utf8_stream_safe_len :: "string \<Rightarrow> nat \<Rightarrow> nat \<Rightarrow> bool \<Rightarrow> nat" where
  "utf8_stream_safe_len s start limit final =
     (if final \<or> limit \<le> start then limit
      else let p = utf8_scan_back s start limit 0
           in if p = limit
              then (if utf8_expected_len (s ! (limit - 1)) > 1 then limit - 1 else limit)
              else if p = start \<and> utf8_cont (s ! p) then start
              else let lead = p - 1; need = utf8_expected_len (s ! lead)
                   in if limit - lead < need then lead else limit)"

section \<open>Tool argument text\<close>

text \<open>
  The two backward searches: from \<open>i\<close> down to \<open>scan\<close> for the last \<open>c\<close>, as the position
  of that byte.
\<close>

fun last_at :: "char \<Rightarrow> string \<Rightarrow> nat \<Rightarrow> nat \<Rightarrow> nat option" where
  "last_at c raw scan 0 = None"
| "last_at c raw scan (Suc i) =
     (if Suc i > scan then (if raw ! i = c then Some i else last_at c raw scan i) else None)"

definition tool_param_value_stream_safe_len ::
  "string \<Rightarrow> nat \<Rightarrow> nat \<Rightarrow> string \<Rightarrow> bool \<Rightarrow> nat" where
  "tool_param_value_stream_safe_len raw start raw_len param_end is_string =
     (let end_len = length param_end;
          scan = (if raw_len > start + end_len then raw_len - end_len else start);
          limit1 = (case last_at (CHR ''<'') raw scan raw_len of
                      None \<Rightarrow> raw_len
                    | Some marker \<Rightarrow>
                        let tail = raw_len - marker
                        in if tail < end_len \<and> take tail (drop marker raw) = take tail param_end
                           then marker else raw_len);
          limit2 = (if is_string
                    then (case last_at (CHR ''&'') raw start limit1 of
                            None \<Rightarrow> limit1
                          | Some a \<Rightarrow>
                              if ds4_tool_text_partial_escape (take (limit1 - a) (drop a raw)) param_end
                              then a else limit1)
                    else limit1)
      in utf8_stream_safe_len raw start limit2 False)"

section \<open>The stop list invariant\<close>

definition stop_list_ok :: "stop_list \<Rightarrow> bool" where
  "stop_list_ok stops \<longleftrightarrow>
     [] \<notin> set (stop_v stops) \<and> stop_max_len stops = foldr (\<lambda>s m. max (length s) m) (stop_v stops) 0"

lemma stop_list_ok_empty: "stop_list_ok stop_list_empty" "stop_list_ok (stop_list_clear stops)"
  by (simp_all add: stop_list_ok_def stop_list_empty_def stop_list_clear_def)

lemma foldr_max_append:
  "foldr (\<lambda>s m. max (length s) m) (xs @ [t]) 0 = max (foldr (\<lambda>s m. max (length s) m) xs 0) (length t)"
  by (induction xs) auto

lemma stop_list_ok_push: "stop_list_ok stops \<Longrightarrow> stop_list_ok (stop_list_push stops s)"
  by (auto simp: stop_list_ok_def stop_list_push_def foldr_max_append simp del: foldr_append split: option.splits)

lemma stop_list_ok_max: "stop_list_ok stops \<Longrightarrow> s \<in> set (stop_v stops) \<Longrightarrow> length s \<le> stop_max_len stops"
proof -
  have "s \<in> set xs \<Longrightarrow> length s \<le> foldr (\<lambda>s m. max (length s) m) xs 0" for xs :: "string list"
    by (induction xs) auto
  then show "stop_list_ok stops \<Longrightarrow> s \<in> set (stop_v stops) \<Longrightarrow> length s \<le> stop_max_len stops"
    by (simp add: stop_list_ok_def)
qed

text \<open>Where a stop matches, and that the search finds the earliest of all matches.\<close>

definition stop_at :: "string list \<Rightarrow> string \<Rightarrow> nat \<Rightarrow> bool" where
  "stop_at stops text i \<longleftrightarrow> i \<le> length text \<and> (\<exists>s \<in> set stops. prefix s (drop i text))"

lemma strstr_least: "strstr n s = Some i \<Longrightarrow> prefix n (drop j s) \<Longrightarrow> i \<le> j"
  using strstr_Some_first by (metis not_le)

lemma strstr_None_prefix: "strstr n s = None \<Longrightarrow> \<not> prefix n (drop j s)"
  unfolding strstr_None by (metis append_take_drop_id prefix_imp_sublist sublist_append)

lemma stop_find_loop_some:
  "stop_find_loop stops text from (Some (bp, bl)) = Some (p, l) \<Longrightarrow>
   p \<le> bp \<and> (p = bp \<and> l = bl \<or> from \<le> p \<and> (\<exists>s \<in> set stops. length s = l \<and> prefix s (drop p text)))
   \<and> (\<forall>j \<ge> from. (\<exists>s \<in> set stops. prefix s (drop j text)) \<longrightarrow> p \<le> j)"
proof (induction stops arbitrary: bp bl)
  case Nil
  then show ?case by simp
next
  case (Cons s stops)
  show ?case
  proof (cases "strstr s (drop from text)")
    case None
    have "\<not> prefix s (drop j text)" if "j \<ge> from" for j
      using strstr_None_prefix [OF None, of "j - from"] that by simp
    with Cons.IH [of bp bl] Cons.prems None show ?thesis by auto
  next
    case (Some off)
    have pre: "prefix s (drop (from + off) text)"
      using strstr_Some_prefix [OF Some] by (simp add: add.commute)
    have least: "from + off \<le> j" if "j \<ge> from" "prefix s (drop j text)" for j
      using strstr_least [OF Some, of "j - from"] that by simp
    show ?thesis
    proof (cases "from + off < bp")
      case True
      then have "stop_find_loop stops text from (Some (from + off, length s)) = Some (p, l)"
        using Cons.prems Some by simp
      from Cons.IH [OF this] pre least True show ?thesis by fastforce
    next
      case False
      then have "stop_find_loop stops text from (Some (bp, bl)) = Some (p, l)"
        using Cons.prems Some by simp
      from Cons.IH [OF this] least False show ?thesis by fastforce
    qed
  qed
qed

lemma stop_find_loop_keeps: "\<exists>r. stop_find_loop stops text from (Some b) = Some r"
  by (induction stops arbitrary: b) (auto simp: Let_def split: option.splits)

lemma stop_find_loop_none:
  "stop_find_loop stops text from None = None \<Longrightarrow> s \<in> set stops \<Longrightarrow> strstr s (drop from text) = None"
proof (induction stops)
  case Nil
  then show ?case by simp
next
  case (Cons t stops)
  have t: "strstr t (drop from text) = None"
  proof (rule ccontr)
    assume "strstr t (drop from text) \<noteq> None"
    then obtain off where "strstr t (drop from text) = Some off" by blast
    with Cons.prems(1) show False
      using stop_find_loop_keeps [of stops "text" "from" "(from + off, length t)"] by simp
  qed
  with Cons show ?case by auto
qed

lemma stop_find_loop_start:
  "stop_find_loop stops text from None = Some (p, l) \<Longrightarrow>
   from \<le> p \<and> (\<exists>s \<in> set stops. length s = l \<and> prefix s (drop p text))
   \<and> (\<forall>j \<ge> from. (\<exists>s \<in> set stops. prefix s (drop j text)) \<longrightarrow> p \<le> j)"
proof (induction stops)
  case Nil
  then show ?case by simp
next
  case (Cons s stops)
  show ?case
  proof (cases "strstr s (drop from text)")
    case None
    have "\<not> prefix s (drop j text)" if "j \<ge> from" for j
      using strstr_None_prefix [OF None, of "j - from"] that by simp
    with Cons None show ?thesis by auto
  next
    case (Some off)
    have pre: "prefix s (drop (from + off) text)"
      using strstr_Some_prefix [OF Some] by (simp add: add.commute)
    have least: "from + off \<le> j" if "j \<ge> from" "prefix s (drop j text)" for j
      using strstr_least [OF Some, of "j - from"] that by simp
    from Cons.prems Some have "stop_find_loop stops text from (Some (from + off, length s)) = Some (p, l)"
      by simp
    from stop_find_loop_some [OF this] pre least show ?thesis by fastforce
  qed
qed

text \<open>
  The stop search returns the earliest position at or after \<open>from\<close> at which any stop
  sequence matches, with the length of one that matches there.
\<close>

lemma stop_find_earliest:
  assumes "stop_list_find_from stops (Some text) from = Some (p, l)"
  shows "from \<le> p \<and> (\<exists>s \<in> set (stop_v stops). length s = l \<and> prefix s (drop p text))
    \<and> (\<forall>j. from \<le> j \<and> (\<exists>s \<in> set (stop_v stops). prefix s (drop j text)) \<longrightarrow> p \<le> j)"
  using assms stop_find_loop_start [of "stop_v stops" "text" "from" p l]
  by (auto simp: stop_list_find_from_def split: if_splits)

definition demo_stops :: stop_list where
  "demo_stops = stop_list_push (stop_list_push stop_list_empty (Some ''END'')) (Some ''##'')"

text \<open>
  (C37) Nothing that belongs to a stop sequence is ever sent: with no match yet in the text, and
  whatever is generated next, every later match starts at or after the safe length.
\<close>

theorem stop_hold_back:
  assumes "stop_list_ok stops" and "stop_list_find_from stops (Some text) from = None"
    and "from \<le> i" and "s \<in> set (stop_v stops)" and "prefix s (drop i (text @ x))"
  shows "stop_list_stream_safe_len stops (length text) \<le> i"
proof (rule ccontr)
  assume "\<not> ?thesis"
  then have i: "i < stop_list_stream_safe_len stops (length text)" by simp
  have "s \<noteq> []" "length s \<le> stop_max_len stops"
    using assms(1,4) stop_list_ok_max by (auto simp: stop_list_ok_def)
  with i assms(4) have "i + length s \<le> length text"
    by (cases s) (auto simp: stop_list_stream_safe_len_def Let_def split: if_splits)
  then have "prefix s (drop i text)" using assms(5) prefix_append_iff [of s "drop i text" x] by simp
  then have "prefix s (drop (i - from) (drop from text))" using assms(3) by simp
  moreover have "strstr s (drop from text) = None"
    using assms(2,4) by (intro stop_find_loop_none) (auto simp: stop_list_find_from_def split: if_splits)
  ultimately show False using strstr_None_prefix by blast
qed

theorem stop_hold_back_witness: "stop_list_stream_safe_len demo_stops (length ''abcE'') \<le> 3"
  by (rule stop_hold_back [where ?from = 0 and s = "''END''" and x = "''ND''" and ?text = "''abcE''"])
    (simp_all add: demo_stops_def stop_list_push_def stop_list_empty_def stop_list_find_from_def
      stop_list_ok_def stop_list_stream_safe_len_def)

section \<open>The UTF-8 guard\<close>

lemma utf8_scan_back_bounds:
  assumes "start \<le> p"
  shows "start \<le> utf8_scan_back s start p k \<and> utf8_scan_back s start p k \<le> p
    \<and> (\<forall>j. utf8_scan_back s start p k \<le> j \<and> j < p \<longrightarrow> utf8_cont (s ! j))"
  using assms
proof (induction p arbitrary: k)
  case 0
  then show ?case by simp
next
  case (Suc q)
  show ?case
  proof (cases "start < Suc q \<and> k < 4 \<and> utf8_cont (s ! q)")
    case True
    then show ?thesis using Suc.IH [of "Suc k"] by (auto simp: less_Suc_eq)
  qed (use Suc.prems in auto)
qed

lemma utf8_scan_back_tail:
  assumes "list_all utf8_cont t" and "\<not> utf8_cont h" and "length t + k \<le> 4" and "start \<le> length u"
  shows "utf8_scan_back (u @ h # t @ post) start (Suc (length u) + length t) k = Suc (length u)"
  using assms(1,3)
proof (induction t arbitrary: k post rule: rev_induct)
  case Nil
  then show ?case using assms(2) by (simp add: nth_append)
next
  case (snoc c t)
  have "(u @ h # (t @ [c]) @ post) ! (Suc (length u) + length t) = c" by (simp add: nth_append)
  then show ?case using snoc.prems snoc.IH [of "Suc k" "c # post"] assms(4) by simp
qed

lemma utf8_cont_high: "utf8_cont c \<Longrightarrow> 128 \<le> (of_char c :: nat)"
  by (simp add: utf8_cont_def)

lemma utf8_multi_high: "1 < utf8_expected_len c \<Longrightarrow> 128 \<le> (of_char c :: nat)"
  by (auto simp: utf8_expected_len_def Let_def split: if_splits)

text \<open>Only non-ASCII bytes are held back.\<close>

lemma utf8_safe_len_shrink:
  assumes "start \<le> limit"
  shows "start \<le> utf8_stream_safe_len s start limit False \<and> utf8_stream_safe_len s start limit False \<le> limit
    \<and> (\<forall>j. utf8_stream_safe_len s start limit False \<le> j \<and> j < limit \<longrightarrow> 128 \<le> (of_char (s ! j) :: nat))"
proof (cases "limit \<le> start")
  case True
  then show ?thesis using assms by (simp add: utf8_stream_safe_len_def)
next
  case False
  define p where "p = utf8_scan_back s start limit 0"
  note b = utf8_scan_back_bounds [OF assms, of s 0, folded p_def]
  let ?L = "utf8_stream_safe_len s start limit False"
  have L: "?L = (if p = limit then (if utf8_expected_len (s ! (limit - 1)) > 1 then limit - 1 else limit)
      else if p = start \<and> utf8_cont (s ! p) then start
      else if limit - (p - 1) < utf8_expected_len (s ! (p - 1)) then p - 1 else limit)"
    unfolding utf8_stream_safe_len_def Let_def p_def [symmetric] using False by simp
  consider "p = limit" | "p < limit" "p = start" | "p < limit" "start < p"
    using b by (metis le_neq_implies_less)
  then show ?thesis
  proof cases
    case 1
    have "j = limit - 1" if "limit - 1 \<le> j" "j < limit" for j using that by linarith
    then have "128 \<le> (of_char (s ! j) :: nat)"
      if "1 < utf8_expected_len (s ! (limit - 1))" "limit - 1 \<le> j" "j < limit" for j
      using that utf8_multi_high by blast
    then show ?thesis using 1 L False by auto
  next
    case 2
    then have "?L = start" using L b by simp
    with 2 b assms show ?thesis by (auto intro: utf8_cont_high)
  next
    case 3
    have "128 \<le> (of_char (s ! j) :: nat)" if "p - 1 \<le> j" "j < limit" "limit - (p - 1) < utf8_expected_len (s ! (p - 1))" for j
    proof (cases "j = p - 1")
      case True
      have "1 < utf8_expected_len (s ! (p - 1))" using that(3) 3 by linarith
      then show ?thesis using True by (simp add: utf8_multi_high)
    next
      case False
      then have "p \<le> j" using that 3 by linarith
      then show ?thesis using b that(2) by (simp add: utf8_cont_high)
    qed
    then show ?thesis using L 3 by auto
  qed
qed

lemma utf8_safe_len_tail:
  assumes "list_all utf8_cont t" and "\<not> utf8_cont h" and "length t \<le> 3" and "start \<le> length u"
  shows "utf8_stream_safe_len (u @ h # t @ post) start (Suc (length u) + length t) False
    = (if Suc (length t) < utf8_expected_len h then length u else Suc (length u) + length t)"
  using utf8_scan_back_tail [OF assms(1,2), of 0 start u post] assms
  by (cases t) (auto simp: utf8_stream_safe_len_def Let_def nth_append)

text \<open>One encoded character: a lead byte and as many continuation bytes as it announces.\<close>

definition utf8_char :: "string \<Rightarrow> bool" where
  "utf8_char c \<longleftrightarrow> (case c of [] \<Rightarrow> False
     | h # t \<Rightarrow> \<not> utf8_cont h \<and> list_all utf8_cont t \<and> Suc (length t) = utf8_expected_len h)"

lemma utf8_expected_len_le: "utf8_expected_len h \<le> 4"
  by (simp add: utf8_expected_len_def Let_def)

text \<open>
  For text made of whole UTF-8 characters followed by the first \<open>k\<close> bytes of another, the
  guard lets exactly the whole characters through.
\<close>

lemma utf8_safe_len_exact:
  assumes "list_all utf8_char cs" and "utf8_char c" and "k < length c"
  shows "utf8_stream_safe_len (before @ concat cs @ take k c @ post) (length before)
      (length before + length (concat cs) + k) False = length before + length (concat cs)"
proof (cases k)
  case 0
  show ?thesis
  proof (cases cs rule: rev_cases)
    case Nil
    then show ?thesis using 0 by (simp add: utf8_stream_safe_len_def)
  next
    case (snoc ds d)
    with assms(1) obtain h t where d: "d = h # t" "\<not> utf8_cont h" "list_all utf8_cont t" "Suc (length t) = utf8_expected_len h"
      by (auto simp: utf8_char_def split: list.splits)
    have "length t \<le> 3" using d(4) utf8_expected_len_le [of h] by simp
    then show ?thesis
      using utf8_safe_len_tail [OF d(3,2), of "length before" "before @ concat ds" post] d(4) [symmetric] 0 snoc
      by (simp add: add.assoc d(1))
  qed
next
  case (Suc m)
  from assms(2) obtain h t where c: "c = h # t" "\<not> utf8_cont h" "list_all utf8_cont t" "Suc (length t) = utf8_expected_len h"
    by (auto simp: utf8_char_def split: list.splits)
  have m: "length (take m t) = m" "m \<le> 3" "Suc m < utf8_expected_len h"
    using assms(3) Suc c utf8_expected_len_le [of h] by auto
  have "list_all utf8_cont (take m t)" using c(3) by (auto simp: list_all_iff dest: in_set_takeD)
  from utf8_safe_len_tail [OF this c(2), of "length before" "before @ concat cs" post]
  show ?thesis using c m Suc by (simp add: add.assoc)
qed

section \<open>The guard on tool arguments\<close>

lemma last_at_Some:
  "last_at c raw scan n = Some i \<Longrightarrow> scan \<le> i \<and> i < n \<and> raw ! i = c \<and> (\<forall>j. i < j \<and> j < n \<longrightarrow> raw ! j \<noteq> c)"
  by (induction n) (auto split: if_splits simp: less_Suc_eq)

lemma last_at_None: "last_at c raw scan n = None \<Longrightarrow> scan \<le> j \<Longrightarrow> j < n \<Longrightarrow> raw ! j \<noteq> c"
  by (induction n) (auto split: if_splits simp: less_Suc_eq)

lemma last_at_eqI:
  "raw ! i = c \<Longrightarrow> scan \<le> i \<Longrightarrow> i < n \<Longrightarrow> (\<And>j. i < j \<Longrightarrow> j < n \<Longrightarrow> raw ! j \<noteq> c) \<Longrightarrow> last_at c raw scan n = Some i"
  by (cases "last_at c raw scan n") (auto dest: last_at_None last_at_Some, metis last_at_Some linorder_neqE_nat)

text \<open>The cut before a partial delimiter.\<close>

definition delim_limit :: "string \<Rightarrow> nat \<Rightarrow> string \<Rightarrow> nat" where
  "delim_limit raw start end =
     (let n = length raw;
          scan = (if n > start + length end then n - length end else start)
      in case last_at (CHR ''<'') raw scan n of
           None \<Rightarrow> n
         | Some m \<Rightarrow> if n - m < length end \<and> take (n - m) (drop m raw) = take (n - m) end then m else n)"

definition escape_limit :: "string \<Rightarrow> nat \<Rightarrow> string \<Rightarrow> nat \<Rightarrow> nat" where
  "escape_limit raw start end limit =
     (case last_at (CHR ''&'') raw start limit of
        None \<Rightarrow> limit
      | Some a \<Rightarrow> if ds4_tool_text_partial_escape (take (limit - a) (drop a raw)) end then a else limit)"

lemma safe_len_stages:
  "tool_param_value_stream_safe_len raw start (length raw) end True
   = utf8_stream_safe_len raw start (escape_limit raw start end (delim_limit raw start end)) False"
  by (simp add: tool_param_value_stream_safe_len_def delim_limit_def escape_limit_def Let_def cong: option.case_cong)

lemma delim_limit_bounds:
  assumes "start \<le> length raw"
  shows "start \<le> delim_limit raw start end \<and> delim_limit raw start end \<le> length raw
    \<and> (delim_limit raw start end < length raw \<longrightarrow> raw ! delim_limit raw start end = CHR ''<'')"
  using assms by (auto simp: delim_limit_def Let_def dest!: last_at_Some split: option.splits if_splits)

lemma escape_limit_bounds:
  assumes "start \<le> limit"
  shows "start \<le> escape_limit raw start end limit \<and> escape_limit raw start end limit \<le> limit
    \<and> (escape_limit raw start end limit < limit \<longrightarrow> raw ! escape_limit raw start end limit = CHR ''&'')"
  using assms by (auto simp: escape_limit_def dest!: last_at_Some split: option.splits if_splits)

text \<open>A word that occurs across a position holds the byte at that position.\<close>

lemma prefix_nth:
  assumes "prefix w (drop i raw @ x)" and "i \<le> j" and "j < i + length w" and "j < length raw"
  shows "w ! (j - i) = raw ! j"
proof -
  from assms(1) obtain z where "drop i raw @ x = w @ z" by (auto simp: prefix_def)
  then have "(drop i raw @ x) ! (j - i) = (w @ z) ! (j - i)" by simp
  moreover have "j - i < length raw - i" "j - i < length w" using assms by auto
  ultimately show ?thesis using assms(2) by (simp add: nth_append)
qed

lemma word_before_mark:
  assumes "prefix (c # w) (drop i raw @ x)" and "raw ! j \<notin> set w" and "i < j" and "j < length raw"
  shows "i + length (c # w) \<le> j"
proof (rule ccontr)
  assume "\<not> ?thesis"
  then have lt: "j < i + length (c # w)" by simp
  have "(c # w) ! (j - i) = raw ! j" using prefix_nth [OF assms(1) _ lt assms(4)] assms(3) by simp
  moreover have "(c # w) ! (j - i) = w ! (j - i - 1)" "j - i - 1 < length w" using assms(3) lt by auto
  ultimately show False using assms(2) by (metis nth_mem)
qed

lemma delim_limit_no_start:
  assumes d: "closing_delim end" and st: "start \<le> i" "i < length raw"
    and p: "prefix end (drop i raw @ x)" and np: "\<not> prefix end (drop i raw)"
  shows "delim_limit raw start end \<le> i"
proof -
  from d obtain t where t: "end = CHR ''<'' # t" "CHR ''<'' \<notin> set t" by (rule closing_delimE)
  have len: "length raw < i + length end" using p np prefix_append_iff [of "end" "drop i raw" x] st by force
  have pre: "take (length raw - i) end = drop i raw"
    using p len st(2) by (auto simp: prefix_def append_eq_append_conv2 dest!: arg_cong [where f = length])
  have hd: "raw ! i = CHR ''<''" using prefix_nth [OF p, of i] t st by simp
  have no: "raw ! j \<noteq> CHR ''<''" if "i < j" "j < length raw" for j
    using word_before_mark [of "CHR ''<''" t i raw x j] p t that len by fastforce
  define scan where "scan = (if length raw > start + length end then length raw - length end else start)"
  have "scan \<le> i" using st len by (auto simp: scan_def)
  then have "last_at (CHR ''<'') raw scan (length raw) = Some i"
    using hd st no by (intro last_at_eqI) auto
  then show ?thesis using len pre st by (simp add: delim_limit_def Let_def scan_def [symmetric])
qed

lemma partial_word_prefix:
  assumes "ds4_tool_text_escaped_close (drop i raw @ x) end" and "\<not> ds4_tool_text_escaped_close (drop i raw) end"
    and "i < length raw"
  shows "ds4_tool_text_partial_escape (drop i raw) end"
  unfolding partial_escape_iff using assms by auto

lemma escape_not_cut:
  assumes d: "closing_delim end" and st: "start \<le> i" "start \<le> length raw"
    and l1: "l1 = delim_limit raw start end" and l2: "l2 = escape_limit raw start end l1"
    and i: "i < l2" and e: "ds4_tool_text_escaped_close (drop i raw @ x) end"
  shows "\<exists>k. prefix (CHR ''&'' # close_word end k) (take (l2 - i) (drop i raw))"
proof -
  have b1: "l1 \<le> length raw" "start \<le> l1" "l1 < length raw \<Longrightarrow> raw ! l1 = CHR ''<''"
    using delim_limit_bounds [OF st(2), of "end"] l1 by auto
  have b2: "l2 \<le> l1" "l2 < l1 \<Longrightarrow> raw ! l2 = CHR ''&''"
    using escape_limit_bounds [OF b1(2), of raw "end"] l2 by auto
  from e obtain k where w: "prefix (CHR ''&'' # close_word end k) (drop i raw @ x)"
    by (auto simp: escaped_close_iff)
  let ?w = "close_word end k"
  have fits: "\<exists>k. prefix (CHR ''&'' # close_word end k) (take (l2 - i) (drop i raw))"
    if "i + length (CHR ''&'' # ?w) \<le> l2"
    using w that b1(1) b2(1) by (intro exI [of _ k]) (auto simp: prefix_take_iff min_def)
  have at: "i + length (CHR ''&'' # ?w) \<le> j" if "i < j" "j < length raw" "raw ! j = CHR ''<'' \<or> raw ! j = CHR ''&''" for j
    using word_before_mark [OF w] that close_word_no_amp [OF d, of k] close_word_no_lt [OF d, of k] by metis
  show ?thesis
  proof (cases "l2 < length raw")
    case True
    then have "raw ! l2 = CHR ''<'' \<or> raw ! l2 = CHR ''&''"
      using b1 b2 by (cases "l2 < l1") auto
    then show ?thesis using at i True fits by blast
  next
    case False
    then have l: "l2 = length raw" "l1 = length raw" using b1 b2 by auto
    show ?thesis
    proof (cases "ds4_tool_text_escaped_close (drop i raw) end")
      case True
      then show ?thesis using l by (simp add: escaped_close_iff)
    next
      case nc: False
      then have pe: "ds4_tool_text_partial_escape (drop i raw) end"
        using partial_word_prefix e i l by simp
      have amp: "raw ! i = CHR ''&''" using prefix_nth [OF w, of i] i l by simp
      have "\<not> i + length (CHR ''&'' # ?w) \<le> length raw"
        using nc w prefix_append_iff [of "CHR ''&'' # ?w" "drop i raw" x] by (fastforce simp: escaped_close_iff)
      then have "raw ! j \<noteq> CHR ''&''" if "i < j" "j < length raw" for j using at that by fastforce
      then have "last_at (CHR ''&'') raw start l1 = Some i"
        using amp st i l by (intro last_at_eqI) auto
      then have "l2 = i" using l2 pe l by (simp add: escape_limit_def)
      then show ?thesis using i by simp
    qed
  qed
qed

lemma take_drop_split: "i \<le> n \<Longrightarrow> take (n - i) (drop i xs) @ drop n xs = drop i xs"
  by (metis append_take_drop_id drop_drop le_add_diff_inverse2)

lemma close_word_last_ascii:
  assumes "(of_char (last end) :: nat) < 128" and "closing_delim end"
  shows "(of_char (last (CHR ''&'' # close_word end k)) :: nat) < 128"
  using assms by (auto simp: close_word_def elim!: closing_delimE split: if_splits)

text \<open>Holding back the bytes of an incomplete character does not cut a complete escape.\<close>

lemma utf8_keeps_word:
  assumes w: "prefix w (take (l - i) (drop i raw))" and ascii: "(of_char (last w) :: nat) < 128"
    and ne: "w \<noteq> []" and l: "l \<le> length raw" and high: "\<And>j. L \<le> j \<Longrightarrow> j < l \<Longrightarrow> 128 \<le> (of_char (raw ! j) :: nat)"
  shows "prefix w (take (L - i) (drop i raw))"
proof -
  have fit: "i + length w \<le> l" using prefix_length_le [OF w] ne l by (cases w) auto
  have wr: "prefix w (drop i raw @ [])" using w by (metis append_Nil2 prefix_order.trans take_is_prefix)
  have "last w = raw ! (i + length w - 1)"
    using prefix_nth [OF wr, of "i + length w - 1"] ne fit l by (cases w) (auto simp: last_conv_nth)
  then have "\<not> L \<le> i + length w - 1" using high [of "i + length w - 1"] ascii fit ne by (cases w) auto
  then have "length w \<le> L - i" using ne by (cases w) auto
  then show ?thesis using wr by (simp add: prefix_take_iff min_def)
qed

text \<open>
  The safe length is a good place to cut. Whatever is generated next, no closing delimiter that is not complete
  yet starts before it, and every continuation of the value decodes to what the bytes before the cut decode to,
  followed by what the rest decodes to.
\<close>

lemma safe_len_cut_end:
  assumes d: "closing_delim end" and st: "start \<le> length raw" and ns: "\<not> sublist end (drop start raw)"
    and L: "tool_param_value_stream_safe_len raw start (length raw) end is_string = L"
  shows "start \<le> L" "L \<le> length raw" "start \<le> i \<Longrightarrow> i < length raw \<Longrightarrow> prefix end (drop i raw @ x) \<Longrightarrow> L \<le> i"
proof -
  define l1 where "l1 = delim_limit raw start end"
  define l2 where "l2 = (if is_string then escape_limit raw start end l1 else l1)"
  have b1: "start \<le> l1" "l1 \<le> length raw" using delim_limit_bounds [OF st, of "end"] l1_def by auto
  have b2: "start \<le> l2" "l2 \<le> l1" using escape_limit_bounds [OF b1(1), of raw "end"] b1 l2_def by auto
  have LL: "L = utf8_stream_safe_len raw start l2 False"
    using L by (auto simp: tool_param_value_stream_safe_len_def delim_limit_def escape_limit_def l1_def l2_def Let_def cong: option.case_cong)
  note b3 = utf8_safe_len_shrink [OF b2(1), of raw, folded LL]
  show "start \<le> L" "L \<le> length raw" using b1 b2 b3 by auto
  show "L \<le> i" if "start \<le> i" "i < length raw" "prefix end (drop i raw @ x)"
  proof -
    have "\<not> prefix end (drop (i - start) (drop start raw))"
      using ns by (metis append_take_drop_id prefix_imp_sublist sublist_append)
    then have "delim_limit raw start end \<le> i" using delim_limit_no_start [OF d that(1,2,3)] that(1) by simp
    then show ?thesis using b3 b2 by (simp add: l1_def)
  qed
qed

lemma safe_len_cut_value:
  assumes d: "closing_delim end" and ascii: "(of_char (last end) :: nat) < 128" and st: "start \<le> length raw"
    and L: "tool_param_value_stream_safe_len raw start (length raw) end True = L" and b: "prefix b (drop L raw @ x)"
  shows "ds4_tool_text_unescape (take (L - start) (drop start raw) @ b) end
    = ds4_tool_text_unescape (take (L - start) (drop start raw)) end @ ds4_tool_text_unescape b end"
proof (rule unescape_append)
  define l1 where "l1 = delim_limit raw start end"
  define l2 where "l2 = escape_limit raw start end l1"
  have b1: "start \<le> l1" "l1 \<le> length raw" using delim_limit_bounds [OF st, of "end"] l1_def by auto
  have b2: "start \<le> l2" "l2 \<le> l1" using escape_limit_bounds [OF b1(1), of raw "end"] l2_def by auto
  have LL: "L = utf8_stream_safe_len raw start l2 False" using L by (simp add: safe_len_stages l1_def l2_def)
  note b3 = utf8_safe_len_shrink [OF b2(1), of raw, folded LL]
  let ?a = "take (L - start) (drop start raw)"
  fix j assume j: "j < length ?a" and e: "ds4_tool_text_escaped_close (drop j ?a @ b) end"
  define i where "i = start + j"
  have iL: "start \<le> i" "i < L" "i < l2" using j b3 b2 b1 by (auto simp: i_def)
  have da: "drop j ?a = take (L - i) (drop i raw)" by (simp add: i_def drop_take add.commute)
  obtain y where y: "drop L raw @ x = b @ y" using b by (auto simp: prefix_def)
  have "(drop j ?a @ b) @ y = drop i raw @ x"
    using take_drop_split [of i L raw] iL y unfolding da by (metis append_assoc less_imp_le)
  with escaped_close_append [OF e, of y] have "ds4_tool_text_escaped_close (drop i raw @ x) end" by simp
  from escape_not_cut [OF d iL(1) st l1_def l2_def iL(3) this] obtain k
    where k: "prefix (CHR ''&'' # close_word end k) (take (l2 - i) (drop i raw))" by blast
  have "prefix (CHR ''&'' # close_word end k) (take (L - i) (drop i raw))"
    using b3 b2 b1 by (intro utf8_keeps_word [OF k close_word_last_ascii [OF ascii d]]) auto
  then show "ds4_tool_text_escaped_close (drop j ?a) end" unfolding da escaped_close_iff by blast
qed

end
