(* ===== verification/Json.thy ===== *)
theory Json
  imports Stream_Text Clib
begin

text \<open>
  The JSON routines of \<open>ds4_server.c\<close>: strings with their escapes, skipping a value with the
  nesting ceiling, raw and minified values, and the writer's escape. A cursor \<open>const char **p\<close> is
  the unread text, \<open>None\<close> is a parse failure (every caller then gives up the request). A decoded
  string is a C string, so it ends at its first NUL. Of a number only its extent is modelled.
\<close>

section \<open>Strings\<close>

definition json_ws :: "string \<Rightarrow> string" where
  "json_ws p = dropWhile c_isspace p"

definition json_lit :: "string \<Rightarrow> string \<Rightarrow> string option" where
  "json_lit lit p = (if prefix lit p then Some (drop (length lit) p) else None)"

definition json_hex :: "char \<Rightarrow> nat option" where
  "json_hex c =
     (let b = (of_char c :: nat)
      in if 48 \<le> b \<and> b \<le> 57 then Some (b - 48)
         else if 97 \<le> b \<and> b \<le> 102 then Some (10 + b - 97)
         else if 65 \<le> b \<and> b \<le> 70 then Some (10 + b - 65)
         else None)"

text \<open>The bit patterns that the C code combines with \<open>|\<close> do not overlap, so they are added here.\<close>

definition utf8_put :: "nat \<Rightarrow> string" where
  "utf8_put cp0 =
     (let cp = (if cp0 > 0x10ffff \<or> (cp0 \<ge> 0xd800 \<and> cp0 \<le> 0xdfff) then 0xfffd else cp0)
      in if cp \<le> 0x7f then [char_of cp]
         else if cp \<le> 0x7ff then [char_of (0xc0 + cp div 64), char_of (0x80 + cp mod 64)]
         else if cp \<le> 0xffff
         then [char_of (0xe0 + cp div 4096), char_of (0x80 + cp div 64 mod 64), char_of (0x80 + cp mod 64)]
         else [char_of (0xf0 + cp div 262144), char_of (0x80 + cp div 4096 mod 64),
               char_of (0x80 + cp div 64 mod 64), char_of (0x80 + cp mod 64)])"

definition json_u16 :: "string \<Rightarrow> (nat \<times> string) option" where
  "json_u16 p =
     (case p of
        a # u # h1 # h2 # h3 # h4 # rest \<Rightarrow>
          if a \<noteq> CHR 0x5C \<or> u \<noteq> CHR ''u'' then None
          else (case (json_hex h1, json_hex h2, json_hex h3, json_hex h4) of
                  (Some d1, Some d2, Some d3, Some d4) \<Rightarrow> Some (((d1 * 16 + d2) * 16 + d3) * 16 + d4, rest)
                | _ \<Rightarrow> None)
      | _ \<Rightarrow> None)"

text \<open>One escape after \<open>\\u\<close>: a high surrogate takes a low one with it or becomes U+FFFD.\<close>

definition json_unicode :: "string \<Rightarrow> (string \<times> string) option" where
  "json_unicode p =
     (case json_u16 p of
        None \<Rightarrow> None
      | Some (cp, r) \<Rightarrow>
          if cp \<ge> 0xd800 \<and> cp \<le> 0xdbff
          then (case json_u16 r of
                  Some (lo, r2) \<Rightarrow>
                    if lo \<ge> 0xdc00 \<and> lo \<le> 0xdfff
                    then Some (utf8_put (0x10000 + (cp - 0xd800) * 1024 + (lo - 0xdc00)), r2)
                    else Some (utf8_put 0xfffd, r)
                | None \<Rightarrow> Some (utf8_put 0xfffd, r))
          else Some (utf8_put cp, r))"

definition json_simple_escape :: "char \<Rightarrow> char option" where
  "json_simple_escape c =
     (if c = CHR 0x22 then Some (CHR 0x22)
      else if c = CHR 0x5C then Some (CHR 0x5C)
      else if c = CHR ''/'' then Some (CHR ''/'')
      else if c = CHR ''b'' then Some (CHR 0x08)
      else if c = CHR ''f'' then Some (CHR 0x0C)
      else if c = CHR ''n'' then Some (CHR 0x0A)
      else if c = CHR ''r'' then Some (CHR 0x0D)
      else if c = CHR ''t'' then Some (CHR 0x09)
      else None)"

lemma json_u16_length: "json_u16 p = Some (cp, r) \<Longrightarrow> length r + 6 = length p"
  by (auto simp: json_u16_def split: list.splits if_splits option.splits)

lemma json_unicode_length: "json_unicode p = Some (b, r) \<Longrightarrow> length r < length p"
  by (auto simp: json_unicode_def dest!: json_u16_length split: option.splits if_splits prod.splits)

text \<open>The loop of \<open>json_string\<close> after the opening quote.\<close>

function json_string_loop :: "string \<Rightarrow> string \<Rightarrow> (string \<times> string) option" where
  "json_string_loop p b =
     (case p of
        [] \<Rightarrow> None
      | c # r \<Rightarrow>
          if c = CHR 0x22 then Some (b, r)
          else if c \<noteq> CHR 0x5C then json_string_loop r (b @ [c])
          else (case r of
                  [] \<Rightarrow> None
                | e # r2 \<Rightarrow>
                    if e = CHR ''u''
                    then (case json_unicode p of None \<Rightarrow> None | Some (u, r3) \<Rightarrow> json_string_loop r3 (b @ u))
                    else (case json_simple_escape e of
                            None \<Rightarrow> None
                          | Some x \<Rightarrow> json_string_loop r2 (b @ [x]))))"
  by pat_completeness auto
termination
  by (relation "measure (\<lambda>(p, b). length p)") (auto dest: json_unicode_length)

declare json_string_loop.simps [simp del]

definition c_str :: "string \<Rightarrow> string" where
  "c_str b = takeWhile (\<lambda>c. c \<noteq> CHR 0x00) b"

definition json_string :: "string \<Rightarrow> (string \<times> string) option" where
  "json_string p =
     (case json_ws p of
        [] \<Rightarrow> None
      | c # r \<Rightarrow>
          if c \<noteq> CHR 0x22 then None
          else (case json_string_loop r [] of None \<Rightarrow> None | Some (b, r2) \<Rightarrow> Some (c_str b, r2)))"

definition json_number :: "string \<Rightarrow> string option" where
  "json_number p = strtod_end (json_ws p)"

definition json_bool :: "string \<Rightarrow> (bool \<times> string) option" where
  "json_bool p0 =
     (let p = json_ws p0
      in case json_lit ''true'' p of
           Some r \<Rightarrow> Some (True, r)
         | None \<Rightarrow> (case json_lit ''false'' p of Some r \<Rightarrow> Some (False, r) | None \<Rightarrow> None))"

section \<open>Skipping values\<close>

definition JSON_MAX_NESTING :: nat where "JSON_MAX_NESTING = 256"

lemma json_ws_le: "length (json_ws p) \<le> length p"
  by (simp add: json_ws_def length_dropWhile_le)

lemma json_ws_Cons: "json_ws p = c # r \<Longrightarrow> length r < length p"
  using json_ws_le [of p] by simp

lemma json_ws_tripled:
  "3 * length (json_ws p) < Suc (3 * length p)"
  "length x < length p \<Longrightarrow> Suc (Suc (3 * length (json_ws x))) < 3 * length p"
  using json_ws_le [of p] json_ws_le [of x] by linarith+

text \<open>
  Values, arrays and objects, with the two loops over their members. A skipped value is never empty
  (\<open>json_skip_shorter\<close>), so the length tests in the loops always hold; they make the
  recursion visibly terminating.
\<close>

function json_skip_value_depth :: "string \<Rightarrow> nat \<Rightarrow> string option"
  and json_skip_array_depth :: "string \<Rightarrow> nat \<Rightarrow> string option"
  and json_skip_array_items :: "string \<Rightarrow> nat \<Rightarrow> string option"
  and json_skip_object_depth :: "string \<Rightarrow> nat \<Rightarrow> string option"
  and json_skip_object_members :: "string \<Rightarrow> nat \<Rightarrow> string option" where
  "json_skip_value_depth p0 depth =
     (let p = json_ws p0
      in case p of
           [] \<Rightarrow> json_number p
         | c # _ \<Rightarrow>
             if c = CHR 0x22 then map_option snd (json_string p)
             else if c = CHR ''{'' then json_skip_object_depth p depth
             else if c = CHR ''['' then json_skip_array_depth p depth
             else (case json_lit ''true'' p of
                     Some r \<Rightarrow> Some r
                   | None \<Rightarrow> (case json_lit ''false'' p of
                                Some r \<Rightarrow> Some r
                              | None \<Rightarrow> (case json_lit ''null'' p of
                                           Some r \<Rightarrow> Some r
                                         | None \<Rightarrow> json_number p))))"
| "json_skip_array_depth p0 depth =
     (if depth \<ge> JSON_MAX_NESTING then None
      else case json_ws p0 of
        [] \<Rightarrow> None
      | c # q0 \<Rightarrow>
          if c \<noteq> CHR ''['' then None
          else let q = json_ws q0
               in if prefix '']'' q then Some (tl q) else json_skip_array_items q depth)"
| "json_skip_array_items p depth =
     (case json_skip_value_depth p (depth + 1) of
        None \<Rightarrow> None
      | Some r0 \<Rightarrow>
          if length r0 < length p
          then (case json_ws r0 of
                  [] \<Rightarrow> None
                | c # r \<Rightarrow> if c = CHR '']'' then Some r
                            else if c = CHR '','' then json_skip_array_items r depth
                            else None)
          else None)"
| "json_skip_object_depth p0 depth =
     (if depth \<ge> JSON_MAX_NESTING then None
      else case json_ws p0 of
        [] \<Rightarrow> None
      | c # q0 \<Rightarrow>
          if c \<noteq> CHR ''{'' then None
          else let q = json_ws q0
               in if prefix ''}'' q then Some (tl q) else json_skip_object_members q depth)"
| "json_skip_object_members p depth =
     (case json_string p of
        None \<Rightarrow> None
      | Some (_, r0) \<Rightarrow>
          if length r0 < length p
          then (case json_ws r0 of
                  [] \<Rightarrow> None
                | c # r \<Rightarrow>
                    if c \<noteq> CHR '':'' then None
                    else (case json_skip_value_depth r (depth + 1) of
                            None \<Rightarrow> None
                          | Some r1 \<Rightarrow>
                              if length r1 < length r
                              then (case json_ws r1 of
                                      [] \<Rightarrow> None
                                    | d # r2 \<Rightarrow> if d = CHR ''}'' then Some r2
                                                 else if d = CHR '','' then json_skip_object_members r2 depth
                                                 else None)
                              else None))
          else None)"
  by pat_completeness auto
termination
  by (relation "measure (\<lambda>x. case x of
        Inl (Inl (p, _)) \<Rightarrow> 3 * length p + 1
      | Inl (Inr (p, _)) \<Rightarrow> 3 * length p
      | Inr (Inl (p, _)) \<Rightarrow> 3 * length p + 2
      | Inr (Inr (Inl (p, _))) \<Rightarrow> 3 * length p
      | Inr (Inr (Inr (p, _))) \<Rightarrow> 3 * length p + 2)")
    (auto dest!: json_ws_Cons simp: Suc_le_eq json_ws_tripled)

declare json_skip_value_depth.simps [simp del] json_skip_array_depth.simps [simp del]
  json_skip_array_items.simps [simp del] json_skip_object_depth.simps [simp del]
  json_skip_object_members.simps [simp del]

definition json_skip_value :: "string \<Rightarrow> string option" where
  "json_skip_value p = json_skip_value_depth p 0"

definition json_raw_value :: "string \<Rightarrow> (string \<times> string) option" where
  "json_raw_value p =
     (let start = json_ws p
      in case json_skip_value start of
           None \<Rightarrow> None
         | Some r \<Rightarrow> Some (take (length start - length r) start, r))"

fun json_minify_loop :: "string \<Rightarrow> bool \<Rightarrow> bool \<Rightarrow> string" where
  "json_minify_loop [] in_string escape = []"
| "json_minify_loop (c # s) in_string escape =
     (if in_string
      then c # (if escape then json_minify_loop s True False
                else if c = CHR 0x5C then json_minify_loop s True True
                else if c = CHR 0x22 then json_minify_loop s False False
                else json_minify_loop s True False)
      else if c = CHR 0x22 then c # json_minify_loop s True escape
      else if \<not> c_isspace c then c # json_minify_loop s False escape
      else json_minify_loop s False escape)"

definition json_minify_raw_value :: "string option \<Rightarrow> string" where
  "json_minify_raw_value json =
     (let j = (case json of None \<Rightarrow> ''null'' | Some s \<Rightarrow> s); start = json_ws j
      in case json_skip_value start of
           None \<Rightarrow> j
         | Some r \<Rightarrow> json_minify_loop (take (length start - length r) start) False False)"

section \<open>Writing strings\<close>

text \<open>\<open>printf("%x")\<close> of a digit.\<close>

definition xdigit :: "nat \<Rightarrow> char" where
  "xdigit d = char_of (if d < 10 then 48 + d else 87 + d)"

definition json_escape_char :: "char \<Rightarrow> string" where
  "json_escape_char c =
     (if c = CHR 0x22 \<or> c = CHR 0x5C then [CHR 0x5C, c]
      else if c = CHR 0x0A then CHR 0x5C # ''n''
      else if c = CHR 0x0D then CHR 0x5C # ''r''
      else if c = CHR 0x09 then CHR 0x5C # ''t''
      else if (of_char c :: nat) < 0x20
      then CHR 0x5C # ''u00'' @ [xdigit (of_char c div 16), xdigit (of_char c mod 16)]
      else [c])"

definition json_escape_fragment_n :: "string \<Rightarrow> string" where
  "json_escape_fragment_n s = concat (map json_escape_char s)"

definition json_escape :: "string \<Rightarrow> string" where
  "json_escape s = [CHR 0x22] @ concat (map json_escape_char s) @ [CHR 0x22]"

definition json_escape_n :: "string \<Rightarrow> nat \<Rightarrow> string" where
  "json_escape_n s n = json_escape (c_str (take n s))"

section \<open>Written strings are read back\<close>

lemma json_hex_xdigit: "d < 16 \<Longrightarrow> json_hex (xdigit d) = Some d"
  by (auto simp: json_hex_def xdigit_def Let_def)

lemma json_u16_control:
  assumes "n < 32"
  shows "json_u16 (CHR 0x5C # CHR ''u'' # CHR ''0'' # CHR ''0'' # xdigit (n div 16) # xdigit (n mod 16) # r) = Some (n, r)"
proof -
  have "json_hex (CHR ''0'') = Some 0" by (simp add: json_hex_def)
  moreover have "json_hex (xdigit (n div 16)) = Some (n div 16)" "json_hex (xdigit (n mod 16)) = Some (n mod 16)"
    using assms by (simp_all add: json_hex_xdigit)
  ultimately show ?thesis by (simp add: json_u16_def)
qed

lemma json_string_loop_escape_char:
  assumes "c \<noteq> CHR 0x00"
  shows "json_string_loop (json_escape_char c @ r) b = json_string_loop r (b @ [c])"
proof -
  consider (special) "c = CHR 0x22 \<or> c = CHR 0x5C \<or> c = CHR 0x0A \<or> c = CHR 0x0D \<or> c = CHR 0x09"
    | (control) "c \<noteq> CHR 0x22" "c \<noteq> CHR 0x5C" "c \<noteq> CHR 0x0A" "c \<noteq> CHR 0x0D" "c \<noteq> CHR 0x09" "(of_char c :: nat) < 0x20"
    | (plain) "c \<noteq> CHR 0x22" "c \<noteq> CHR 0x5C" "c \<noteq> CHR 0x0A" "c \<noteq> CHR 0x0D" "c \<noteq> CHR 0x09" "\<not> (of_char c :: nat) < 0x20"
    by blast
  then show ?thesis
  proof cases
    case special
    then show ?thesis
      by (auto simp: json_escape_char_def json_string_loop.simps [of "_ # _"] json_simple_escape_def)
  next
    case control
    define n where "n = (of_char c :: nat)"
    have c: "c = char_of n" by (simp add: n_def)
    have "json_unicode (CHR 0x5C # CHR ''u'' # CHR ''0'' # CHR ''0'' # xdigit (n div 16) # xdigit (n mod 16) # r) = Some ([c], r)"
      using control(6) by (simp add: json_unicode_def json_u16_control n_def utf8_put_def Let_def)
    then show ?thesis
      using control by (simp add: json_escape_char_def json_string_loop.simps [of "_ # _"] n_def)
  next
    case plain
    then show ?thesis by (simp add: json_escape_char_def json_string_loop.simps [of "c # _"])
  qed
qed

lemma json_string_loop_escape:
  "CHR 0x00 \<notin> set s \<Longrightarrow> json_string_loop (json_escape_fragment_n s @ CHR 0x22 # r) b = Some (b @ s, r)"
proof (induction s arbitrary: b)
  case Nil
  show ?case by (simp add: json_escape_fragment_n_def json_string_loop.simps [of "_ # _"])
next
  case (Cons c s)
  then have "c \<noteq> CHR 0x00" by auto
  from json_string_loop_escape_char [OF this]
  have "json_string_loop (json_escape_fragment_n (c # s) @ CHR 0x22 # r) b
      = json_string_loop (json_escape_fragment_n s @ CHR 0x22 # r) (b @ [c])"
    by (simp add: json_escape_fragment_n_def)
  with Cons show ?case by simp
qed

lemma c_str_id: "CHR 0x00 \<notin> set s \<Longrightarrow> c_str s = s"
  by (simp add: c_str_def takeWhile_eq_all_conv) blast

lemma json_ws_quote: "json_ws (CHR 0x22 # s) = CHR 0x22 # s"
  by (simp add: json_ws_def c_isspace_def)

lemma json_string_escape:
  assumes "CHR 0x00 \<notin> set s"
  shows "json_string (json_escape s @ rest) = Some (s, rest)"
  using json_string_loop_escape [OF assms, of rest "[]"] c_str_id [OF assms]
  by (simp add: json_string_def json_escape_def json_escape_fragment_n_def json_ws_quote)

text \<open>
  (C35) Every C string survives JSON: whatever bytes it holds, the reader applied to what the writer produced,
  followed by any text, returns the string and that text. A value streamed as fragments is the same document:
  the fragments between two quotes are what the writer produces for the whole.
\<close>

theorem json_string_roundtrip:
  assumes "CHR 0x00 \<notin> set (concat parts)"
  shows "json_string (CHR 0x22 # concat (map json_escape_fragment_n parts) @ CHR 0x22 # rest) = Some (concat parts, rest)
    \<and> json_escape (concat parts) = CHR 0x22 # concat (map json_escape_fragment_n parts) @ [CHR 0x22]"
proof -
  have "concat (map json_escape_fragment_n parts) = json_escape_fragment_n (concat parts)"
    by (induction parts) (simp_all add: json_escape_fragment_n_def)
  then show ?thesis using json_string_escape [OF assms, of rest]
    by (simp add: json_escape_def json_escape_fragment_n_def)
qed

theorem json_string_roundtrip_witness:
  "json_string (CHR 0x22 # concat (map json_escape_fragment_n [[CHR 0x22, CHR 0x5C], [CHR 0x01, CHR 0x0A]]) @ CHR 0x22 # '','')
      = Some (concat [[CHR 0x22, CHR 0x5C], [CHR 0x01, CHR 0x0A]], '','')
    \<and> json_escape (concat [[CHR 0x22, CHR 0x5C], [CHR 0x01, CHR 0x0A]])
      = CHR 0x22 # concat (map json_escape_fragment_n [[CHR 0x22, CHR 0x5C], [CHR 0x01, CHR 0x0A]]) @ [CHR 0x22]"
  by (rule json_string_roundtrip) simp

text \<open>
  An escaped NUL ends the decoded string: the text after it is read but lost, since the result is a
  C string.
\<close>

lemma json_string_nul_truncates:
  "json_string (CHR 0x22 # ''ab'' @ CHR 0x5C # ''u0000cd'' @ [CHR 0x22]) = Some (''ab'', [])"
  by (simp add: json_string_def json_ws_quote json_string_loop.simps [of "_ # _"] json_unicode_def json_u16_def
      json_hex_def utf8_put_def c_str_def char_of_def)

section \<open>Skipping consumes a value\<close>

lemma json_string_loop_shorter: "json_string_loop p b = Some (v, r) \<Longrightarrow> length r < length p"
proof (induction p b rule: json_string_loop.induct)
  case (1 p b)
  show ?case
  proof (cases p)
    case Nil
    with "1.prems" show ?thesis by (simp add: json_string_loop.simps [of "[]"])
  next
    case (Cons c t)
    note eq = json_string_loop.simps [of "c # t" b]
    consider (q) "c = CHR 0x22" | (plain) "c \<noteq> CHR 0x22" "c \<noteq> CHR 0x5C" | (esc) "\<not> c = CHR 0x22" "\<not> c \<noteq> CHR 0x5C" by blast
    then show ?thesis
    proof cases
      case q
      then show ?thesis using "1.prems" Cons eq by simp
    next
      case plain
      then have "json_string_loop t (b @ [c]) = Some (v, r)" using "1.prems" Cons eq by simp
      from "1.IH"(1) [OF Cons plain this] Cons show ?thesis by simp
    next
      case esc
      then obtain e t2 where t: "t = e # t2" using "1.prems" Cons eq by (cases t) auto
      show ?thesis
      proof (cases "e = CHR ''u''")
        case True
        then obtain u r3 where u: "json_unicode p = Some (u, r3)" "json_string_loop r3 (b @ u) = Some (v, r)"
          using "1.prems" Cons eq esc t by (auto split: option.splits prod.splits)
        from "1.IH"(2) [OF Cons esc t True u(1) refl u(2)] json_unicode_length [OF u(1)] show ?thesis by simp
      next
        case False
        then obtain x where x: "json_simple_escape e = Some x" "json_string_loop t2 (b @ [x]) = Some (v, r)"
          using "1.prems" Cons eq esc t by (auto split: option.splits)
        from "1.IH"(3) [OF Cons esc t False x] Cons t show ?thesis by simp
      qed
    qed
  qed
qed

lemma json_string_shorter: "json_string p = Some (v, r) \<Longrightarrow> length r < length p"
proof -
  assume a: "json_string p = Some (v, r)"
  then obtain t b where "json_ws p = CHR 0x22 # t" "json_string_loop t [] = Some (b, r)"
    by (auto simp: json_string_def split: list.splits if_splits option.splits)
  then show ?thesis using json_string_loop_shorter json_ws_Cons by (meson less_trans)
qed

lemma json_number_shorter: "json_number p = Some r \<Longrightarrow> length r < length p"
  using strtod_end_shorter [of "json_ws p" r] json_ws_le [of p] by (simp add: json_number_def)

lemma json_lit_shorter: "json_lit lit p = Some r \<Longrightarrow> lit \<noteq> [] \<Longrightarrow> length r < length p"
  by (auto simp: json_lit_def prefix_def split: if_splits)

lemma json_skip_shorter:
  "json_skip_value_depth p k = Some r \<Longrightarrow> length r < length p"
  "json_skip_array_depth p k = Some r \<Longrightarrow> length r < length p"
  "json_skip_array_items p k = Some r \<Longrightarrow> length r < length p"
  "json_skip_object_depth p k = Some r \<Longrightarrow> length r < length p"
  "json_skip_object_members p k = Some r \<Longrightarrow> length r < length p"
proof (induction p k and p k and p k and p k and p k arbitrary: r and r and r and r and r
    rule: json_skip_value_depth_json_skip_array_depth_json_skip_array_items_json_skip_object_depth_json_skip_object_members.induct)
  case (1 p k)
  note le = json_ws_le [of p]
  have lt: "length x < length p" if "length x < length (json_ws p)" for x using that le by simp
  show ?case
  proof (cases "json_ws p")
    case Nil
    then show ?thesis using "1.prems" json_number_shorter [of "[]"] by (simp add: json_skip_value_depth.simps)
  next
    case (Cons c t)
    note p = Cons
    show ?thesis
    proof (cases "c = CHR 0x22 \<or> c = CHR ''{'' \<or> c = CHR ''[''")
      case True
      then show ?thesis
        using "1.prems" "1.IH" [OF refl Cons] json_string_shorter [of "json_ws p"] lt Cons
        by (auto simp: json_skip_value_depth.simps [of p])
    next
      case False
      then show ?thesis
        using "1.prems" json_lit_shorter [of _ "json_ws p"] json_number_shorter [of "json_ws p"] lt Cons
        by (auto simp: json_skip_value_depth.simps [of p] Let_def split: option.splits)
    qed
  qed
next
  case (2 p k)
  then obtain q where q: "json_ws p = CHR ''['' # q" "\<not> JSON_MAX_NESTING \<le> k"
    by (auto simp: json_skip_array_depth.simps [of p] split: if_splits list.splits)
  have lt: "length q < length p" using json_ws_Cons [OF q(1)] .
  show ?case
  proof (cases "prefix '']'' (json_ws q)")
    case True
    then have "r = tl (json_ws q)" using "2.prems" q by (simp add: json_skip_array_depth.simps [of p])
    then show ?thesis using lt json_ws_le [of q] by simp
  next
    case False
    then have "json_skip_array_items (json_ws q) k = Some r" using "2.prems" q by (simp add: json_skip_array_depth.simps [of p])
    from "2.IH" [OF q(2) q(1) _ refl False this] lt json_ws_le [of q] show ?thesis by simp
  qed
next
  case (3 p k)
  then obtain r0 where r0: "json_skip_value_depth p (k + 1) = Some r0" "length r0 < length p"
    by (auto simp: json_skip_array_items.simps [of p] split: if_splits option.splits)
  with "3.prems" obtain c t where ws: "json_ws r0 = c # t"
    by (auto simp: json_skip_array_items.simps [of p] split: list.splits)
  have lt: "length t < length p" using json_ws_Cons [OF ws] r0(2) by simp
  show ?case
  proof (cases "c = CHR '']''")
    case True
    then show ?thesis using "3.prems" r0 ws lt by (simp add: json_skip_array_items.simps [of p])
  next
    case False
    then have "c = CHR '',''" "json_skip_array_items t k = Some r"
      using "3.prems" r0 ws by (auto simp: json_skip_array_items.simps [of p] split: if_splits)
    from "3.IH"(2) [OF r0 ws False this] lt show ?thesis by simp
  qed
next
  case (4 p k)
  then obtain q where q: "json_ws p = CHR ''{'' # q" "\<not> JSON_MAX_NESTING \<le> k"
    by (auto simp: json_skip_object_depth.simps [of p] split: if_splits list.splits)
  have lt: "length q < length p" using json_ws_Cons [OF q(1)] .
  show ?case
  proof (cases "prefix ''}'' (json_ws q)")
    case True
    then have "r = tl (json_ws q)" using "4.prems" q by (simp add: json_skip_object_depth.simps [of p])
    then show ?thesis using lt json_ws_le [of q] by simp
  next
    case False
    then have "json_skip_object_members (json_ws q) k = Some r" using "4.prems" q by (simp add: json_skip_object_depth.simps [of p])
    from "4.IH" [OF q(2) q(1) _ refl False this] lt json_ws_le [of q] show ?thesis by simp
  qed
next
  case (5 p k)
  note eq = json_skip_object_members.simps [of p k]
  obtain v r0 where s: "json_string p = Some (v, r0)"
    using "5.prems" eq by (cases "json_string p") auto
  have l: "length r0 < length p" by (rule json_string_shorter [OF s])
  note r0 = s l
  obtain c t where "json_ws r0 = c # t"
    using "5.prems" eq r0 by (cases "json_ws r0") auto
  moreover have "c = CHR '':''" if "json_ws r0 = c # t" using "5.prems" eq r0 that by (cases "c = CHR '':''") auto
  ultimately have ws: "json_ws r0 = CHR '':'' # t" by simp
  have lt: "length t < length p" using json_ws_Cons [OF ws] r0(2) by simp
  have step: "json_skip_object_members p k = (case json_skip_value_depth t (k + 1) of None \<Rightarrow> None
      | Some r1 \<Rightarrow> if length r1 < length t then (case json_ws r1 of [] \<Rightarrow> None | d # t2 \<Rightarrow>
          if d = CHR ''}'' then Some t2 else if d = CHR '','' then json_skip_object_members t2 k else None) else None)"
    using r0 ws lt by (subst json_skip_object_members.simps) (simp cong: option.case_cong list.case_cong if_cong)
  obtain r1 where r1a: "json_skip_value_depth t (k + 1) = Some r1" "length r1 < length t"
    using "5.prems" by (cases "json_skip_value_depth t (k + 1)") (auto simp: step simp del: json_skip_object_members.simps split: if_splits)
  obtain d t2 where r1b: "json_ws r1 = d # t2"
    using "5.prems" r1a by (cases "json_ws r1") (auto simp: step simp del: json_skip_object_members.simps)
  note r1 = r1a r1b
  have lt2: "length t2 < length p" using json_ws_Cons [OF r1(3)] r1(2) lt by simp
  show ?case
  proof (cases "d = CHR ''}''")
    case True
    then show ?thesis using "5.prems" r1 lt2 by (simp add: step)
  next
    case False
    then have "d = CHR '',''" "json_skip_object_members t2 k = Some r"
      using "5.prems" r1 by (simp_all add: step split: if_splits)
    from "5.IH"(2) [OF r0(1) refl r0(2) ws _ r1(1,2,3) False this] lt2 show ?thesis by simp
  qed
qed

section \<open>What the skipper accepts\<close>

text \<open>JSON values and their compact text.\<close>

datatype jval = JNull | JBool bool | JInt int | JStr string | JArr "jval list" | JObj "(string \<times> jval) list"

fun comma_sep :: "string list \<Rightarrow> string" where
  "comma_sep [] = []"
| "comma_sep [x] = x"
| "comma_sep (x # y # ys) = x @ '','' @ comma_sep (y # ys)"

fun json_text :: "jval \<Rightarrow> string" where
  "json_text JNull = ''null''"
| "json_text (JBool b) = (if b then ''true'' else ''false'')"
| "json_text (JInt i) = show_int i"
| "json_text (JStr s) = json_escape s"
| "json_text (JArr vs) = ''['' @ comma_sep (map json_text vs) @ '']''"
| "json_text (JObj ms) = ''{'' @ comma_sep (map (\<lambda>(k, v). json_escape k @ '':'' @ json_text v) ms) @ ''}''"

fun jdepth :: "jval \<Rightarrow> nat" where
  "jdepth (JArr vs) = Suc (foldr (\<lambda>v m. max (jdepth v) m) vs 0)"
| "jdepth (JObj ms) = Suc (foldr (\<lambda>(k, v) m. max (jdepth v) m) ms 0)"
| "jdepth _ = 0"

fun jclean :: "jval \<Rightarrow> bool" where
  "jclean (JStr s) \<longleftrightarrow> CHR 0x00 \<notin> set s"
| "jclean (JArr vs) \<longleftrightarrow> list_all jclean vs"
| "jclean (JObj ms) \<longleftrightarrow> list_all (\<lambda>(k, v). CHR 0x00 \<notin> set k \<and> jclean v) ms"
| "jclean _ \<longleftrightarrow> True"

text \<open>What may follow a value in a document.\<close>

definition jdelim :: "string \<Rightarrow> bool" where
  "jdelim r \<longleftrightarrow> r = [] \<or> hd r \<in> {CHR '','', CHR '']'', CHR ''}'', CHR '' '', CHR 0x0A}"

lemma jdelim_not: "jdelim r \<Longrightarrow> r = [] \<or> \<not> c_isdigit (hd r) \<and> hd r \<noteq> CHR ''.'' \<and> c_tolower (hd r) \<noteq> CHR ''e''
    \<and> c_tolower (hd r) \<noteq> CHR ''x''"
  by (auto simp: jdelim_def c_isdigit_def c_tolower_def)

lemma digit_lower: "c_isdigit c \<Longrightarrow> c_tolower c = c"
  by (auto simp: c_isdigit_def c_tolower_def)

lemma strtod_digits:
  assumes "ds \<noteq> []" and "list_all c_isdigit ds" and "jdelim r"
  shows "strto_mantissa c_isdigit (ds @ r) = (True, r)" "strto_exponent (CHR ''e'') r = r"
    "\<not> prefix_ci ''0x'' (ds @ r)" "\<not> prefix_ci ''inf'' (ds @ r)" "\<not> prefix_ci ''infinity'' (ds @ r)" "\<not> prefix_ci ''nan'' (ds @ r)"
proof -
  have tw: "takeWhile c_isdigit (ds @ r) = ds" "dropWhile c_isdigit (ds @ r) = r"
    using takeWhile_digits_append [OF assms(2)] jdelim_not [OF assms(3)] by auto
  show "strto_mantissa c_isdigit (ds @ r) = (True, r)"
    unfolding strto_mantissa_def Let_def tw using assms(1) jdelim_not [OF assms(3)] by (auto split: list.splits)
  show "strto_exponent (CHR ''e'') r = r"
    using jdelim_not [OF assms(3)] by (cases r) (auto simp: strto_exponent_def)
  obtain d u where ds: "ds = d # u" "c_isdigit d" using assms(1,2) by (cases ds) auto
  then show "\<not> prefix_ci ''inf'' (ds @ r)" "\<not> prefix_ci ''infinity'' (ds @ r)" "\<not> prefix_ci ''nan'' (ds @ r)"
    by (auto simp: prefix_ci_def digit_lower c_isdigit_def)
  have second: "c_tolower c \<noteq> CHR ''x''" if "u @ r = c # v" for c v
  proof (cases u)
    case Nil
    then show ?thesis using jdelim_not [OF assms(3)] that by auto
  next
    case (Cons c' v')
    then have "c_isdigit c" using assms(2) ds that by simp
    then show ?thesis by (auto simp: digit_lower c_isdigit_def)
  qed
  show "\<not> prefix_ci ''0x'' (ds @ r)"
    using second by (cases "u @ r") (auto simp: prefix_ci_def ds)
qed

lemma json_number_int:
  assumes "jdelim r"
  shows "json_number (show_int i @ r) = Some r"
proof -
  define n where "n = nat \<bar>i\<bar>"
  have sd: "show_nat n \<noteq> []" "list_all c_isdigit (show_nat n)" by (simp_all add: show_nat_digits)
  obtain d u where du: "show_nat n = d # u" "c_isdigit d" using sd by (cases "show_nat n") auto
  have ns: "\<not> c_isspace d" "d \<noteq> CHR ''-''" "d \<noteq> CHR ''+''"
    using isdigit_not_space [OF du(2)] isdigit_neq [OF du(2)] by auto
  note f = strtod_digits [OF sd assms]
  have "strtod_end (show_int i @ r) = Some r"
  proof (cases "i < 0")
    case True
    then have "show_int i = CHR ''-'' # show_nat n" by (simp add: show_int_def n_def)
    moreover have "\<not> c_isspace (CHR ''-'')" by (simp add: c_isspace_def)
    ultimately show ?thesis using f by (simp add: strtod_end_def Let_def)
  next
    case False
    then have "show_int i = show_nat n" by (simp add: show_int_def n_def)
    then show ?thesis using f du ns by (simp add: strtod_end_def Let_def)
  qed
  moreover have "json_ws (show_int i @ r) = show_int i @ r"
  proof (cases "i < 0")
    case True
    then show ?thesis by (simp add: show_int_def json_ws_def c_isspace_def)
  next
    case False
    then show ?thesis using du ns by (simp add: show_int_def n_def json_ws_def)
  qed
  ultimately show ?thesis by (simp add: json_number_def)
qed

lemma jdelim_Cons [simp]:
  "jdelim (CHR '','' # r)" "jdelim (CHR '']'' # r)" "jdelim (CHR ''}'' # r)"
  by (simp_all add: jdelim_def)

lemma json_ws_Cons_id: "\<not> c_isspace c \<Longrightarrow> json_ws (c # r) = c # r"
  by (simp add: json_ws_def)

lemma json_ws_punct [simp]:
  "json_ws (CHR '','' # r) = CHR '','' # r" "json_ws (CHR '']'' # r) = CHR '']'' # r"
  "json_ws (CHR ''}'' # r) = CHR ''}'' # r" "json_ws (CHR ''['' # r) = CHR ''['' # r"
  "json_ws (CHR ''{'' # r) = CHR ''{'' # r" "json_ws (CHR '':'' # r) = CHR '':'' # r"
  "json_ws (CHR ''t'' # r) = CHR ''t'' # r" "json_ws (CHR ''f'' # r) = CHR ''f'' # r"
  "json_ws (CHR ''n'' # r) = CHR ''n'' # r"
  by (simp_all add: json_ws_def c_isspace_def)

definition value_start :: "char \<Rightarrow> bool" where
  "value_start c \<longleftrightarrow> c \<in> {CHR ''n'', CHR ''t'', CHR ''f'', CHR ''-'', CHR 0x22, CHR ''['', CHR ''{''} \<or> c_isdigit c"

lemma value_start_not: "value_start c \<Longrightarrow> \<not> c_isspace c \<and> c \<noteq> CHR '']'' \<and> c \<noteq> CHR ''}''"
  by (auto simp: value_start_def c_isspace_def c_isdigit_def)

lemma show_int_start: "\<exists>c t. show_int i = c # t \<and> (c = CHR ''-'' \<or> c_isdigit c)"
proof (cases "i < 0")
  case True
  then show ?thesis by (simp add: show_int_def)
next
  case False
  have "show_nat (nat i) \<noteq> []" "list_all c_isdigit (show_nat (nat i))" by (simp_all add: show_nat_digits)
  then show ?thesis using False by (cases "show_nat (nat i)") (auto simp: show_int_def)
qed

lemma json_text_start: "\<exists>c t. json_text v = c # t \<and> value_start c"
proof (cases v)
  case (JInt i)
  then show ?thesis using show_int_start [of i] by (auto simp: value_start_def)
qed (auto simp: value_start_def json_escape_def)

lemma json_escape_nonempty [simp]: "json_escape s \<noteq> []"
  by (simp add: json_escape_def)

lemma json_skip_items_text:
  "vs \<noteq> [] \<Longrightarrow> (\<And>v r. v \<in> set vs \<Longrightarrow> jdelim r \<Longrightarrow> json_skip_value_depth (json_text v @ r) (Suc k) = Some r)
    \<Longrightarrow> json_skip_array_items (comma_sep (map json_text vs) @ CHR '']'' # rest) k = Some rest"
proof (induction vs rule: induct_list012)
  case (2 v)
  have "json_skip_value_depth (json_text v @ CHR '']'' # rest) (Suc k) = Some (CHR '']'' # rest)"
    using "2.prems"(2) by simp
  moreover have "json_text v \<noteq> []" using json_text_start [of v] by auto
  ultimately show ?case by (simp add: json_skip_array_items.simps)
next
  case (3 v w vs)
  let ?r = "CHR '','' # comma_sep (map json_text (w # vs)) @ CHR '']'' # rest"
  have "json_skip_value_depth (json_text v @ ?r) (Suc k) = Some ?r"
    using "3.prems"(2) by simp
  moreover have "json_text v \<noteq> []" using json_text_start [of v] by auto
  moreover have "json_skip_array_items (comma_sep (map json_text (w # vs)) @ CHR '']'' # rest) k = Some rest"
    by (rule "3.IH"(2)) (simp_all add: "3.prems"(2))
  ultimately show ?case by (simp add: json_skip_array_items.simps [of "json_text v @ _"])
qed simp

definition member_text :: "string \<times> jval \<Rightarrow> string" where
  "member_text m = json_escape (fst m) @ '':'' @ json_text (snd m)"

lemma json_skip_members_text:
  "ms \<noteq> [] \<Longrightarrow> (\<And>m. m \<in> set ms \<Longrightarrow> CHR 0x00 \<notin> set (fst m))
    \<Longrightarrow> (\<And>m r. m \<in> set ms \<Longrightarrow> jdelim r \<Longrightarrow> json_skip_value_depth (json_text (snd m) @ r) (Suc k) = Some r)
    \<Longrightarrow> json_skip_object_members (comma_sep (map member_text ms) @ CHR ''}'' # rest) k = Some rest"
proof (induction ms rule: induct_list012)
  case (2 m)
  have "json_string (member_text m @ CHR ''}'' # rest) = Some (fst m, CHR '':'' # json_text (snd m) @ CHR ''}'' # rest)"
    using json_string_escape [of "fst m"] "2.prems"(2) by (simp add: member_text_def)
  moreover have "json_skip_value_depth (json_text (snd m) @ CHR ''}'' # rest) (Suc k) = Some (CHR ''}'' # rest)"
    using "2.prems"(3) by simp
  moreover have "json_text (snd m) \<noteq> []" using json_text_start [of "snd m"] by auto
  ultimately show ?case by (simp add: json_skip_object_members.simps member_text_def)
next
  case (3 m n ms)
  let ?r = "CHR '','' # comma_sep (map member_text (n # ms)) @ CHR ''}'' # rest"
  have "json_string (member_text m @ ?r) = Some (fst m, CHR '':'' # json_text (snd m) @ ?r)"
    using json_string_escape [of "fst m"] "3.prems"(2) by (simp add: member_text_def)
  moreover have "json_skip_value_depth (json_text (snd m) @ ?r) (Suc k) = Some ?r"
    using "3.prems"(3) by simp
  moreover have "json_text (snd m) \<noteq> []" using json_text_start [of "snd m"] by auto
  moreover have "json_skip_object_members (comma_sep (map member_text (n # ms)) @ CHR ''}'' # rest) k = Some rest"
    by (rule "3.IH"(2)) (simp_all add: "3.prems"(2,3))
  moreover have "length (CHR '':'' # json_text (snd m) @ ?r) < length (member_text m @ ?r)" by (simp add: member_text_def)
  ultimately show ?case by (simp add: json_skip_object_members.simps [of "member_text m @ _"])
qed simp

lemma comma_sep_start: "xs \<noteq> [] \<Longrightarrow> hd xs = c # t \<Longrightarrow> \<exists>u. comma_sep xs = c # u"
  by (cases xs rule: comma_sep.cases) auto

lemma jdepth_le:
  "v \<in> set vs \<Longrightarrow> jdepth v < jdepth (JArr vs)"
  "m \<in> set ms \<Longrightarrow> jdepth (snd m) < jdepth (JObj ms)"
  by (induction vs) (auto, (induction ms; auto simp: case_prod_unfold))

lemma json_skip_text:
  "jclean v \<Longrightarrow> k + jdepth v \<le> JSON_MAX_NESTING \<Longrightarrow> jdelim r \<Longrightarrow> json_skip_value_depth (json_text v @ r) k = Some r"
proof (induction v arbitrary: k r rule: json_text.induct)
  case (3 i)
  obtain c t where s: "show_int i = c # t" "c = CHR ''-'' \<or> c_isdigit c" using show_int_start by blast
  then have "value_start c" by (auto simp: value_start_def)
  then have "\<not> c_isspace c" using value_start_not by blast
  then have "json_ws (c # t @ r) = c # t @ r" by (simp add: json_ws_def)
  moreover have "c \<noteq> CHR 0x22" "c \<noteq> CHR ''{''" "c \<noteq> CHR ''[''" "c \<noteq> CHR ''t''" "c \<noteq> CHR ''f''" "c \<noteq> CHR ''n''"
    using s(2) by (auto simp: c_isdigit_def)
  ultimately show ?case using json_number_int [OF "3.prems"(3), of i] s(1)
    by (simp add: json_skip_value_depth.simps Let_def json_lit_def)
next
  case (4 s)
  then show ?case using json_string_escape [of s r]
    by (simp add: json_skip_value_depth.simps Let_def json_escape_def json_ws_quote)
next
  case (5 vs)
  have k: "k < JSON_MAX_NESTING" using "5.prems"(2) by simp
  show ?case
  proof (cases "vs = []")
    case True
    then show ?thesis using k by (simp add: json_skip_value_depth.simps json_skip_array_depth.simps)
  next
    case False
    have "json_skip_array_items (comma_sep (map json_text vs) @ CHR '']'' # r) k = Some r"
    proof (rule json_skip_items_text [OF False])
      fix v r assume v: "v \<in> set vs" "jdelim r"
      then show "json_skip_value_depth (json_text v @ r) (Suc k) = Some r"
        using "5.IH" [of v "Suc k" r] "5.prems"(1,2) jdepth_le(1) [OF v(1)] by (simp add: list_all_iff)
    qed
    moreover obtain c t u where "json_text (hd vs) = c # t" "value_start c" "comma_sep (map json_text vs) = c # u"
      using json_text_start [of "hd vs"] comma_sep_start [of "map json_text vs"] False by (fastforce simp: hd_map)
    ultimately show ?thesis using k value_start_not [of c]
      by (auto simp: json_skip_value_depth.simps json_skip_array_depth.simps Let_def json_ws_Cons_id)
  qed
next
  case (6 ms)
  have k: "k < JSON_MAX_NESTING" using "6.prems"(2) by simp
  have mt: "map (\<lambda>(k, v). json_escape k @ CHR '':'' # json_text v) ms = map member_text ms"
    by (simp add: member_text_def case_prod_unfold)
  show ?case
  proof (cases "ms = []")
    case True
    then show ?thesis using k by (simp add: json_skip_value_depth.simps json_skip_object_depth.simps)
  next
    case False
    have "json_skip_object_members (comma_sep (map member_text ms) @ CHR ''}'' # r) k = Some r"
    proof (rule json_skip_members_text [OF False])
      fix m assume "m \<in> set ms"
      then show "CHR 0x00 \<notin> set (fst m)" using "6.prems"(1) by (auto simp: list_all_iff)
    next
      fix m r assume m: "m \<in> set ms" "jdelim r"
      then show "json_skip_value_depth (json_text (snd m) @ r) (Suc k) = Some r"
        using "6.IH" [OF m(1) prod.collapse, of "Suc k" r] "6.prems"(1,2) jdepth_le(2) [OF m(1)] by (auto simp: list_all_iff)
    qed
    moreover obtain u where "comma_sep (map member_text ms) = CHR 0x22 # u"
      using comma_sep_start [of "map member_text ms"] False by (fastforce simp: hd_map member_text_def json_escape_def)
    ultimately show ?thesis using k
      by (auto simp: json_skip_value_depth.simps json_skip_object_depth.simps Let_def json_ws_quote mt)
  qed
qed (auto simp: json_skip_value_depth.simps Let_def json_lit_def)

lemma json_skip_too_deep:
  "k \<le> JSON_MAX_NESTING \<Longrightarrow> json_skip_value_depth (replicate (Suc (JSON_MAX_NESTING - k)) (CHR ''['') @ r) k = None"
proof (induction "JSON_MAX_NESTING - k" arbitrary: k)
  case 0
  then have "k = JSON_MAX_NESTING" by simp
  then show ?case by (simp add: json_skip_value_depth.simps json_skip_array_depth.simps Let_def)
next
  case (Suc n)
  then have n: "n = JSON_MAX_NESTING - (k + 1)" "k + 1 \<le> JSON_MAX_NESTING" "JSON_MAX_NESTING - k = Suc n" by simp_all
  have "json_skip_value_depth (replicate (Suc n) (CHR ''['') @ r) (k + 1) = None"
    using Suc.hyps(1) [OF n(1,2)] n(1) by simp
  then show ?case using n
    by (simp add: json_skip_value_depth.simps [of _ k] json_skip_array_depth.simps json_skip_array_items.simps Let_def)
qed

text \<open>
  Every JSON value written compactly (null, booleans, integers, strings of any bytes but NUL, arrays, objects)
  nested at most 256 deep is skipped in full: the cursor lands on the text after it and the raw value is the value's
  own text. A document that opens more than 256 arrays is refused, whatever follows, so the recursion is bounded.
\<close>

lemma json_skip_exact:
  assumes "jclean v" and "jdepth v \<le> JSON_MAX_NESTING" and "jdelim r" and "JSON_MAX_NESTING < n"
  shows "json_skip_value (json_text v @ r) = Some r
    \<and> json_raw_value (json_text v @ r) = Some (json_text v, r)
    \<and> json_skip_value (replicate n (CHR ''['') @ rest) = None"
proof -
  have a: "json_skip_value (json_text v @ r) = Some r"
    unfolding json_skip_value_def using json_skip_text [OF assms(1) _ assms(3), of 0] assms(2) by simp
  have ws: "json_ws (json_text v @ r) = json_text v @ r"
    using json_text_start [of v] value_start_not by (auto simp: json_ws_def)
  have "replicate n (CHR ''['') @ rest
      = replicate (Suc (JSON_MAX_NESTING - 0)) (CHR ''['') @ replicate (n - Suc JSON_MAX_NESTING) (CHR ''['') @ rest"
    unfolding append_assoc [symmetric] replicate_add [symmetric] using assms(4) by simp
  then have c: "json_skip_value (replicate n (CHR ''['') @ rest) = None"
    unfolding json_skip_value_def by (simp only: json_skip_too_deep [OF le0])
  show ?thesis using a ws c by (simp add: json_raw_value_def)
qed

end
