(* ===== verification/Model_Exec.thy ===== *)
theory Model_Exec
  imports Prelude
begin

text \<open>
  Who may run the model in batched mode (\<open>ds4_server.c\<close>): prefill turns taken round robin, tokens
  handed by the slot threads to the decode worker, withdrawal of a token when its client leaves, and
  shutdown. Every operation is the code between taking \<open>model_mu\<close> and giving it up (by unlocking it
  or by waiting on \<open>model_cv\<close>); a wait that goes on leaves the state as it is. What a thread does
  between two such sections is its program counter. The engine calls themselves
  (\<open>ds4_session_sync\<close>, \<open>ds4_sessions_eval_batch\<close>) happen between sections: their results
  are arguments of the sections that store them.
\<close>

section \<open>State\<close>

datatype slot_pc = Working | PrefillWait | Prefilling | EvalWait | Exited

record exec_slot =
  prefill_waiting :: bool
  decode_pending :: bool
  decode_in_flight :: bool
  decode_done :: bool
  decode_token :: int
  decode_rc :: int
  decode_err :: string
  job_cancelled :: bool
  slot_pc :: slot_pc

text \<open>
  \<open>pending_count\<close> is \<open>server.decode_pending\<close>; \<open>batch\<close> is what the decode worker has handed
  to the engine, by slot number.
\<close>

record model_exec =
  slots :: "exec_slot list"
  model_busy :: bool
  model_stopping :: bool
  pending_count :: int
  active_generations :: int
  last_prefill_slot :: nat
  stop_requested :: bool
  batch :: "nat list option"
  decode_exited :: bool

definition DS4_SESSION_SYNC_INTERRUPTED :: int where "DS4_SESSION_SYNC_INTERRUPTED = 2"

definition idle_slot :: exec_slot where
  "idle_slot = \<lparr>prefill_waiting = False, decode_pending = False, decode_in_flight = False, decode_done = False,
     decode_token = 0, decode_rc = 0, decode_err = [], job_cancelled = False, slot_pc = Working\<rparr>"

definition exec_start :: "nat \<Rightarrow> model_exec" where
  "exec_start n = \<lparr>slots = replicate n idle_slot, model_busy = False, model_stopping = False, pending_count = 0,
     active_generations = 0, last_prefill_slot = n - 1, stop_requested = False, batch = None, decode_exited = False\<rparr>"

definition upd_slot :: "nat \<Rightarrow> (exec_slot \<Rightarrow> exec_slot) \<Rightarrow> model_exec \<Rightarrow> model_exec" where
  "upd_slot i f s = s\<lparr>slots := (slots s)[i := f (slots s ! i)]\<rparr>"

section \<open>Prefill turns\<close>

text \<open>\<open>None\<close> is the C code's -1.\<close>

definition server_next_prefill_slot_locked :: "model_exec \<Rightarrow> nat option" where
  "server_next_prefill_slot_locked s =
     (let n = length (slots s)
      in find (\<lambda>i. prefill_waiting (slots s ! i)) (map (\<lambda>k. (last_prefill_slot s + k) mod n) [1..<n + 1]))"

definition server_prefill_enter_begin :: "nat \<Rightarrow> model_exec \<Rightarrow> model_exec option" where
  "server_prefill_enter_begin i s =
     (if job_cancelled (slots s ! i) then None
      else Some (upd_slot i (\<lambda>sl. sl\<lparr>prefill_waiting := True, slot_pc := PrefillWait\<rparr>) s))"

text \<open>One evaluation of the wait loop: \<open>None\<close> keeps waiting, otherwise the call returns.\<close>

definition server_prefill_enter_wake :: "nat \<Rightarrow> model_exec \<Rightarrow> (bool \<times> model_exec) option" where
  "server_prefill_enter_wake i s =
     (if \<not> stop_requested s \<and> \<not> job_cancelled (slots s ! i)
         \<and> (model_busy s \<or> pending_count s > 0 \<or> server_next_prefill_slot_locked s \<noteq> Some i)
      then None
      else if stop_requested s \<or> job_cancelled (slots s ! i)
      then Some (False, upd_slot i (\<lambda>sl. sl\<lparr>prefill_waiting := False, slot_pc := Working\<rparr>) s)
      else Some (True, (upd_slot i (\<lambda>sl. sl\<lparr>prefill_waiting := False, slot_pc := Prefilling\<rparr>) s)
                   \<lparr>last_prefill_slot := i, model_busy := True\<rparr>))"

definition server_prefill_leave :: "nat \<Rightarrow> model_exec \<Rightarrow> model_exec" where
  "server_prefill_leave i s = (upd_slot i (\<lambda>sl. sl\<lparr>slot_pc := Working\<rparr>) s)\<lparr>model_busy := False\<rparr>"

definition server_prefill_quantum_for :: "int \<Rightarrow> bool \<Rightarrow> bool \<Rightarrow> int" where
  "server_prefill_quantum_for mixed_prefill_quantum is_glm53 generation_active =
     (let quantum = (if generation_active then mixed_prefill_quantum else 2048)
      in if generation_active \<and> quantum < 1024 \<and> is_glm53 then 1024 else quantum)"

definition server_prefill_quantum :: "int \<Rightarrow> bool \<Rightarrow> model_exec \<Rightarrow> int" where
  "server_prefill_quantum mixed_prefill_quantum is_glm53 s =
     server_prefill_quantum_for mixed_prefill_quantum is_glm53 (active_generations s > 0)"

definition server_generation_enter :: "model_exec \<Rightarrow> model_exec" where
  "server_generation_enter s = s\<lparr>active_generations := active_generations s + 1\<rparr>"

definition server_generation_leave :: "model_exec \<Rightarrow> model_exec" where
  "server_generation_leave s =
     (if active_generations s > 0 then s\<lparr>active_generations := active_generations s - 1\<rparr> else s)"

section \<open>Tokens to decode\<close>

definition server_cancel_pending_decode_locked :: "nat \<Rightarrow> model_exec \<Rightarrow> bool \<times> model_exec" where
  "server_cancel_pending_decode_locked i s =
     (if \<not> decode_pending (slots s ! i) \<or> decode_in_flight (slots s ! i) then (False, s)
      else (True, (upd_slot i (\<lambda>sl. sl\<lparr>decode_pending := False, decode_rc := DS4_SESSION_SYNC_INTERRUPTED,
                                       decode_err := ''client disconnected'', decode_done := True\<rparr>) s)
                  \<lparr>pending_count := pending_count s - 1\<rparr>))"

text \<open>The start of \<open>server_eval_token\<close>: a refusal with its code and message, or the token is queued.\<close>

definition server_eval_token_begin :: "nat \<Rightarrow> int \<Rightarrow> model_exec \<Rightarrow> (int \<times> string) + model_exec" where
  "server_eval_token_begin i token s =
     (if stop_requested s \<or> job_cancelled (slots s ! i)
      then Inl (DS4_SESSION_SYNC_INTERRUPTED,
                if stop_requested s then ''shutdown requested'' else ''client disconnected'')
      else if decode_pending (slots s ! i) \<or> decode_in_flight (slots s ! i)
      then Inl (1, ''session already has a decode in flight'')
      else Inr ((upd_slot i (\<lambda>sl. sl\<lparr>decode_token := token, decode_rc := 1, decode_err := [], decode_done := False,
                                     decode_pending := True, slot_pc := EvalWait\<rparr>) s)
                \<lparr>pending_count := pending_count s + 1\<rparr>))"

definition eval_token_return :: "nat \<Rightarrow> model_exec \<Rightarrow> (int \<times> string) \<times> model_exec" where
  "eval_token_return i s =
     (let sl = slots s ! i;
          rc = (if stop_requested s \<and> decode_rc sl = 0 then DS4_SESSION_SYNC_INTERRUPTED else decode_rc sl);
          err = (if rc \<noteq> 0
                 then (if stop_requested s then ''shutdown requested''
                       else if decode_err sl \<noteq> [] then decode_err sl else ''decode interrupted'')
                 else [])
      in ((rc, err), upd_slot i (\<lambda>sl. sl\<lparr>decode_done := False, slot_pc := Working\<rparr>) s))"

text \<open>One evaluation of the wait loop of \<open>server_eval_token\<close> and, when it ends, the return.\<close>

definition server_eval_token_wake :: "nat \<Rightarrow> model_exec \<Rightarrow> ((int \<times> string) \<times> model_exec) option" where
  "server_eval_token_wake i s =
     (if decode_done (slots s ! i) then Some (eval_token_return i s)
      else if job_cancelled (slots s ! i) \<or> stop_requested s
      then (case server_cancel_pending_decode_locked i s of
              (False, _) \<Rightarrow> None
            | (True, t) \<Rightarrow>
                Some (eval_token_return i
                  (if job_cancelled (slots s ! i) then t
                   else upd_slot i (\<lambda>sl. sl\<lparr>decode_err := ''shutdown requested''\<rparr>) t)))
      else None)"

section \<open>The decode worker\<close>

text \<open>
  Collecting a batch once the model is free. The worker reaches this point after its waits; the
  coalescing delay only lets more tokens arrive first. With nothing pending it goes back to wait.
\<close>

definition decode_collect :: "model_exec \<Rightarrow> model_exec" where
  "decode_collect s =
     (let members = filter (\<lambda>i. decode_pending (slots s ! i)) [0..<length (slots s)]
      in if members = [] then s
         else s\<lparr>slots := map (\<lambda>sl. if decode_pending sl
                                   then sl\<lparr>decode_pending := False, decode_in_flight := True\<rparr> else sl) (slots s),
                pending_count := pending_count s - int (length members),
                model_busy := True, batch := Some members\<rparr>)"

definition finish_slot :: "int \<Rightarrow> string \<Rightarrow> exec_slot \<Rightarrow> exec_slot" where
  "finish_slot rc batch_err sl =
     sl\<lparr>decode_in_flight := False, decode_rc := rc,
        decode_err := (if rc \<noteq> 0 then take 159 (if batch_err \<noteq> [] then batch_err else ''batched decode failed'')
                       else decode_err sl),
        decode_done := True\<rparr>"

definition decode_finish :: "int \<Rightarrow> string \<Rightarrow> model_exec \<Rightarrow> model_exec" where
  "decode_finish rc batch_err s =
     (case batch s of
        None \<Rightarrow> s
      | Some members \<Rightarrow>
          s\<lparr>model_busy := False, batch := None,
            slots := map (\<lambda>(i, sl). if i \<in> set members then finish_slot rc batch_err sl else sl)
                       (zip [0..<length (slots s)] (slots s))\<rparr>)"

definition server_request_decode_stop :: "model_exec \<Rightarrow> model_exec" where
  "server_request_decode_stop s = s\<lparr>model_stopping := True\<rparr>"

section \<open>Steps\<close>

datatype action =
    PrefillBegin nat | PrefillWake nat bool | PrefillLeave nat
  | EvalBegin nat int | EvalWake nat int | Collect | Finish int string
  | MarkCancelled nat | Withdraw nat | NextJob nat | StopSignal
  | GenerationEnter nat | GenerationLeave nat | SlotExit nat | DecodeStop | DecodeExit

text \<open>
  \<open>MarkCancelled\<close> and \<open>Withdraw\<close> are the two sections of \<open>server_cancel_job\<close> that concern a
  running job. \<open>main\<close> joins the slot threads before it stops the decode worker.
\<close>

inductive exec_step :: "model_exec \<Rightarrow> action \<Rightarrow> model_exec \<Rightarrow> bool" where
  prefill_begin: "i < length (slots s) \<Longrightarrow> slot_pc (slots s ! i) = Working \<Longrightarrow>
    server_prefill_enter_begin i s = Some t \<Longrightarrow> exec_step s (PrefillBegin i) t"
| prefill_wake: "i < length (slots s) \<Longrightarrow> slot_pc (slots s ! i) = PrefillWait \<Longrightarrow>
    server_prefill_enter_wake i s = Some (ok, t) \<Longrightarrow> exec_step s (PrefillWake i ok) t"
| prefill_leave: "i < length (slots s) \<Longrightarrow> slot_pc (slots s ! i) = Prefilling \<Longrightarrow>
    exec_step s (PrefillLeave i) (server_prefill_leave i s)"
| eval_begin: "i < length (slots s) \<Longrightarrow> slot_pc (slots s ! i) = Working \<Longrightarrow>
    server_eval_token_begin i token s = Inr t \<Longrightarrow> exec_step s (EvalBegin i token) t"
| eval_wake: "i < length (slots s) \<Longrightarrow> slot_pc (slots s ! i) = EvalWait \<Longrightarrow>
    server_eval_token_wake i s = Some ((rc, err), t) \<Longrightarrow> exec_step s (EvalWake i rc) t"
| collect: "\<not> decode_exited s \<Longrightarrow> batch s = None \<Longrightarrow> \<not> model_busy s \<Longrightarrow> exec_step s Collect (decode_collect s)"
| finish: "batch s \<noteq> None \<Longrightarrow> exec_step s (Finish rc err) (decode_finish rc err s)"
| mark_cancelled: "i < length (slots s) \<Longrightarrow>
    exec_step s (MarkCancelled i) (upd_slot i (\<lambda>sl. sl\<lparr>job_cancelled := True\<rparr>) s)"
| withdraw: "i < length (slots s) \<Longrightarrow> job_cancelled (slots s ! i) \<Longrightarrow>
    exec_step s (Withdraw i) (snd (server_cancel_pending_decode_locked i s))"
| next_job: "i < length (slots s) \<Longrightarrow> slot_pc (slots s ! i) = Working \<Longrightarrow>
    exec_step s (NextJob i) (upd_slot i (\<lambda>sl. sl\<lparr>job_cancelled := False\<rparr>) s)"
| stop_signal: "exec_step s StopSignal (s\<lparr>stop_requested := True\<rparr>)"
| generation_enter: "i < length (slots s) \<Longrightarrow> slot_pc (slots s ! i) = Working \<Longrightarrow>
    exec_step s (GenerationEnter i) (server_generation_enter s)"
| generation_leave: "i < length (slots s) \<Longrightarrow> slot_pc (slots s ! i) = Working \<Longrightarrow>
    exec_step s (GenerationLeave i) (server_generation_leave s)"
| slot_exit: "i < length (slots s) \<Longrightarrow> slot_pc (slots s ! i) = Working \<Longrightarrow>
    exec_step s (SlotExit i) (upd_slot i (\<lambda>sl. sl\<lparr>slot_pc := Exited\<rparr>) s)"
| decode_stop: "\<forall>sl \<in> set (slots s). slot_pc sl = Exited \<Longrightarrow> exec_step s DecodeStop (server_request_decode_stop s)"
| decode_exit: "model_stopping s \<Longrightarrow> pending_count s = 0 \<Longrightarrow> batch s = None \<Longrightarrow>
    exec_step s DecodeExit (s\<lparr>decode_exited := True\<rparr>)"

inductive_cases prefill_wakeE: "exec_step s (PrefillWake i ok) t"

section \<open>The invariant\<close>

definition slot_ok :: "exec_slot \<Rightarrow> bool" where
  "slot_ok sl \<longleftrightarrow>
     (prefill_waiting sl \<longleftrightarrow> slot_pc sl = PrefillWait)
     \<and> (slot_pc sl = EvalWait \<longleftrightarrow> decode_pending sl \<or> decode_in_flight sl \<or> decode_done sl)
     \<and> \<not> (decode_pending sl \<and> decode_in_flight sl) \<and> \<not> (decode_pending sl \<and> decode_done sl)
     \<and> \<not> (decode_in_flight sl \<and> decode_done sl)"

definition batch_ok :: "model_exec \<Rightarrow> bool" where
  "batch_ok s \<longleftrightarrow>
     (case batch s of
        None \<Rightarrow> cnt decode_in_flight (slots s) = 0
      | Some ms \<Rightarrow> (\<forall>i < length (slots s). decode_in_flight (slots s ! i) \<longleftrightarrow> i \<in> set ms))"

definition users :: "model_exec \<Rightarrow> nat" where
  "users s = cnt (\<lambda>sl. slot_pc sl = Prefilling) (slots s) + (if batch s = None then 0 else 1)"

definition exec_ok :: "model_exec \<Rightarrow> bool" where
  "exec_ok s \<longleftrightarrow>
     list_all slot_ok (slots s)
     \<and> pending_count s = int (cnt decode_pending (slots s))
     \<and> users s = (if model_busy s then 1 else 0)
     \<and> batch_ok s
     \<and> (model_stopping s \<longrightarrow> list_all (\<lambda>sl. slot_pc sl = Exited) (slots s))
     \<and> (decode_exited s \<longrightarrow> model_stopping s)"

definition exec_init :: "model_exec \<Rightarrow> bool" where
  "exec_init s \<longleftrightarrow> (\<exists>n > 0. s = exec_start n)"

lemma list_all_update: "list_all P xs \<Longrightarrow> P x \<Longrightarrow> list_all P (xs[i := x])"
  by (metis list_all_length length_list_update nth_list_update nth_list_update_neq)

text \<open>The one lemma behind every step that changes one slot: what has to balance.\<close>

lemma exec_ok_change:
  assumes ok: "exec_ok s" and i: "i < length (slots s)" and x: "slot_ok x"
    and fl: "decode_in_flight x = decode_in_flight (slots s ! i)"
    and t: "slots t = (slots s)[i := x]" "batch t = batch s" "model_stopping t = model_stopping s" "decode_exited t = decode_exited s"
    and ex: "slot_pc (slots s ! i) = Exited \<Longrightarrow> slot_pc x = Exited"
    and pe: "pending_count t + of_bool (decode_pending (slots s ! i)) = pending_count s + of_bool (decode_pending x)"
    and bu: "of_bool (model_busy t) + of_bool (slot_pc (slots s ! i) = Prefilling)
      = (of_bool (model_busy s) + of_bool (slot_pc x = Prefilling) :: nat)"
  shows "exec_ok t"
proof -
  let ?P = "\<lambda>sl. slot_pc sl = Prefilling"
  have "cnt decode_in_flight (slots t) = cnt decode_in_flight (slots s)"
    using i fl by (simp add: t)
  moreover have "decode_in_flight (slots t ! k) = decode_in_flight (slots s ! k)" for k
    using fl i by (simp add: t nth_list_update)
  ultimately have b: "batch_ok t" using ok by (simp add: exec_ok_def batch_ok_def t split: option.splits)
  have p: "pending_count t = int (cnt decode_pending (slots t))"
    using ok pe cnt_update [OF i, of decode_pending x] by (simp add: exec_ok_def t of_bool_def split: if_splits)
  have u: "users t = (if model_busy t then 1 else 0)"
    using ok bu cnt_update [OF i, of ?P x] by (simp add: exec_ok_def users_def t of_bool_def split: if_splits)
  have e: "list_all (\<lambda>sl. slot_pc sl = Exited) (slots t)" if "model_stopping t"
  proof -
    have a: "list_all (\<lambda>sl. slot_pc sl = Exited) (slots s)" using ok that by (simp add: exec_ok_def t)
    with i have "slot_pc (slots s ! i) = Exited" by (simp add: list_all_length)
    with a ex show ?thesis by (simp add: t list_all_update)
  qed
  show ?thesis using ok b p u e x by (simp add: exec_ok_def t list_all_update)
qed

lemma slot_ok_nth: "exec_ok s \<Longrightarrow> i < length (slots s) \<Longrightarrow> slot_ok (slots s ! i)"
  by (simp add: exec_ok_def list_all_length)

lemmas slot_fields = upd_slot_def slot_ok_def

lemma exec_ok_prefill_begin:
  assumes "exec_ok s" "i < length (slots s)" "slot_pc (slots s ! i) = Working" "server_prefill_enter_begin i s = Some t"
  shows "exec_ok t"
  using slot_ok_nth [OF assms(1,2)] assms(3,4)
  by (intro exec_ok_change [OF assms(1,2), of "(slots s ! i)\<lparr>prefill_waiting := True, slot_pc := PrefillWait\<rparr>"])
    (auto simp: server_prefill_enter_begin_def slot_fields split: if_splits)

lemma users_pos: "exec_ok s \<Longrightarrow> i < length (slots s) \<Longrightarrow> slot_pc (slots s ! i) = Prefilling \<Longrightarrow> model_busy s"
  using cnt_pos [of i "slots s" "\<lambda>sl. slot_pc sl = Prefilling"] by (auto simp: exec_ok_def users_def split: if_splits)

lemma exec_ok_prefill_wake:
  assumes "exec_ok s" "i < length (slots s)" "slot_pc (slots s ! i) = PrefillWait" "server_prefill_enter_wake i s = Some (b, t)"
  shows "exec_ok t"
  using slot_ok_nth [OF assms(1,2)] assms(3,4)
  by (intro exec_ok_change [OF assms(1,2),
        of "(slots s ! i)\<lparr>prefill_waiting := False, slot_pc := (if b then Prefilling else Working)\<rparr>"])
    (auto simp: server_prefill_enter_wake_def slot_fields split: if_splits)

lemma exec_ok_prefill_leave:
  assumes "exec_ok s" "i < length (slots s)" "slot_pc (slots s ! i) = Prefilling"
  shows "exec_ok (server_prefill_leave i s)"
  using slot_ok_nth [OF assms(1,2)] assms(3) users_pos [OF assms]
  by (intro exec_ok_change [OF assms(1,2), of "(slots s ! i)\<lparr>slot_pc := Working\<rparr>"])
    (auto simp: server_prefill_leave_def slot_fields)

lemma exec_ok_eval_begin:
  assumes "exec_ok s" "i < length (slots s)" "slot_pc (slots s ! i) = Working" "server_eval_token_begin i k s = Inr t"
  shows "exec_ok t"
  using slot_ok_nth [OF assms(1,2)] assms(3,4)
  by (intro exec_ok_change [OF assms(1,2), of "(slots s ! i)\<lparr>decode_token := k, decode_rc := 1, decode_err := [],
        decode_done := False, decode_pending := True, slot_pc := EvalWait\<rparr>"])
    (auto simp: server_eval_token_begin_def slot_fields split: if_splits)

lemma exec_ok_withdraw:
  assumes "exec_ok s" "i < length (slots s)" "server_cancel_pending_decode_locked i s = (b, t)"
  shows "exec_ok t \<and> length (slots t) = length (slots s) \<and> (b \<longrightarrow> decode_done (slots t ! i))
    \<and> slot_pc (slots t ! i) = slot_pc (slots s ! i)"
proof (cases b)
  case True
  have "exec_ok t" using slot_ok_nth [OF assms(1,2)] assms(3) True
    by (intro exec_ok_change [OF assms(1,2), of "(slots s ! i)\<lparr>decode_pending := False,
          decode_rc := DS4_SESSION_SYNC_INTERRUPTED, decode_err := ''client disconnected'', decode_done := True\<rparr>"])
      (auto simp: server_cancel_pending_decode_locked_def slot_fields split: if_splits)
  then show ?thesis using assms(2,3) True
    by (auto simp: server_cancel_pending_decode_locked_def slot_fields split: if_splits)
next
  case False
  then show ?thesis using assms by (auto simp: server_cancel_pending_decode_locked_def split: if_splits)
qed

lemma exec_ok_relabel:
  assumes "exec_ok s" "i < length (slots s)"
  shows "exec_ok (upd_slot i (\<lambda>sl. sl\<lparr>job_cancelled := c\<rparr>) s)" (is ?c)
    and "exec_ok (upd_slot i (\<lambda>sl. sl\<lparr>decode_err := e\<rparr>) s)" (is ?e)
proof -
  note ok = slot_ok_nth [OF assms]
  from ok show ?c by (intro exec_ok_change [OF assms, of "(slots s ! i)\<lparr>job_cancelled := c\<rparr>"]; simp add: slot_fields)
  from ok show ?e by (intro exec_ok_change [OF assms, of "(slots s ! i)\<lparr>decode_err := e\<rparr>"]; simp add: slot_fields)
qed

lemma exec_ok_eval_return:
  assumes "exec_ok s" "i < length (slots s)" "decode_done (slots s ! i)" "eval_token_return i s = (r, t)"
  shows "exec_ok t"
  using slot_ok_nth [OF assms(1,2)] assms(3,4)
  by (intro exec_ok_change [OF assms(1,2), of "(slots s ! i)\<lparr>decode_done := False, slot_pc := Working\<rparr>"])
    (auto simp: eval_token_return_def slot_fields Let_def)

lemma exec_ok_eval_wake:
  assumes ok: "exec_ok s" and i: "i < length (slots s)" and w: "server_eval_token_wake i s = Some (r, t)"
  shows "exec_ok t"
proof (cases "decode_done (slots s ! i)")
  case True
  then show ?thesis using exec_ok_eval_return [OF ok i] w by (simp add: server_eval_token_wake_def)
next
  case False
  then obtain u where u: "server_cancel_pending_decode_locked i s = (True, u)"
    and r: "eval_token_return i (if job_cancelled (slots s ! i) then u
      else upd_slot i (\<lambda>sl. sl\<lparr>decode_err := ''shutdown requested''\<rparr>) u) = (r, t)"
    using w by (auto simp: server_eval_token_wake_def split: if_splits prod.splits bool.splits)
  note f = exec_ok_withdraw [OF ok i u]
  then have "exec_ok (if job_cancelled (slots s ! i) then u
      else upd_slot i (\<lambda>sl. sl\<lparr>decode_err := ''shutdown requested''\<rparr>) u)"
    using exec_ok_relabel(2) [of u i] i by simp
  then show ?thesis using exec_ok_eval_return [OF _ _ _ r] f i by (auto simp: upd_slot_def split: if_splits)
qed

lemma exec_ok_exit:
  assumes "exec_ok s" "i < length (slots s)" "slot_pc (slots s ! i) = Working"
  shows "exec_ok (upd_slot i (\<lambda>sl. sl\<lparr>slot_pc := Exited\<rparr>) s)"
  using slot_ok_nth [OF assms(1,2)] assms(3)
  by (intro exec_ok_change [OF assms(1,2), of "(slots s ! i)\<lparr>slot_pc := Exited\<rparr>"]) (auto simp: slot_fields)

lemma cnt_map: "cnt P (map f xs) = cnt (\<lambda>x. P (f x)) xs"
  by (simp add: cnt_def filter_map comp_def)

lemma cnt_cong: "(\<And>x. x \<in> set xs \<Longrightarrow> P x = Q x) \<Longrightarrow> cnt P xs = cnt Q xs"
  unfolding cnt_def by (metis (mono_tags, lifting) filter_cong)

lemma exec_ok_collect:
  assumes ok: "exec_ok s" and free: "batch s = None" "\<not> model_busy s"
  shows "exec_ok (decode_collect s)"
proof -
  let ?m = "filter (\<lambda>i. decode_pending (slots s ! i)) [0..<length (slots s)]"
  let ?f = "\<lambda>sl. if decode_pending sl then sl\<lparr>decode_pending := False, decode_in_flight := True\<rparr> else sl"
  let ?t = "decode_collect s"
  show ?thesis
  proof (cases "?m = []")
    case True
    then show ?thesis using ok by (simp add: decode_collect_def)
  next
    case False
    have t: "slots ?t = map ?f (slots s)" "pending_count ?t = pending_count s - int (length ?m)" "model_busy ?t"
      "batch ?t = Some ?m" "model_stopping ?t = model_stopping s" "decode_exited ?t = decode_exited s"
      using False by (simp_all add: decode_collect_def Let_def)
    have sok: "\<forall>sl \<in> set (slots s). slot_ok sl" using ok by (simp add: exec_ok_def list_all_iff)
    have pc: "slot_pc (?f sl) = slot_pc sl" for sl by simp
    have nf: "\<not> decode_in_flight (slots s ! i)" if "i < length (slots s)" for i
      using ok free that by (simp add: exec_ok_def batch_ok_def cnt_zero)
    have "list_all slot_ok (slots ?t)" using sok by (auto simp: t list_all_iff slot_ok_def)
    moreover have "pending_count ?t = int (cnt decode_pending (slots ?t))"
    proof -
      have "cnt decode_pending (slots ?t) = 0" by (simp add: t cnt_map cnt_zero)
      then show ?thesis using ok by (simp add: t exec_ok_def cnt_indices)
    qed
    moreover have "users ?t = 1"
    proof -
      have "cnt (\<lambda>sl. slot_pc sl = Prefilling) (slots ?t) = cnt (\<lambda>sl. slot_pc sl = Prefilling) (slots s)"
        unfolding t cnt_map pc ..
      then show ?thesis using ok free by (simp add: users_def t exec_ok_def)
    qed
    moreover have "batch_ok ?t" using nf by (simp add: batch_ok_def t)
    moreover have "list_all (\<lambda>sl. slot_pc sl = Exited) (slots ?t)" if "model_stopping ?t"
      using ok that by (auto simp: t exec_ok_def list_all_iff)
    ultimately show ?thesis using ok t by (simp add: exec_ok_def)
  qed
qed

lemma exec_ok_finish:
  assumes ok: "exec_ok s" and b: "batch s = Some ms"
  shows "exec_ok (decode_finish rc err s)"
proof -
  let ?t = "decode_finish rc err s"
  have t: "model_busy ?t = False" "batch ?t = None" "model_stopping ?t = model_stopping s" "decode_exited ?t = decode_exited s"
    "pending_count ?t = pending_count s" using b by (simp_all add: decode_finish_def)
  have fl: "decode_in_flight (slots s ! i) \<longleftrightarrow> i \<in> set ms" if "i < length (slots s)" for i
    using ok b that by (simp add: exec_ok_def batch_ok_def)
  let ?f = "\<lambda>sl. if decode_in_flight sl then finish_slot rc err sl else sl"
  have "slots ?t ! i = ?f (slots s ! i)" if "i < length (slots s)" for i
    using b that fl by (simp add: decode_finish_def)
  moreover have "length (slots ?t) = length (slots s)" using b by (simp add: decode_finish_def)
  ultimately have sl: "slots ?t = map ?f (slots s)" by (simp add: list_eq_iff_nth_eq)
  have sok: "\<forall>x \<in> set (slots s). slot_ok x" using ok by (simp add: exec_ok_def list_all_iff)
  have same: "slot_pc (?f x) = slot_pc x" for x by (simp add: finish_slot_def)
  have pend: "decode_pending (?f x) = decode_pending x" for x by (simp add: finish_slot_def)
  have "slot_ok (?f x)" if "slot_ok x" for x
    using that by (cases "decode_in_flight x") (simp_all add: slot_ok_def finish_slot_def)
  then have "list_all slot_ok (slots ?t)" using sok unfolding sl list_all_iff set_map by blast
  moreover have "pending_count ?t = int (cnt decode_pending (slots ?t))"
    using ok unfolding sl cnt_map pend by (simp add: t exec_ok_def)
  moreover have "users ?t = 0"
  proof -
    have "users s = 1" using ok b by (auto simp: exec_ok_def users_def split: if_splits)
    then have "cnt (\<lambda>sl. slot_pc sl = Prefilling) (slots s) = 0" using b by (simp add: users_def)
    then show ?thesis unfolding users_def sl cnt_map same by (simp add: t)
  qed
  moreover have "batch_ok ?t" by (simp add: batch_ok_def t sl cnt_map cnt_zero finish_slot_def)
  moreover have "list_all (\<lambda>sl. slot_pc sl = Exited) (slots ?t)" if "model_stopping ?t"
    using ok that by (auto simp: t sl exec_ok_def list_all_iff finish_slot_def)
  ultimately show ?thesis using ok t by (simp add: exec_ok_def)
qed

lemma exec_ok_step: "exec_step s a t \<Longrightarrow> exec_ok s \<Longrightarrow> exec_ok t"
proof (induction rule: exec_step.induct)
  case (prefill_begin i s t)
  then show ?case using exec_ok_prefill_begin by blast
next
  case (prefill_wake i s ok t)
  then show ?case using exec_ok_prefill_wake by blast
next
  case (prefill_leave i s)
  then show ?case using exec_ok_prefill_leave by blast
next
  case (eval_begin i s token t)
  then show ?case using exec_ok_eval_begin by blast
next
  case (eval_wake i s rc err t)
  then show ?case using exec_ok_eval_wake by blast
next
  case (collect s)
  then show ?case using exec_ok_collect by blast
next
  case (finish s rc err)
  then show ?case using exec_ok_finish by blast
next
  case (mark_cancelled i s)
  then show ?case using exec_ok_relabel(1) by blast
next
  case (withdraw i s)
  then show ?case using exec_ok_withdraw [of s i] by (metis prod.collapse)
next
  case (next_job i s)
  then show ?case using exec_ok_relabel(1) by blast
next
  case (slot_exit i s)
  then show ?case using exec_ok_exit by blast
next
  case (decode_stop s)
  then show ?case
    by (simp add: exec_ok_def users_def batch_ok_def server_request_decode_stop_def list_all_iff split: option.splits)
qed (simp_all add: exec_ok_def users_def batch_ok_def server_generation_enter_def server_generation_leave_def
    split: option.splits)

lemma exec_ok_init: "exec_init s \<Longrightarrow> exec_ok s"
  by (auto simp: exec_init_def exec_start_def exec_ok_def users_def batch_ok_def slot_ok_def idle_slot_def list_all_iff
      cnt_zero)

interpretation exec: inductive_invariant exec_init exec_step exec_ok
  by unfold_locales (auto intro: exec_ok_init exec_ok_step)

section \<open>Exclusive use and progress\<close>

definition demo_exec :: model_exec where
  "demo_exec = upd_slot 1 (\<lambda>sl. sl\<lparr>prefill_waiting := True, slot_pc := PrefillWait\<rparr>)
     (upd_slot 0 (\<lambda>sl. sl\<lparr>prefill_waiting := True, slot_pc := PrefillWait\<rparr>) (exec_start 2))"

lemma demo_exec_reachable: "reachable exec_init exec_step demo_exec"
proof -
  let ?w = "\<lambda>sl. sl\<lparr>prefill_waiting := True, slot_pc := PrefillWait\<rparr>"
  have a: "reachable exec_init exec_step (exec_start 2)" by (rule reachable.start) (unfold exec_init_def, rule exI [of _ 2], simp)
  have "exec_step (exec_start 2) (PrefillBegin 0) (upd_slot 0 ?w (exec_start 2))"
    by (rule exec_step.prefill_begin) (simp_all add: server_prefill_enter_begin_def exec_start_def idle_slot_def numeral_2_eq_2)
  with a have b: "reachable exec_init exec_step (upd_slot 0 ?w (exec_start 2))" by (rule reachable.extend)
  have "exec_step (upd_slot 0 ?w (exec_start 2)) (PrefillBegin 1) demo_exec"
    unfolding demo_exec_def by (rule exec_step.prefill_begin)
      (simp_all add: server_prefill_enter_begin_def exec_start_def idle_slot_def upd_slot_def numeral_2_eq_2)
  with b show ?thesis by (rule reachable.extend)
qed

lemma find_SomeD: "find P xs = Some x \<Longrightarrow> P x \<and> x \<in> set xs"
  by (induction xs) (auto split: if_splits)

lemma demo_exec_slots [simp]: "length (slots demo_exec) = 2" "slot_pc (slots demo_exec ! 0) = PrefillWait"
  "slot_pc (slots demo_exec ! Suc 0) = PrefillWait"
  by (simp_all add: demo_exec_def upd_slot_def exec_start_def numeral_2_eq_2)

text \<open>
  (C1) However the threads interleave, the model has at most one user at a time, a prefilling slot or the decode batch,
  and \<open>model_busy\<close> says exactly whether it has one; the pending counter is the number of slots with a
  pending token; and a slot waits for a token exactly while that token is pending, in flight or done, never two of them.
\<close>

theorem model_exclusive:
  assumes "reachable exec_init exec_step s"
  shows "cnt (\<lambda>sl. slot_pc sl = Prefilling) (slots s) + of_bool (batch s \<noteq> None) = of_bool (model_busy s)
    \<and> pending_count s = int (cnt decode_pending (slots s))
    \<and> list_all (\<lambda>sl. of_bool (decode_pending sl) + of_bool (decode_in_flight sl) + of_bool (decode_done sl)
        = (of_bool (slot_pc sl = EvalWait) :: nat)) (slots s)"
proof -
  have ok: "exec_ok s" by (rule exec.reachable_inv [OF assms])
  have "of_bool (decode_pending sl) + of_bool (decode_in_flight sl) + of_bool (decode_done sl)
      = (of_bool (slot_pc sl = EvalWait) :: nat)" if "slot_ok sl" for sl
    using that by (auto simp: slot_ok_def)
  with ok show ?thesis by (auto simp: exec_ok_def users_def list_all_iff split: if_splits)
qed

theorem model_exclusive_witness:
  "cnt (\<lambda>sl. slot_pc sl = Prefilling) (slots demo_exec) + of_bool (batch demo_exec \<noteq> None) = of_bool (model_busy demo_exec)
    \<and> pending_count demo_exec = int (cnt decode_pending (slots demo_exec))
    \<and> list_all (\<lambda>sl. of_bool (decode_pending sl) + of_bool (decode_in_flight sl) + of_bool (decode_done sl)
        = (of_bool (slot_pc sl = EvalWait) :: nat)) (slots demo_exec)"
  by (rule model_exclusive [OF demo_exec_reachable])

text \<open>The steps that move waiting work on, none of which depends on a client.\<close>

definition executor_action :: "action \<Rightarrow> bool" where
  "executor_action a \<longleftrightarrow>
     (case a of PrefillWake _ _ \<Rightarrow> True | PrefillLeave _ \<Rightarrow> True | EvalWake _ _ \<Rightarrow> True | Collect \<Rightarrow> True
      | Finish _ _ \<Rightarrow> True | _ \<Rightarrow> False)"

lemma next_prefill_exists:
  assumes "i < length (slots s)" "prefill_waiting (slots s ! i)" "last_prefill_slot s < length (slots s)"
  obtains j where "server_next_prefill_slot_locked s = Some j" "j < length (slots s)" "prefill_waiting (slots s ! j)"
proof -
  let ?n = "length (slots s)" let ?l = "last_prefill_slot s"
  obtain k where k: "1 \<le> k" "k < ?n + 1" "(?l + k) mod ?n = i"
    using assms(1,3) that by (cases "?l < i") (force intro: that [of "i - ?l"], force intro: that [of "i + ?n - ?l"])
  then have "i \<in> set (map (\<lambda>k. (?l + k) mod ?n) [1..<?n + 1])"
    unfolding set_map by (intro image_eqI [of _ _ k]) (simp_all del: upt_Suc)
  then have "\<exists>x \<in> set (map (\<lambda>k. (?l + k) mod ?n) [1..<?n + 1]). prefill_waiting (slots s ! x)"
    using assms(2) by blast
  then obtain j where j: "server_next_prefill_slot_locked s = Some j"
    unfolding server_next_prefill_slot_locked_def Let_def by (metis find_None_iff option.exhaust)
  note d = find_SomeD [OF j [unfolded server_next_prefill_slot_locked_def Let_def]]
  then have "j \<in> set (map (\<lambda>k. (?l + k) mod ?n) [1..<?n + 1])" "prefill_waiting (slots s ! j)"
    by (rule conjunct2, rule conjunct1)
  moreover have "0 < ?n" using assms(1) by linarith
  ultimately show ?thesis using that [OF j] by auto
qed

lemma upd_slot_frame [simp]:
  "length (slots (upd_slot i f s)) = length (slots s)" "last_prefill_slot (upd_slot i f s) = last_prefill_slot s"
  by (simp_all add: upd_slot_def)

lemma decode_frame [simp]:
  "length (slots (decode_collect s)) = length (slots s)" "last_prefill_slot (decode_collect s) = last_prefill_slot s"
  "length (slots (decode_finish rc e s)) = length (slots s)" "last_prefill_slot (decode_finish rc e s) = last_prefill_slot s"
  by (simp_all add: decode_collect_def decode_finish_def Let_def split: option.splits)

lemma withdraw_frame:
  "server_cancel_pending_decode_locked i s = (b, t) \<Longrightarrow> length (slots t) = length (slots s) \<and> last_prefill_slot t = last_prefill_slot s"
  by (auto simp: server_cancel_pending_decode_locked_def split: if_splits)

lemma eval_return_frame:
  "eval_token_return i s = (r, t) \<Longrightarrow> length (slots t) = length (slots s) \<and> last_prefill_slot t = last_prefill_slot s"
  by (auto simp: eval_token_return_def Let_def)

lemma eval_wake_frame:
  "server_eval_token_wake i s = Some (r, t) \<Longrightarrow> length (slots t) = length (slots s) \<and> last_prefill_slot t = last_prefill_slot s"
  by (auto simp: server_eval_token_wake_def split: if_splits prod.splits bool.splits dest!: eval_return_frame withdraw_frame)

lemma exec_step_last:
  "exec_step s a t \<Longrightarrow> length (slots t) = length (slots s)
    \<and> (last_prefill_slot t = last_prefill_slot s
       \<or> (\<exists>i < length (slots s). a = PrefillWake i True \<and> last_prefill_slot t = i))
    \<and> (\<forall>i. a = PrefillWake i True \<longrightarrow> last_prefill_slot t = i)"
proof (induction rule: exec_step.induct)
  case (eval_wake i s rc err t)
  then show ?case using eval_wake_frame by simp
next
  case (withdraw i s)
  then show ?case using withdraw_frame [of i s] by (cases "server_cancel_pending_decode_locked i s") simp
qed (auto simp: server_prefill_enter_begin_def server_prefill_enter_wake_def server_prefill_leave_def
    server_eval_token_begin_def server_generation_enter_def server_generation_leave_def
    server_request_decode_stop_def split: if_splits)

definition last_ok :: "model_exec \<Rightarrow> bool" where
  "last_ok s \<longleftrightarrow> last_prefill_slot s < length (slots s)"

interpretation last: inductive_invariant exec_init exec_step last_ok
proof
  show "last_ok s" if "exec_init s" for s using that by (auto simp: exec_init_def exec_start_def last_ok_def)
  show "last_ok t" if "last_ok s" "exec_step s a t" for s a t
    using exec_step_last [OF that(2)] that(1) by (auto simp: last_ok_def)
qed

lemma busy_progress:
  assumes "exec_ok s" "model_busy s"
  shows "\<exists>a t. exec_step s a t \<and> executor_action a \<and> t \<noteq> s"
proof (cases "batch s")
  case (Some ms)
  have "exec_step s (Finish 0 []) (decode_finish 0 [] s)" using Some by (intro exec_step.finish) simp
  moreover have "decode_finish 0 [] s \<noteq> s" using Some by (auto simp: decode_finish_def dest: arg_cong [where f = batch])
  moreover have "executor_action (Finish 0 [])" by (simp add: executor_action_def)
  ultimately show ?thesis by blast
next
  case None
  then have "0 < cnt (\<lambda>sl. slot_pc sl = Prefilling) (slots s)" using assms by (simp add: exec_ok_def users_def)
  then obtain i where "i < length (slots s)" "slot_pc (slots s ! i) = Prefilling"
    using cnt_zero [of "\<lambda>sl. slot_pc sl = Prefilling" "slots s"] by auto
  then have "exec_step s (PrefillLeave i) (server_prefill_leave i s)" by (rule exec_step.prefill_leave)
  moreover have "server_prefill_leave i s \<noteq> s"
    using assms(2) by (auto simp: server_prefill_leave_def dest: arg_cong [where f = model_busy])
  moreover have "executor_action (PrefillLeave i)" by (simp add: executor_action_def)
  ultimately show ?thesis by blast
qed

lemma pending_progress:
  assumes "exec_ok s" "\<not> model_busy s" "pending_count s > 0" "\<not> decode_exited s"
  shows "\<exists>a t. exec_step s a t \<and> executor_action a \<and> t \<noteq> s"
proof -
  have b: "batch s = None" using assms(1,2) by (auto simp: exec_ok_def users_def split: if_splits)
  have "filter (\<lambda>i. decode_pending (slots s ! i)) [0..<length (slots s)] \<noteq> []"
    using assms(1,3) cnt_indices [of decode_pending "slots s"] by (auto simp: exec_ok_def)
  then have "model_busy (decode_collect s)" by (simp add: decode_collect_def Let_def)
  then have "decode_collect s \<noteq> s" using assms(2) by auto
  moreover have "exec_step s Collect (decode_collect s)" using assms(4) b assms(2) by (rule exec_step.collect)
  moreover have "executor_action Collect" by (simp add: executor_action_def)
  ultimately show ?thesis by blast
qed

lemma prefill_progress:
  assumes "exec_ok s" "last_ok s" "\<not> model_busy s" "\<not> pending_count s > 0" "i < length (slots s)" "slot_pc (slots s ! i) = PrefillWait"
  shows "\<exists>a t. exec_step s a t \<and> executor_action a \<and> t \<noteq> s"
proof -
  have w: "prefill_waiting (slots s ! i)" using slot_ok_nth [OF assms(1,5)] assms(6) by (simp add: slot_ok_def)
  obtain j where j: "server_next_prefill_slot_locked s = Some j" "j < length (slots s)" "prefill_waiting (slots s ! j)"
    using next_prefill_exists [OF assms(5) w] assms(2) by (auto simp: last_ok_def)
  have pc: "slot_pc (slots s ! j) = PrefillWait" using slot_ok_nth [OF assms(1) j(2)] j(3) by (simp add: slot_ok_def)
  obtain b t where t: "server_prefill_enter_wake j s = Some (b, t)" "\<not> prefill_waiting (slots t ! j)"
    using assms(3,4) j(1,2) by (cases "stop_requested s \<or> job_cancelled (slots s ! j)")
      (auto simp: server_prefill_enter_wake_def upd_slot_def)
  have "exec_step s (PrefillWake j b) t" by (rule exec_step.prefill_wake [OF j(2) pc t(1)])
  moreover have "t \<noteq> s" using t(2) j(3) by auto
  moreover have "executor_action (PrefillWake j b)" by (simp add: executor_action_def)
  ultimately show ?thesis by blast
qed

lemma eval_progress:
  assumes "exec_ok s" "\<not> model_busy s" "\<not> pending_count s > 0" "i < length (slots s)" "slot_pc (slots s ! i) = EvalWait"
  shows "\<exists>a t. exec_step s a t \<and> executor_action a \<and> t \<noteq> s"
proof -
  have "batch s = None" using assms(1,2) by (auto simp: exec_ok_def users_def split: if_splits)
  then have "\<not> decode_in_flight (slots s ! i)" using assms(1,4) by (simp add: exec_ok_def batch_ok_def cnt_zero)
  moreover have "\<not> decode_pending (slots s ! i)" using assms(1,3,4) cnt_pos [of i "slots s" decode_pending] by (auto simp: exec_ok_def)
  ultimately have d: "decode_done (slots s ! i)" using slot_ok_nth [OF assms(1,4)] assms(5) by (simp add: slot_ok_def)
  obtain r e t where t: "eval_token_return i s = ((r, e), t)" by (metis prod.exhaust)
  then have "server_eval_token_wake i s = Some ((r, e), t)" using d by (simp add: server_eval_token_wake_def)
  then have "exec_step s (EvalWake i r) t" using assms(4,5) by (intro exec_step.eval_wake)
  moreover have "slot_pc (slots t ! i) = Working" using t assms(4) by (auto simp: eval_token_return_def Let_def upd_slot_def)
  then have "t \<noteq> s" using assms(5) by auto
  moreover have "executor_action (EvalWake i r)" by (simp add: executor_action_def)
  ultimately show ?thesis by blast
qed



section \<open>Round robin\<close>

text \<open>How many turns may still go to others before slot \<open>i\<close>, counting from the slot served last.\<close>

definition turns_ahead :: "nat \<Rightarrow> nat \<Rightarrow> nat \<Rightarrow> nat" where
  "turns_ahead n l i = (i + n - l - 1) mod n"

lemma turns_ahead_eq:
  assumes "j < n" "e < n" "(j + e + 1) mod n = i"
  shows "turns_ahead n j i = e"
proof (cases "j + e + 1 < n")
  case True
  then have "i + n - j - 1 = e + n" using assms by auto
  then show ?thesis using assms(2) by (simp add: turns_ahead_def)
next
  case False
  then have "(j + e + 1) mod n = (j + e + 1 - n) mod n" by (intro le_mod_geq) simp
  then have "i = j + e + 1 - n" using assms by simp
  then show ?thesis using assms False by (simp add: turns_ahead_def)
qed

lemma turns_ahead_pos:
  assumes "i < n" "l < n"
  shows "turns_ahead n l i < n" "(l + turns_ahead n l i + 1) mod n = i"
  using assms by (auto simp: turns_ahead_def mod_if)

lemma next_prefill_first:
  assumes "server_next_prefill_slot_locked s = Some j"
  obtains k where "0 < k" "k \<le> length (slots s)" "j = (last_prefill_slot s + k) mod length (slots s)"
    "\<And>m. 0 < m \<Longrightarrow> m < k \<Longrightarrow> \<not> prefill_waiting (slots s ! ((last_prefill_slot s + m) mod length (slots s)))"
proof -
  let ?n = "length (slots s)"
  let ?f = "\<lambda>k. (last_prefill_slot s + k) mod ?n"
  obtain p where p: "p < length [1..<?n + 1]" "j = map ?f [1..<?n + 1] ! p"
    "\<forall>q < p. \<not> prefill_waiting (slots s ! (map ?f [1..<?n + 1] ! q))"
    using assms unfolding server_next_prefill_slot_locked_def Let_def find_Some_iff by auto
  have nth: "map ?f [1..<?n + 1] ! q = ?f (Suc q)" if "q < ?n" for q using that by (simp del: upt_Suc)
  show ?thesis
  proof (rule that [of "Suc p"])
    have pn: "p < ?n" using p(1) by (simp del: upt_Suc)
    then show "Suc p \<le> ?n" by simp
    show "j = ?f (Suc p)" using p(2) nth [OF pn] by simp
    show "\<not> prefill_waiting (slots s ! ?f m)" if "0 < m" "m < Suc p" for m
    proof -
      from that obtain q where q: "m = Suc q" "q < p" by (cases m) auto
      then have "map ?f [1..<?n + 1] ! q = ?f m" using nth [of q] pn by simp
      then show ?thesis using p(3) q(2) by metis
    qed
  qed simp
qed

lemma grant_closer:
  assumes "server_next_prefill_slot_locked s = Some j" "j \<noteq> i" "prefill_waiting (slots s ! i)"
    and "i < length (slots s)" "last_ok s"
  shows "turns_ahead (length (slots s)) j i < turns_ahead (length (slots s)) (last_prefill_slot s) i"
proof -
  let ?n = "length (slots s)" let ?l = "last_prefill_slot s" let ?d = "turns_ahead ?n ?l i"
  have l: "?l < ?n" using assms(5) by (simp add: last_ok_def)
  note d = turns_ahead_pos [OF assms(4) l]
  obtain k where k: "0 < k" "k \<le> ?n" "j = (?l + k) mod ?n"
    "\<And>m. 0 < m \<Longrightarrow> m < k \<Longrightarrow> \<not> prefill_waiting (slots s ! ((?l + m) mod ?n))"
    using next_prefill_first [OF assms(1)] by blast
  have "k \<le> ?d + 1" using k(4) [of "?d + 1"] d(2) assms(3) by (metis add.assoc not_le zero_less_Suc Suc_eq_plus1)
  moreover have "k \<noteq> ?d + 1" using k(3) d(2) assms(2) by (metis add.assoc)
  ultimately have kd: "k \<le> ?d" by simp
  have "(j + (?d - k) + 1) mod ?n = (?l + k + (?d - k) + 1) mod ?n"
    unfolding k(3) by (metis add.assoc mod_add_left_eq)
  also have "\<dots> = i" using kd d(2) by simp
  finally have "turns_ahead ?n j i = ?d - k"
    using turns_ahead_eq [of j ?n "?d - k" i] d(1) mod_less_divisor [of ?n "?l + k"] l unfolding k(3) by linarith
  then show ?thesis using kd k(1) by simp
qed

text \<open>A stretch of steps during which slot \<open>i\<close> waits for its turn all along.\<close>

inductive waiting_run :: "nat \<Rightarrow> model_exec \<Rightarrow> action list \<Rightarrow> model_exec \<Rightarrow> bool" for i :: nat where
  stay: "slot_pc (slots s ! i) = PrefillWait \<Longrightarrow> waiting_run i s [] s"
| go: "slot_pc (slots s ! i) = PrefillWait \<Longrightarrow> exec_step s a t \<Longrightarrow> waiting_run i t as u \<Longrightarrow> waiting_run i s (a # as) u"

definition is_grant :: "action \<Rightarrow> bool" where
  "is_grant a \<longleftrightarrow> (case a of PrefillWake _ b \<Rightarrow> b | _ \<Rightarrow> False)"

lemma waiting_run_waits: "waiting_run i s as u \<Longrightarrow> slot_pc (slots s ! i) = PrefillWait"
  by (induction rule: waiting_run.induct) auto

lemma grant_turn:
  assumes "exec_step s (PrefillWake j True) t"
  shows "server_next_prefill_slot_locked s = Some j \<and> slot_pc (slots t ! j) = Prefilling"
proof (rule prefill_wakeE [OF assms])
  assume i: "j < length (slots s)" and w: "server_prefill_enter_wake j s = Some (True, t)"
  from w have "server_next_prefill_slot_locked s = Some j"
    by (simp add: server_prefill_enter_wake_def split: if_splits)
  moreover have "slots t = slots (upd_slot j (\<lambda>sl. sl\<lparr>prefill_waiting := False, slot_pc := Prefilling\<rparr>) s)"
    using w by (simp add: server_prefill_enter_wake_def split: if_splits) force
  ultimately show ?thesis using i by (simp add: upd_slot_def)
qed

lemma step_turns:
  assumes ok: "exec_ok s" "last_ok s" and i: "i < length (slots s)" and w: "slot_pc (slots s ! i) = PrefillWait"
    and st: "exec_step s a t" and w': "slot_pc (slots t ! i) = PrefillWait"
  shows "of_bool (is_grant a) + turns_ahead (length (slots t)) (last_prefill_slot t) i
    \<le> turns_ahead (length (slots s)) (last_prefill_slot s) i"
proof (cases "is_grant a")
  case True
  then obtain j where a: "a = PrefillWake j True" by (cases a) (simp_all add: is_grant_def)
  note g = grant_turn [OF st [unfolded a]]
  have "j \<noteq> i" using g w' by auto
  moreover have "prefill_waiting (slots s ! i)" using slot_ok_nth [OF ok(1) i] w by (simp add: slot_ok_def)
  ultimately have "turns_ahead (length (slots s)) j i < turns_ahead (length (slots s)) (last_prefill_slot s) i"
    using grant_closer g i ok(2) by blast
  moreover have "last_prefill_slot t = j" "length (slots t) = length (slots s)" using exec_step_last [OF st] unfolding a by blast+
  ultimately show ?thesis using True by simp
next
  case False
  have "a \<noteq> PrefillWake k True" for k using False by (auto simp: is_grant_def)
  then have "last_prefill_slot t = last_prefill_slot s" "length (slots t) = length (slots s)"
    using exec_step_last [OF st] by blast+
  then show ?thesis using False by simp
qed

lemma waiting_run_turns:
  "waiting_run i s as u \<Longrightarrow> exec_ok s \<Longrightarrow> last_ok s \<Longrightarrow> i < length (slots s)
    \<Longrightarrow> cnt is_grant as \<le> turns_ahead (length (slots s)) (last_prefill_slot s) i"
proof (induction rule: waiting_run.induct)
  case (go s a t as u)
  have "length (slots t) = length (slots s)" using exec_step_last [OF go(2)] by blast
  moreover have "last_ok t" using last.step_inv go by blast
  ultimately have "cnt is_grant as \<le> turns_ahead (length (slots t)) (last_prefill_slot t) i"
    using go.IH exec_ok_step [OF go(2)] go.prems by simp
  moreover have "of_bool (is_grant a) + turns_ahead (length (slots t)) (last_prefill_slot t) i
      \<le> turns_ahead (length (slots s)) (last_prefill_slot s) i"
    using step_turns [OF go.prems(1,2,3) go(1,2)] waiting_run_waits [OF go(3)] by blast
  moreover have "cnt is_grant (a # as) = of_bool (is_grant a) + cnt is_grant as" by (simp add: cnt_def)
  ultimately show ?case by linarith
qed (simp add: cnt_def)

text \<open>
  (C3) Prefill turns are fair: while a slot keeps waiting, whatever the other threads do, fewer turns than there are
  slots go to others; so the slot is overtaken at most once by each of them.
\<close>

theorem prefill_bounded_bypass:
  assumes "reachable exec_init exec_step s" and "i < length (slots s)" and "waiting_run i s as t"
  shows "cnt is_grant as < length (slots s)"
proof -
  have ok: "exec_ok s" "last_ok s" using assms(1) by (rule exec.reachable_inv, rule last.reachable_inv)
  then show ?thesis using waiting_run_turns [OF assms(3) ok assms(2)] turns_ahead_pos(1) [OF assms(2)]
    by (force simp: last_ok_def)
qed

definition demo_granted :: model_exec where
  "demo_granted = (upd_slot 0 (\<lambda>sl. sl\<lparr>prefill_waiting := False, slot_pc := Prefilling\<rparr>) demo_exec)
     \<lparr>last_prefill_slot := 0, model_busy := True\<rparr>"

lemma demo_run: "waiting_run 1 demo_exec [PrefillWake 0 True] demo_granted"
proof (rule waiting_run.go)
  have "server_next_prefill_slot_locked demo_exec = Some 0"
    by (simp add: server_next_prefill_slot_locked_def demo_exec_def exec_start_def upd_slot_def numeral_2_eq_2)
  then have "server_prefill_enter_wake 0 demo_exec = Some (True, demo_granted)"
    by (simp add: server_prefill_enter_wake_def demo_granted_def)
      (simp add: demo_exec_def exec_start_def upd_slot_def idle_slot_def numeral_2_eq_2)
  then show "exec_step demo_exec (PrefillWake 0 True) demo_granted" by (intro exec_step.prefill_wake) simp_all
  have "slot_pc (slots demo_granted ! 1) = PrefillWait"
    by (simp add: demo_granted_def upd_slot_def)
  then show "waiting_run 1 demo_granted [] demo_granted" by (rule waiting_run.stay)
qed simp

theorem prefill_bounded_bypass_witness: "cnt is_grant [PrefillWake 0 True] < length (slots demo_exec)"
  by (rule prefill_bounded_bypass [OF demo_exec_reachable _ demo_run]) simp

end
