(* ===== verification/Live_State.thy ===== *)
theory Live_State
  imports Stream_Text
begin

text \<open>
  What a resident slot remembers of the conversation it holds (\<open>ds4_server.c\<close>): the visible
  text a client will replay, with the byte offsets of its images, and the tool-call ids generated at
  the live frontier. A request is recognised as a continuation when its normalised prompt extends the
  remembered text, or when it answers exactly the remembered calls. The fields of \<open>request\<close> are
  those these functions and the dispatcher read; a pointer that the callers never pass as
  \<open>NULL\<close> is a value. The mutex around each function makes it one step.
\<close>

section \<open>Requests\<close>

datatype req_kind = REQ_CHAT | REQ_COMPLETION

datatype api_style = API_OPENAI | API_ANTHROPIC | API_RESPONSES

record request =
  req_kind :: req_kind
  req_api :: api_style
  prompt :: "int list"
  prompt_text :: "string option"
  image_count :: nat
  image_markers :: "string list option"
  responses_requires_live_tool_state :: bool
  responses_live_call_ids :: stop_list
  anthropic_requires_live_tool_state :: bool
  anthropic_live_call_ids :: stop_list

section \<open>Visible keys\<close>

text \<open>The key is the offsets; \<open>count\<close> is their number.\<close>

type_synonym visible_image_key = "nat list"

definition blank_span :: "nat \<Rightarrow> nat \<Rightarrow> string \<Rightarrow> string" where
  "blank_span pos len key = take pos key @ replicate len (CHR 0x1E) @ drop (pos + len) key"

fun visible_key_loop :: "string \<Rightarrow> string list \<Rightarrow> nat \<Rightarrow> string \<Rightarrow> visible_image_key \<Rightarrow> string option \<times> visible_image_key" where
  "visible_key_loop text [] cursor key images = (Some key, images)"
| "visible_key_loop text (m # ms) cursor key images =
     (case strstr m (drop cursor text) of
        None \<Rightarrow> (None, images)
      | Some off \<Rightarrow>
          if m = [] then (None, images)
          else visible_key_loop text ms (cursor + off + length m) (blank_span (cursor + off) (length m) key)
                 (images @ [cursor + off]))"

definition visible_prompt_key :: "request \<Rightarrow> string \<Rightarrow> string option \<times> visible_image_key" where
  "visible_prompt_key req text =
     (if image_count req > 16 \<or> (image_count req \<noteq> 0 \<and> image_markers req = None) then (None, [])
      else visible_key_loop text
             (case image_markers req of None \<Rightarrow> [] | Some ms \<Rightarrow> take (image_count req) ms) 0 text [])"

definition visible_image_prefix_matches :: "visible_image_key \<Rightarrow> visible_image_key \<Rightarrow> nat \<Rightarrow> bool" where
  "visible_image_prefix_matches incoming old boundary \<longleftrightarrow>
     \<not> length incoming < length old
     \<and> list_all (\<lambda>i. incoming ! i = old ! i) [0..<length old]
     \<and> (length incoming = length old \<or> incoming ! length old \<ge> boundary)"

section \<open>Tool-call ids\<close>

definition id_list_contains :: "stop_list \<Rightarrow> string option \<Rightarrow> bool" where
  "id_list_contains ids i =
     (case i of None \<Rightarrow> False | Some s \<Rightarrow> s \<noteq> [] \<and> list_ex (\<lambda>v. v = s) (stop_v ids))"

definition id_list_push_unique :: "stop_list \<Rightarrow> string option \<Rightarrow> stop_list" where
  "id_list_push_unique ids i =
     (case i of
        None \<Rightarrow> ids
      | Some s \<Rightarrow> if s = [] \<or> id_list_contains ids (Some s) then ids else stop_list_push ids (Some s))"

section \<open>Live states\<close>

record visible_live_state =
  vl_valid :: bool
  vl_live_tokens :: int
  vl_visible_text :: "string option"
  vl_visible_len :: nat
  vl_images :: visible_image_key

record live_tool_state = visible_live_state +
  call_ids :: stop_list

definition live_tool_state_clear_locked :: "live_tool_state \<Rightarrow> live_tool_state" where
  "live_tool_state_clear_locked st =
     st\<lparr>call_ids := stop_list_clear (call_ids st), vl_visible_text := None, vl_visible_len := 0, vl_images := [],
        vl_valid := False, vl_live_tokens := 0\<rparr>"

definition visible_live_clear_locked :: "visible_live_state \<Rightarrow> visible_live_state" where
  "visible_live_clear_locked st =
     st\<lparr>vl_visible_text := None, vl_visible_len := 0, vl_images := [], vl_live_tokens := 0, vl_valid := False\<rparr>"

text \<open>The three bindings of a slot, and \<open>ds4_session_pos\<close> of its session as an argument where it is read.\<close>

record live_bindings =
  responses_live :: live_tool_state
  anthropic_live :: live_tool_state
  thinking_live :: visible_live_state

definition thinking_live_clear :: "live_bindings \<Rightarrow> live_bindings" where
  "thinking_live_clear b = b\<lparr>thinking_live := visible_live_clear_locked (thinking_live b)\<rparr>"

definition responses_live_clear :: "live_bindings \<Rightarrow> live_bindings" where
  "responses_live_clear b = b\<lparr>responses_live := live_tool_state_clear_locked (responses_live b)\<rparr>"

definition anthropic_live_clear :: "live_bindings \<Rightarrow> live_bindings" where
  "anthropic_live_clear b = b\<lparr>anthropic_live := live_tool_state_clear_locked (anthropic_live b)\<rparr>"

definition request_live_state_clear :: "live_bindings \<Rightarrow> live_bindings" where
  "request_live_state_clear b = thinking_live_clear (anthropic_live_clear (responses_live_clear b))"

definition thinking_live_remember :: "string \<Rightarrow> request \<Rightarrow> int \<Rightarrow> live_bindings \<Rightarrow> live_bindings" where
  "thinking_live_remember visible req pos b =
     (if visible = [] then b
      else let (key, imgs) = visible_prompt_key req visible
           in b\<lparr>thinking_live := (visible_live_clear_locked (thinking_live b))
                 \<lparr>vl_visible_text := key, vl_visible_len := (case key of None \<Rightarrow> 0 | Some k \<Rightarrow> length k),
                  vl_images := imgs, vl_live_tokens := pos, vl_valid := (key \<noteq> None)\<rparr>\<rparr>)"

text \<open>\<open>calls\<close> is the list of ids of the generated calls; \<open>None\<close> is a null \<open>tool_calls\<close> pointer.\<close>

definition responses_live_remember ::
  "string \<Rightarrow> string option list option \<Rightarrow> request \<Rightarrow> int \<Rightarrow> live_bindings \<Rightarrow> live_bindings" where
  "responses_live_remember visible calls req pos b =
     (if visible = [] then b
      else let (key, imgs) = visible_prompt_key req visible;
               cleared = live_tool_state_clear_locked (responses_live b)
           in b\<lparr>responses_live := cleared
                 \<lparr>vl_visible_text := key, vl_visible_len := (case key of None \<Rightarrow> 0 | Some k \<Rightarrow> length k),
                  vl_images := imgs,
                  call_ids := (case calls of None \<Rightarrow> call_ids cleared
                               | Some cs \<Rightarrow> foldl id_list_push_unique (call_ids cleared) cs),
                  vl_live_tokens := pos, vl_valid := (key \<noteq> None)\<rparr>\<rparr>)"

definition anthropic_live_remember :: "string option list \<Rightarrow> int \<Rightarrow> live_bindings \<Rightarrow> live_bindings" where
  "anthropic_live_remember calls pos b =
     (if calls = [] then b
      else let cleared = live_tool_state_clear_locked (anthropic_live b);
               ids = foldl id_list_push_unique (call_ids cleared) calls
           in b\<lparr>anthropic_live := cleared\<lparr>call_ids := ids, vl_live_tokens := pos, vl_valid := (stop_v ids \<noteq> [])\<rparr>\<rparr>)"

definition responses_live_has_call_id :: "live_bindings list \<Rightarrow> string option \<Rightarrow> bool" where
  "responses_live_has_call_id bs i \<longleftrightarrow>
     i \<noteq> None \<and> i \<noteq> Some [] \<and>
     list_ex (\<lambda>b. vl_valid (responses_live b) \<and> id_list_contains (call_ids (responses_live b)) i) bs"

definition anthropic_live_has_call_id :: "live_bindings list \<Rightarrow> string option \<Rightarrow> bool" where
  "anthropic_live_has_call_id bs i \<longleftrightarrow>
     i \<noteq> None \<and> i \<noteq> Some [] \<and>
     list_ex (\<lambda>b. vl_valid (anthropic_live b) \<and> id_list_contains (call_ids (anthropic_live b)) i) bs"

text \<open>The common body of \<open>responses_live_matches_request\<close> and \<open>anthropic_live_matches_request\<close>.\<close>

definition live_matches :: "live_tool_state \<Rightarrow> stop_list \<Rightarrow> int \<Rightarrow> bool" where
  "live_matches st ids live_tokens \<longleftrightarrow>
     stop_v ids \<noteq> [] \<and> vl_valid st \<and> vl_live_tokens st = live_tokens
     \<and> length (stop_v (call_ids st)) = length (stop_v ids)
     \<and> list_all (\<lambda>v. id_list_contains (call_ids st) (Some v)) (stop_v ids)"

definition responses_live_matches_request :: "live_bindings \<Rightarrow> stop_list \<Rightarrow> int \<Rightarrow> bool" where
  "responses_live_matches_request b ids live_tokens = live_matches (responses_live b) ids live_tokens"

definition anthropic_live_matches_request :: "live_bindings \<Rightarrow> stop_list \<Rightarrow> int \<Rightarrow> bool" where
  "anthropic_live_matches_request b ids live_tokens = live_matches (anthropic_live b) ids live_tokens"

definition live_state_contains_all :: "live_tool_state \<Rightarrow> stop_list \<Rightarrow> bool" where
  "live_state_contains_all st ids \<longleftrightarrow>
     vl_valid st \<and> stop_v ids \<noteq> [] \<and> list_all (\<lambda>v. id_list_contains (call_ids st) (Some v)) (stop_v ids)"

section \<open>The visible key\<close>

lemma blank_span_length: "pos + len \<le> length key \<Longrightarrow> length (blank_span pos len key) = length key"
  by (simp add: blank_span_def)

lemma blank_span_nth:
  "pos + len \<le> length key \<Longrightarrow> i < length key \<Longrightarrow>
    blank_span pos len key ! i = (if pos \<le> i \<and> i < pos + len then CHR 0x1E else key ! i)"
  by (auto simp: blank_span_def nth_append)

text \<open>The images found, as spans of the text.\<close>

definition in_span :: "(nat \<times> nat) list \<Rightarrow> nat \<Rightarrow> bool" where
  "in_span spans i \<longleftrightarrow> list_ex (\<lambda>(pos, len). pos \<le> i \<and> i < pos + len) spans"

fun spans_from :: "nat \<Rightarrow> (nat \<times> nat) list \<Rightarrow> bool" where
  "spans_from c [] \<longleftrightarrow> True"
| "spans_from c ((pos, len) # ss) \<longleftrightarrow> c \<le> pos \<and> 0 < len \<and> spans_from (pos + len) ss"

lemma visible_key_loop_spec:
  assumes "visible_key_loop text ms cursor key images = (Some k, imgs)" and "length key = length text" and "cursor \<le> length text"
  shows "\<exists>offs. imgs = images @ offs \<and> length offs = length ms \<and> length k = length text
    \<and> spans_from cursor (zip offs (map length ms))
    \<and> list_all2 (\<lambda>pos m. prefix m (drop pos text)) offs ms
    \<and> (\<forall>i < length text. k ! i = (if in_span (zip offs (map length ms)) i then CHR 0x1E else key ! i))"
  using assms
proof (induction ms arbitrary: cursor key images)
  case Nil
  then show ?case by (auto simp: in_span_def)
next
  case (Cons m ms)
  then obtain off where off: "strstr m (drop cursor text) = Some off" "m \<noteq> []"
    by (auto split: option.splits if_splits)
  let ?pos = "cursor + off"
  have pre: "prefix m (drop ?pos text)" using strstr_Some_prefix [OF off(1)] by (simp add: add.commute)
  then have le: "?pos + length m \<le> length text" using off(2) prefix_length_le [OF pre] by (cases m) auto
  let ?key = "blank_span ?pos (length m) key"
  have "visible_key_loop text ms (?pos + length m) ?key (images @ [?pos]) = (Some k, imgs)"
    using Cons.prems(1) off by simp
  from Cons.IH [OF this _ le] blank_span_length [of ?pos "length m" key] le Cons.prems(2)
  obtain offs where o: "imgs = (images @ [?pos]) @ offs" "length offs = length ms" "length k = length text"
    "spans_from (?pos + length m) (zip offs (map length ms))" "list_all2 (\<lambda>pos m. prefix m (drop pos text)) offs ms"
    "\<forall>i < length text. k ! i = (if in_span (zip offs (map length ms)) i then CHR 0x1E else ?key ! i)" by auto
  have "\<forall>i < length text. k ! i = (if in_span (zip (?pos # offs) (map length (m # ms))) i then CHR 0x1E else key ! i)"
    using o(6) blank_span_nth [of ?pos "length m" key] le Cons.prems(2) by (simp add: in_span_def)
  then show ?case using o pre off(2) by (intro exI [of _ "?pos # offs"]) simp
qed

definition image_spans :: "request \<Rightarrow> visible_image_key \<Rightarrow> (nat \<times> nat) list" where
  "image_spans req imgs =
     zip imgs (map length (case image_markers req of None \<Rightarrow> [] | Some ms \<Rightarrow> take (image_count req) ms))"

lemma visible_prompt_key_spec:
  assumes "visible_prompt_key req text = (Some k, imgs)"
  shows "length k = length text" "spans_from 0 (image_spans req imgs)" "map fst (image_spans req imgs) = imgs"
    "\<And>i. i < length text \<Longrightarrow> k ! i = (if in_span (image_spans req imgs) i then CHR 0x1E else text ! i)"
proof -
  let ?ms = "case image_markers req of None \<Rightarrow> [] | Some ms \<Rightarrow> take (image_count req) ms"
  have "visible_key_loop text ?ms 0 text [] = (Some k, imgs)"
    using assms by (simp add: visible_prompt_key_def split: if_splits)
  note f = visible_key_loop_spec [OF this refl le0]
  then show "length k = length text" by blast
  from f show "spans_from 0 (image_spans req imgs)" by (auto simp: image_spans_def)
  from f show "map fst (image_spans req imgs) = imgs" by (auto simp: image_spans_def)
  show "k ! i = (if in_span (image_spans req imgs) i then CHR 0x1E else text ! i)" if "i < length text" for i
    using f that by (auto simp: image_spans_def)
qed

lemma spans_from_sorted: "spans_from c ss \<Longrightarrow> sorted (map fst ss) \<and> list_all (\<lambda>s. c \<le> fst s) ss"
  by (induction c ss rule: spans_from.induct) (fastforce simp: list_all_iff)+

text \<open>
  A visible continuation is the same conversation: when the normalised new prompt extends the remembered one and the
  image offsets match, the remembered images are the first images of the new prompt, at the same offsets, every other
  image comes after the remembered text, and every byte of the remembered text that belongs to no image is unchanged.
\<close>

lemma visible_match_sound:
  assumes old: "visible_prompt_key r1 t1 = (Some k1, i1)" and new: "visible_prompt_key r2 t2 = (Some k2, i2)"
    and imgs: "visible_image_prefix_matches i2 i1 (length k1)" and pre: "prefix k1 k2"
  shows "take (length i1) i2 = i1 \<and> list_all (\<lambda>off. length t1 \<le> off) (drop (length i1) i2)
    \<and> (\<forall>i < length t1. \<not> in_span (image_spans r1 i1) i \<longrightarrow> \<not> in_span (image_spans r2 i2) i \<longrightarrow> t2 ! i = t1 ! i)"
proof -
  note o = visible_prompt_key_spec [OF old] and n = visible_prompt_key_spec [OF new]
  have len: "length i1 \<le> length i2" using imgs by (simp add: visible_image_prefix_matches_def)
  have "take (length i1) i2 = i1"
    using imgs len by (intro nth_equalityI) (auto simp: visible_image_prefix_matches_def list_all_iff)
  moreover have "list_all (\<lambda>off. length t1 \<le> off) (drop (length i1) i2)"
  proof (cases "length i1 < length i2")
    case True
    then have "length t1 \<le> i2 ! length i1" using imgs o(1) by (simp add: visible_image_prefix_matches_def)
    moreover have "sorted i2" using spans_from_sorted [OF n(2)] n(3) by simp
    ultimately show ?thesis using True
      by (auto simp: list_all_length intro: order_trans [OF _ sorted_nth_mono])
  qed simp
  moreover have "t2 ! i = t1 ! i"
    if i: "i < length t1" "\<not> in_span (image_spans r1 i1) i" "\<not> in_span (image_spans r2 i2) i" for i
  proof -
    have "length t1 \<le> length t2" using prefix_length_le [OF pre] o(1) n(1) by simp
    moreover have "k2 ! i = k1 ! i" using pre i(1) o(1) by (auto simp: prefix_def nth_append)
    ultimately show ?thesis using o(4) [OF i(1)] n(4) [of i] i by simp
  qed
  ultimately show ?thesis by blast
qed

definition demo_request :: "string list \<Rightarrow> request" where
  "demo_request ms = \<lparr>req_kind = REQ_CHAT, req_api = API_OPENAI, prompt = [], prompt_text = None,
     image_count = length ms, image_markers = Some ms, responses_requires_live_tool_state = False,
     responses_live_call_ids = stop_list_empty, anthropic_requires_live_tool_state = False,
     anthropic_live_call_ids = stop_list_empty\<rparr>"

section \<open>Tool-call bindings\<close>

lemma push_unique_ids:
  "distinct (stop_v ids) \<Longrightarrow> distinct (stop_v (id_list_push_unique ids i))
    \<and> set (stop_v (id_list_push_unique ids i)) = set (stop_v ids) \<union> {s. i = Some s \<and> s \<noteq> []}"
  by (cases i) (auto simp: id_list_push_unique_def id_list_contains_def stop_list_push_def list_ex_iff)

lemma push_all_ids:
  "distinct (stop_v ids) \<Longrightarrow> distinct (stop_v (foldl id_list_push_unique ids calls))
    \<and> set (stop_v (foldl id_list_push_unique ids calls)) = set (stop_v ids) \<union> {s. Some s \<in> set calls \<and> s \<noteq> []}"
proof (induction calls arbitrary: ids)
  case (Cons c calls)
  from push_unique_ids [OF Cons.prems, of c] Cons.IH [of "id_list_push_unique ids c"] show ?case by auto
qed simp

lemma live_matches_iff:
  assumes "distinct (stop_v ids)" "distinct (stop_v (call_ids st))" "[] \<notin> set (stop_v (call_ids st))"
  shows "live_matches st ids p \<longleftrightarrow> stop_v ids \<noteq> [] \<and> vl_valid st \<and> vl_live_tokens st = p
    \<and> set (stop_v ids) = set (stop_v (call_ids st))"
proof -
  let ?c = "stop_v (call_ids st)" let ?i = "stop_v ids"
  have con: "list_all (\<lambda>v. id_list_contains (call_ids st) (Some v)) ?i \<longleftrightarrow> set ?i \<subseteq> set ?c"
    using assms(3) by (auto simp: list_all_iff id_list_contains_def list_ex_iff)
  have "length ?c = length ?i \<and> set ?i \<subseteq> set ?c \<longleftrightarrow> set ?i = set ?c"
    using assms(1,2) card_subset_eq [of "set ?c" "set ?i"] by (auto simp: distinct_card [symmetric])
  then show ?thesis unfolding live_matches_def con by blast
qed

text \<open>
  A tool-result request continues a live turn only if it answers exactly that turn: after the calls of a turn are
  remembered, a list of distinct ids matches exactly when the frontier is the remembered one and the ids are the
  non-empty ids of the turn, no more and no fewer, in any order; before anything is remembered, nothing matches.
\<close>

lemma live_binding_exact:
  assumes "calls \<noteq> []" and "distinct (stop_v ids)"
  shows "(anthropic_live_matches_request (anthropic_live_remember calls pos b) ids p
      \<longleftrightarrow> stop_v ids \<noteq> [] \<and> p = pos \<and> set (stop_v ids) = {s. Some s \<in> set calls \<and> s \<noteq> []})
    \<and> \<not> anthropic_live_matches_request (request_live_state_clear b) ids p
    \<and> \<not> responses_live_matches_request (request_live_state_clear b) ids p"
proof -
  let ?c = "live_tool_state_clear_locked (anthropic_live b)"
  define cs where "cs = foldl id_list_push_unique (call_ids ?c) calls"
  define st where "st = ?c\<lparr>call_ids := cs, vl_live_tokens := pos, vl_valid := (stop_v cs \<noteq> [])\<rparr>"
  have e: "stop_v (call_ids ?c) = []" by (simp add: live_tool_state_clear_locked_def stop_list_clear_def)
  have i: "distinct (stop_v cs)" "set (stop_v cs) = {s. Some s \<in> set calls \<and> s \<noteq> []}"
    using push_all_ids [of "call_ids ?c" calls] e unfolding cs_def by simp_all
  have "anthropic_live (anthropic_live_remember calls pos b) = st"
    using assms(1) by (simp add: anthropic_live_remember_def Let_def st_def cs_def)
  moreover have "live_matches st ids p \<longleftrightarrow> stop_v ids \<noteq> [] \<and> p = pos \<and> set (stop_v ids) = set (stop_v cs)"
  proof -
    have st: "call_ids st = cs" "vl_live_tokens st = pos" "vl_valid st = (stop_v cs \<noteq> [])" by (simp_all add: st_def)
    have "[] \<notin> set (stop_v cs)" using i(2) by simp
    then show ?thesis using live_matches_iff [OF assms(2), of st p] i(1) unfolding st by (metis set_empty)
  qed
  moreover have "\<not> live_matches (live_tool_state_clear_locked st) ids p" for st
    by (simp add: live_matches_def live_tool_state_clear_locked_def)
  ultimately show ?thesis using i(2)
    by (simp add: anthropic_live_matches_request_def responses_live_matches_request_def request_live_state_clear_def
        thinking_live_clear_def anthropic_live_clear_def responses_live_clear_def)
qed

definition demo_live :: live_tool_state where
  "demo_live = \<lparr>vl_valid = False, vl_live_tokens = 0, vl_visible_text = None, vl_visible_len = 0, vl_images = [],
     call_ids = stop_list_empty\<rparr>"

definition demo_bindings :: live_bindings where
  "demo_bindings = \<lparr>responses_live = demo_live, anthropic_live = demo_live,
     thinking_live = \<lparr>vl_valid = False, vl_live_tokens = 0, vl_visible_text = None, vl_visible_len = 0, vl_images = []\<rparr>\<rparr>"

end
