(* ===== verification/Job_Queue.thy ===== *)
theory Job_Queue
  imports Live_State "HOL-Library.Multiset"
begin

text \<open>
  The request queue of \<open>ds4_server.c\<close> and its dispatcher: jobs in a singly linked list with head
  and tail pointers, assignment of jobs to resident slots by score, the slot and single-worker
  threads, cancellation by the client thread, and shutdown. A job is a number standing for its address;
  the \<open>next\<close> fields of all jobs are one map. Each operation is the code of one critical section of
  \<open>server.mu\<close> (or of the job's own mutex). A list walk that never ends is the value \<open>None\<close>, so
  termination is a theorem about well-formed queues. What the engine says about a session is the
  parameter \<open>session_api\<close>.
\<close>

section \<open>State\<close>

record job_list =
  q_head :: "nat option"
  q_tail :: "nat option"
  q_next :: "nat \<Rightarrow> nat option"

text \<open>\<open>current\<close> is the local \<open>j\<close> of the slot's worker from taking the job until \<open>job_complete\<close>.\<close>

record 's server_slot =
  session :: 's
  bindings :: live_bindings
  assigned :: "nat option"
  current :: "nat option"
  busy :: bool

text \<open>
  \<open>detached\<close> holds the jobs whose client thread has left \<open>server_cancel_job\<close>'s critical section with
  its local \<open>detached\<close> set and not yet called \<open>job_complete\<close>; \<open>accepted\<close> records every job
  \<open>enqueue\<close> took, for the statements only.
\<close>

record 's server =
  slots :: "'s server_slot list"
  queue :: job_list
  job_req :: "nat \<Rightarrow> request"
  job_done :: "nat \<Rightarrow> bool"
  cancelled :: "nat \<Rightarrow> bool"
  stopping :: bool
  batched_mode :: bool
  detached :: "nat list"
  accepted :: "nat set"

record 's session_api =
  session_pos :: "'s \<Rightarrow> int"
  vision_prefix_matches :: "'s \<Rightarrow> request \<Rightarrow> bool"
  common_prefix :: "'s \<Rightarrow> int list \<Rightarrow> int"

definition INT_MIN :: int where "INT_MIN = -2147483648"

section \<open>The linked list\<close>

definition queue_append :: "nat \<Rightarrow> job_list \<Rightarrow> job_list" where
  "queue_append j q =
     (case q_tail q of
        Some t \<Rightarrow> q\<lparr>q_next := (q_next q)(t := Some j), q_tail := Some j\<rparr>
      | None \<Rightarrow> q\<lparr>q_head := Some j, q_tail := Some j\<rparr>)"

definition queue_unlink :: "nat option \<Rightarrow> nat \<Rightarrow> job_list \<Rightarrow> job_list" where
  "queue_unlink prev j q =
     (let q1 = (case prev of
                  Some p \<Rightarrow> q\<lparr>q_next := (q_next q)(p := q_next q j)\<rparr>
                | None \<Rightarrow> q\<lparr>q_head := q_next q j\<rparr>);
          q2 = (if q_tail q1 = Some j then q1\<lparr>q_tail := prev\<rparr> else q1)
      in q2\<lparr>q_next := (q_next q2)(j := None)\<rparr>)"

text \<open>
  The walk \<open>for (prev = NULL, j = head; j; prev = j, j = j->next)\<close> up to the first job for which
  \<open>f\<close> gives a result.
\<close>

partial_function (option) queue_find ::
  "(nat \<Rightarrow> nat option) \<Rightarrow> (nat \<Rightarrow> 'b option) \<Rightarrow> nat option \<Rightarrow> nat option \<Rightarrow> ((nat option \<times> nat \<times> 'b) option) option" where
  "queue_find nx f prev it =
     (case it of
        None \<Rightarrow> Some None
      | Some j \<Rightarrow> (case f j of
                    Some b \<Rightarrow> Some (Some (prev, j, b))
                  | None \<Rightarrow> queue_find nx f (Some j) (nx j)))"

section \<open>Choosing a slot\<close>

definition job_required_slot_locked :: "'s server_slot list \<Rightarrow> request \<Rightarrow> nat option" where
  "job_required_slot_locked sls r =
     find (\<lambda>i. responses_requires_live_tool_state r
               \<and> live_state_contains_all (responses_live (bindings (sls ! i))) (responses_live_call_ids r)
             \<or> anthropic_requires_live_tool_state r
               \<and> live_state_contains_all (anthropic_live (bindings (sls ! i))) (anthropic_live_call_ids r))
       [0..<length sls]"

definition visible_state_match :: "'a visible_live_state_scheme \<Rightarrow> int \<Rightarrow> string \<Rightarrow> visible_image_key \<Rightarrow> bool" where
  "visible_state_match st live_pos key images \<longleftrightarrow>
     vl_valid st \<and> vl_live_tokens st = live_pos
     \<and> (case vl_visible_text st of
          None \<Rightarrow> False
        | Some t \<Rightarrow> vl_visible_len st < length key
                    \<and> visible_image_prefix_matches images (vl_images st) (vl_visible_len st)
                    \<and> take (vl_visible_len st) key = take (vl_visible_len st) t)"

definition job_slot_score :: "'s session_api \<Rightarrow> 's server_slot list \<Rightarrow> nat \<Rightarrow> request \<Rightarrow> nat option \<Rightarrow> int" where
  "job_slot_score api sls i r required =
     (let slot = sls ! i
      in if busy slot \<or> assigned slot \<noteq> None then INT_MIN
         else if required \<noteq> None \<and> required \<noteq> Some i then INT_MIN
         else if required = Some i then INT_MAX
         else
           let live_pos = session_pos api (session slot);
               (key, images) = (case prompt_text r of None \<Rightarrow> (None, []) | Some t \<Rightarrow> visible_prompt_key r t);
               visible_match =
                 (case key of
                    None \<Rightarrow> False
                  | Some k \<Rightarrow>
                      if req_api r = API_RESPONSES
                      then visible_state_match (responses_live (bindings slot)) live_pos k images
                      else if req_kind r = REQ_CHAT
                      then visible_state_match (thinking_live (bindings slot)) live_pos k images
                      else False)
           in if visible_match then live_pos
              else if session_pos api (session slot) > 0 \<and> \<not> vision_prefix_matches api (session slot) r then -1
              else common_prefix api (session slot) (prompt r))"

definition best_slot :: "'s session_api \<Rightarrow> 's server_slot list \<Rightarrow> request \<Rightarrow> nat option" where
  "best_slot api sls r =
     (let required = job_required_slot_locked sls r
      in snd (foldl (\<lambda>(best_score, best) i.
                       let score = job_slot_score api sls i r required
                       in if score > best_score then (score, Some i) else (best_score, best))
                (INT_MIN, None) [0..<length sls]))"

section \<open>Dispatching\<close>

definition give_job :: "nat \<Rightarrow> nat \<Rightarrow> 's server_slot list \<Rightarrow> 's server_slot list" where
  "give_job j b sls = sls[b := (sls ! b)\<lparr>assigned := Some j, busy := True\<rparr>]"

partial_function (option) dispatch_jobs_locked :: "'s session_api \<Rightarrow> 's server \<Rightarrow> 's server option" where
  "dispatch_jobs_locked api s =
     (if \<not> batched_mode s then Some s
      else case queue_find (q_next (queue s)) (\<lambda>j. best_slot api (slots s) (job_req s j)) None (q_head (queue s)) of
             None \<Rightarrow> None
           | Some None \<Rightarrow> Some s
           | Some (Some (prev, j, b)) \<Rightarrow>
               dispatch_jobs_locked api (s\<lparr>queue := queue_unlink prev j (queue s), slots := give_job j b (slots s)\<rparr>))"

definition enqueue :: "'s session_api \<Rightarrow> nat \<Rightarrow> 's server \<Rightarrow> (bool \<times> 's server) option" where
  "enqueue api j s =
     (if stopping s then Some (False, s)
      else let t = s\<lparr>queue := queue_append j (queue s), accepted := insert j (accepted s)\<rparr>
           in if batched_mode s then map_option (Pair True) (dispatch_jobs_locked api t) else Some (True, t))"

text \<open>\<open>None\<close> waits (an empty queue while the server runs); \<open>Some None\<close> is the \<open>NULL\<close> at shutdown.\<close>

definition dequeue :: "'s server \<Rightarrow> (nat option \<times> 's server) option" where
  "dequeue s =
     (case q_head (queue s) of
        None \<Rightarrow> if stopping s then Some (None, s) else None
      | Some j \<Rightarrow>
          let q = queue s; q1 = q\<lparr>q_head := q_next q j\<rparr>;
              q2 = (if q_head q1 = None then q1\<lparr>q_tail := None\<rparr> else q1)
          in Some (Some j, s\<lparr>queue := q2\<lparr>q_next := (q_next q2)(j := None)\<rparr>\<rparr>))"

definition job_complete :: "nat \<Rightarrow> 's server \<Rightarrow> 's server" where
  "job_complete j s = s\<lparr>job_done := (job_done s)(j := True)\<rparr>"

definition job_mark_cancelled :: "nat \<Rightarrow> 's server \<Rightarrow> 's server" where
  "job_mark_cancelled j s = s\<lparr>cancelled := (cancelled s)(j := True)\<rparr>"

text \<open>\<open>slot_worker_main\<close>: taking the assigned job, completing it, giving the slot back.\<close>

definition slot_take :: "nat \<Rightarrow> 's server \<Rightarrow> 's server" where
  "slot_take i s = s\<lparr>slots := (slots s)[i := (slots s ! i)\<lparr>current := assigned (slots s ! i), assigned := None\<rparr>]\<rparr>"

definition slot_complete :: "nat \<Rightarrow> nat \<Rightarrow> 's server \<Rightarrow> 's server" where
  "slot_complete i j s = job_complete j (s\<lparr>slots := (slots s)[i := (slots s ! i)\<lparr>current := None\<rparr>]\<rparr>)"

definition slot_release :: "'s session_api \<Rightarrow> nat \<Rightarrow> 's server \<Rightarrow> 's server option" where
  "slot_release api i s = dispatch_jobs_locked api (s\<lparr>slots := (slots s)[i := (slots s ! i)\<lparr>busy := False\<rparr>]\<rparr>)"

text \<open>The critical section of \<open>server_cancel_job\<close> under \<open>server.mu\<close>, with its \<open>detached\<close> flag.\<close>

definition server_cancel_job :: "'s session_api \<Rightarrow> nat \<Rightarrow> 's server \<Rightarrow> (bool \<times> 's server) option" where
  "server_cancel_job api j s =
     (case queue_find (q_next (queue s)) (\<lambda>k. if k = j then Some () else None) None (q_head (queue s)) of
        None \<Rightarrow> None
      | Some (Some (prev, k, _)) \<Rightarrow> Some (True, s\<lparr>queue := queue_unlink prev k (queue s)\<rparr>)
      | Some None \<Rightarrow>
          if batched_mode s
          then (case find (\<lambda>i. assigned (slots s ! i) = Some j) [0..<length (slots s)] of
                  None \<Rightarrow> Some (False, s)
                | Some i \<Rightarrow>
                    map_option (Pair True)
                      (dispatch_jobs_locked api
                         (s\<lparr>slots := (slots s)[i := (slots s ! i)\<lparr>assigned := None, busy := False\<rparr>]\<rparr>)))
          else Some (False, s))"

definition server_request_worker_stop :: "'s session_api \<Rightarrow> 's server \<Rightarrow> 's server option" where
  "server_request_worker_stop api s = dispatch_jobs_locked api (s\<lparr>stopping := True\<rparr>)"

section \<open>The list a queue represents\<close>

fun links :: "(nat \<Rightarrow> nat option) \<Rightarrow> nat option \<Rightarrow> nat list \<Rightarrow> nat option \<Rightarrow> bool" where
  "links nx p [] q \<longleftrightarrow> p = q"
| "links nx p (a # as) q \<longleftrightarrow> p = Some a \<and> links nx (nx a) as q"

definition last_opt :: "nat list \<Rightarrow> nat option" where
  "last_opt js = (if js = [] then None else Some (last js))"

definition represents :: "job_list \<Rightarrow> nat list \<Rightarrow> bool" where
  "represents q js \<longleftrightarrow> links (q_next q) (q_head q) js None \<and> q_tail q = last_opt js \<and> distinct js
     \<and> (\<forall>k. k \<notin> set js \<longrightarrow> q_next q k = None)"

lemma links_append: "links nx p (as @ bs) q \<longleftrightarrow> (\<exists>m. links nx p as m \<and> links nx m bs q)"
  by (induction as arbitrary: p) auto

lemma links_upd [simp]: "a \<notin> set js \<Longrightarrow> links (nx(a := v)) p js q = links nx p js q"
  by (induction js arbitrary: p) auto

lemma links_None: "links nx None js q \<longleftrightarrow> js = [] \<and> q = None"
  by (cases js) auto

lemma last_opt_snoc [simp]: "last_opt (xs @ [a]) = Some a"
  by (simp add: last_opt_def)

lemma last_opt_append: "last_opt (xs @ ys) = (if ys = [] then last_opt xs else last_opt ys)"
  by (simp add: last_opt_def)

lemma links_unique: "links nx p js None \<Longrightarrow> links nx p ks None \<Longrightarrow> js = ks"
proof (induction js arbitrary: p ks)
  case Nil
  then show ?case by (cases ks) auto
next
  case (Cons a js)
  then show ?case by (cases ks) auto
qed

text \<open>What a queue owes its users, whatever its representation.\<close>

locale fifo =
  fixes repr :: "'q \<Rightarrow> 'a list \<Rightarrow> bool" and add :: "'a \<Rightarrow> 'q \<Rightarrow> 'q" and unlink :: "'a option \<Rightarrow> 'a \<Rightarrow> 'q \<Rightarrow> 'q"
  assumes repr_distinct: "repr q xs \<Longrightarrow> distinct xs"
    and repr_unique: "repr q xs \<Longrightarrow> repr q ys \<Longrightarrow> xs = ys"
    and add_repr: "repr q xs \<Longrightarrow> a \<notin> set xs \<Longrightarrow> repr (add a q) (xs @ [a])"
    and unlink_repr: "repr q (xs @ a # ys) \<Longrightarrow> repr (unlink (if xs = [] then None else Some (last xs)) a q) (xs @ ys)"
begin

lemma unlink_first_repr:
  "repr q (a # ys) \<Longrightarrow> repr (unlink None a q) ys"
  using unlink_repr [of q "[]" a ys] by simp

lemma unlink_remove1:
  assumes "repr q xs" "xs = us @ a # vs"
  shows "repr (unlink (if us = [] then None else Some (last us)) a q) (remove1 a xs)"
proof -
  have "a \<notin> set us" using repr_distinct [OF assms(1)] assms(2) by auto
  then have "remove1 a xs = us @ vs" by (simp add: assms(2) remove1_append)
  then show ?thesis using unlink_repr assms by simp
qed

end

lemma represents_append:
  assumes "represents q js" "j \<notin> set js"
  shows "represents (queue_append j q) (js @ [j])"
proof (cases js rule: rev_cases)
  case Nil
  then show ?thesis using assms by (simp add: represents_def queue_append_def last_opt_def)
next
  case (snoc us t)
  then have d: "t \<notin> set us" "distinct us" using assms(1) by (auto simp: represents_def)
  have l: "links (q_next q) (q_head q) us (Some t)" using assms(1) snoc by (auto simp: represents_def links_append)
  have "links ((q_next q)(t := Some j)) (q_head q) (us @ [t, j]) None"
    using l d assms snoc by (auto simp: links_append represents_def)
  then show ?thesis using assms snoc by (simp add: represents_def queue_append_def last_opt_def)
qed

lemma represents_unlink:
  assumes "represents q (us @ j # vs)"
  shows "represents (queue_unlink (last_opt us) j q) (us @ vs)"
proof -
  have d: "distinct (us @ j # vs)" and t: "q_tail q = last_opt (us @ j # vs)"
    and l: "links (q_next q) (q_head q) us (Some j)" "links (q_next q) (q_next q j) vs None"
    and nx: "\<And>k. k \<notin> set (us @ j # vs) \<Longrightarrow> q_next q k = None"
    using assms by (auto simp: represents_def links_append)
  have next_None: "q_next (queue_unlink (last_opt us) j q) k = None" if "k \<notin> set (us @ vs)" for k
  proof -
    have "last_opt us \<noteq> Some k" using that by (auto simp: last_opt_def split: if_splits)
    then show ?thesis using nx [of k] that by (cases "k = j") (auto simp: queue_unlink_def Let_def split: option.splits)
  qed
  have tail: "q_tail (queue_unlink (last_opt us) j q) = last_opt (us @ vs)"
  proof (cases "vs = []")
    case True
    then show ?thesis using t by (simp add: queue_unlink_def Let_def split: option.splits)
  next
    case False
    then have "last_opt (us @ j # vs) = Some (last vs)" "last vs \<noteq> j" using d last_in_set [OF False] by (auto simp: last_opt_def)
    then show ?thesis using t False by (simp add: queue_unlink_def Let_def last_opt_def)
  qed
  have "links (q_next (queue_unlink (last_opt us) j q)) (q_head (queue_unlink (last_opt us) j q)) (us @ vs) None"
  proof (cases us rule: rev_cases)
    case Nil
    then show ?thesis using l(2) d by (simp add: queue_unlink_def last_opt_def Let_def)
  next
    case (snoc ws p)
    have lw: "links (q_next q) (q_head q) ws (Some p)" using l(1) snoc by (auto simp: links_append)
    show ?thesis using lw l(2) d unfolding snoc by (simp add: queue_unlink_def Let_def links_append)
  qed
  then show ?thesis using tail d next_None by (simp add: represents_def)
qed

interpretation lq: fifo represents queue_append queue_unlink
proof
  show "represents q xs \<Longrightarrow> distinct xs" for q xs by (simp add: represents_def)
  show "represents q xs \<Longrightarrow> represents q ys \<Longrightarrow> xs = ys" for q xs ys
    using links_unique by (auto simp: represents_def)
  show "represents q xs \<Longrightarrow> a \<notin> set xs \<Longrightarrow> represents (queue_append a q) (xs @ [a])" for q xs a
    by (rule represents_append)
  show "represents q (xs @ a # ys) \<Longrightarrow> represents (queue_unlink (if xs = [] then None else Some (last xs)) a q) (xs @ ys)"
    for q xs a ys using represents_unlink by (simp add: last_opt_def)
qed

section \<open>The walk\<close>

fun list_find :: "(nat \<Rightarrow> 'b option) \<Rightarrow> nat option \<Rightarrow> nat list \<Rightarrow> (nat option \<times> nat \<times> 'b) option" where
  "list_find f prev [] = None"
| "list_find f prev (j # js) = (case f j of Some b \<Rightarrow> Some (prev, j, b) | None \<Rightarrow> list_find f (Some j) js)"

lemma queue_find_list: "links nx it js None \<Longrightarrow> queue_find nx f prev it = Some (list_find f prev js)"
  by (induction js arbitrary: it prev) (auto simp: queue_find.simps split: option.splits)

lemma list_find_Some:
  "list_find f prev js = Some (p, j, b) \<Longrightarrow>
    \<exists>us vs. js = us @ j # vs \<and> f j = Some b \<and> (\<forall>u \<in> set us. f u = None) \<and> p = (if us = [] then prev else Some (last us))"
proof (induction js arbitrary: prev)
  case (Cons k js)
  show ?case
  proof (cases "f k")
    case None
    with Cons obtain us vs where "js = us @ j # vs" "f j = Some b" "\<forall>u \<in> set us. f u = None"
      "p = (if us = [] then Some k else Some (last us))" by fastforce
    then show ?thesis using None by (intro exI [of _ "k # us"] exI [of _ vs]) auto
  next
    case (Some c)
    then show ?thesis using Cons.prems by (intro exI [of _ "[]"] exI [of _ js]) auto
  qed
qed simp

lemma list_find_None: "list_find f prev js = None \<longleftrightarrow> (\<forall>j \<in> set js. f j = None)"
  by (induction js arbitrary: prev) (auto split: option.splits)

lemma queue_find_represents:
  assumes "represents q js" "queue_find (q_next q) f None (q_head q) = r"
  obtains (none) "r = Some None" "\<forall>j \<in> set js. f j = None"
    | (some) us j b vs where "r = Some (Some (last_opt us, j, b))" "js = us @ j # vs" "f j = Some b" "\<forall>u \<in> set us. f u = None"
proof -
  have r: "r = Some (list_find f None js)" using queue_find_list [of "q_next q" "q_head q" js f None] assms by (simp add: represents_def)
  show thesis
  proof (cases "list_find f None js")
    case None
    then show ?thesis using none r list_find_None by metis
  next
    case (Some x)
    then obtain p j b where x: "list_find f None js = Some (p, j, b)" by (cases x) auto
    from list_find_Some [OF x] show ?thesis using some r x by (auto simp: last_opt_def)
  qed
qed

section \<open>Choosing the best slot\<close>

definition pick :: "(nat \<Rightarrow> int) \<Rightarrow> int \<times> nat option \<Rightarrow> nat \<Rightarrow> int \<times> nat option" where
  "pick score st i = (if score i > fst st then (score i, Some i) else st)"

lemma foldl_pick:
  assumes "foldl (pick score) (INT_MIN, None) xs = (m, best)"
  shows "(best = None \<longrightarrow> m = INT_MIN) \<and> (\<forall>i \<in> set xs. score i \<le> m)
    \<and> (\<forall>b. best = Some b \<longrightarrow> b \<in> set xs \<and> score b = m \<and> m > INT_MIN)"
  using assms
proof (induction xs arbitrary: m best rule: rev_induct)
  case (snoc x xs)
  obtain m' b' where st: "foldl (pick score) (INT_MIN, None) xs = (m', b')" by (metis prod.exhaust)
  have "INT_MIN \<le> m'" using snoc.IH [OF st] by (cases b') auto
  moreover have "(m, best) = pick score (m', b') x" using snoc.prems st by simp
  ultimately show ?case using snoc.IH [OF st] by (auto simp: pick_def split: if_splits)
qed simp

lemma best_slot_pick:
  "best_slot api sls r =
     snd (foldl (pick (\<lambda>i. job_slot_score api sls i r (job_required_slot_locked sls r))) (INT_MIN, None) [0..<length sls])"
proof -
  have "(\<lambda>(best_score, best) i. let score = f i in if score > best_score then (score, Some i) else (best_score, best)) = pick f"
    for f by (auto simp: pick_def fun_eq_iff Let_def)
  then show ?thesis by (simp add: best_slot_def Let_def)
qed

lemma best_slot_Some:
  assumes "best_slot api sls r = Some b"
  shows "b < length sls" "\<not> busy (sls ! b)" "assigned (sls ! b) = None"
    and "i < length sls \<Longrightarrow> job_slot_score api sls i r (job_required_slot_locked sls r)
      \<le> job_slot_score api sls b r (job_required_slot_locked sls r)"
proof -
  let ?sc = "\<lambda>i. job_slot_score api sls i r (job_required_slot_locked sls r)"
  obtain m where "foldl (pick ?sc) (INT_MIN, None) [0..<length sls] = (m, Some b)"
    using assms unfolding best_slot_pick by (metis prod.collapse)
  note f = foldl_pick [OF this]
  then show "b < length sls" by simp
  have "?sc b > INT_MIN" using f by simp
  moreover have "?sc b = INT_MIN" if "busy (sls ! b) \<or> assigned (sls ! b) \<noteq> None"
    using that by (simp only: job_slot_score_def Let_def if_True)
  ultimately have "\<not> (busy (sls ! b) \<or> assigned (sls ! b) \<noteq> None)" by force
  then show "\<not> busy (sls ! b)" "assigned (sls ! b) = None" by blast+
  show "i < length sls \<Longrightarrow> ?sc i \<le> ?sc b" using f by simp
qed

lemma best_slot_None:
  assumes "best_slot api sls r = None" "i < length sls"
  shows "job_slot_score api sls i r (job_required_slot_locked sls r) \<le> INT_MIN"
proof -
  let ?sc = "\<lambda>i. job_slot_score api sls i r (job_required_slot_locked sls r)"
  obtain m where "foldl (pick ?sc) (INT_MIN, None) [0..<length sls] = (m, None)"
    using assms(1) unfolding best_slot_pick by (metis prod.collapse)
  from foldl_pick [OF this] assms(2) show ?thesis by auto
qed

section \<open>Dispatching as a relation on lists\<close>

inductive dispatches :: "'s session_api \<Rightarrow> (nat \<Rightarrow> request) \<Rightarrow> nat list \<Rightarrow> 's server_slot list \<Rightarrow> nat list \<Rightarrow> 's server_slot list \<Rightarrow> bool"
  for api :: "'s session_api" and rq :: "nat \<Rightarrow> request" where
  stop: "\<forall>j \<in> set js. best_slot api sls (rq j) = None \<Longrightarrow> dispatches api rq js sls js sls"
| give: "\<forall>u \<in> set us. best_slot api sls (rq u) = None \<Longrightarrow> best_slot api sls (rq j) = Some b \<Longrightarrow>
    dispatches api rq (us @ vs) (give_job j b sls) js' sls' \<Longrightarrow> dispatches api rq (us @ j # vs) sls js' sls'"

lemma dispatch_refines:
  assumes "represents (queue s) js" "batched_mode s"
  shows "\<exists>q js' sls'. dispatch_jobs_locked api s = Some (s\<lparr>queue := q, slots := sls'\<rparr>) \<and> represents q js'
    \<and> dispatches api (job_req s) js (slots s) js' sls'"
  using assms
proof (induction "length js" arbitrary: js s)
  case 0
  then have "q_head (queue s) = None" "js = []" by (auto simp: represents_def)
  then show ?case using 0
    by (intro exI [of _ "queue s"] exI [of _ js] exI [of _ "slots s"])
      (simp add: dispatch_jobs_locked.simps queue_find.simps dispatches.stop)
next
  case (Suc n)
  let ?f = "\<lambda>j. best_slot api (slots s) (job_req s j)"
  let ?r = "queue_find (q_next (queue s)) ?f None (q_head (queue s))"
  from Suc.prems(1) refl [of ?r] show ?case
  proof (cases rule: queue_find_represents)
    case none
    then show ?thesis using Suc.prems
      by (intro exI [of _ "queue s"] exI [of _ js] exI [of _ "slots s"])
        (simp add: dispatch_jobs_locked.simps dispatches.stop)
  next
    case (some us j b vs)
    let ?t = "s\<lparr>queue := queue_unlink (last_opt us) j (queue s), slots := give_job j b (slots s)\<rparr>"
    have rep: "represents (queue ?t) (us @ vs)" using represents_unlink Suc.prems(1) some(2) by simp
    have n: "n = length (us @ vs)" using Suc.hyps(2) some(2) by simp
    from Suc.hyps(1) [OF n rep] Suc.prems(2) obtain q js' sls' where
      d: "dispatch_jobs_locked api ?t = Some (?t\<lparr>queue := q, slots := sls'\<rparr>)" "represents q js'"
      "dispatches api (job_req s) (us @ vs) (give_job j b (slots s)) js' sls'" by auto
    have "dispatch_jobs_locked api s = Some (s\<lparr>queue := q, slots := sls'\<rparr>)"
      using Suc.prems(2) some(1) d(1) by (simp add: dispatch_jobs_locked.simps [of api s])
    moreover have "dispatches api (job_req s) js (slots s) js' sls'"
      unfolding some(2) by (rule dispatches.give [OF some(4,3) d(3)])
    ultimately show ?thesis using d(2) by blast
  qed
qed

section \<open>Where jobs are\<close>

definition one :: "nat option \<Rightarrow> nat multiset" where
  "one x = (case x of None \<Rightarrow> {#} | Some j \<Rightarrow> {#j#})"

definition held :: "('a \<Rightarrow> nat option) \<Rightarrow> 'a list \<Rightarrow> nat multiset" where
  "held f xs = sum_list (map (\<lambda>x. one (f x)) xs)"

lemma one_simps [simp]: "one None = {#}" "one (Some j) = {#j#}"
  by (simp_all add: one_def)

lemma held_update: "i < length xs \<Longrightarrow> held f (xs[i := x]) + one (f (xs ! i)) = held f xs + one (f x)"
proof (induction xs arbitrary: i)
  case (Cons y ys)
  show ?case
  proof (cases i)
    case 0
    then show ?thesis by (simp add: held_def ac_simps)
  next
    case (Suc k)
    with Cons have "held f (ys[k := x]) + one (f (ys ! k)) = held f ys + one (f x)" by simp
    then show ?thesis using Suc by (simp add: held_def add.assoc)
  qed
qed simp

lemma held_empty: "(\<And>x. x \<in> set xs \<Longrightarrow> f x = None) \<Longrightarrow> held f xs = {#}"
  by (induction xs) (simp_all add: held_def)

lemma held_update_same: "i < length xs \<Longrightarrow> f x = f (xs ! i) \<Longrightarrow> held f (xs[i := x]) = held f xs"
  using held_update [of i xs f x] by simp

definition whereabouts :: "nat list \<Rightarrow> 's server \<Rightarrow> nat multiset" where
  "whereabouts js s = mset js + held assigned (slots s) + held current (slots s) + mset (detached s)"

definition open_jobs :: "'s server \<Rightarrow> nat set" where
  "open_jobs s = {j \<in> accepted s. \<not> job_done s j}"

definition slot_ok :: "bool \<Rightarrow> 's server_slot \<Rightarrow> bool" where
  "slot_ok batched sl \<longleftrightarrow>
     (assigned sl \<noteq> None \<longrightarrow> busy sl \<and> current sl = None) \<and> (batched \<longrightarrow> current sl \<noteq> None \<longrightarrow> busy sl)
     \<and> (\<not> batched \<longrightarrow> assigned sl = None)"

lemma give_job_facts:
  assumes "best_slot api sls r = Some b" "slot_ok True (sls ! b)"
  shows "held assigned (give_job j b sls) = add_mset j (held assigned sls)" "held current (give_job j b sls) = held current sls"
    "slot_ok True (give_job j b sls ! b)" "length (give_job j b sls) = length sls"
proof -
  note b = best_slot_Some [OF assms(1)]
  show "held assigned (give_job j b sls) = add_mset j (held assigned sls)"
    using held_update [OF b(1), of assigned "(sls ! b)\<lparr>assigned := Some j, busy := True\<rparr>"] b(3) by (simp add: give_job_def)
  show "held current (give_job j b sls) = held current sls"
    unfolding give_job_def by (rule held_update_same [OF b(1)]) simp
  have "current (sls ! b) = None" using assms(2) b(2) by (auto simp: slot_ok_def)
  then show "slot_ok True (give_job j b sls ! b)" using b(1) by (simp add: give_job_def slot_ok_def)
  show "length (give_job j b sls) = length sls" by (simp add: give_job_def)
qed

lemma dispatches_facts:
  "dispatches api rq js sls js' sls' \<Longrightarrow> list_all (slot_ok True) sls \<Longrightarrow>
    mset js' + held assigned sls' = mset js + held assigned sls \<and> held current sls' = held current sls
    \<and> list_all (slot_ok True) sls' \<and> subseq js' js \<and> (\<forall>j \<in> set js'. best_slot api sls' (rq j) = None)"
proof (induction rule: dispatches.induct)
  case (give us sls j b vs js' sls')
  have b: "b < length sls" using best_slot_Some(1) [OF give(2)] .
  then have ok: "slot_ok True (sls ! b)" using give.prems by (simp add: list_all_length)
  note g = give_job_facts [OF give(2) ok, of j]
  have "list_all (slot_ok True) (give_job j b sls)"
    using give.prems g(3) b by (auto simp: list_all_length give_job_def nth_list_update)
  with give.IH have ih: "mset js' + held assigned sls' = mset (us @ vs) + held assigned (give_job j b sls)"
    "held current sls' = held current (give_job j b sls)" "list_all (slot_ok True) sls'" "subseq js' (us @ vs)"
    "\<forall>j \<in> set js'. best_slot api sls' (rq j) = None" by blast+
  have "subseq (us @ vs) (us @ j # vs)" unfolding subseq_append' by (rule list_emb_Cons) simp
  then have "subseq js' (us @ j # vs)" using ih(4) subseq_order.trans by blast
  then show ?case using ih g by simp
qed auto

lemma subseq_set: "subseq xs ys \<Longrightarrow> set xs \<subseteq> set ys"
  by (induction rule: list_emb.induct) auto

lemma first_unique:
  "us @ j # vs = us' @ j' # vs' \<Longrightarrow> \<forall>u \<in> set us. P u \<Longrightarrow> \<not> P j \<Longrightarrow> \<forall>u \<in> set us'. P u \<Longrightarrow> \<not> P j' \<Longrightarrow> j = j'"
proof (induction us arbitrary: us')
  case Nil
  then show ?case by (cases us') auto
next
  case (Cons a us)
  then show ?case by (cases us') auto
qed


section \<open>Steps of the server\<close>

datatype 's action =
    Enqueue nat | SlotTake nat | SlotWork nat 's live_bindings | SlotComplete nat nat | SlotRelease nat | WorkerTake
  | CancelMark nat | CancelDetach nat | CancelComplete nat | WorkerStop

text \<open>
  \<open>SlotWork\<close> is the generation itself: it may change the slot's session and bindings in any way. A job
  arrives with a null \<open>next\<close> and its flags clear, as the client thread initialises it.
\<close>

inductive server_step :: "'s session_api \<Rightarrow> 's server \<Rightarrow> 's action \<Rightarrow> 's server \<Rightarrow> bool" for api :: "'s session_api" where
  enqueue: "j \<notin> accepted s \<Longrightarrow> \<not> job_done s j \<Longrightarrow>
    enqueue api j s = Some (ok, t) \<Longrightarrow> server_step api s (Enqueue j) t"
| slot_take: "batched_mode s \<Longrightarrow> i < length (slots s) \<Longrightarrow> assigned (slots s ! i) \<noteq> None \<Longrightarrow>
    server_step api s (SlotTake i) (slot_take i s)"
| slot_work: "i < length (slots s) \<Longrightarrow> current (slots s ! i) \<noteq> None \<Longrightarrow>
    server_step api s (SlotWork i x b) (s\<lparr>slots := (slots s)[i := (slots s ! i)\<lparr>session := x, bindings := b\<rparr>]\<rparr>)"
| slot_complete: "i < length (slots s) \<Longrightarrow> current (slots s ! i) = Some j \<Longrightarrow>
    server_step api s (SlotComplete i j) (slot_complete i j s)"
| slot_release: "batched_mode s \<Longrightarrow> i < length (slots s) \<Longrightarrow> busy (slots s ! i) \<Longrightarrow> assigned (slots s ! i) = None \<Longrightarrow>
    current (slots s ! i) = None \<Longrightarrow> slot_release api i s = Some t \<Longrightarrow> server_step api s (SlotRelease i) t"
| worker_take: "\<not> batched_mode s \<Longrightarrow> 0 < length (slots s) \<Longrightarrow> current (slots s ! 0) = None \<Longrightarrow>
    dequeue s = Some (Some j, t) \<Longrightarrow>
    server_step api s WorkerTake (t\<lparr>slots := (slots t)[0 := (slots t ! 0)\<lparr>current := Some j\<rparr>]\<rparr>)"
| cancel_mark: "j \<in> accepted s \<Longrightarrow> \<not> job_done s j \<Longrightarrow> server_step api s (CancelMark j) (job_mark_cancelled j s)"
| cancel_detach: "cancelled s j \<Longrightarrow> server_cancel_job api j s = Some (d, t) \<Longrightarrow>
    server_step api s (CancelDetach j) (t\<lparr>detached := (if d then [j] else []) @ detached t\<rparr>)"
| cancel_complete: "j \<in> set (detached s) \<Longrightarrow>
    server_step api s (CancelComplete j) (job_complete j (s\<lparr>detached := remove1 j (detached s)\<rparr>))"
| worker_stop: "server_request_worker_stop api s = Some t \<Longrightarrow> server_step api s WorkerStop t"

definition server_init :: "'s server \<Rightarrow> bool" where
  "server_init s \<longleftrightarrow>
     list_all (\<lambda>sl. assigned sl = None \<and> current sl = None \<and> \<not> busy sl) (slots s)
     \<and> queue s = \<lparr>q_head = None, q_tail = None, q_next = \<lambda>_. None\<rparr>
     \<and> \<not> stopping s \<and> detached s = [] \<and> accepted s = {}"

definition server_ok :: "'s server \<Rightarrow> bool" where
  "server_ok s \<longleftrightarrow>
     finite (accepted s) \<and> list_all (slot_ok (batched_mode s)) (slots s)
     \<and> (\<exists>js. represents (queue s) js \<and> whereabouts js s = mset_set (open_jobs s))"

lemma server_okI:
  "finite (accepted s) \<Longrightarrow> list_all (slot_ok (batched_mode s)) (slots s) \<Longrightarrow> represents (queue s) js \<Longrightarrow>
    whereabouts js s = mset_set (open_jobs s) \<Longrightarrow> server_ok s"
  by (auto simp: server_ok_def)

lemma server_okE:
  assumes "server_ok s"
  obtains js where "finite (accepted s)" "list_all (slot_ok (batched_mode s)) (slots s)" "represents (queue s) js"
    "whereabouts js s = mset_set (open_jobs s)"
  using assms by (auto simp: server_ok_def)

lemma finite_open: "finite (accepted s) \<Longrightarrow> finite (open_jobs s)"
  by (simp add: open_jobs_def)

lemma open_job_iff: "finite (accepted s) \<Longrightarrow> whereabouts js s = mset_set (open_jobs s) \<Longrightarrow> j \<in># whereabouts js s \<longleftrightarrow> j \<in> open_jobs s"
  by (simp add: finite_open)

lemma list_all_slots_update: "list_all P xs \<Longrightarrow> P x \<Longrightarrow> list_all P (xs[i := x])"
  by (auto simp: list_all_iff dest: set_update_subset_insert [THEN subsetD])

lemma dispatch_ok:
  assumes "server_ok s"
  shows "\<exists>t. dispatch_jobs_locked api s = Some t \<and> server_ok t \<and> accepted t = accepted s \<and> detached t = detached s
    \<and> open_jobs t = open_jobs s"
proof (cases "batched_mode s")
  case False
  then show ?thesis using assms by (simp add: dispatch_jobs_locked.simps)
next
  case True
  from assms obtain js where js: "finite (accepted s)" "list_all (slot_ok (batched_mode s)) (slots s)" "represents (queue s) js"
    "whereabouts js s = mset_set (open_jobs s)" by (rule server_okE)
  obtain q js' sls' where d: "dispatch_jobs_locked api s = Some (s\<lparr>queue := q, slots := sls'\<rparr>)" "represents q js'"
    "dispatches api (job_req s) js (slots s) js' sls'"
    using dispatch_refines [OF js(3) True, of api] by blast
  have f: "mset js' + held assigned sls' = mset js + held assigned (slots s)" "held current sls' = held current (slots s)"
    "list_all (slot_ok True) sls'" using dispatches_facts [OF d(3)] js(2) True by simp_all
  let ?t = "s\<lparr>queue := q, slots := sls'\<rparr>"
  have op: "open_jobs ?t = open_jobs s" by (simp add: open_jobs_def)
  have w: "whereabouts js' ?t = whereabouts js s" using f by (simp add: whereabouts_def add.assoc [symmetric])
  have "server_ok ?t" using js(1) f(3) True d(2) w op js(4) by (intro server_okI) simp_all
  then show ?thesis using d(1) op by simp
qed

lemma whereabouts_slot:
  assumes "i < length (slots s)"
  shows "whereabouts js (s\<lparr>slots := (slots s)[i := x]\<rparr>) + (one (assigned (slots s ! i)) + one (current (slots s ! i)))
    = whereabouts js s + (one (assigned x) + one (current x))"
proof -
  have "held assigned ((slots s)[i := x]) + one (assigned (slots s ! i)) + (held current ((slots s)[i := x]) + one (current (slots s ! i)))
      = held assigned (slots s) + one (assigned x) + (held current (slots s) + one (current x))"
    using held_update [OF assms, of assigned x] held_update [OF assms, of current x] by simp
  then show ?thesis by (simp add: whereabouts_def ac_simps)
qed

text \<open>A slot may change as long as it holds the same jobs; a job leaves the books when it is marked done.\<close>

lemma server_ok_slot:
  assumes ok: "server_ok s" and i: "i < length (slots s)" and x: "slot_ok (batched_mode s) x"
    and same: "one (assigned x) + one (current x) = one (assigned (slots s ! i)) + one (current (slots s ! i))"
  shows "server_ok (s\<lparr>slots := (slots s)[i := x]\<rparr>)"
proof -
  from ok obtain js where js: "finite (accepted s)" "list_all (slot_ok (batched_mode s)) (slots s)" "represents (queue s) js"
    "whereabouts js s = mset_set (open_jobs s)" by (rule server_okE)
  have "whereabouts js (s\<lparr>slots := (slots s)[i := x]\<rparr>) = whereabouts js s"
    using whereabouts_slot [OF i, of js x] unfolding same by (rule add_right_imp_eq)
  then show ?thesis using js x by (intro server_okI) (simp_all add: list_all_slots_update open_jobs_def)
qed

lemma server_ok_completed:
  assumes fin: "finite (accepted s)" and sl: "list_all (slot_ok (batched_mode s)) (slots s)" and rep: "represents (queue s) js"
    and w: "add_mset j (whereabouts js s) = mset_set (open_jobs s)"
  shows "server_ok (job_complete j s)"
proof -
  have "j \<in># mset_set (open_jobs s)" unfolding w [symmetric] by simp
  then have "j \<in> open_jobs s" using finite_open [OF fin] by simp
  moreover have "open_jobs (job_complete j s) = open_jobs s - {j}" by (auto simp: open_jobs_def job_complete_def)
  ultimately have "add_mset j (mset_set (open_jobs (job_complete j s))) = mset_set (open_jobs s)"
    using finite_open [OF fin] by (simp add: mset_set.remove)
  with w have "whereabouts js s = mset_set (open_jobs (job_complete j s))" by (metis add_mset_add_mset_same_iff)
  then show ?thesis using fin sl rep by (intro server_okI [of _ js]) (simp_all add: job_complete_def whereabouts_def)
qed

lemma dequeue_unlink:
  assumes "represents (queue s) (j # js)"
  shows "dequeue s = Some (Some j, s\<lparr>queue := queue_unlink None j (queue s)\<rparr>)"
proof -
  have h: "q_head (queue s) = Some j" "links (q_next (queue s)) (q_next (queue s) j) js None" "q_tail (queue s) = last_opt (j # js)"
    "j \<notin> set js" using assms by (auto simp: represents_def)
  have "q_next (queue s) j = None \<longleftrightarrow> js = []" using h(2) by (cases js) auto
  moreover have "q_tail (queue s) = Some j \<longleftrightarrow> js = []" using h(3,4) last_in_set [of js] by (auto simp: last_opt_def split: if_splits)
  ultimately show ?thesis using h(1) by (simp add: dequeue_def queue_unlink_def Let_def)
qed

lemma server_ok_enqueue:
  assumes ok: "server_ok s" and j: "j \<notin> accepted s" "\<not> job_done s j" and e: "enqueue api j s = Some (b, t)"
  shows "server_ok t"
proof (cases "stopping s")
  case True
  then show ?thesis using ok e by (simp add: enqueue_def)
next
  case False
  from ok obtain js where js: "finite (accepted s)" "list_all (slot_ok (batched_mode s)) (slots s)" "represents (queue s) js"
    "whereabouts js s = mset_set (open_jobs s)" by (rule server_okE)
  let ?u = "s\<lparr>queue := queue_append j (queue s), accepted := insert j (accepted s)\<rparr>"
  have no: "j \<notin> open_jobs s" using j(1) by (simp add: open_jobs_def)
  then have "j \<notin># whereabouts js s" using js(1,4) finite_open [of s] by simp
  then have "j \<notin> set js" by (simp add: whereabouts_def)
  then have "represents (queue ?u) (js @ [j])" using represents_append [OF js(3)] by simp
  moreover have "open_jobs ?u = insert j (open_jobs s)" using j(2) by (auto simp: open_jobs_def)
  then have "whereabouts (js @ [j]) ?u = mset_set (open_jobs ?u)"
    using js(1,4) no finite_open [of s] by (simp add: whereabouts_def)
  ultimately have "server_ok ?u" using js(1,2) by (intro server_okI [of _ "js @ [j]"]) simp_all
  then show ?thesis using dispatch_ok [of ?u api] e False by (auto simp: enqueue_def Let_def split: if_splits)
qed

lemma server_ok_worker_take:
  assumes ok: "server_ok s" and n: "0 < length (slots s)" and c: "current (slots s ! 0) = None" "\<not> batched_mode s" and d: "dequeue s = Some (Some j, t)"
  shows "server_ok (t\<lparr>slots := (slots t)[0 := (slots t ! 0)\<lparr>current := Some j\<rparr>]\<rparr>)"
proof -
  from ok obtain js where js: "finite (accepted s)" "list_all (slot_ok (batched_mode s)) (slots s)" "represents (queue s) js"
    "whereabouts js s = mset_set (open_jobs s)" by (rule server_okE)
  have a: "assigned (slots s ! 0) = None" using js(2) n c(2) by (simp add: list_all_length slot_ok_def)
  have "q_head (queue s) = Some j" using d by (simp add: dequeue_def Let_def split: option.splits if_splits)
  then obtain ks where k: "js = j # ks" using js(3) by (cases js) (auto simp: represents_def)
  have t: "t = s\<lparr>queue := queue_unlink None j (queue s)\<rparr>" using dequeue_unlink [of s j ks] js(3) d k by simp
  let ?x = "(slots s ! 0)\<lparr>current := Some j\<rparr>"
  have "represents (queue t) ks" using lq.unlink_first_repr js(3) k t by simp
  moreover have "whereabouts ks (t\<lparr>slots := (slots t)[0 := ?x]\<rparr>) = whereabouts js s"
    using whereabouts_slot [of 0 t ks ?x] n c a t k by (simp add: whereabouts_def)
  moreover have "slot_ok False ?x" using a by (simp add: slot_ok_def)
  ultimately show ?thesis using js c(2) t
    by (intro server_okI [of _ ks]) (simp_all add: list_all_slots_update open_jobs_def)
qed

text \<open>The dispatcher neither reads nor writes the record of detached jobs.\<close>

lemma dispatch_detached:
  assumes "represents (queue s) js" "batched_mode s"
  shows "dispatch_jobs_locked api (s\<lparr>detached := x\<rparr>) = map_option (\<lambda>w. w\<lparr>detached := x\<rparr>) (dispatch_jobs_locked api s)
    \<and> (\<forall>w. dispatch_jobs_locked api s = Some w \<longrightarrow> detached w = detached s)"
  using assms
proof (induction "length js" arbitrary: js s)
  case 0
  then have "q_head (queue s) = None" by (auto simp: represents_def)
  then show ?case using 0 by (simp add: dispatch_jobs_locked.simps queue_find.simps)
next
  case (Suc n)
  let ?f = "\<lambda>j. best_slot api (slots s) (job_req s j)"
  let ?r = "queue_find (q_next (queue s)) ?f None (q_head (queue s))"
  from Suc.prems(1) refl [of ?r] show ?case
  proof (cases rule: queue_find_represents)
    case none
    then show ?thesis using Suc.prems by (simp add: dispatch_jobs_locked.simps)
  next
    case (some us j b vs)
    let ?t = "s\<lparr>queue := queue_unlink (last_opt us) j (queue s), slots := give_job j b (slots s)\<rparr>"
    have rep: "represents (queue ?t) (us @ vs)" using represents_unlink Suc.prems(1) some(2) by simp
    have n: "n = length (us @ vs)" using Suc.hyps(2) some(2) by simp
    have c: "s\<lparr>detached := x, queue := queue_unlink (last_opt us) j (queue s), slots := give_job j b (slots s)\<rparr>
        = ?t\<lparr>detached := x\<rparr>" by (cases s) simp
    show ?thesis using Suc.hyps(1) [OF n rep] Suc.prems(2) some(1)
      by (simp add: dispatch_jobs_locked.simps [of api s] dispatch_jobs_locked.simps [of api "s\<lparr>detached := x\<rparr>"] c)
  qed
qed

lemma server_ok_detached:
  assumes ok: "server_ok s" and c: "server_cancel_job api j s = Some (d, t)"
  shows "server_ok (t\<lparr>detached := (if d then [j] else []) @ detached t\<rparr>)"
proof -
  from ok obtain js where js: "finite (accepted s)" "list_all (slot_ok (batched_mode s)) (slots s)" "represents (queue s) js"
    "whereabouts js s = mset_set (open_jobs s)" by (rule server_okE)
  let ?f = "\<lambda>k. if k = j then Some () else None"
  let ?r = "queue_find (q_next (queue s)) ?f None (q_head (queue s))"
  from js(3) refl [of ?r] show ?thesis
  proof (cases rule: queue_find_represents)
    case (some us k b vs)
    then have k: "k = j" by (simp split: if_splits)
    have t: "d" "t = s\<lparr>queue := queue_unlink (last_opt us) j (queue s)\<rparr>" using c some(1) k by (simp_all add: server_cancel_job_def)
    have "represents (queue t) (us @ vs)" using represents_unlink js(3) some(2) k t by simp
    moreover have "whereabouts (us @ vs) (t\<lparr>detached := j # detached t\<rparr>) = whereabouts js s"
      using some(2) k t(2) by (simp add: whereabouts_def)
    ultimately show ?thesis using js t by (intro server_okI [of _ "us @ vs"]) (simp_all add: open_jobs_def)
  next
    case none
    show ?thesis
    proof (cases "batched_mode s \<and> find (\<lambda>i. assigned (slots s ! i) = Some j) [0..<length (slots s)] \<noteq> None")
      case False
      then have "\<not> d \<and> t = s" using c none(1) by (auto simp: server_cancel_job_def split: if_splits option.splits)
      then show ?thesis using ok by simp
    next
      case True
      then obtain i where i: "find (\<lambda>i. assigned (slots s ! i) = Some j) [0..<length (slots s)] = Some i" by auto
      then have i': "i < length (slots s)" "assigned (slots s ! i) = Some j" by (auto simp: find_Some_iff)
      let ?x = "(slots s ! i)\<lparr>assigned := None, busy := False\<rparr>"
      let ?u = "s\<lparr>slots := (slots s)[i := ?x]\<rparr>"
      let ?v = "?u\<lparr>detached := j # detached s\<rparr>"
      have cur: "current (slots s ! i) = None" using js(2) i' by (auto simp: list_all_length slot_ok_def)
      have "whereabouts js ?v = whereabouts js s"
        using whereabouts_slot [OF i'(1), of js ?x] i'(2) cur by (simp add: whereabouts_def)
      moreover have "slot_ok (batched_mode s) ?x" using cur True by (simp add: slot_ok_def)
      ultimately have v: "server_ok ?v" using js
        by (intro server_okI [of _ js]) (simp_all add: list_all_slots_update open_jobs_def)
      have "d \<and> dispatch_jobs_locked api ?u = Some t" using c none(1) i True by (auto simp: server_cancel_job_def)
      moreover have "dispatch_jobs_locked api ?v = map_option (\<lambda>w. w\<lparr>detached := j # detached s\<rparr>) (dispatch_jobs_locked api ?u)"
        using dispatch_detached [of ?u js api "j # detached s"] js(3) True by simp
      moreover have "detached t = detached s"
        using dispatch_detached [of ?u js api] js(3) True \<open>d \<and> dispatch_jobs_locked api ?u = Some t\<close> by simp
      ultimately show ?thesis using dispatch_ok [OF v, of api] by auto
    qed
  qed
qed

lemma server_ok_step: "server_step api s a t \<Longrightarrow> server_ok s \<Longrightarrow> server_ok t"
proof (induction rule: server_step.induct)
  case (enqueue j s ok t)
  then show ?case using server_ok_enqueue by blast
next
  case (slot_take s i)
  then have "slot_ok True (slots s ! i)" by (auto simp: server_ok_def list_all_length)
  then show ?case unfolding slot_take_def using slot_take
    by (intro server_ok_slot) (auto simp: slot_ok_def)
next
  case (slot_work i s x b)
  then have "slot_ok (batched_mode s) (slots s ! i)" by (auto simp: server_ok_def list_all_length)
  then show ?case using slot_work by (intro server_ok_slot) (auto simp: slot_ok_def)
next
  case (slot_complete i s j)
  from slot_complete(3) obtain js where js: "finite (accepted s)" "list_all (slot_ok (batched_mode s)) (slots s)"
    "represents (queue s) js" "whereabouts js s = mset_set (open_jobs s)" by (rule server_okE)
  let ?x = "(slots s ! i)\<lparr>current := None\<rparr>"
  let ?u = "s\<lparr>slots := (slots s)[i := ?x]\<rparr>"
  have "add_mset j (whereabouts js ?u) = whereabouts js s"
    using whereabouts_slot [OF slot_complete(1), of js ?x] slot_complete(2) by (cases "assigned (slots s ! i)") simp_all
  moreover have "slot_ok (batched_mode s) (slots s ! i)" using js(2) slot_complete(1) by (simp add: list_all_length)
  then have "slot_ok (batched_mode s) ?x" by (auto simp: slot_ok_def)
  ultimately show ?case unfolding slot_complete_def using js
    by (intro server_ok_completed [of _ js]) (simp_all add: list_all_slots_update open_jobs_def)
next
  case (slot_release s i t)
  let ?x = "(slots s ! i)\<lparr>busy := False\<rparr>"
  have "server_ok (s\<lparr>slots := (slots s)[i := ?x]\<rparr>)"
    using slot_release by (intro server_ok_slot) (simp_all add: slot_ok_def)
  from dispatch_ok [OF this, of api] slot_release(6) show ?case unfolding slot_release_def by auto
next
  case (worker_take s j t)
  then show ?case using server_ok_worker_take by blast
next
  case (cancel_mark j s)
  then show ?case by (simp add: server_ok_def job_mark_cancelled_def whereabouts_def open_jobs_def)
next
  case (cancel_detach s j d t)
  then show ?case using server_ok_detached by blast
next
  case (cancel_complete j s)
  from cancel_complete(2) obtain js where js: "finite (accepted s)" "list_all (slot_ok (batched_mode s)) (slots s)"
    "represents (queue s) js" "whereabouts js s = mset_set (open_jobs s)" by (rule server_okE)
  have "add_mset j (whereabouts js (s\<lparr>detached := remove1 j (detached s)\<rparr>)) = whereabouts js s"
    using cancel_complete(1) by (simp add: whereabouts_def)
  then show ?case using js by (intro server_ok_completed [of _ js]) (simp_all add: open_jobs_def)
next
  case (worker_stop s t)
  then have "server_ok (s\<lparr>stopping := True\<rparr>)" by (simp add: server_ok_def whereabouts_def open_jobs_def)
  from dispatch_ok [OF this, of api] worker_stop(1) show ?case unfolding server_request_worker_stop_def by auto
qed

lemma server_ok_init: "server_init s \<Longrightarrow> server_ok s"
proof -
  assume i: "server_init s"
  then have "held assigned (slots s) = {#}" "held current (slots s) = {#}"
    by (auto simp: server_init_def list_all_iff intro: held_empty)
  then have "whereabouts [] s = mset_set (open_jobs s)" using i by (simp add: server_init_def whereabouts_def open_jobs_def)
  moreover have "represents (queue s) []" using i by (simp add: server_init_def represents_def last_opt_def)
  moreover have "list_all (slot_ok (batched_mode s)) (slots s)" using i by (auto simp: server_init_def list_all_iff slot_ok_def)
  ultimately show ?thesis using i by (intro server_okI) (simp_all add: server_init_def)
qed

interpretation jobs: inductive_invariant server_init "server_step api" server_ok for api
  by unfold_locales (auto intro: server_ok_init server_ok_step)

text \<open>
  (C4) Every job is in exactly one place. In every reachable state, however clients, workers, cancellations and shutdown
  interleave, an accepted job that is not done occurs exactly once among the queue, the slots' assigned jobs, the jobs
  being served and the jobs a cancelling client has detached; a job that is done, whose stack frame its client may leave,
  occurs nowhere. The queue's pointers always form the list.
\<close>

theorem job_ownership:
  assumes "reachable server_init (server_step api) s"
  shows "\<exists>js. represents (queue s) js
    \<and> (\<forall>j. count (mset js + held assigned (slots s) + held current (slots s) + mset (detached s)) j
        = of_bool (j \<in> accepted s \<and> \<not> job_done s j))"
proof -
  have "server_ok s" by (rule jobs.reachable_inv [OF assms])
  then obtain js where js: "finite (accepted s)" "represents (queue s) js" "whereabouts js s = mset_set (open_jobs s)"
    by (rule server_okE)
  have "count (whereabouts js s) j = of_bool (j \<in> accepted s \<and> \<not> job_done s j)" for j
    using finite_open [OF js(1)] unfolding js(3) by (simp add: count_mset_set' open_jobs_def)
  then show ?thesis using js(2) unfolding whereabouts_def by blast
qed

definition demo_server :: "unit server" where
  "demo_server = \<lparr>slots = [\<lparr>session = (), bindings = demo_bindings, assigned = None, current = None, busy = False\<rparr>],
     queue = \<lparr>q_head = None, q_tail = None, q_next = \<lambda>_. None\<rparr>, job_req = \<lambda>_. demo_request [], job_done = \<lambda>_. False,
     cancelled = \<lambda>_. False, stopping = False, batched_mode = True, detached = [], accepted = {}\<rparr>"

definition demo_session :: "unit session_api" where
  "demo_session = \<lparr>session_pos = \<lambda>_. 0, vision_prefix_matches = \<lambda>_ _. True, common_prefix = \<lambda>_ _. 0\<rparr>"

lemma demo_server_init: "server_init demo_server"
  by (simp add: server_init_def demo_server_def)

theorem job_ownership_witness:
  "\<exists>t. enqueue demo_session 4 demo_server = Some (True, t)
    \<and> (\<exists>js. represents (queue t) js
        \<and> (\<forall>j. count (mset js + held assigned (slots t) + held current (slots t) + mset (detached t)) j
            = of_bool (j \<in> accepted t \<and> \<not> job_done t j)))"
proof -
  let ?u = "demo_server\<lparr>queue := queue_append 4 (queue demo_server), accepted := {4}\<rparr>"
  have "reachable server_init (server_step demo_session) demo_server" by (rule reachable.start [where init = server_init, OF demo_server_init])
  moreover have "represents (queue ?u) [4]"
    by (simp add: demo_server_def queue_append_def represents_def last_opt_def)
  then obtain t where t: "dispatch_jobs_locked demo_session ?u = Some t"
    using dispatch_refines [of ?u "[4]" demo_session] by (auto simp: demo_server_def)
  then have e: "enqueue demo_session 4 demo_server = Some (True, t)" by (simp add: enqueue_def Let_def demo_server_def)
  then have "server_step demo_session demo_server (Enqueue 4) t"
    by (intro server_step.enqueue) (simp_all add: demo_server_def)
  ultimately have "reachable server_init (server_step demo_session) t" by (rule reachable.extend)
  from job_ownership [OF this] e show ?thesis by blast
qed


end
