(* ===== verification/Tool_Memory.thy ===== *)
theory Tool_Memory
  imports Live_State Kv_Codec
begin

text \<open>
  The tool-call text memory of \<open>ds4_server.c\<close>: the exact block of text the model sampled, filed
  under the ids of its calls, in least-recently-used order, with reference-counted blocks shared by the
  calls of one turn; its serialisation next to a checkpoint and its restoration. The two radix trees
  are maps. An entry is named by its id and a block by its text, the keys they are filed under, so a
  pointer to one is that key; the doubly linked list of entries is the list of their ids from
  \<open>head\<close> to \<open>tail\<close>, and a block's chain of entries is a list too. \<open>size_t\<close> totals are
  natural numbers: they count bytes that are in memory.
\<close>

section \<open>State\<close>

datatype tool_memory_source = TOOL_MEMORY_RAM | TOOL_MEMORY_DISK

record tool_memory_block =
  tb_bytes :: nat
  tb_refs :: int
  tb_seen :: nat
  tb_entries :: "string list"

record tool_memory_entry =
  te_block :: string
  te_bytes :: nat
  te_stamp :: nat
  te_source :: tool_memory_source

record tool_memory =
  tm_by_id :: "string \<rightharpoonup> tool_memory_entry"
  tm_by_block :: "string \<rightharpoonup> tool_memory_block"
  tm_lru :: "string list"
  tm_entries :: int
  tm_max_entries :: int
  tm_bytes :: nat
  tm_max_bytes :: nat
  tm_clock :: nat
  tm_scan_clock :: nat

definition DS4_TOOL_MEMORY_DEFAULT_MAX_IDS :: int where "DS4_TOOL_MEMORY_DEFAULT_MAX_IDS = 100000"
definition DS4_TOOL_MEMORY_MAX_BYTES :: nat where "DS4_TOOL_MEMORY_MAX_BYTES = 512 * 1024 * 1024"

text \<open>Sizes of the two structures on a 64-bit target.\<close>

definition SIZEOF_BLOCK :: nat where "SIZEOF_BLOCK = 48"
definition SIZEOF_ENTRY :: nat where "SIZEOF_ENTRY = 64"

definition empty_tool_memory :: "int \<Rightarrow> nat \<Rightarrow> tool_memory" where
  "empty_tool_memory me mb =
     \<lparr>tm_by_id = \<lambda>_. None, tm_by_block = \<lambda>_. None, tm_lru = [], tm_entries = 0, tm_max_entries = me, tm_bytes = 0,
      tm_max_bytes = mb, tm_clock = 0, tm_scan_clock = 0\<rparr>"

definition tool_memory_max_entries :: "tool_memory \<Rightarrow> int" where
  "tool_memory_max_entries m = (if tm_max_entries m > 0 then tm_max_entries m else DS4_TOOL_MEMORY_DEFAULT_MAX_IDS)"

definition tool_memory_max_bytes :: "tool_memory \<Rightarrow> nat" where
  "tool_memory_max_bytes m = (if tm_max_bytes m > 0 then tm_max_bytes m else DS4_TOOL_MEMORY_MAX_BYTES)"

section \<open>Recency list and blocks\<close>

definition tool_memory_link_head :: "string \<Rightarrow> tool_memory \<Rightarrow> tool_memory" where
  "tool_memory_link_head i m = m\<lparr>tm_lru := i # tm_lru m\<rparr>"

definition tool_memory_unlink :: "string \<Rightarrow> tool_memory \<Rightarrow> tool_memory" where
  "tool_memory_unlink i m = m\<lparr>tm_lru := remove1 i (tm_lru m)\<rparr>"

definition set_stamp :: "string \<Rightarrow> nat \<Rightarrow> tool_memory \<Rightarrow> tool_memory" where
  "set_stamp i c m = m\<lparr>tm_by_id := (tm_by_id m)(i := map_option (\<lambda>e. e\<lparr>te_stamp := c\<rparr>) (tm_by_id m i))\<rparr>"

definition tool_memory_touch :: "string \<Rightarrow> tool_memory \<Rightarrow> tool_memory" where
  "tool_memory_touch i m =
     (let c = tm_clock m + 1; m1 = set_stamp i c (m\<lparr>tm_clock := c\<rparr>)
      in case tm_lru m1 of
           [] \<Rightarrow> tool_memory_link_head i (tool_memory_unlink i m1)
         | h # _ \<Rightarrow> if h = i then m1 else tool_memory_link_head i (tool_memory_unlink i m1))"

definition upd_block :: "string \<Rightarrow> (tool_memory_block \<Rightarrow> tool_memory_block) \<Rightarrow> tool_memory \<Rightarrow> tool_memory" where
  "upd_block d f m = m\<lparr>tm_by_block := (tm_by_block m)(d := map_option f (tm_by_block m d))\<rparr>"

definition tool_block_unlink_entry :: "string \<Rightarrow> string \<Rightarrow> tool_memory \<Rightarrow> tool_memory" where
  "tool_block_unlink_entry d i m = upd_block d (\<lambda>b. b\<lparr>tb_entries := remove1 i (tb_entries b)\<rparr>) m"

definition tool_memory_find_block_locked :: "tool_memory \<Rightarrow> string \<Rightarrow> tool_memory_block option" where
  "tool_memory_find_block_locked m d = (if d = [] then None else tm_by_block m d)"

definition tool_memory_get_block_locked :: "string \<Rightarrow> tool_memory \<Rightarrow> tool_memory" where
  "tool_memory_get_block_locked d m =
     (case tool_memory_find_block_locked m d of
        Some b \<Rightarrow> m
      | None \<Rightarrow>
          let n = length d + 1 + SIZEOF_BLOCK
          in m\<lparr>tm_by_block := (tm_by_block m)(d \<mapsto> \<lparr>tb_bytes = n, tb_refs = 0, tb_seen = 0, tb_entries = []\<rparr>),
               tm_bytes := tm_bytes m + n\<rparr>)"

definition sub_bytes :: "nat \<Rightarrow> tool_memory \<Rightarrow> tool_memory" where
  "sub_bytes n m = m\<lparr>tm_bytes := (if tm_bytes m \<ge> n then tm_bytes m - n else 0)\<rparr>"

definition tool_memory_release_block_locked :: "string \<Rightarrow> tool_memory \<Rightarrow> tool_memory" where
  "tool_memory_release_block_locked d m =
     (case tm_by_block m d of
        None \<Rightarrow> m
      | Some b \<Rightarrow>
          if tb_refs b - 1 > 0 then upd_block d (\<lambda>b. b\<lparr>tb_refs := tb_refs b - 1\<rparr>) m
          else sub_bytes (tb_bytes b) (m\<lparr>tm_by_block := (tm_by_block m)(d := None)\<rparr>))"

section \<open>Entries\<close>

definition tool_memory_remove_entry_locked :: "string \<Rightarrow> tool_memory \<Rightarrow> tool_memory" where
  "tool_memory_remove_entry_locked i m =
     (case tm_by_id m i of
        None \<Rightarrow> tool_memory_unlink i m
      | Some e \<Rightarrow>
          let m1 = tool_memory_unlink i (m\<lparr>tm_by_id := (tm_by_id m)(i := None)\<rparr>);
              m2 = sub_bytes (te_bytes e) (tool_block_unlink_entry (te_block e) i m1);
              m3 = m2\<lparr>tm_entries := (if tm_entries m2 > 0 then tm_entries m2 - 1 else tm_entries m2)\<rparr>
          in tool_memory_release_block_locked (te_block e) m3)"

definition over_limit :: "tool_memory \<Rightarrow> bool" where
  "over_limit m \<longleftrightarrow> tm_entries m > tool_memory_max_entries m \<or> tm_bytes m > tool_memory_max_bytes m"

lemma release_lru [simp]: "tm_lru (tool_memory_release_block_locked d m) = tm_lru m"
  by (simp add: tool_memory_release_block_locked_def upd_block_def sub_bytes_def split: option.splits)

lemma remove_lru [simp]: "tm_lru (tool_memory_remove_entry_locked i m) = remove1 i (tm_lru m)"
  by (simp add: tool_memory_remove_entry_locked_def tool_memory_unlink_def sub_bytes_def tool_block_unlink_entry_def
      upd_block_def Let_def split: option.splits)

function tool_memory_prune_locked :: "tool_memory \<Rightarrow> tool_memory" where
  "tool_memory_prune_locked m =
     (if over_limit m \<and> tm_lru m \<noteq> []
      then tool_memory_prune_locked (tool_memory_remove_entry_locked (last (tm_lru m)) m) else m)"
  by pat_completeness auto
termination
  by (relation "measure (\<lambda>m. length (tm_lru m))") (auto simp: length_remove1)

declare tool_memory_prune_locked.simps [simp del]

definition tool_memory_find_entry_locked :: "tool_memory \<Rightarrow> string \<Rightarrow> tool_memory_entry option" where
  "tool_memory_find_entry_locked m i = (if i = [] then None else tm_by_id m i)"

definition insert_entry :: "string \<Rightarrow> string \<Rightarrow> tool_memory_source \<Rightarrow> tool_memory \<Rightarrow> tool_memory" where
  "insert_entry i d source m =
     (let m1 = tool_memory_get_block_locked d m;
          c = tm_clock m1 + 1; n = length i + 1 + SIZEOF_ENTRY;
          m2 = upd_block d (\<lambda>b. b\<lparr>tb_entries := i # tb_entries b, tb_refs := tb_refs b + 1\<rparr>) (m1\<lparr>tm_clock := c\<rparr>);
          m3 = m2\<lparr>tm_by_id := (tm_by_id m2)(i \<mapsto> \<lparr>te_block = d, te_bytes = n, te_stamp = c, te_source = source\<rparr>)\<rparr>;
          m4 = tool_memory_link_head i m3
      in m4\<lparr>tm_entries := tm_entries m4 + 1, tm_bytes := tm_bytes m4 + n\<rparr>)"

definition tool_memory_put_locked :: "string \<Rightarrow> string \<Rightarrow> tool_memory_source \<Rightarrow> tool_memory \<Rightarrow> tool_memory" where
  "tool_memory_put_locked i d source m =
     (if i = [] \<or> d = [] then m
      else case tool_memory_find_entry_locked m i of
             Some e \<Rightarrow>
               if te_block e = d
               then let m1 = (if source = TOOL_MEMORY_RAM
                              then m\<lparr>tm_by_id := (tm_by_id m)(i \<mapsto> e\<lparr>te_source := TOOL_MEMORY_RAM\<rparr>)\<rparr> else m)
                    in tool_memory_prune_locked (tool_memory_touch i m1)
               else tool_memory_prune_locked (insert_entry i d source (tool_memory_remove_entry_locked i m))
           | None \<Rightarrow> tool_memory_prune_locked (insert_entry i d source m))"

definition tool_memory_lookup_locked :: "string \<Rightarrow> tool_memory \<Rightarrow> (string \<times> tool_memory_source) option \<times> tool_memory" where
  "tool_memory_lookup_locked i m =
     (case tool_memory_find_entry_locked m i of
        None \<Rightarrow> (None, m)
      | Some e \<Rightarrow> (Some (te_block e, te_source e), tool_memory_touch i m))"

text \<open>The callers, which do nothing when exact replay is disabled. \<open>calls\<close> is the ids of the calls.\<close>

definition tool_memory_has_id :: "bool \<Rightarrow> tool_memory \<Rightarrow> string \<Rightarrow> bool" where
  "tool_memory_has_id disabled m i \<longleftrightarrow> \<not> disabled \<and> i \<noteq> [] \<and> tool_memory_find_entry_locked m i \<noteq> None"

definition tool_memory_put_source :: "bool \<Rightarrow> string \<Rightarrow> string \<Rightarrow> tool_memory_source \<Rightarrow> tool_memory \<Rightarrow> tool_memory" where
  "tool_memory_put_source disabled i d source m =
     (if disabled \<or> i = [] \<or> d = [] then m else tool_memory_put_locked i d source m)"

definition tool_memory_remember :: "bool \<Rightarrow> string list \<Rightarrow> string option \<Rightarrow> tool_memory \<Rightarrow> tool_memory" where
  "tool_memory_remember disabled calls raw m =
     (case raw of
        None \<Rightarrow> m
      | Some d \<Rightarrow> if disabled \<or> d = [] then m
                  else foldl (\<lambda>m i. tool_memory_put_locked i d TOOL_MEMORY_RAM m) m calls)"

section \<open>The invariant\<close>

definition entry_size :: "string \<Rightarrow> nat" where "entry_size i = length i + 1 + SIZEOF_ENTRY"
definition block_size :: "string \<Rightarrow> nat" where "block_size d = length d + 1 + SIZEOF_BLOCK"

definition filed_under :: "tool_memory \<Rightarrow> string \<Rightarrow> string set" where
  "filed_under m d = {i. \<exists>e. tm_by_id m i = Some e \<and> te_block e = d}"

definition block_ok :: "tool_memory \<Rightarrow> string \<Rightarrow> tool_memory_block \<Rightarrow> bool" where
  "block_ok m d b \<longleftrightarrow>
     d \<noteq> [] \<and> tb_bytes b = block_size d \<and> distinct (tb_entries b) \<and> set (tb_entries b) = filed_under m d
     \<and> tb_entries b \<noteq> [] \<and> tb_refs b = int (length (tb_entries b))"

definition tm_ok :: "tool_memory \<Rightarrow> bool" where
  "tm_ok m \<longleftrightarrow>
     distinct (tm_lru m) \<and> set (tm_lru m) = dom (tm_by_id m) \<and> [] \<notin> set (tm_lru m)
     \<and> tm_entries m = int (length (tm_lru m))
     \<and> (\<forall>i e. tm_by_id m i = Some e \<longrightarrow> te_bytes e = entry_size i \<and> tm_by_block m (te_block e) \<noteq> None)
     \<and> finite (dom (tm_by_block m)) \<and> (\<forall>d b. tm_by_block m d = Some b \<longrightarrow> block_ok m d b)
     \<and> tm_bytes m = sum_list (map entry_size (tm_lru m)) + sum block_size (dom (tm_by_block m))"

lemma tm_ok_empty: "tm_ok (empty_tool_memory me mb)"
  by (simp add: tm_ok_def empty_tool_memory_def)

lemma tm_okD:
  assumes "tm_ok m"
  shows "distinct (tm_lru m)" "set (tm_lru m) = dom (tm_by_id m)" "[] \<notin> set (tm_lru m)"
    "tm_entries m = int (length (tm_lru m))" "finite (dom (tm_by_block m))"
    "tm_bytes m = sum_list (map entry_size (tm_lru m)) + sum block_size (dom (tm_by_block m))"
    "\<And>i e. tm_by_id m i = Some e \<Longrightarrow> te_bytes e = entry_size i \<and> tm_by_block m (te_block e) \<noteq> None"
    "\<And>d b. tm_by_block m d = Some b \<Longrightarrow> block_ok m d b"
  using assms by (auto simp: tm_ok_def)

lemma remove_entry_eq:
  assumes ok: "tm_ok m" and e: "tm_by_id m i = Some e" and b: "tm_by_block m (te_block e) = Some b"
  shows "tool_memory_remove_entry_locked i m = m\<lparr>tm_by_id := (tm_by_id m)(i := None), tm_lru := remove1 i (tm_lru m),
      tm_entries := tm_entries m - 1,
      tm_by_block := (tm_by_block m)(te_block e :=
        (if length (tb_entries b) > 1 then Some (b\<lparr>tb_entries := remove1 i (tb_entries b), tb_refs := tb_refs b - 1\<rparr>) else None)),
      tm_bytes := tm_bytes m - entry_size i - (if length (tb_entries b) > 1 then 0 else block_size (te_block e))\<rparr>"
proof -
  note o = tm_okD [OF ok]
  have i: "i \<in> set (tm_lru m)" using o(2) e by auto
  then have n: "tm_entries m > 0" using o(4) by (cases "tm_lru m") auto
  have bk: "tb_bytes b = block_size (te_block e)" "tb_refs b = int (length (tb_entries b))" using o(8) [OF b] by (auto simp: block_ok_def)
  have "entry_size i \<le> sum_list (map entry_size (tm_lru m))" using i by (simp add: member_le_sum_list)
  moreover have "block_size (te_block e) \<le> sum block_size (dom (tm_by_block m))"
    using o(5) b by (intro member_le_sum) auto
  ultimately have le: "entry_size i + block_size (te_block e) \<le> tm_bytes m" using o(6) by linarith
  have te: "te_bytes e = entry_size i" using o(7) [OF e] by simp
  show ?thesis using n bk le te e b
    by (simp add: tool_memory_remove_entry_locked_def tool_memory_unlink_def sub_bytes_def tool_block_unlink_entry_def
        upd_block_def tool_memory_release_block_locked_def Let_def)
qed

lemma filed_remove: "filed_under (m\<lparr>tm_by_id := (tm_by_id m)(i := None), tm_lru := l, tm_entries := n, tm_by_block := f, tm_bytes := y\<rparr>) d
    = filed_under m d - {i}"
  by (auto simp: filed_under_def split: if_splits)

lemma remove_entry_ok:
  assumes ok: "tm_ok m" and e: "tm_by_id m i = Some e"
  shows "tm_ok (tool_memory_remove_entry_locked i m)" "tm_by_id (tool_memory_remove_entry_locked i m) = (tm_by_id m)(i := None)"
proof -
  note o = tm_okD [OF ok]
  obtain b where b: "tm_by_block m (te_block e) = Some b" using o(7) [OF e] by auto
  note r = remove_entry_eq [OF ok e b]
  show "tm_by_id (tool_memory_remove_entry_locked i m) = (tm_by_id m)(i := None)" unfolding r by simp
  have bk: "block_ok m (te_block e) b" by (rule o(8) [OF b])
  have ib: "i \<in> set (tb_entries b)" using bk e by (auto simp: block_ok_def filed_under_def)
  have i: "i \<in> set (tm_lru m)" using o(2) e by auto
  let ?m = "tool_memory_remove_entry_locked i m"
  let ?many = "length (tb_entries b) > 1"
  have lru: "tm_lru ?m = remove1 i (tm_lru m)" by simp
  have blk: "tm_by_block ?m = (tm_by_block m)(te_block e := (if ?many
      then Some (b\<lparr>tb_entries := remove1 i (tb_entries b), tb_refs := tb_refs b - 1\<rparr>) else None))" unfolding r by simp
  have fu: "filed_under ?m d = filed_under m d - {i}" for d unfolding r by (rule filed_remove)
  have "set (remove1 i (tm_lru m)) = dom ((tm_by_id m)(i := None))" using o(1,2) by (auto simp: set_remove1_eq)
  moreover have "te_bytes x = entry_size k \<and> tm_by_block ?m (te_block x) \<noteq> None" if x: "tm_by_id m k = Some x" "k \<noteq> i" for k x
  proof (cases "te_block x = te_block e \<and> \<not> ?many")
    case True
    then have "k \<in> set (tb_entries b)" using bk x by (auto simp: block_ok_def filed_under_def)
    then show ?thesis using True ib x(2) by (cases "tb_entries b") auto
  qed (use o(7) [OF x(1)] in \<open>auto simp: blk\<close>)
  moreover have "block_ok ?m d c" if c: "tm_by_block ?m d = Some c" for d c
  proof (cases "d = te_block e")
    case True
    then have "?many" "c = b\<lparr>tb_entries := remove1 i (tb_entries b), tb_refs := tb_refs b - 1\<rparr>" using c by (auto simp: blk split: if_splits)
    moreover from this have "remove1 i (tb_entries b) \<noteq> []" using ib length_remove1 [of i "tb_entries b"] by (metis list.size(3) diff_is_0_eq not_le One_nat_def)
    ultimately show ?thesis using bk True ib by (auto simp: block_ok_def fu length_remove1 set_remove1_eq)
  next
    case False
    then have "block_ok m d c" using c o(8) by (simp add: blk)
    moreover have "i \<notin> filed_under m d" using False e by (auto simp: filed_under_def)
    ultimately show ?thesis by (simp add: block_ok_def fu)
  qed
  moreover have "tm_bytes ?m = sum_list (map entry_size (remove1 i (tm_lru m))) + sum block_size (dom (tm_by_block ?m))"
  proof -
    have s: "sum_list (map entry_size (tm_lru m)) = entry_size i + sum_list (map entry_size (remove1 i (tm_lru m)))"
      by (rule sum_list_map_remove1 [OF i])
    have d: "dom (tm_by_block ?m) = (if ?many then dom (tm_by_block m) else dom (tm_by_block m) - {te_block e})"
      unfolding blk using b by auto
    have t: "sum block_size (dom (tm_by_block m)) = block_size (te_block e) + sum block_size (dom (tm_by_block m) - {te_block e})"
      using o(5) b by (intro sum.remove) auto
    have "tm_bytes ?m = tm_bytes m - entry_size i - (if ?many then 0 else block_size (te_block e))" unfolding r by simp
    then show ?thesis unfolding d using o(6) s t by simp
  qed
  moreover have "finite (dom (tm_by_block ?m))" unfolding blk using o(5) by (cases ?many) simp_all
  moreover have "Suc (length (remove1 i (tm_lru m))) = length (tm_lru m)"
    using i length_pos_if_in_set [OF i] by (simp add: length_remove1)
  then have "tm_entries ?m = int (length (remove1 i (tm_lru m)))" using o(4) unfolding r by simp
  moreover have "[] \<notin> set (remove1 i (tm_lru m))" "distinct (remove1 i (tm_lru m))" using o(1,3) by (simp_all add: notin_set_remove1)
  moreover have "tm_by_id ?m = (tm_by_id m)(i := None)" unfolding r by simp
  ultimately show "tm_ok ?m" unfolding tm_ok_def lru by simp
qed

lemma insert_entry_ok:
  assumes ok: "tm_ok m" and i: "tm_by_id m i = None" "i \<noteq> []" and d: "d \<noteq> []"
  shows "tm_ok (insert_entry i d source m)"
    and "tm_by_id (insert_entry i d source m)
      = (tm_by_id m)(i \<mapsto> \<lparr>te_block = d, te_bytes = entry_size i, te_stamp = tm_clock m + 1, te_source = source\<rparr>)"
    and "tm_lru (insert_entry i d source m) = i # tm_lru m"
proof -
  note o = tm_okD [OF ok]
  let ?m = "insert_entry i d source m"
  let ?e = "\<lparr>te_block = d, te_bytes = entry_size i, te_stamp = tm_clock m + 1, te_source = source\<rparr>"
  define b where "b = (case tm_by_block m d of Some b \<Rightarrow> b
    | None \<Rightarrow> \<lparr>tb_bytes = block_size d, tb_refs = 0, tb_seen = 0, tb_entries = []\<rparr>)"
  have eq: "?m = m\<lparr>tm_clock := tm_clock m + 1, tm_by_id := (tm_by_id m)(i \<mapsto> ?e), tm_lru := i # tm_lru m,
      tm_entries := tm_entries m + 1,
      tm_by_block := (tm_by_block m)(d \<mapsto> b\<lparr>tb_entries := i # tb_entries b, tb_refs := tb_refs b + 1\<rparr>),
      tm_bytes := tm_bytes m + (if tm_by_block m d = None then block_size d else 0) + entry_size i\<rparr>"
    using d by (auto simp: insert_entry_def tool_memory_get_block_locked_def tool_memory_find_block_locked_def upd_block_def
        tool_memory_link_head_def Let_def entry_size_def block_size_def b_def split: option.splits)
  show by_id: "tm_by_id ?m = (tm_by_id m)(i \<mapsto> ?e)" and lru: "tm_lru ?m = i # tm_lru m" unfolding eq by simp_all
  have fu: "filed_under ?m x = (if x = d then insert i (filed_under m x) else filed_under m x)" for x
    using i(1) by (auto simp: filed_under_def by_id)
  have none: "filed_under m d = {}" if "tm_by_block m d = None"
    using that o(7) by (fastforce simp: filed_under_def)
  have bk: "tb_bytes b = block_size d" "distinct (tb_entries b)" "set (tb_entries b) = filed_under m d" "tb_refs b = int (length (tb_entries b))"
    using o(8) [of d] none by (auto simp: b_def block_ok_def split: option.splits)
  have inew: "i \<notin> filed_under m d" using i(1) by (simp add: filed_under_def)
  have blk: "block_ok ?m x c" if c: "tm_by_block ?m x = Some c" for x c
  proof (cases "x = d")
    case True
    then have "c = b\<lparr>tb_entries := i # tb_entries b, tb_refs := tb_refs b + 1\<rparr>" using c by (simp add: eq)
    then show ?thesis using bk inew d True by (simp add: block_ok_def fu)
  next
    case False
    then have "tm_by_block m x = Some c" using c by (simp add: eq)
    from o(8) [OF this] False show ?thesis by (simp add: block_ok_def fu)
  qed
  have ent: "te_bytes x = entry_size k \<and> tm_by_block ?m (te_block x) \<noteq> None" if "tm_by_id ?m k = Some x" for k x
    using that o(7) [of k x] by (auto simp: eq split: if_splits)
  have "dom (tm_by_block ?m) = insert d (dom (tm_by_block m))" by (simp add: eq)
  then have "sum block_size (dom (tm_by_block ?m))
      = sum block_size (dom (tm_by_block m)) + (if tm_by_block m d = None then block_size d else 0)"
    using o(5) by (auto simp: insert_absorb domIff)
  then have tot: "tm_bytes ?m = sum_list (map entry_size (i # tm_lru m)) + sum block_size (dom (tm_by_block ?m))"
    using o(6) by (simp add: eq)
  have "i \<notin> set (tm_lru m)" using o(2) i(1) by auto
  moreover have "finite (dom (tm_by_block ?m))" using o(5) by (simp add: eq)
  moreover have "tm_entries ?m = int (length (i # tm_lru m))" using o(4) by (simp add: eq)
  moreover have "set (i # tm_lru m) = dom (tm_by_id ?m)" using o(2) by (simp add: by_id)
  moreover have "[] \<notin> dom (tm_by_id ?m)" using o(2,3) i(2) by (auto simp: by_id)
  ultimately show "tm_ok ?m" unfolding tm_ok_def lru using o(1,3) i(2) blk ent tot by simp
qed

lemma touch_ok:
  assumes ok: "tm_ok m" and e: "tm_by_id m i = Some e"
  shows "tm_ok (tool_memory_touch i m)" "tm_by_id (tool_memory_touch i m) = (tm_by_id m)(i \<mapsto> e\<lparr>te_stamp := tm_clock m + 1\<rparr>)"
    "tm_lru (tool_memory_touch i m) = i # remove1 i (tm_lru m)"
proof -
  note o = tm_okD [OF ok]
  let ?m = "tool_memory_touch i m"
  have i: "i \<in> set (tm_lru m)" using o(2) e by auto
  have eq: "?m = m\<lparr>tm_clock := tm_clock m + 1, tm_by_id := (tm_by_id m)(i \<mapsto> e\<lparr>te_stamp := tm_clock m + 1\<rparr>),
      tm_lru := i # remove1 i (tm_lru m)\<rparr>"
    using i e by (auto simp: tool_memory_touch_def set_stamp_def tool_memory_link_head_def tool_memory_unlink_def Let_def
        split: list.splits)
  show by_id: "tm_by_id ?m = (tm_by_id m)(i \<mapsto> e\<lparr>te_stamp := tm_clock m + 1\<rparr>)"
    and lru: "tm_lru ?m = i # remove1 i (tm_lru m)" unfolding eq by simp_all
  have same: "tm_by_block ?m = tm_by_block m" "tm_entries ?m = tm_entries m" "tm_bytes ?m = tm_bytes m" by (simp_all add: eq)
  have fu: "filed_under ?m d = filed_under m d" for d using e by (auto simp: filed_under_def by_id)
  have "sum_list (map entry_size (tm_lru m)) = sum_list (map entry_size (i # remove1 i (tm_lru m)))"
    using sum_list_map_remove1 [OF i] by simp
  moreover have "set (i # remove1 i (tm_lru m)) = dom (tm_by_id ?m)" using o(1,2) i e by (auto simp: by_id set_remove1_eq)
  moreover have "te_bytes x = entry_size k \<and> tm_by_block m (te_block x) \<noteq> None" if "tm_by_id ?m k = Some x" for k x
    using that o(7) [of k] e by (auto simp: by_id split: if_splits)
  moreover have "block_ok ?m d b" if "tm_by_block m d = Some b" for d b using o(8) [OF that] by (simp add: block_ok_def fu)
  moreover have "length (i # remove1 i (tm_lru m)) = length (tm_lru m)"
    using i length_pos_if_in_set [OF i] by (simp add: length_remove1)
  moreover have "distinct (i # remove1 i (tm_lru m))" "[] \<notin> set (i # remove1 i (tm_lru m))"
    using o(1,3) i by (auto simp: set_remove1_eq)
  ultimately show "tm_ok ?m" unfolding tm_ok_def lru same using o(4-6) by simp
qed

section \<open>Pruning\<close>

lemma limits_remove [simp]:
  "tm_max_entries (tool_memory_remove_entry_locked i m) = tm_max_entries m"
  "tm_max_bytes (tool_memory_remove_entry_locked i m) = tm_max_bytes m"
  by (simp_all add: tool_memory_remove_entry_locked_def tool_memory_release_block_locked_def tool_memory_unlink_def
      sub_bytes_def tool_block_unlink_entry_def upd_block_def Let_def split: option.splits)

lemma remove1_last: "distinct xs \<Longrightarrow> xs \<noteq> [] \<Longrightarrow> remove1 (last xs) xs = butlast xs"
  by (induction xs) (auto split: if_splits)

text \<open>Pruning drops a tail of the recency list and nothing else.\<close>

lemma prune_ok:
  assumes "tm_ok m"
  shows "tm_ok (tool_memory_prune_locked m) \<and> prefix (tm_lru (tool_memory_prune_locked m)) (tm_lru m)
    \<and> (\<forall>i. tm_by_id (tool_memory_prune_locked m) i = (if i \<in> set (tm_lru (tool_memory_prune_locked m)) then tm_by_id m i else None))
    \<and> tm_max_entries (tool_memory_prune_locked m) = tm_max_entries m \<and> tm_max_bytes (tool_memory_prune_locked m) = tm_max_bytes m
    \<and> (over_limit (tool_memory_prune_locked m) \<longrightarrow> tm_lru (tool_memory_prune_locked m) = [])"
  using assms
proof (induction m rule: tool_memory_prune_locked.induct)
  case (1 m)
  note o = tm_okD [OF "1.prems"]
  show ?case
  proof (cases "over_limit m \<and> tm_lru m \<noteq> []")
    case False
    have "tm_by_id m i = None" if "i \<notin> set (tm_lru m)" for i using that o(2) by auto
    then show ?thesis using False "1.prems" by (auto simp: tool_memory_prune_locked.simps [of m])
  next
    case True
    let ?l = "last (tm_lru m)"
    let ?r = "tool_memory_remove_entry_locked ?l m"
    have "?l \<in> dom (tm_by_id m)" using True o(2) last_in_set [of "tm_lru m"] by metis
    then obtain e where e: "tm_by_id m ?l = Some e" by blast
    note r = remove_entry_ok [OF "1.prems" e]
    have l: "tm_lru ?r = butlast (tm_lru m)" using remove1_last [OF o(1)] True by simp
    have "?l \<notin> set (butlast (tm_lru m))" using o(1) True by (metis append_butlast_last_id distinct.simps(2) distinct1_rotate not_distinct_conv_prefix in_set_butlastD rotate1.simps(2))
    moreover have "set (tm_lru (tool_memory_prune_locked ?r)) \<subseteq> set (butlast (tm_lru m))"
      using "1.IH" [OF True r(1)] l set_mono_prefix by metis
    moreover have "prefix (tm_lru (tool_memory_prune_locked ?r)) (tm_lru m)"
      using "1.IH" [OF True r(1)] l True by (metis append_butlast_last_id prefix_order.trans prefixI)
    moreover have "tool_memory_prune_locked m = tool_memory_prune_locked ?r" using True by (simp add: tool_memory_prune_locked.simps [of m])
    ultimately show ?thesis using "1.IH" [OF True r(1)] r(2) by auto
  qed
qed

lemma prune_keeps_head:
  assumes "tm_ok m" "tm_lru m = i # l" "tm_by_id m i = Some e" "entry_size i + block_size (te_block e) \<le> tool_memory_max_bytes m"
  shows "i \<in> set (tm_lru (tool_memory_prune_locked m))"
  using assms
proof (induction m arbitrary: l rule: tool_memory_prune_locked.induct)
  case (1 m)
  note o = tm_okD [OF "1.prems"(1)]
  show ?case
  proof (cases "over_limit m")
    case False
    then show ?thesis using "1.prems"(2) by (simp add: tool_memory_prune_locked.simps [of m])
  next
    case True
    then have c: "over_limit m \<and> tm_lru m \<noteq> []" using "1.prems"(2) by simp
    have "l \<noteq> []"
    proof
      assume l: "l = []"
      have dom1: "dom (tm_by_id m) = {i}" using o(2) "1.prems"(2) l by simp
      have "d = te_block e" if d: "tm_by_block m d = Some b" for d b
      proof -
        have "filed_under m d \<noteq> {}" using o(8) [OF d] by (auto simp: block_ok_def)
        then obtain k x where "tm_by_id m k = Some x" "te_block x = d" by (auto simp: filed_under_def)
        moreover from this have "k = i" using dom1 by auto
        ultimately show ?thesis using "1.prems"(3) by simp
      qed
      then have "dom (tm_by_block m) \<subseteq> {te_block e}" by auto
      then have "sum block_size (dom (tm_by_block m)) \<le> block_size (te_block e)"
        using sum_mono2 [of "{te_block e}" "dom (tm_by_block m)" block_size] by simp
      then have "tm_bytes m \<le> tool_memory_max_bytes m" using o(6) "1.prems"(2,4) l by simp
      moreover have "tm_entries m \<le> tool_memory_max_entries m"
        using o(4) "1.prems"(2) l by (simp add: tool_memory_max_entries_def DS4_TOOL_MEMORY_DEFAULT_MAX_IDS_def)
      ultimately show False using True by (simp add: over_limit_def)
    qed
    then have last: "last (tm_lru m) \<in> set l" "last (tm_lru m) \<noteq> i" using "1.prems"(2) o(1) last_in_set [of l] by auto
    let ?l = "last (tm_lru m)" let ?r = "tool_memory_remove_entry_locked ?l m"
    obtain x where x: "tm_by_id m ?l = Some x" using last(1) o(2) "1.prems"(2) by (metis domD insert_iff list.set(2))
    note r = remove_entry_ok [OF "1.prems"(1) x]
    have "tm_lru ?r = i # remove1 ?l l" using "1.prems"(2) last(2) by (metis remove_lru remove1.simps(2))
    moreover have "tm_by_id ?r i = Some e" using r(2) "1.prems"(3) last(2) by simp
    moreover have "tool_memory_max_bytes ?r = tool_memory_max_bytes m" by (simp add: tool_memory_max_bytes_def)
    ultimately have "i \<in> set (tm_lru (tool_memory_prune_locked ?r))" using "1.IH" [OF c r(1)] "1.prems"(4) by simp
    then show ?thesis using c by (simp add: tool_memory_prune_locked.simps [of m])
  qed
qed

section \<open>Storing and looking up\<close>

lemma not_over_empty: "tm_ok m \<Longrightarrow> tm_lru m = [] \<Longrightarrow> \<not> over_limit m"
proof -
  assume ok: "tm_ok m" and l: "tm_lru m = []"
  note o = tm_okD [OF ok]
  have "tm_by_id m i = None" for i using o(2) l by auto
  then have "tm_by_block m d \<noteq> Some b" for d b using o(8) [of d b] by (auto simp: block_ok_def filed_under_def)
  then have "dom (tm_by_block m) = {}" unfolding dom_def by simp
  then show ?thesis using o(4,6) l
    by (simp add: over_limit_def tool_memory_max_entries_def DS4_TOOL_MEMORY_DEFAULT_MAX_IDS_def)
qed

lemma prune_bounded: "tm_ok m \<Longrightarrow> \<not> over_limit (tool_memory_prune_locked m)"
  using prune_ok not_over_empty by blast

lemma set_source_ok:
  assumes ok: "tm_ok m" and e: "tm_by_id m i = Some e"
  shows "tm_ok (m\<lparr>tm_by_id := (tm_by_id m)(i \<mapsto> e\<lparr>te_source := x\<rparr>)\<rparr>)"
proof -
  have "filed_under (m\<lparr>tm_by_id := (tm_by_id m)(i \<mapsto> e\<lparr>te_source := x\<rparr>)\<rparr>) d = filed_under m d" for d
    using e by (auto simp: filed_under_def)
  then show ?thesis using ok e by (auto simp: tm_ok_def block_ok_def)
qed

text \<open>What a successful put hands to the pruner.\<close>

lemma put_locked_prunes:
  assumes ok: "tm_ok m" and i: "i \<noteq> []" and d: "d \<noteq> []"
  shows "\<exists>m1 e l. tool_memory_put_locked i d source m = tool_memory_prune_locked m1 \<and> tm_ok m1 \<and> tm_lru m1 = i # l
    \<and> tm_by_id m1 i = Some e \<and> te_block e = d
    \<and> (\<forall>j. j \<noteq> i \<longrightarrow> tm_by_id m1 j = tm_by_id m j)
    \<and> tm_max_entries m1 = tm_max_entries m \<and> tm_max_bytes m1 = tm_max_bytes m"
proof (cases "tm_by_id m i")
  case None
  note s = insert_entry_ok [OF ok None i d, of source]
  have "tm_max_entries (insert_entry i d source m) = tm_max_entries m \<and> tm_max_bytes (insert_entry i d source m) = tm_max_bytes m"
    by (simp add: insert_entry_def tool_memory_get_block_locked_def upd_block_def tool_memory_link_head_def Let_def split: option.splits)
  then show ?thesis using s None i d
    by (intro exI [of _ "insert_entry i d source m"]) (simp add: tool_memory_put_locked_def tool_memory_find_entry_locked_def)
next
  case (Some e)
  show ?thesis
  proof (cases "te_block e = d")
    case True
    let ?e = "if source = TOOL_MEMORY_RAM then e\<lparr>te_source := TOOL_MEMORY_RAM\<rparr> else e"
    let ?m = "if source = TOOL_MEMORY_RAM then m\<lparr>tm_by_id := (tm_by_id m)(i \<mapsto> e\<lparr>te_source := TOOL_MEMORY_RAM\<rparr>)\<rparr> else m"
    have m: "tm_ok ?m" "tm_by_id ?m i = Some ?e" "\<And>j. j \<noteq> i \<Longrightarrow> tm_by_id ?m j = tm_by_id m j"
      using ok set_source_ok [OF ok Some] Some by auto
    note t = touch_ok [OF m(1,2)]
    have "tm_max_entries (tool_memory_touch i ?m) = tm_max_entries m \<and> tm_max_bytes (tool_memory_touch i ?m) = tm_max_bytes m"
      by (simp add: tool_memory_touch_def set_stamp_def tool_memory_link_head_def tool_memory_unlink_def Let_def split: list.splits)
    moreover have "tool_memory_put_locked i d source m = tool_memory_prune_locked (tool_memory_touch i ?m)"
      using Some True i d by (simp add: tool_memory_put_locked_def tool_memory_find_entry_locked_def)
    ultimately show ?thesis using t m(3) True by (intro exI [of _ "tool_memory_touch i ?m"]) simp
  next
    case False
    let ?r = "tool_memory_remove_entry_locked i m"
    note r = remove_entry_ok [OF ok Some]
    have n: "tm_by_id ?r i = None" using r(2) by simp
    note s = insert_entry_ok [OF r(1) n i d, of source]
    have "tm_max_entries (insert_entry i d source ?r) = tm_max_entries m \<and> tm_max_bytes (insert_entry i d source ?r) = tm_max_bytes m"
      by (simp add: insert_entry_def tool_memory_get_block_locked_def upd_block_def tool_memory_link_head_def Let_def split: option.splits)
    then show ?thesis using s r(2) False Some i d
      by (intro exI [of _ "insert_entry i d source ?r"]) (simp add: tool_memory_put_locked_def tool_memory_find_entry_locked_def)
  qed
qed

lemma put_locked_ok:
  assumes "tm_ok m" "\<not> over_limit m"
  shows "tm_ok (tool_memory_put_locked i d source m) \<and> \<not> over_limit (tool_memory_put_locked i d source m)
    \<and> tm_max_entries (tool_memory_put_locked i d source m) = tm_max_entries m
    \<and> tm_max_bytes (tool_memory_put_locked i d source m) = tm_max_bytes m"
proof (cases "i = [] \<or> d = []")
  case True
  then show ?thesis using assms by (simp add: tool_memory_put_locked_def)
next
  case False
  then show ?thesis using put_locked_prunes [OF assms(1), of i d source] prune_ok prune_bounded by auto
qed

lemma lookup_locked_ok:
  assumes "tm_ok m" "\<not> over_limit m"
  shows "tm_ok (snd (tool_memory_lookup_locked i m)) \<and> \<not> over_limit (snd (tool_memory_lookup_locked i m))
    \<and> tm_max_entries (snd (tool_memory_lookup_locked i m)) = tm_max_entries m
    \<and> tm_max_bytes (snd (tool_memory_lookup_locked i m)) = tm_max_bytes m"
proof (cases "tm_by_id m i")
  case None
  then show ?thesis using assms by (simp add: tool_memory_lookup_locked_def tool_memory_find_entry_locked_def)
next
  case (Some e)
  let ?t = "tool_memory_touch i m"
  have f: "tm_entries ?t = tm_entries m" "tm_bytes ?t = tm_bytes m" "tm_max_entries ?t = tm_max_entries m" "tm_max_bytes ?t = tm_max_bytes m"
    by (simp_all add: tool_memory_touch_def set_stamp_def tool_memory_link_head_def tool_memory_unlink_def Let_def split: list.splits)
  have "over_limit ?t = over_limit m" by (simp only: over_limit_def tool_memory_max_entries_def tool_memory_max_bytes_def f)
  moreover have "i = [] \<Longrightarrow> snd (tool_memory_lookup_locked i m) = m \<or> snd (tool_memory_lookup_locked i m) = ?t"
    using Some by (simp add: tool_memory_lookup_locked_def tool_memory_find_entry_locked_def)
  ultimately show ?thesis using assms f touch_ok(1) [OF assms(1) Some] Some
    by (cases "i = []") (auto simp: tool_memory_lookup_locked_def tool_memory_find_entry_locked_def)
qed

text \<open>Any history of puts and lookups.\<close>

datatype tm_op = Put string string tool_memory_source | Lookup string

fun tm_apply :: "tool_memory \<Rightarrow> tm_op \<Rightarrow> tool_memory" where
  "tm_apply m (Put i d source) = tool_memory_put_locked i d source m"
| "tm_apply m (Lookup i) = snd (tool_memory_lookup_locked i m)"

definition tm_run :: "int \<Rightarrow> nat \<Rightarrow> tm_op list \<Rightarrow> tool_memory" where
  "tm_run me mb ops = foldl tm_apply (empty_tool_memory me mb) ops"

lemma tm_run_ok:
  "tm_ok (tm_run me mb ops) \<and> \<not> over_limit (tm_run me mb ops)
    \<and> tm_max_entries (tm_run me mb ops) = me \<and> tm_max_bytes (tm_run me mb ops) = mb"
proof (induction ops rule: rev_induct)
  case Nil
  show ?case using tm_ok_empty [of me mb] not_over_empty [OF tm_ok_empty, of me mb] by (simp add: tm_run_def empty_tool_memory_def)
next
  case (snoc a ops)
  have "tm_run me mb (ops @ [a]) = tm_apply (tm_run me mb ops) a" by (simp add: tm_run_def)
  then show ?case using snoc put_locked_ok lookup_locked_ok by (cases a) simp_all
qed

text \<open>
  (C10) The memory's books balance and its limits hold. After any history of puts and lookups the entry count is the
  number of ids filed, the byte count is exactly the sizes of the entries and of the distinct blocks, no block is kept
  that no id refers to, every id refers to a block that is kept, and both limits (their defaults when unset) are met.
\<close>

theorem tool_memory_accounts:
  "tm_entries (tm_run me mb ops) = int (card (dom (tm_by_id (tm_run me mb ops))))
    \<and> tm_bytes (tm_run me mb ops) = sum entry_size (dom (tm_by_id (tm_run me mb ops)))
        + sum block_size (dom (tm_by_block (tm_run me mb ops)))
    \<and> dom (tm_by_block (tm_run me mb ops)) = te_block ` ran (tm_by_id (tm_run me mb ops))
    \<and> tm_entries (tm_run me mb ops) \<le> (if me > 0 then me else 100000)
    \<and> tm_bytes (tm_run me mb ops) \<le> (if mb > 0 then mb else 536870912)"
proof -
  let ?m = "tm_run me mb ops"
  have r: "tm_ok ?m" "\<not> over_limit ?m" "tm_max_entries ?m = me" "tm_max_bytes ?m = mb" using tm_run_ok by blast+
  note o = tm_okD [OF r(1)]
  have "dom (tm_by_block ?m) = te_block ` ran (tm_by_id ?m)"
  proof (intro equalityI subsetI)
    fix d assume "d \<in> dom (tm_by_block ?m)"
    then obtain b where "tm_by_block ?m d = Some b" by blast
    from o(8) [OF this] have "filed_under ?m d \<noteq> {}" by (auto simp: block_ok_def)
    then show "d \<in> te_block ` ran (tm_by_id ?m)" by (auto simp: filed_under_def ran_def)
  next
    fix d assume "d \<in> te_block ` ran (tm_by_id ?m)"
    then obtain i e where "tm_by_id ?m i = Some e" "d = te_block e" by (auto simp: ran_def)
    then show "d \<in> dom (tm_by_block ?m)" using o(7) by blast
  qed
  moreover have "tm_entries ?m = int (card (dom (tm_by_id ?m)))" using o(1,4) distinct_card [OF o(1)] o(2) by simp
  moreover have "sum_list (map entry_size (tm_lru ?m)) = sum entry_size (dom (tm_by_id ?m))"
    using sum_list_distinct_conv_sum_set [OF o(1)] o(2) by simp
  ultimately show ?thesis using o(6) r(2-4)
    by (simp add: over_limit_def tool_memory_max_entries_def tool_memory_max_bytes_def DS4_TOOL_MEMORY_DEFAULT_MAX_IDS_def
        DS4_TOOL_MEMORY_MAX_BYTES_def split: if_splits)
qed

text \<open>
  What was sampled is replayed verbatim: right after a block is filed under an id, looking the id up returns exactly
  that block, provided the id and the block fit the byte limit on their own; and whatever else is looked up gives what it
  gave before the put or, if it was evicted, nothing, never another block.
\<close>

lemma tool_memory_replay:
  assumes "i \<noteq> []" and "d \<noteq> []" and "entry_size i + block_size d \<le> tool_memory_max_bytes (tm_run me mb ops)"
  shows "map_option fst (fst (tool_memory_lookup_locked i (tool_memory_put_locked i d source (tm_run me mb ops)))) = Some d
    \<and> (j \<noteq> i \<longrightarrow> fst (tool_memory_lookup_locked j (tool_memory_put_locked i d source (tm_run me mb ops)))
        \<in> {None, fst (tool_memory_lookup_locked j (tm_run me mb ops))})"
proof -
  let ?m = "tm_run me mb ops"
  obtain m1 e l where p: "tool_memory_put_locked i d source ?m = tool_memory_prune_locked m1" "tm_ok m1" "tm_lru m1 = i # l"
    "tm_by_id m1 i = Some e" "te_block e = d" "\<forall>j. j \<noteq> i \<longrightarrow> tm_by_id m1 j = tm_by_id ?m j" "tm_max_bytes m1 = tm_max_bytes ?m"
    using put_locked_prunes [of ?m i d source] tm_run_ok assms(1,2) by blast
  note q = prune_ok [OF p(2)]
  have "tool_memory_max_bytes m1 = tool_memory_max_bytes ?m" by (simp add: tool_memory_max_bytes_def p(7))
  then have "i \<in> set (tm_lru (tool_memory_prune_locked m1))"
    using prune_keeps_head [OF p(2-4)] assms(3) p(5) by simp
  then have "tm_by_id (tool_memory_prune_locked m1) i = Some e" using q p(4) by simp
  then show ?thesis using q p(1,5,6) assms(1)
    by (auto simp: tool_memory_lookup_locked_def tool_memory_find_entry_locked_def split: option.splits)
qed

end
