(* ===== verification/Tool_Map.thy ===== *)
theory Tool_Map
  imports Tool_Memory Kv_Store Json
begin

text \<open>
  The part of the tool memory that \<open>ds4_server.c\<close> keeps next to a checkpoint: the section of
  (call id, block) pairs written after the engine payload, its size estimate, its reader, the hooks handed to the
  checkpoint store, the restoration before a prompt is rendered and the replacement of parsed calls by the block
  the model sampled. Writes go to the stream the store provides; a write that is cut short is the store's matter
  (\<open>written\<close> in the file-system model), so the writer itself delivers its bytes.
\<close>

section \<open>Blocks in a transcript\<close>

definition nl2 :: string where "nl2 = [CHR 0x0A, CHR 0x0A]"

definition block_forms :: "(string \<times> string) list" where
  "block_forms =
     [(nl2 @ DS4_TOOL_CALLS_START, DS4_TOOL_CALLS_END),
      (DS4_TOOL_CALLS_START, DS4_TOOL_CALLS_END),
      (nl2 @ DS4_TOOL_CALLS_START_SHORT, DS4_TOOL_CALLS_END_SHORT),
      (DS4_TOOL_CALLS_START_SHORT, DS4_TOOL_CALLS_END_SHORT),
      (nl2 @ ''<tool_calls>'', ''</tool_calls>''),
      (''<tool_calls>'', ''</tool_calls>'')]"

text \<open>The offsets of the block's first byte and of the byte after its end.\<close>

definition block_step :: "string \<Rightarrow> string \<times> string \<Rightarrow> (nat \<times> nat) option \<Rightarrow> (nat \<times> nat) option" where
  "block_step p form best =
     (case strstr (fst form) p of
        None \<Rightarrow> best
      | Some s \<Rightarrow>
          if (case best of None \<Rightarrow> False | Some (b, _) \<Rightarrow> s \<ge> b) then best
          else (case strstr (snd form) (drop s p) of
                  None \<Rightarrow> best
                | Some e \<Rightarrow> Some (s, s + e + length (snd form))))"

definition find_next_dsml_tool_block :: "string \<Rightarrow> (nat \<times> nat) option" where
  "find_next_dsml_tool_block p = fold (block_step p) block_forms None"

lemma block_step_inv:
  assumes "\<And>s e. best = Some (s, e) \<Longrightarrow> s < e \<and> e \<le> length p" and "snd form \<noteq> []"
    and "block_step p form best = Some (s, e)"
  shows "s < e \<and> e \<le> length p"
proof -
  have "strstr (snd form) (drop k p) = Some n \<Longrightarrow> k \<le> length p \<Longrightarrow> k + n + length (snd form) \<le> length p" for k n
    using strstr_Some_prefix [of "snd form" "drop k p" n] prefix_length_le [of "snd form" "drop n (drop k p)"] assms(2)
    by (cases "snd form") auto
  moreover have "strstr (fst form) p = Some k \<Longrightarrow> k \<le> length p" for k
    using strstr_Some_prefix by blast
  ultimately show ?thesis using assms by (auto simp: block_step_def split: option.splits if_splits)
qed

lemma find_block_bounds:
  assumes "find_next_dsml_tool_block p = Some (s, e)"
  shows "s < e" "e \<le> length p"
proof -
  have "fold (block_step p) fs best = Some (s, e) \<Longrightarrow> list_all (\<lambda>f. snd f \<noteq> []) fs
      \<Longrightarrow> (\<And>s e. best = Some (s, e) \<Longrightarrow> s < e \<and> e \<le> length p) \<Longrightarrow> s < e \<and> e \<le> length p" for fs best
  proof (induction fs arbitrary: best)
    case (Cons f fs)
    show ?case
    proof (rule Cons.IH)
      show "fold (block_step p) fs (block_step p f best) = Some (s, e)" "list_all (\<lambda>f. snd f \<noteq> []) fs" using Cons.prems by simp_all
      show "s < e \<and> e \<le> length p" if "block_step p f best = Some (s, e)" for s e
        using block_step_inv [OF _ _ that] Cons.prems(2,3) by simp
    qed
  qed simp
  moreover have "list_all (\<lambda>f. snd f \<noteq> []) block_forms"
    by (simp add: block_forms_def DS4_TOOL_CALLS_END_def DS4_TOOL_CALLS_END_SHORT_def)
  ultimately show "s < e" "e \<le> length p" using assms unfolding find_next_dsml_tool_block_def by blast+
qed

lemma find_block_shrinks: "find_next_dsml_tool_block p = Some (s, e) \<Longrightarrow> length p - e < length p"
  using find_block_bounds [of p s e] by linarith

section \<open>Measuring and writing\<close>

definition KV_TOOL_MAP_HEADER :: nat where "KV_TOOL_MAP_HEADER = 8"

text \<open>The inner loop over a block's entries: the count and the byte total, or \<open>None\<close> for overflow.\<close>

fun measure_entries :: "nat \<Rightarrow> string list \<Rightarrow> nat \<times> nat \<Rightarrow> (nat \<times> nat) option" where
  "measure_entries dsml_len [] acc = Some acc"
| "measure_entries dsml_len (i # is') (count, bytes) =
     (if length i > UINT32_MAX \<or> dsml_len > UINT32_MAX then measure_entries dsml_len is' (count, bytes)
      else if count = UINT32_MAX then None
      else if UINT64_MAX - bytes < 8 \<or> UINT64_MAX - bytes - 8 < length i \<or> UINT64_MAX - bytes - 8 - length i < dsml_len then None
      else measure_entries dsml_len is' (count + 1, bytes + 8 + length i + dsml_len))"

definition mark_seen :: "string \<Rightarrow> nat \<Rightarrow> tool_memory \<Rightarrow> tool_memory" where
  "mark_seen d scan m = upd_block d (\<lambda>b. b\<lparr>tb_seen := scan\<rparr>) m"

function measure_loop :: "nat \<Rightarrow> string \<Rightarrow> nat \<times> nat \<Rightarrow> tool_memory \<Rightarrow> (nat \<times> nat) option \<times> tool_memory" where
  "measure_loop scan p acc m =
     (case find_next_dsml_tool_block p of
        None \<Rightarrow> (Some acc, m)
      | Some (s, e) \<Rightarrow>
          let d = take (e - s) (drop s p)
          in (case tool_memory_find_block_locked m d of
                None \<Rightarrow> measure_loop scan (drop e p) acc m
              | Some b \<Rightarrow>
                  if tb_seen b \<noteq> scan
                  then (case measure_entries (length d) (tb_entries b) acc of
                          None \<Rightarrow> (None, mark_seen d scan m)
                        | Some acc' \<Rightarrow> measure_loop scan (drop e p) acc' (mark_seen d scan m))
                  else measure_loop scan (drop e p) acc m))"
  by pat_completeness auto
termination
  by (relation "measure (\<lambda>(scan, p, acc, m). length p)") (auto dest!: find_block_shrinks)

declare measure_loop.simps [simp del]

definition kv_tool_map_measure_locked :: "string \<Rightarrow> tool_memory \<Rightarrow> (nat \<times> nat) option \<times> tool_memory" where
  "kv_tool_map_measure_locked text m =
     (let scan = tm_scan_clock m + 1
      in case measure_loop scan text (0, KV_TOOL_MAP_HEADER) (m\<lparr>tm_scan_clock := scan\<rparr>) of
           (None, m1) \<Rightarrow> (None, m1)
         | (Some (count, bytes), m1) \<Rightarrow> (Some (count, if count = 0 then 0 else bytes), m1))"

definition kv_tool_map_serialized_size :: "bool \<Rightarrow> string option \<Rightarrow> tool_memory \<Rightarrow> (bool \<times> nat) \<times> tool_memory" where
  "kv_tool_map_serialized_size disabled text m =
     (if disabled \<or> text = None \<or> text = Some [] then ((True, 0), m)
      else case kv_tool_map_measure_locked (the text) m of
             (None, m1) \<Rightarrow> ((False, 0), m1)
           | (Some (count, bytes), m1) \<Rightarrow> ((True, bytes), m1))"

definition map_record :: "string \<Rightarrow> string \<Rightarrow> bytes" where
  "map_record d i =
     (if length i > UINT32_MAX \<or> length d > UINT32_MAX then []
      else ds4_kvstore_le_put32 (of_nat (length i)) @ ds4_kvstore_le_put32 (of_nat (length d)) @ str_bytes i @ str_bytes d)"

function write_loop :: "nat \<Rightarrow> string \<Rightarrow> tool_memory \<Rightarrow> bytes \<times> tool_memory" where
  "write_loop scan p m =
     (case find_next_dsml_tool_block p of
        None \<Rightarrow> ([], m)
      | Some (s, e) \<Rightarrow>
          let d = take (e - s) (drop s p)
          in (case tool_memory_find_block_locked m d of
                None \<Rightarrow> write_loop scan (drop e p) m
              | Some b \<Rightarrow>
                  if tb_seen b \<noteq> scan
                  then (case write_loop scan (drop e p) (mark_seen d scan m) of
                          (out, m1) \<Rightarrow> (concat (map (map_record d) (tb_entries b)) @ out, m1))
                  else write_loop scan (drop e p) m))"
  by pat_completeness auto
termination
  by (relation "measure (\<lambda>(scan, p, m). length p)") (auto dest!: find_block_shrinks)

declare write_loop.simps [simp del]

definition kv_tool_map_write :: "bool \<Rightarrow> string option \<Rightarrow> tool_memory \<Rightarrow> (bool \<times> bytes) \<times> tool_memory" where
  "kv_tool_map_write disabled text m =
     (if disabled \<or> text = None \<or> text = Some [] then ((True, []), m)
      else case kv_tool_map_measure_locked (the text) m of
             (None, m1) \<Rightarrow> ((False, []), m1)
           | (Some (count, bytes), m1) \<Rightarrow>
               if count = 0 then ((True, []), m1)
               else let scan = tm_scan_clock m1 + 1
                    in case write_loop scan (the text) (m1\<lparr>tm_scan_clock := scan\<rparr>) of
                         (out, m2) \<Rightarrow> ((True, [0x4B, 0x54, 0x4D, 1] @ ds4_kvstore_le_put32 (of_nat count) @ out), m2))"

section \<open>Loading\<close>

definition wanted_id :: "stop_list option \<Rightarrow> string \<Rightarrow> bool" where
  "wanted_id wanted i \<longleftrightarrow> (case wanted of None \<Rightarrow> True | Some w \<Rightarrow> id_list_contains w (Some i))"

fun load_records :: "bool \<Rightarrow> stop_list option \<Rightarrow> nat \<Rightarrow> bytes \<Rightarrow> int \<times> tool_memory \<Rightarrow> int \<times> tool_memory" where
  "load_records disabled wanted 0 fp acc = acc"
| "load_records disabled wanted (Suc n) fp (loaded, m) =
     (if length fp < 8 then (loaded, m)
      else let id_len = unat (ds4_kvstore_le_get32 fp); dsml_len = unat (ds4_kvstore_le_get32 (drop 4 fp)); fp1 = drop 8 fp
           in if id_len = 0 \<or> id_len > 256 \<or> dsml_len = 0 \<or> dsml_len > DS4_TOOL_MEMORY_MAX_BYTES then (loaded, m)
              else if length fp1 < id_len + dsml_len then (loaded, m)
              else let i = c_str (bytes_str (take id_len fp1)); d = c_str (bytes_str (take dsml_len (drop id_len fp1)))
                   in load_records disabled wanted n (drop (id_len + dsml_len) fp1)
                        (if wanted_id wanted i then (loaded + 1, tool_memory_put_source disabled i d TOOL_MEMORY_DISK m)
                         else (loaded, m)))"

definition kv_tool_map_load_from_pos :: "bool \<Rightarrow> bytes \<Rightarrow> stop_list option \<Rightarrow> tool_memory \<Rightarrow> int \<times> tool_memory" where
  "kv_tool_map_load_from_pos disabled fp wanted m =
     (if disabled \<or> length fp < 8 then (0, m)
      else if take 4 fp \<noteq> [0x4B, 0x54, 0x4D, 1] then (0, m)
      else let count = unat (ds4_kvstore_le_get32 (drop 4 fp))
           in if count > nat (tool_memory_max_entries m) * 4 then (0, m)
              else load_records disabled wanted count (drop 8 fp) (0, m))"

section \<open>What the scan enumerates\<close>

text \<open>The blocks of a transcript in order, each the first time it occurs, and the ids filed under them.\<close>

function text_blocks :: "string \<Rightarrow> string list" where
  "text_blocks p =
     (case find_next_dsml_tool_block p of
        None \<Rightarrow> []
      | Some (s, e) \<Rightarrow> take (e - s) (drop s p) # text_blocks (drop e p))"
  by pat_completeness auto
termination
  by (relation "measure length") (auto dest!: find_block_shrinks)

declare text_blocks.simps [simp del]

fun first_seen :: "string list \<Rightarrow> string set \<Rightarrow> string list" where
  "first_seen [] S = []"
| "first_seen (d # ds) S = (if d \<in> S then first_seen ds S else d # first_seen ds (insert d S))"

definition filed :: "tool_memory \<Rightarrow> string \<Rightarrow> string list" where
  "filed m d = (case tool_memory_find_block_locked m d of None \<Rightarrow> [] | Some b \<Rightarrow> tb_entries b)"

definition pairs_of :: "tool_memory \<Rightarrow> string list \<Rightarrow> (string \<times> string) list" where
  "pairs_of m ds = concat (map (\<lambda>d. map (\<lambda>i. (i, d)) (filed m d)) ds)"

definition tool_map_pairs :: "tool_memory \<Rightarrow> string \<Rightarrow> (string \<times> string) list" where
  "tool_map_pairs m text = pairs_of m (first_seen (text_blocks text) {})"

text \<open>The memory with the scan marks erased: what no scan changes.\<close>

definition strip :: "tool_memory \<Rightarrow> tool_memory" where
  "strip m = m\<lparr>tm_by_block := (\<lambda>d. map_option (\<lambda>b. b\<lparr>tb_seen := 0\<rparr>) (tm_by_block m d)), tm_scan_clock := 0\<rparr>"

definition seen_ok :: "tool_memory \<Rightarrow> bool" where
  "seen_ok m \<longleftrightarrow> (\<forall>d b. tm_by_block m d = Some b \<longrightarrow> tb_seen b \<le> tm_scan_clock m)"

definition marks :: "nat \<Rightarrow> string set \<Rightarrow> tool_memory \<Rightarrow> bool" where
  "marks scan S m \<longleftrightarrow> tm_scan_clock m = scan \<and>
     (\<forall>d b. tm_by_block m d = Some b \<longrightarrow> tb_seen b \<le> scan \<and> (tb_seen b = scan \<longleftrightarrow> d \<in> S))"

lemma marks_start: "seen_ok m \<Longrightarrow> marks (tm_scan_clock m + 1) {} (m\<lparr>tm_scan_clock := tm_scan_clock m + 1\<rparr>)"
  by (fastforce simp: seen_ok_def marks_def)

lemma marks_seen_ok: "marks scan S m \<Longrightarrow> seen_ok m"
  by (auto simp: marks_def seen_ok_def)

lemma marks_mark: "marks scan S m \<Longrightarrow> marks scan (insert d S) (mark_seen d scan m)"
  by (auto simp: marks_def mark_seen_def upd_block_def split: if_splits)

lemma marks_unfiled: "marks scan S m \<Longrightarrow> tool_memory_find_block_locked m d = None \<Longrightarrow> d \<noteq> [] \<Longrightarrow> marks scan (insert d S) m"
  by (auto simp: marks_def tool_memory_find_block_locked_def)

lemma filed_strip: "filed (strip m) = filed m"
  by (rule ext) (simp add: filed_def strip_def tool_memory_find_block_locked_def split: option.splits)

lemma strip_mark: "strip (mark_seen d scan m) = strip m"
  by (auto simp: strip_def mark_seen_def upd_block_def fun_eq_iff option.map_comp comp_def)

lemma strip_clock: "strip (m\<lparr>tm_scan_clock := k\<rparr>) = strip m"
  by (simp add: strip_def)

lemma filed_eq: "strip m = strip m' \<Longrightarrow> filed m = filed m'"
  using filed_strip by metis

lemma filed_mark [simp]: "filed (mark_seen d scan m) = filed m"
  by (rule filed_eq) (rule strip_mark)

lemma pairs_eq: "filed m = filed m' \<Longrightarrow> pairs_of m = pairs_of m'"
  by (rule ext) (simp add: pairs_of_def)

lemma pairs_mark [simp]: "pairs_of (mark_seen d scan m) = pairs_of m"
  by (rule pairs_eq) simp

lemma pairs_Nil [simp]: "pairs_of m [] = []"
  by (simp add: pairs_of_def)

lemma pairs_Cons [simp]: "pairs_of m (d # ds) = map (\<lambda>i. (i, d)) (filed m d) @ pairs_of m ds"
  by (simp add: pairs_of_def)

lemma pairs_append [simp]: "pairs_of m (ds @ es) = pairs_of m ds @ pairs_of m es"
  by (simp add: pairs_of_def)

section \<open>Both scans enumerate the same pairs\<close>

fun measure_list :: "(string \<times> string) list \<Rightarrow> nat \<times> nat \<Rightarrow> (nat \<times> nat) option" where
  "measure_list [] acc = Some acc"
| "measure_list ((i, d) # ps) acc =
     (case measure_entries (length d) [i] acc of None \<Rightarrow> None | Some acc' \<Rightarrow> measure_list ps acc')"

lemma measure_list_append:
  "measure_list (ps @ qs) acc = (case measure_list ps acc of None \<Rightarrow> None | Some acc' \<Rightarrow> measure_list qs acc')"
  by (induction ps acc rule: measure_list.induct) (auto split: option.splits)

lemma measure_entries_list: "measure_entries (length d) ids acc = measure_list (map (\<lambda>i. (i, d)) ids) acc"
proof (induction ids arbitrary: acc)
  case (Cons i ids)
  then show ?case by (cases acc) simp
qed simp

abbreviation record_of :: "string \<times> string \<Rightarrow> bytes" where "record_of x \<equiv> map_record (snd x) (fst x)"

lemma find_block_nonempty: "find_next_dsml_tool_block p = Some (s, e) \<Longrightarrow> take (e - s) (drop s p) \<noteq> []"
  using find_block_bounds [of p s e] by simp

text \<open>One round of either scan: nothing left, a block that adds nothing, or a filed block met for the first time.\<close>

lemma scan_cases:
  assumes "marks scan S m"
  obtains (stop) "find_next_dsml_tool_block p = None" "text_blocks p = []"
    | (skip) s e S' where "find_next_dsml_tool_block p = Some (s, e)" "marks scan S' m"
        "case tool_memory_find_block_locked m (take (e - s) (drop s p)) of None \<Rightarrow> True | Some b \<Rightarrow> tb_seen b = scan"
        "pairs_of m (first_seen (text_blocks p) S) = pairs_of m (first_seen (text_blocks (drop e p)) S')"
    | (new) s e d b where "find_next_dsml_tool_block p = Some (s, e)" "d = take (e - s) (drop s p)"
        "tool_memory_find_block_locked m d = Some b" "tb_seen b \<noteq> scan" "marks scan (insert d S) (mark_seen d scan m)"
        "pairs_of m (first_seen (text_blocks p) S)
         = map (\<lambda>i. (i, d)) (tb_entries b) @ pairs_of m (first_seen (text_blocks (drop e p)) (insert d S))"
proof (cases "find_next_dsml_tool_block p")
  case None
  then show ?thesis by (intro stop) (simp_all add: text_blocks.simps [of p])
next
  case (Some x)
  obtain s e where x: "x = (s, e)" by (cases x)
  define d where "d = take (e - s) (drop s p)"
  have f: "find_next_dsml_tool_block p = Some (s, e)" using Some x by simp
  have d: "d \<noteq> []" using find_block_nonempty [OF f] by (simp add: d_def)
  have t: "text_blocks p = d # text_blocks (drop e p)" using f by (simp add: text_blocks.simps [of p] d_def)
  show ?thesis
  proof (cases "tool_memory_find_block_locked m d")
    case None
    then have "filed m d = []" by (simp add: filed_def)
    then show ?thesis using None t assms marks_unfiled [OF assms None d]
      by (intro skip [OF f, of "if d \<in> S then S else insert d S"]) (auto simp: d_def)
  next
    case b: (Some b)
    then have s: "tb_seen b = scan \<longleftrightarrow> d \<in> S" using assms d by (auto simp: marks_def tool_memory_find_block_locked_def)
    show ?thesis
    proof (cases "tb_seen b = scan")
      case True
      then show ?thesis using b s t assms by (intro skip [OF f, of S]) (auto simp: d_def)
    next
      case False
      then show ?thesis using b s t marks_mark [OF assms] by (intro new [OF f d_def b]) (auto simp: filed_def)
    qed
  qed
qed

lemma measure_loop_spec:
  "marks scan S m \<Longrightarrow> fst (measure_loop scan p acc m) = measure_list (pairs_of m (first_seen (text_blocks p) S)) acc
    \<and> strip (snd (measure_loop scan p acc m)) = strip m \<and> seen_ok (snd (measure_loop scan p acc m))"
proof (induction scan p acc m arbitrary: S rule: measure_loop.induct)
  case (1 scan p acc m)
  from "1.prems" show ?case
  proof (cases rule: scan_cases [where p = p])
    case stop
    then show ?thesis using marks_seen_ok [OF "1.prems"] by (simp add: measure_loop.simps [of scan p])
  next
    case (skip s e S')
    then show ?thesis using "1.IH"(1) [OF skip(1) refl refl _ skip(2)] "1.IH"(3) [OF skip(1) refl refl _ _ skip(2)]
      by (auto simp: measure_loop.simps [of scan p] Let_def split: option.splits)
  next
    case (new s e d b)
    show ?thesis
    proof (cases "measure_entries (length d) (tb_entries b) acc")
      case None
      then have "measure_loop scan p acc m = (None, mark_seen d scan m)"
        using new(1-4) by (simp add: measure_loop.simps [of scan p])
      then show ?thesis using None new(6) marks_seen_ok [OF new(5)]
        by (simp add: strip_mark measure_list_append measure_entries_list)
    next
      case (Some acc')
      then have "measure_loop scan p acc m = measure_loop scan (drop e p) acc' (mark_seen d scan m)"
        using new(1-4) by (simp add: measure_loop.simps [of scan p])
      then show ?thesis using Some new(6) "1.IH"(2) [OF new(1) refl new(2,3,4) Some new(5)]
        by (simp add: strip_mark measure_list_append measure_entries_list)
    qed
  qed
qed

lemma write_loop_spec:
  "marks scan S m \<Longrightarrow> fst (write_loop scan p m) = concat (map record_of (pairs_of m (first_seen (text_blocks p) S)))
    \<and> strip (snd (write_loop scan p m)) = strip m \<and> seen_ok (snd (write_loop scan p m))"
proof (induction scan p m arbitrary: S rule: write_loop.induct)
  case (1 scan p m)
  from "1.prems" show ?case
  proof (cases rule: scan_cases [where p = p])
    case stop
    then show ?thesis using marks_seen_ok [OF "1.prems"] by (simp add: write_loop.simps [of scan p])
  next
    case (skip s e S')
    then show ?thesis using "1.IH"(1) [OF skip(1) refl refl _ skip(2)] "1.IH"(3) [OF skip(1) refl refl _ _ skip(2)]
      by (auto simp: write_loop.simps [of scan p] Let_def split: option.splits)
  next
    case (new s e d b)
    have "write_loop scan p m = (concat (map (map_record d) (tb_entries b)) @ fst (write_loop scan (drop e p) (mark_seen d scan m)),
        snd (write_loop scan (drop e p) (mark_seen d scan m)))"
      using new(1-4) by (simp add: write_loop.simps [of scan p] split_beta Let_def)
    then show ?thesis using new(6) "1.IH"(2) [OF new(1) refl new(2,3,4,5)]
      by (simp add: strip_mark comp_def)
  qed
qed

section \<open>The size estimate\<close>

abbreviation small :: "string \<times> string \<Rightarrow> bool" where
  "small x \<equiv> length (fst x) \<le> UINT32_MAX \<and> length (snd x) \<le> UINT32_MAX"

lemma record_length: "length (record_of x) = (if small x then 8 + length (fst x) + length (snd x) else 0)"
  by (simp add: map_record_def ds4_kvstore_le_put32_def str_bytes_def)

lemma measure_list_Some:
  "measure_list ps (c, b) = Some (c', b') \<Longrightarrow> c \<le> UINT32_MAX \<Longrightarrow>
    c' = c + length (filter small ps) \<and> b' = b + length (concat (map record_of ps)) \<and> c' \<le> UINT32_MAX"
proof (induction ps arbitrary: c b)
  case (Cons x ps)
  obtain i d where x: "x = (i, d)" by (cases x)
  show ?case
  proof (cases "small (i, d)")
    case True
    then have "measure_list ps (c + 1, b + 8 + length i + length d) = Some (c', b')" "c \<noteq> UINT32_MAX"
      using Cons.prems(1) x by (auto split: if_splits)
    with Cons.IH [OF this(1)] Cons.prems(2) True record_length [of "(i, d)"] show ?thesis by (simp add: x)
  next
    case False
    then have "measure_list ps (c, b) = Some (c', b')" using Cons.prems(1) x by (auto split: if_splits)
    with Cons.IH [OF this] Cons.prems(2) False record_length [of "(i, d)"] show ?thesis by (auto simp: x)
  qed
qed simp

lemma measure_list_bytes:
  "measure_list ps (c, b) = Some (c', b') \<Longrightarrow> b \<le> UINT64_MAX \<Longrightarrow> b' \<le> UINT64_MAX"
proof (induction ps arbitrary: c b)
  case (Cons x ps)
  obtain i d where x: "x = (i, d)" by (cases x)
  obtain c1 b1 where s: "measure_entries (length d) [i] (c, b) = Some (c1, b1)" "measure_list ps (c1, b1) = Some (c', b')"
    using Cons.prems(1) x by (auto split: option.splits)
  have "b1 \<le> UINT64_MAX" using s(1) Cons.prems(2) by (auto split: if_splits)
  then show ?case by (rule Cons.IH [OF s(2)])
qed simp

lemma no_record: "filter small ps = [] \<Longrightarrow> concat (map record_of ps) = []"
  by (induction ps) (auto simp: map_record_def split: if_splits)

text \<open>The outcome of a measurement in terms of the pairs.\<close>

lemma measure_locked_spec:
  assumes "seen_ok m"
  shows "strip (snd (kv_tool_map_measure_locked text m)) = strip m" "seen_ok (snd (kv_tool_map_measure_locked text m))"
    "fst (kv_tool_map_measure_locked text m) = None
      \<longleftrightarrow> measure_list (tool_map_pairs m text) (0, 8) = None"
    "fst (kv_tool_map_measure_locked text m) = Some (count, bytes)
      \<Longrightarrow> count = length (filter small (tool_map_pairs m text)) \<and> count \<le> UINT32_MAX
        \<and> bytes = (if count = 0 then 0 else 8 + length (concat (map record_of (tool_map_pairs m text))))"
    "fst (kv_tool_map_measure_locked text m) = Some (count, bytes) \<Longrightarrow> bytes \<le> UINT64_MAX"
proof -
  let ?k = "tm_scan_clock m + 1" and ?m = "m\<lparr>tm_scan_clock := tm_scan_clock m + 1\<rparr>"
  have p: "pairs_of ?m = pairs_of m" by (rule pairs_eq, rule filed_eq) (simp add: strip_clock)
  note l = measure_loop_spec [OF marks_start [OF assms], of "text" "(0, 8)"]
  obtain r m1 where r: "measure_loop ?k text (0, 8) ?m = (r, m1)" by fastforce
  have s: "strip m1 = strip m" "seen_ok m1" "r = measure_list (tool_map_pairs m text) (0, 8)"
    using l r p by (simp_all add: strip_clock tool_map_pairs_def)
  have k: "kv_tool_map_measure_locked text m
      = (map_option (\<lambda>(count, bytes). (count, if count = 0 then 0 else bytes)) r, m1)"
    using r by (simp add: kv_tool_map_measure_locked_def KV_TOOL_MAP_HEADER_def Let_def split: option.splits)
  show "strip (snd (kv_tool_map_measure_locked text m)) = strip m" "seen_ok (snd (kv_tool_map_measure_locked text m))"
    "fst (kv_tool_map_measure_locked text m) = None \<longleftrightarrow> measure_list (tool_map_pairs m text) (0, 8) = None"
    using k s by simp_all
  show "count = length (filter small (tool_map_pairs m text)) \<and> count \<le> UINT32_MAX
        \<and> bytes = (if count = 0 then 0 else 8 + length (concat (map record_of (tool_map_pairs m text))))" "bytes \<le> UINT64_MAX"
    if f: "fst (kv_tool_map_measure_locked text m) = Some (count, bytes)"
  proof -
    obtain c b where "r = Some (c, b)" "count = c" "bytes = (if c = 0 then 0 else b)" using f k by auto
    with measure_list_Some [of "tool_map_pairs m text" 0 8 c b] measure_list_bytes [of "tool_map_pairs m text" 0 8 c b] s(3)
    show "count = length (filter small (tool_map_pairs m text)) \<and> count \<le> UINT32_MAX
        \<and> bytes = (if count = 0 then 0 else 8 + length (concat (map record_of (tool_map_pairs m text))))" "bytes \<le> UINT64_MAX"
      by simp_all
  qed
qed

lemma pairs_strip: "strip m' = strip m \<Longrightarrow> tool_map_pairs m' = tool_map_pairs m"
  by (rule ext) (simp add: tool_map_pairs_def pairs_eq [OF filed_eq, of m' m])

lemma size_spec:
  assumes "seen_ok m"
  shows "strip (snd (kv_tool_map_serialized_size dis text m)) = strip m" "seen_ok (snd (kv_tool_map_serialized_size dis text m))"
  using measure_locked_spec(1,2) [OF assms] assms
  by (auto simp: kv_tool_map_serialized_size_def split: prod.splits option.splits) (metis snd_conv)+

text \<open>The bytes a scan writes: nothing when no id is filed under a block of the text, else a header and the records.\<close>

definition map_bytes :: "(string \<times> string) list \<Rightarrow> bytes" where
  "map_bytes ps = (if filter small ps = [] then []
     else [0x4B, 0x54, 0x4D, 1] @ ds4_kvstore_le_put32 (of_nat (length (filter small ps))) @ concat (map record_of ps))"

lemma write_spec:
  assumes "seen_ok m"
  shows "strip (snd (kv_tool_map_write dis text m)) = strip m \<and> seen_ok (snd (kv_tool_map_write dis text m))
    \<and> (fst (kv_tool_map_write dis text m) =
        (if dis \<or> text = None \<or> text = Some [] then (True, [])
         else if fst (kv_tool_map_measure_locked (the text) m) = None then (False, [])
         else (True, map_bytes (tool_map_pairs m (the text)))))"
proof (cases "dis \<or> text = None \<or> text = Some []")
  case True
  then show ?thesis using assms by (auto simp: kv_tool_map_write_def)
next
  case False
  then obtain t where t: "text = Some t" "t \<noteq> []" by auto
  obtain r m1 where r: "kv_tool_map_measure_locked t m = (r, m1)" by fastforce
  have s: "strip m1 = strip m" "seen_ok m1" using measure_locked_spec(1,2) [OF assms, of t] r by simp_all
  let ?k = "tm_scan_clock m1 + 1" and ?m = "m1\<lparr>tm_scan_clock := tm_scan_clock m1 + 1\<rparr>"
  have p: "pairs_of ?m = pairs_of m" by (rule pairs_eq, rule filed_eq) (simp add: strip_clock s)
  obtain out m2 where w: "write_loop ?k t ?m = (out, m2)" by fastforce
  have o: "out = concat (map record_of (tool_map_pairs m t))" "strip m2 = strip m" "seen_ok m2"
    using write_loop_spec [OF marks_start [OF s(2)], of t] w p s(1) by (simp_all add: strip_clock tool_map_pairs_def)
  show ?thesis
  proof (cases r)
    case None
    then show ?thesis using False r s t by (simp add: kv_tool_map_write_def)
  next
    case (Some x)
    obtain count bytes where x: "x = (count, bytes)" by (cases x)
    have c: "count = length (filter small (tool_map_pairs m t))"
      using measure_locked_spec(4) [OF assms, of t count bytes] r Some x by simp
    then show ?thesis using False r s w o Some x t by (simp add: kv_tool_map_write_def map_bytes_def Let_def)
  qed
qed

section \<open>Which pairs are written\<close>

lemma first_seen_set: "set (first_seen ds S) = set ds - S"
  by (induction ds S rule: first_seen.induct) auto

lemma first_seen_distinct: "distinct (first_seen ds S)"
  by (induction ds S rule: first_seen.induct) (auto simp: first_seen_set)

lemma filed_set: "tm_ok m \<Longrightarrow> d \<noteq> [] \<Longrightarrow> set (filed m d) = filed_under m d"
  using tm_okD(7,8) [of m] by (force simp: filed_def tool_memory_find_block_locked_def block_ok_def filed_under_def split: option.splits)

lemma text_blocks_nonempty: "d \<in> set (text_blocks p) \<Longrightarrow> d \<noteq> [] \<and> sublist d p"
proof (induction p rule: text_blocks.induct)
  case (1 p)
  show ?case
  proof (cases "find_next_dsml_tool_block p")
    case None
    then show ?thesis using "1.prems" by (simp add: text_blocks.simps [of p])
  next
    case (Some x)
    obtain s e where x: "x = (s, e)" by (cases x)
    have "sublist (take (e - s) (drop s p)) p" by (rule sublist_order.order.trans [OF sublist_take sublist_drop])
    moreover have "sublist d (drop e p) \<Longrightarrow> sublist d p" using sublist_drop sublist_order.order.trans by blast
    ultimately show ?thesis
      using "1.prems" "1.IH" [OF Some x [symmetric]] Some x find_block_nonempty [of p s e] by (auto simp: text_blocks.simps [of p])
  qed
qed

lemma tool_map_pairs_set:
  assumes "tm_ok m"
  shows "set (tool_map_pairs m text)
    = {(i, d). d \<in> set (text_blocks text) \<and> (\<exists>e. tm_by_id m i = Some e \<and> te_block e = d)}"
proof -
  have "set (tool_map_pairs m text) = {(i, d). d \<in> set (text_blocks text) \<and> i \<in> set (filed m d)}"
    by (auto simp: tool_map_pairs_def pairs_of_def first_seen_set)
  then show ?thesis using filed_set [OF assms] text_blocks_nonempty by (auto simp: filed_under_def)
qed

lemma tool_map_ids_distinct:
  assumes "tm_ok m"
  shows "distinct (map fst (tool_map_pairs m text))"
proof -
  have "distinct (map fst (pairs_of m ds))" if "distinct ds" "[] \<notin> set ds" for ds
    using that
  proof (induction ds)
    case (Cons d ds)
    have "distinct (filed m d)"
      using tm_okD(8) [OF assms] by (auto simp: filed_def tool_memory_find_block_locked_def block_ok_def split: option.splits)
    moreover have "i \<notin> fst ` set (pairs_of m ds)" if i: "i \<in> set (filed m d)" for i
    proof
      assume "i \<in> fst ` set (pairs_of m ds)"
      then obtain d' where d': "d' \<in> set ds" "i \<in> set (filed m d')" by (auto simp: pairs_of_def)
      have "d' \<noteq> []" "d \<noteq> []" using d' Cons.prems by auto
      then have "d = d'" using filed_set [OF assms] i d'(2) by (auto simp: filed_under_def)
      then show False using Cons.prems d' by simp
    qed
    ultimately show ?case using Cons by (auto simp: comp_def)
  qed simp
  moreover have "[] \<notin> set (first_seen (text_blocks text) {})" using text_blocks_nonempty by (auto simp: first_seen_set)
  ultimately show ?thesis unfolding tool_map_pairs_def using first_seen_distinct by blast
qed

section \<open>Reading back\<close>

text \<open>What the reader accepts of a record: a short id and a block within the limit, both C strings.\<close>

definition portable :: "string \<times> string \<Rightarrow> bool" where
  "portable x \<longleftrightarrow> fst x \<noteq> [] \<and> length (fst x) \<le> 256 \<and> snd x \<noteq> [] \<and> length (snd x) \<le> DS4_TOOL_MEMORY_MAX_BYTES
     \<and> CHR 0x00 \<notin> set (fst x) \<and> CHR 0x00 \<notin> set (snd x)"

lemma unat_u32: "n \<le> UINT32_MAX \<Longrightarrow> unat (of_nat n :: u32) = n"
  by (simp add: unat_of_nat)

lemma portable_small: "portable x \<Longrightarrow> small x"
  by (simp add: portable_def DS4_TOOL_MEMORY_MAX_BYTES_def)

definition put_disk :: "bool \<Rightarrow> tool_memory \<Rightarrow> string \<times> string \<Rightarrow> tool_memory" where
  "put_disk disabled m x = tool_memory_put_source disabled (fst x) (snd x) TOOL_MEMORY_DISK m"

lemma load_one:
  assumes "portable x"
  shows "load_records dis wanted (Suc n) (record_of x @ rest) (loaded, m)
    = load_records dis wanted n rest (if wanted_id wanted (fst x) then (loaded + 1, put_disk dis m x) else (loaded, m))"
proof -
  obtain i d where x: "x = (i, d)" by (cases x)
  have s: "length i \<le> UINT32_MAX" "length d \<le> UINT32_MAX" using portable_small [OF assms] x by simp_all
  let ?a = "ds4_kvstore_le_put32 (of_nat (length i))" and ?b = "ds4_kvstore_le_put32 (of_nat (length d))"
  let ?fp = "?a @ ?b @ str_bytes i @ str_bytes d @ rest"
  have w: "length ?a = 4" "length ?b = 4" by (simp_all add: le32.put_width)
  have f: "record_of x @ rest = ?fp" using s x by (simp add: map_record_def)
  have "unat (ds4_kvstore_le_get32 ?fp) = length i" "unat (ds4_kvstore_le_get32 (drop 4 ?fp)) = length d"
    using s w by (simp_all only: le32.get_put unat_u32 append_eq_conv_conj drop_append) (simp_all add: le32.get_put unat_u32)
  moreover have "drop 8 ?fp = str_bytes i @ str_bytes d @ rest" using w by simp
  moreover have "c_str i = i" "c_str d = d" using assms x by (simp_all add: c_str_id portable_def)
  ultimately show ?thesis using assms w x unfolding f
    by (simp add: portable_def put_disk_def Let_def)
qed

lemma load_all:
  "list_all portable ps \<Longrightarrow> load_records dis wanted (length ps) (concat (map record_of ps) @ rest) (loaded, m)
    = (loaded + int (length (filter (\<lambda>x. wanted_id wanted (fst x)) ps)), foldl (put_disk dis) m (filter (\<lambda>x. wanted_id wanted (fst x)) ps))"
proof (induction ps arbitrary: loaded m)
  case (Cons x ps)
  then have "portable x" "list_all portable ps" by simp_all
  from load_one [OF this(1)] Cons.IH [OF this(2)] show ?case by (simp del: load_records.simps)
qed simp

lemma load_map_bytes:
  assumes "list_all portable ps" and "length ps \<le> UINT32_MAX" and "length ps \<le> nat (tool_memory_max_entries m) * 4" and "ps \<noteq> []"
  shows "kv_tool_map_load_from_pos False (map_bytes ps @ rest) wanted m
    = (int (length (filter (\<lambda>x. wanted_id wanted (fst x)) ps)), foldl (put_disk False) m (filter (\<lambda>x. wanted_id wanted (fst x)) ps))"
proof -
  have "filter small ps = ps" using assms(1) portable_small by (auto simp: filter_id_conv list_all_iff)
  then have b: "map_bytes ps = [0x4B, 0x54, 0x4D, 1] @ ds4_kvstore_le_put32 (of_nat (length ps)) @ concat (map record_of ps)"
    using assms(4) by (simp add: map_bytes_def)
  then show ?thesis using assms load_all [OF assms(1), of False wanted rest 0 m]
    by (simp add: kv_tool_map_load_from_pos_def le32.get_put le32.put_width unat_u32 Let_def)
qed

section \<open>The memory in service\<close>

text \<open>The scans change nothing but marks, and no other operation breaks the marks.\<close>

lemma tm_ok_strip: "tm_ok (strip m) = tm_ok m"
proof -
  have d: "dom (tm_by_block (strip m)) = dom (tm_by_block m)" by (auto simp: strip_def dom_def)
  have f: "filed_under (strip m) = filed_under m" by (rule ext) (simp add: filed_under_def strip_def)
  have "(\<forall>d b. tm_by_block (strip m) d = Some b \<longrightarrow> block_ok (strip m) d b) = (\<forall>d b. tm_by_block m d = Some b \<longrightarrow> block_ok m d b)"
  proof -
    have k: "block_ok (strip m) d (b\<lparr>tb_seen := 0\<rparr>) = block_ok m d b" for d b by (simp add: block_ok_def f)
    have g: "tm_by_block (strip m) d = Some b' \<longleftrightarrow> (\<exists>b. tm_by_block m d = Some b \<and> b' = b\<lparr>tb_seen := 0\<rparr>)" for d b'
      by (auto simp: strip_def)
    show ?thesis unfolding g using k by blast
  qed
  then show ?thesis unfolding tm_ok_def d by (simp add: strip_def)
qed

lemma over_limit_strip: "over_limit (strip m) = over_limit m"
  by (simp add: over_limit_def strip_def tool_memory_max_entries_def tool_memory_max_bytes_def)

lemma strip_fields: "tm_by_id (strip m) = tm_by_id m" "tm_max_entries (strip m) = tm_max_entries m" "tm_max_bytes (strip m) = tm_max_bytes m"
  by (simp_all add: strip_def)

lemma seen_touch: "seen_ok (tool_memory_touch i m) = seen_ok m"
  by (simp add: seen_ok_def tool_memory_touch_def set_stamp_def tool_memory_link_head_def tool_memory_unlink_def Let_def split: list.splits)

lemma seen_insert: "seen_ok m \<Longrightarrow> seen_ok (insert_entry i d source m)"
  by (auto simp: seen_ok_def insert_entry_def tool_memory_get_block_locked_def upd_block_def tool_memory_link_head_def Let_def
      split: option.splits if_splits)

lemma seen_remove: "seen_ok m \<Longrightarrow> seen_ok (tool_memory_remove_entry_locked i m)"
  by (auto simp: seen_ok_def tool_memory_remove_entry_locked_def tool_memory_release_block_locked_def tool_block_unlink_entry_def
      upd_block_def sub_bytes_def tool_memory_unlink_def Let_def split: option.splits if_splits)

lemma seen_prune: "seen_ok m \<Longrightarrow> seen_ok (tool_memory_prune_locked m)"
proof (induction m rule: tool_memory_prune_locked.induct)
  case (1 m)
  then show ?case using seen_remove by (cases "over_limit m \<and> tm_lru m \<noteq> []") (auto simp: tool_memory_prune_locked.simps [of m])
qed

lemma seen_put: "seen_ok m \<Longrightarrow> seen_ok (tool_memory_put_locked i d source m)"
  using seen_prune seen_insert seen_remove seen_touch
  by (simp add: tool_memory_put_locked_def Let_def seen_ok_def split: option.splits)

datatype mem_act = Store tm_op | Size bool "string option" | Write bool "string option"

fun mem_apply :: "tool_memory \<Rightarrow> mem_act \<Rightarrow> tool_memory" where
  "mem_apply m (Store a) = tm_apply m a"
| "mem_apply m (Size dis x) = snd (kv_tool_map_serialized_size dis x m)"
| "mem_apply m (Write dis x) = snd (kv_tool_map_write dis x m)"

definition mem_step :: "tool_memory \<Rightarrow> mem_act \<Rightarrow> tool_memory \<Rightarrow> bool" where
  "mem_step m a m' \<longleftrightarrow> m' = mem_apply m a"

definition mem_ok :: "int \<Rightarrow> nat \<Rightarrow> tool_memory \<Rightarrow> bool" where
  "mem_ok me mb m \<longleftrightarrow> tm_ok m \<and> seen_ok m \<and> \<not> over_limit m \<and> tm_max_entries m = me \<and> tm_max_bytes m = mb"

lemma mem_ok_strip:
  assumes "strip m' = strip m" and "seen_ok m'" and "mem_ok me mb m"
  shows "mem_ok me mb m'"
proof -
  have "tm_ok m' = tm_ok m" "over_limit m' = over_limit m" using tm_ok_strip over_limit_strip assms(1) by metis+
  moreover have "tm_max_entries m' = tm_max_entries m" "tm_max_bytes m' = tm_max_bytes m" using strip_fields(2,3) assms(1) by metis+
  ultimately show ?thesis using assms(2,3) by (simp add: mem_ok_def)
qed

lemma mem_ok_empty: "mem_ok me mb (empty_tool_memory me mb)"
  using tm_ok_empty [of me mb] not_over_empty [OF tm_ok_empty, of me mb] by (simp add: mem_ok_def seen_ok_def empty_tool_memory_def)

lemma mem_ok_put: "mem_ok me mb m \<Longrightarrow> mem_ok me mb (tool_memory_put_locked i d source m)"
  using put_locked_ok [of m i d source] seen_put by (simp add: mem_ok_def)

lemma mem_ok_lookup: "mem_ok me mb m \<Longrightarrow> mem_ok me mb (snd (tool_memory_lookup_locked i m))"
  using lookup_locked_ok [of m i] seen_touch [of i m] by (auto simp: mem_ok_def tool_memory_lookup_locked_def split: option.splits)

lemma mem_ok_step:
  assumes "mem_ok me mb m" and "mem_step m a m'"
  shows "mem_ok me mb m'"
proof (cases a)
  case (Store b)
  then show ?thesis using assms mem_ok_put mem_ok_lookup by (cases b) (simp_all add: mem_step_def)
next
  case (Size dis x)
  then have "m' = snd (kv_tool_map_serialized_size dis x m)" "seen_ok m" using assms by (simp_all add: mem_step_def mem_ok_def)
  then show ?thesis using mem_ok_strip [OF _ _ assms(1)] size_spec by blast
next
  case (Write dis x)
  then have "m' = snd (kv_tool_map_write dis x m)" "seen_ok m" using assms by (simp_all add: mem_step_def mem_ok_def)
  then show ?thesis using mem_ok_strip [OF _ _ assms(1)] write_spec by blast
qed

interpretation mem: inductive_invariant "\<lambda>m. m = empty_tool_memory me mb" mem_step "mem_ok me mb" for me mb
  by unfold_locales (auto intro: mem_ok_empty mem_ok_step)

abbreviation served :: "int \<Rightarrow> nat \<Rightarrow> tool_memory \<Rightarrow> bool" where
  "served me mb m \<equiv> reachable (\<lambda>m. m = empty_tool_memory me mb) mem_step m"

section \<open>A part of a memory fits where the memory does\<close>

definition sub_memory :: "tool_memory \<Rightarrow> tool_memory \<Rightarrow> bool" where
  "sub_memory m1 m \<longleftrightarrow> (\<forall>i e. tm_by_id m1 i = Some e \<longrightarrow> (\<exists>e'. tm_by_id m i = Some e' \<and> te_block e' = te_block e))"

lemma block_dom:
  assumes "tm_ok m"
  shows "dom (tm_by_block m) = {d. \<exists>i e. tm_by_id m i = Some e \<and> te_block e = d}"
proof -
  have "\<exists>i e. tm_by_id m i = Some e \<and> te_block e = d" if "tm_by_block m d = Some b" for d b
    using tm_okD(8) [OF assms that] by (cases "tb_entries b") (auto simp: block_ok_def filed_under_def, blast)
  then show ?thesis using tm_okD(7) [OF assms] by fastforce
qed

lemma sub_memory_fits:
  assumes "tm_ok m1" "tm_ok m" "sub_memory m1 m"
  shows "tm_entries m1 \<le> tm_entries m \<and> tm_bytes m1 \<le> tm_bytes m"
proof -
  note a = tm_okD [OF assms(1)] and b = tm_okD [OF assms(2)]
  have d: "dom (tm_by_id m1) \<subseteq> dom (tm_by_id m)" using assms(3) by (auto simp: sub_memory_def)
  have "dom (tm_by_block m1) \<subseteq> dom (tm_by_block m)"
    unfolding block_dom [OF assms(1)] block_dom [OF assms(2)] using assms(3) by (force simp: sub_memory_def)
  then have blocks: "sum block_size (dom (tm_by_block m1)) \<le> sum block_size (dom (tm_by_block m))"
    using b(5) by (intro sum_mono2) auto
  have "finite (dom (tm_by_id m))" using b(2) by (metis finite_set)
  then have "sum entry_size (dom (tm_by_id m1)) \<le> sum entry_size (dom (tm_by_id m))" "card (dom (tm_by_id m1)) \<le> card (dom (tm_by_id m))"
    using d by (auto intro: sum_mono2 card_mono)
  then show ?thesis using blocks a(2,4,6) b(2,4,6) sum_list_distinct_conv_sum_set [OF a(1), of entry_size]
      sum_list_distinct_conv_sum_set [OF b(1), of entry_size] distinct_card [OF a(1)] distinct_card [OF b(1)] by simp
qed

lemma put_sub_memory:
  assumes "mem_ok me mb m1" "mem_ok me mb m" "sub_memory m1 m" "tm_by_id m i = Some e" "i \<noteq> []" "te_block e \<noteq> []"
  shows "sub_memory (tool_memory_put_locked i (te_block e) source m1) m
    \<and> (\<exists>e'. tm_by_id (tool_memory_put_locked i (te_block e) source m1) i = Some e' \<and> te_block e' = te_block e)
    \<and> (\<forall>j. j \<noteq> i \<longrightarrow> tm_by_id (tool_memory_put_locked i (te_block e) source m1) j = tm_by_id m1 j)"
proof -
  obtain m2 e' l where p: "tool_memory_put_locked i (te_block e) source m1 = tool_memory_prune_locked m2" "tm_ok m2" "tm_lru m2 = i # l"
    "tm_by_id m2 i = Some e'" "te_block e' = te_block e" "\<forall>j. j \<noteq> i \<longrightarrow> tm_by_id m2 j = tm_by_id m1 j"
    "tm_max_entries m2 = tm_max_entries m1" "tm_max_bytes m2 = tm_max_bytes m1"
    using put_locked_prunes [of m1 i "te_block e" source] assms by (auto simp: mem_ok_def)
  have s: "sub_memory m2 m" unfolding sub_memory_def
  proof (intro allI impI)
    fix j f assume "tm_by_id m2 j = Some f"
    then show "\<exists>e'. tm_by_id m j = Some e' \<and> te_block e' = te_block f" using p(4-6) assms(3,4) by (cases "j = i") (auto simp: sub_memory_def)
  qed
  have "\<not> over_limit m2" using sub_memory_fits [OF p(2) _ s] assms(1,2) p(7,8)
    by (auto simp: mem_ok_def over_limit_def tool_memory_max_entries_def tool_memory_max_bytes_def)
  then have "tool_memory_prune_locked m2 = m2" by (simp add: tool_memory_prune_locked.simps [of m2])
  then show ?thesis using p s by simp
qed

lemma restore_sub_memory:
  assumes "mem_ok me mb m"
  shows "mem_ok me mb m1 \<Longrightarrow> sub_memory m1 m
    \<Longrightarrow> list_all (\<lambda>x. fst x \<noteq> [] \<and> snd x \<noteq> [] \<and> (\<exists>e. tm_by_id m (fst x) = Some e \<and> te_block e = snd x)) ps
    \<Longrightarrow> sub_memory (foldl (put_disk False) m1 ps) m \<and> mem_ok me mb (foldl (put_disk False) m1 ps)
      \<and> dom (tm_by_id (foldl (put_disk False) m1 ps)) = dom (tm_by_id m1) \<union> fst ` set ps"
proof (induction ps arbitrary: m1)
  case (Cons x ps)
  obtain e where e: "tm_by_id m (fst x) = Some e" "te_block e = snd x" "fst x \<noteq> []" "snd x \<noteq> []" using Cons.prems(3) by auto
  let ?p = "tool_memory_put_locked (fst x) (te_block e) TOOL_MEMORY_DISK m1"
  have d: "put_disk False m1 x = ?p" using e by (simp add: put_disk_def tool_memory_put_source_def)
  note q = put_sub_memory [OF Cons.prems(1) assms Cons.prems(2) e(1,3), of TOOL_MEMORY_DISK]
  have "dom (tm_by_id ?p) = insert (fst x) (dom (tm_by_id m1))"
  proof (intro set_eqI)
    fix j
    show "j \<in> dom (tm_by_id ?p) \<longleftrightarrow> j \<in> insert (fst x) (dom (tm_by_id m1))" using q e by (cases "j = fst x") auto
  qed
  moreover have "sub_memory ?p m" using q e by simp
  moreover have "mem_ok me mb ?p" by (rule mem_ok_put [OF Cons.prems(1)])
  ultimately show ?case using Cons.IH [of ?p] Cons.prems(3) by (simp add: d)
qed simp

lemma map_bytes_length:
  "length (map_bytes ps) = (if filter small ps = [] then 0 else 8 + length (concat (map record_of ps)))"
  by (simp add: map_bytes_def le32.put_width)

lemma size_is_length:
  assumes "seen_ok m" and "strip m' = strip m" and "seen_ok m'"
  shows "fst (kv_tool_map_serialized_size dis x m)
      = (fst (fst (kv_tool_map_write dis x m')), length (snd (fst (kv_tool_map_write dis x m'))))
    \<and> length (snd (fst (kv_tool_map_write dis x m'))) \<le> UINT64_MAX"
proof (cases "dis \<or> x = None \<or> x = Some []")
  case True
  then show ?thesis by (auto simp: kv_tool_map_write_def kv_tool_map_serialized_size_def)
next
  case False
  then obtain t where t: "x = Some t" "t \<noteq> []" by auto
  have p: "tool_map_pairs m' t = tool_map_pairs m t" using pairs_strip [OF assms(2)] by simp
  have w: "fst (kv_tool_map_write dis x m') = (if fst (kv_tool_map_measure_locked t m') = None then (False, [])
      else (True, map_bytes (tool_map_pairs m t)))" using write_spec [OF assms(3), of dis x] False t p by simp
  have n: "fst (kv_tool_map_measure_locked t m') = None \<longleftrightarrow> fst (kv_tool_map_measure_locked t m) = None"
    using measure_locked_spec(3) [OF assms(1), of t] measure_locked_spec(3) [OF assms(3), of t] p by simp
  obtain r m1 where r: "kv_tool_map_measure_locked t m = (r, m1)" by fastforce
  show ?thesis
  proof (cases r)
    case None
    then show ?thesis using w n r False t by (simp add: kv_tool_map_serialized_size_def)
  next
    case (Some y)
    obtain count bytes where y: "y = (count, bytes)" by (cases y)
    have "count = length (filter small (tool_map_pairs m t))" "bytes \<le> UINT64_MAX"
      "bytes = (if count = 0 then 0 else 8 + length (concat (map record_of (tool_map_pairs m t))))"
      using measure_locked_spec(4,5) [OF assms(1), of t count bytes] unfolding r Some y by simp_all
    then have "bytes = length (map_bytes (tool_map_pairs m t))" "bytes \<le> UINT64_MAX" unfolding map_bytes_length by (simp_all split: if_splits)
    then show ?thesis using w n r False t Some y by (simp add: kv_tool_map_serialized_size_def)
  qed
qed

text \<open>
  The size announced is the size written. For every memory in service, whatever the text, the estimate the
  checkpoint store admits the file by succeeds exactly when the write that follows it does, and is the number of
  bytes that write delivers; the scan in between leaves the memory as it was but for its marks.
\<close>

lemma tool_map_size_exact:
  assumes "served me mb m"
  shows "fst (kv_tool_map_serialized_size dis x m)
      = (fst (fst (kv_tool_map_write dis x (snd (kv_tool_map_serialized_size dis x m)))),
         length (snd (fst (kv_tool_map_write dis x (snd (kv_tool_map_serialized_size dis x m))))))
    \<and> strip (snd (kv_tool_map_write dis x (snd (kv_tool_map_serialized_size dis x m)))) = strip m"
proof -
  have m: "seen_ok m" using mem.reachable_inv [OF assms] by (simp add: mem_ok_def)
  note s = size_spec [OF m, of dis x]
  show ?thesis using size_is_length [OF m s] write_spec [OF s(2), of dis x] s(1) by simp
qed

definition demo_block :: string where "demo_block = ''<tool_calls>f</tool_calls>''"

definition demo_memory :: tool_memory where
  "demo_memory = tm_apply (empty_tool_memory 0 0) (Put ''call_1'' demo_block TOOL_MEMORY_RAM)"

lemma demo_served: "served 0 0 demo_memory"
  unfolding demo_memory_def by (rule reachable.extend [OF reachable.start, where a = "Store (Put ''call_1'' demo_block TOOL_MEMORY_RAM)"])
    (simp_all add: mem_step_def)

section \<open>The hooks handed to the checkpoint store\<close>

definition kv_cache_tool_map_hooks :: "bool \<Rightarrow> tool_memory \<Rightarrow> stop_list option \<Rightarrow> tool_memory ds4_kvstore_trailer_hooks" where
  "kv_cache_tool_map_hooks dis m wanted =
     \<lparr>ext_flag = DS4_KVSTORE_EXT_TOOL_MAP,
      serialized_size = Some (\<lambda>b. map_prod id of_nat (fst (kv_tool_map_serialized_size dis (Some (c_str (bytes_str b))) m))),
      hook_write = Some (\<lambda>b. fst (kv_tool_map_write dis (Some (c_str (bytes_str b))) m)),
      hook_load = Some (\<lambda>m fp. snd (kv_tool_map_load_from_pos dis fp wanted m))\<rparr>"

text \<open>What the checkpoint store relies on, and what it gains: a file is flagged exactly when it has a trailer.\<close>

locale honest_trailer =
  fixes hooks :: "'u ds4_kvstore_trailer_hooks"
  assumes estimate: "kv_trailer_serialized_size (Some hooks) b
      = (fst (kv_trailer_write (Some hooks) b), of_nat (length (snd (kv_trailer_write (Some hooks) b))))"
    and bounded: "length (snd (kv_trailer_write (Some hooks) b)) \<le> UINT64_MAX"
begin

lemma flagged_iff: "snd (kv_trailer_serialized_size (Some hooks) b) > 0 \<longleftrightarrow> snd (kv_trailer_write (Some hooks) b) \<noteq> []"
proof -
  have "unat (of_nat (length (snd (kv_trailer_write (Some hooks) b))) :: u64) = length (snd (kv_trailer_write (Some hooks) b))"
    using bounded [of b] by (simp add: unat_of_nat)
  then show ?thesis unfolding estimate by (simp add: word_less_nat_alt)
qed

lemma rewrite_agrees: "fst (kv_trailer_serialized_size (Some hooks) b) = fst (kv_trailer_write (Some hooks) b)"
  by (simp add: estimate)

end

lemma tool_map_honest: "seen_ok m \<Longrightarrow> honest_trailer (kv_cache_tool_map_hooks dis m wanted)"
  using size_is_length [of m m dis]
  by unfold_locales (simp_all add: kv_trailer_serialized_size_def kv_trailer_write_def kv_cache_tool_map_hooks_def)

interpretation fresh_hooks: honest_trailer "kv_cache_tool_map_hooks dis (tm_run me mb ops) wanted" for dis me mb ops wanted
proof (rule tool_map_honest)
  have "seen_ok (foldl tm_apply m ops)" if "seen_ok m" for m
    using that
  proof (induction ops arbitrary: m)
    case (Cons a ops)
    then show ?case using seen_put seen_touch by (cases a) (auto simp: tool_memory_lookup_locked_def split: option.splits)
  qed simp
  then show "seen_ok (tm_run me mb ops)" unfolding tm_run_def by (simp add: seen_ok_def empty_tool_memory_def)
qed

end
