(* ===== verification/Http.thy ===== *)
theory Http
  imports Json
begin

text \<open>
  The HTTP framing of \<open>ds4_server.c\<close>: finding the end of a request head, the declared length, reading a
  request from a socket that delivers its bytes in pieces of any size, writing all of a buffer to a socket that
  accepts it in pieces, and the responses. A socket is the list of what its next calls will return: bytes,
  an interrupted call, or an error; a list that is used up is the end of the stream. A \<open>recv\<close> with a buffer of
  \<open>k\<close> bytes takes at most \<open>k\<close> of the bytes that are ready and leaves the rest.
\<close>

section \<open>Sockets\<close>

datatype recv_event = Data string | Interrupted | Broken

datatype recv_result = Got string | Again | Ended

fun recv :: "nat \<Rightarrow> recv_event list \<Rightarrow> recv_result \<times> recv_event list" where
  "recv k [] = (Ended, [])"
| "recv k (Interrupted # es) = (Again, es)"
| "recv k (Broken # es) = (Ended, es)"
| "recv k (Data s # es) =
     (if s = [] then (Ended, es)
      else if length s \<le> k then (Got s, es)
      else (Got (take k s), Data (drop k s) # es))"

fun event_size :: "recv_event \<Rightarrow> nat" where
  "event_size (Data s) = Suc (length s)"
| "event_size Interrupted = 1"
| "event_size Broken = 1"

abbreviation pending :: "recv_event list \<Rightarrow> nat" where "pending es \<equiv> sum_list (map event_size es)"

lemma recv_shrinks: "recv k es = (r, es') \<Longrightarrow> r \<noteq> Ended \<Longrightarrow> 0 < k \<Longrightarrow> pending es' < pending es"
  by (cases "(k, es)" rule: recv.cases) (auto split: if_splits)

section \<open>Request heads\<close>

definition crlf2 :: string where "crlf2 = [CHR 0x0D, CHR 0x0A, CHR 0x0D, CHR 0x0A]"

definition header_end :: "string \<Rightarrow> nat option" where
  "header_end p =
     (case find (\<lambda>i. p ! (i - 3) = CHR 0x0D \<and> p ! (i - 2) = CHR 0x0A \<and> p ! (i - 1) = CHR 0x0D \<and> p ! i = CHR 0x0A) [3..<length p] of
        Some i \<Rightarrow> Some (i + 1)
      | None \<Rightarrow> map_option Suc (find (\<lambda>i. p ! (i - 1) = CHR 0x0A \<and> p ! i = CHR 0x0A) [1..<length p]))"

definition strncasecmp_eq :: "string \<Rightarrow> string \<Rightarrow> bool" where
  "strncasecmp_eq s lit \<longleftrightarrow> map c_tolower (take (length lit) s) = map c_tolower lit"

text \<open>
  The lines of the first \<open>n\<close> bytes of the buffer. \<open>p\<close> is the rest of the buffer at the line and \<open>left\<close> the bytes of
  the head still ahead of it; \<open>strtol\<close> reads on in the buffer, past the line and the head if it finds only blanks.
\<close>

function content_length_loop :: "string \<Rightarrow> nat \<Rightarrow> int" where
  "content_length_loop p left =
     (if left = 0 \<or> p = [] then 0
      else let len0 = length (takeWhile (\<lambda>c. c \<noteq> CHR 0x0A) (take left p));
               len = (if len0 > 0 \<and> p ! (len0 - 1) = CHR 0x0D then len0 - 1 else len0)
           in if len \<ge> 15 \<and> strncasecmp_eq p ''Content-Length:''
              then let blanks = length (takeWhile c_isspace (take (len - 15) (drop 15 p)))
                   in fst (c_strtol (c_str (drop (15 + blanks) p)))
              else if len0 < left then content_length_loop (drop (len0 + 1) p) (left - (len0 + 1)) else 0)"
  by pat_completeness auto
termination
  by (relation "measure snd") auto

declare content_length_loop.simps [simp del]

definition content_length :: "string \<Rightarrow> nat \<Rightarrow> int" where
  "content_length h n = content_length_loop h n"

section \<open>Reading a request\<close>

record http_request =
  http_method :: string
  http_path :: string
  http_body :: string

text \<open>One \<open>%<k>s\<close> conversion of \<open>sscanf\<close>: the word and the rest, or no match.\<close>

definition scan_word :: "nat \<Rightarrow> string \<Rightarrow> (string \<times> string) option" where
  "scan_word k s =
     (let s1 = dropWhile c_isspace s; w = take k (takeWhile (\<lambda>c. \<not> c_isspace c) s1)
      in if w = [] then None else Some (w, drop (length w) s1))"

definition request_line :: "string \<Rightarrow> (string \<times> string) option" where
  "request_line b =
     (let line = c_str (take 511 (takeWhile (\<lambda>c. c \<noteq> CHR 0x0A) b))
      in case scan_word 7 line of
           None \<Rightarrow> None
         | Some (meth, rest) \<Rightarrow>
             (case scan_word 255 rest of
                None \<Rightarrow> None
              | Some (path, _) \<Rightarrow> Some (meth, takeWhile (\<lambda>c. c \<noteq> CHR ''?'') path)))"

function read_head :: "recv_event list \<Rightarrow> string \<Rightarrow> (nat \<times> string \<times> recv_event list) option" where
  "read_head es b =
     (if length b < 65536
      then (case recv 4096 es of
              (Again, es') \<Rightarrow> read_head es' b
            | (Ended, es') \<Rightarrow> None
            | (Got s, es') \<Rightarrow>
                (case header_end (b @ s) of
                   Some hend \<Rightarrow> Some (hend, b @ s, es')
                 | None \<Rightarrow> read_head es' (b @ s)))
      else None)"
  by pat_completeness auto
termination
  by (relation "measure (\<lambda>(es, b). pending es)") (auto dest: recv_shrinks [OF sym] intro: recv_shrinks)

declare read_head.simps [simp del]

function read_body :: "nat \<Rightarrow> recv_event list \<Rightarrow> string \<Rightarrow> string option" where
  "read_body want es b =
     (if length b < want
      then (case recv 8192 es of
              (Again, es') \<Rightarrow> read_body want es' b
            | (Ended, es') \<Rightarrow> None
            | (Got s, es') \<Rightarrow> read_body want es' (b @ s))
      else Some b)"
  by pat_completeness auto
termination
  by (relation "measure (\<lambda>(want, es, b). pending es)") (auto dest: recv_shrinks [OF sym] intro: recv_shrinks)

declare read_body.simps [simp del]

definition read_http_request :: "recv_event list \<Rightarrow> http_request option" where
  "read_http_request es =
     (case read_head es [] of
        None \<Rightarrow> None
      | Some (hend, b, es1) \<Rightarrow>
          (case request_line b of
             None \<Rightarrow> None
           | Some (meth, path) \<Rightarrow>
               let clen = content_length b hend
               in if clen < 0 \<or> clen > 67108864 then None
                  else (case read_body (hend + nat clen) es1 b of
                          None \<Rightarrow> None
                        | Some b1 \<Rightarrow> Some \<lparr>http_method = meth, http_path = path, http_body = take (nat clen) (drop hend b1)\<rparr>)))"

section \<open>Writing\<close>

text \<open>
  What the loop of \<open>send_all\<close> meets in each round: \<open>g_stop_requested\<close>, then the outcome of \<open>send\<close>. A full socket buffer
  comes with the time left before the deadline and whether \<open>poll\<close> reported the socket usable.
\<close>

datatype send_event = Stop_requested | Sent nat | Send_interrupted | Buffer_full int bool | Send_failed

fun send_all :: "send_event list \<Rightarrow> string \<Rightarrow> bool \<times> string" where
  "send_all es [] = (True, [])"
| "send_all [] (c # s) = (False, [])"
| "send_all (Stop_requested # es) (c # s) = (False, [])"
| "send_all (Send_interrupted # es) (c # s) = send_all es (c # s)"
| "send_all (Buffer_full remaining usable # es) (c # s) =
     (if remaining \<le> 0 then (False, []) else if \<not> usable then (False, []) else send_all es (c # s))"
| "send_all (Send_failed # es) (c # s) = (False, [])"
| "send_all (Sent w # es) (c # s) =
     (if w = 0 then (False, [])
      else case send_all es (drop w (c # s)) of (ok, out) \<Rightarrow> (ok, take w (c # s) @ out))"

definition crlf :: string where "crlf = [CHR 0x0D, CHR 0x0A]"

definition append_cors_headers :: string where
  "append_cors_headers = ''Access-Control-Allow-Origin: *'' @ crlf @ ''Access-Control-Allow-Methods: GET, POST, OPTIONS'' @ crlf
     @ ''Access-Control-Allow-Headers: *'' @ crlf"

definition http_reason :: "nat \<Rightarrow> string" where
  "http_reason code =
     (if code = 200 then ''OK'' else if code = 204 then ''No Content'' else if code = 400 then ''Bad Request''
      else if code = 404 then ''Not Found'' else if code = 409 then ''Conflict'' else if code = 500 then ''Internal Server Error''
      else ''Error'')"

definition http_head :: "bool \<Rightarrow> nat \<Rightarrow> string option \<Rightarrow> nat \<Rightarrow> string" where
  "http_head enable_cors code type body_len =
     ''HTTP/1.1 '' @ show_nat code @ '' '' @ http_reason code @ crlf @ ''Content-Length: '' @ show_nat body_len @ crlf
     @ (case type of None \<Rightarrow> [] | Some t \<Rightarrow> if t = [] then [] else ''Content-Type: '' @ t @ crlf)
     @ (if enable_cors then append_cors_headers else [])
     @ ''Connection: close'' @ crlf @ crlf"

text \<open>Head and body are two calls of \<open>send_all\<close>; \<open>es1\<close> and \<open>es2\<close> are what they meet.\<close>

definition http_response ::
  "send_event list \<Rightarrow> send_event list \<Rightarrow> bool \<Rightarrow> nat \<Rightarrow> string option \<Rightarrow> string option \<Rightarrow> bool \<times> string" where
  "http_response es1 es2 enable_cors code type body =
     (let b = (case body of None \<Rightarrow> [] | Some s \<Rightarrow> s)
      in case send_all es1 (http_head enable_cors code type (length b)) of
           (ok, out) \<Rightarrow>
             if ok \<and> b \<noteq> [] then (case send_all es2 b of (ok2, out2) \<Rightarrow> (ok2, out @ out2)) else (ok, out))"

definition http_error :: "send_event list \<Rightarrow> send_event list \<Rightarrow> bool \<Rightarrow> nat \<Rightarrow> string \<Rightarrow> bool \<times> string" where
  "http_error es1 es2 enable_cors code msg =
     http_response es1 es2 enable_cors code (Some ''application/json'')
       (Some ([CHR ''{'', CHR 0x22] @ ''error'' @ [CHR 0x22] @ '':{'' @ [CHR 0x22] @ ''message'' @ [CHR 0x22] @ '':'' @ json_escape msg
          @ '','' @ [CHR 0x22] @ ''type'' @ [CHR 0x22] @ '':'' @ [CHR 0x22] @ ''invalid_request_error'' @ [CHR 0x22] @ ''}}'' @ [CHR 0x0A]))"

definition sse_headers :: "send_event list \<Rightarrow> bool \<Rightarrow> bool \<times> string" where
  "sse_headers es enable_cors =
     send_all es (''HTTP/1.1 200 OK'' @ crlf @ ''Content-Type: text/event-stream'' @ crlf @ ''Cache-Control: no-cache'' @ crlf
       @ (if enable_cors then append_cors_headers else []) @ ''Connection: close'' @ crlf @ crlf)"

definition sse_event :: "send_event list \<Rightarrow> string \<Rightarrow> string \<Rightarrow> bool \<times> string" where
  "sse_event es event data = send_all es (''event: '' @ event @ [CHR 0x0A] @ ''data: '' @ data @ [CHR 0x0A, CHR 0x0A])"

section \<open>Reading does not depend on the pieces\<close>

fun clean :: "recv_event list \<Rightarrow> bool" where
  "clean [] = True"
| "clean (Data s # es) = (s \<noteq> [] \<and> clean es)"
| "clean (Interrupted # es) = clean es"
| "clean (Broken # es) = False"

fun stream :: "recv_event list \<Rightarrow> string" where
  "stream [] = []"
| "stream (Data s # es) = s @ stream es"
| "stream (Interrupted # es) = stream es"
| "stream (Broken # es) = []"

lemma recv_clean:
  assumes "clean es" "0 < k" "recv k es = (r, es')"
  obtains (ended) "r = Ended" "stream es = []"
    | (again) "r = Again" "clean es'" "stream es' = stream es"
    | (got) s where "r = Got s" "s \<noteq> []" "clean es'" "stream es = s @ stream es'"
  using assms by (cases "(k, es)" rule: recv.cases) (auto split: if_splits)

definition whole_head :: "string \<Rightarrow> bool" where
  "whole_head head \<longleftrightarrow> suffix crlf2 head \<and> list_all (\<lambda>n. header_end (take n head) = None) [0..<length head]"

abbreviation crlf2_ends :: "string \<Rightarrow> nat \<Rightarrow> bool" where
  "crlf2_ends p i \<equiv> p ! (i - 3) = CHR 0x0D \<and> p ! (i - 2) = CHR 0x0A \<and> p ! (i - 1) = CHR 0x0D \<and> p ! i = CHR 0x0A"

lemma header_end_None: "header_end p = None \<Longrightarrow> i + 3 < length p \<Longrightarrow> \<not> crlf2_ends p (i + 3)"
proof -
  assume "header_end p = None" "i + 3 < length p"
  then have "find (crlf2_ends p) [3..<length p] = None" by (simp add: header_end_def split: option.splits)
  then have "\<forall>j. j \<in> set [3..<length p] \<longrightarrow> \<not> crlf2_ends p j" unfolding find_None_iff by blast
  from spec [OF this, of "i + 3"] show ?thesis using \<open>i + 3 < length p\<close> by simp
qed

lemma whole_head_end:
  assumes "whole_head head"
  shows "header_end (head @ x) = Some (length head)"
proof -
  obtain h where h: "head = h @ crlf2" using assms by (auto simp: whole_head_def suffix_def)
  let ?p = "head @ x" and ?n = "length h"
  have at: "crlf2_ends ?p (?n + 3)" by (simp add: h crlf2_def nth_append)
  have before: "\<not> crlf2_ends ?p (j + 3)" if j: "j < ?n" for j
  proof -
    have "length head = ?n + 4" by (simp add: h crlf2_def)
    then have "j + 4 \<in> set [0..<length head]" using j by simp
    then have "header_end (take (j + 4) head) = None" using assms by (simp add: whole_head_def list_all_iff)
    from header_end_None [OF this, of j] show ?thesis using j \<open>length head = ?n + 4\<close> by (simp add: nth_append)
  qed
  have len: "length ?p = ?n + 4 + length x" by (simp add: h crlf2_def)
  have "find (crlf2_ends ?p) [3..<length ?p] = Some (3 + ?n)"
    using at before len by (intro find_upt) (simp_all only: add.commute [of 3], simp)
  then show ?thesis by (simp add: header_end_def h crlf2_def)
qed

lemma read_head_whole:
  assumes "whole_head head" and "length head \<le> 65536"
  shows "clean es \<Longrightarrow> b @ stream es = head @ rest \<Longrightarrow> length b < length head \<Longrightarrow>
    \<exists>b' es'. read_head es b = Some (length head, b', es') \<and> clean es' \<and> b' @ stream es' = head @ rest \<and> length head \<le> length b'"
proof (induction es b rule: read_head.induct)
  case (1 es b)
  have lt: "length b < 65536" using "1.prems"(3) assms(2) by simp
  obtain r es' where r: "recv 4096 es = (r, es')" by fastforce
  have k: "(0::nat) < 4096" by simp
  from "1.prems"(1) k r show ?case
  proof (cases rule: recv_clean)
    case ended
    then show ?thesis using "1.prems"(2,3) by (metis append_Nil2 length_append not_add_less1)
  next
    case again
    then show ?thesis using "1.IH"(2) [OF lt r [symmetric] again(1)] "1.prems" lt r by (simp add: read_head.simps [of es b])
  next
    case (got s)
    show ?thesis
    proof (cases "length head \<le> length (b @ s)")
      case True
      have c: "(b @ s) @ stream es' = head @ rest" using "1.prems"(2) got(4) by simp
      then obtain x where x: "b @ s = head @ x" using True by (metis append_eq_append_conv_if append_take_drop_id)
      have "x @ stream es' = rest" using c unfolding x by simp
      then show ?thesis using x whole_head_end [OF assms(1), of x] got lt r "1.prems"(2) by (simp add: read_head.simps [of es b])
    next
      case False
      have "b @ s @ stream es' = head @ rest" using "1.prems"(2) got(4) by simp
      then have "b @ s = take (length (b @ s)) head" using False
        by (metis append.assoc append_eq_conv_conj length_append nat_le_linear take_append take_all_iff diff_is_0_eq' take0 append_Nil2)
      then have "header_end (b @ s) = None" using assms(1) False by (auto simp: whole_head_def list_all_iff)
      then show ?thesis using "1.IH"(1) [OF lt r [symmetric] got(1)] False got "1.prems"(2) lt r
        by (simp add: read_head.simps [of es b])
    qed
  qed
qed

lemma read_body_whole:
  "clean es \<Longrightarrow> b @ stream es = w \<Longrightarrow> want \<le> length w \<Longrightarrow>
    \<exists>b'. read_body want es b = Some b' \<and> prefix b' w \<and> want \<le> length b'"
proof (induction want es b rule: read_body.induct)
  case (1 want es b)
  show ?case
  proof (cases "length b < want")
    case False
    then show ?thesis using "1.prems" by (auto simp: read_body.simps [of want es b])
  next
    case True
    obtain r es' where r: "recv 8192 es = (r, es')" by fastforce
    have k: "(0::nat) < 8192" by simp
    from "1.prems"(1) k r show ?thesis
    proof (cases rule: recv_clean)
      case ended
      then show ?thesis using "1.prems" True by auto
    next
      case again
      then show ?thesis using "1.IH"(2) [OF True r [symmetric] again(1)] "1.prems" True r by (simp add: read_body.simps [of want es b])
    next
      case (got s)
      then show ?thesis using "1.IH"(1) [OF True r [symmetric] got(1)] "1.prems" True r by (simp add: read_body.simps [of want es b])
    qed
  qed
qed

lemma request_line_head: "CHR 0x0A \<in> set head \<Longrightarrow> request_line (head @ x) = request_line head"
proof -
  assume "CHR 0x0A \<in> set head"
  then have "takeWhile (\<lambda>c. c \<noteq> CHR 0x0A) (head @ x) = takeWhile (\<lambda>c. c \<noteq> CHR 0x0A) head" by (simp add: takeWhile_append1)
  then show ?thesis by (simp add: request_line_def)
qed


section \<open>Heads made of lines\<close>

text \<open>No empty line yet: after a line feed comes neither another one nor, unless it is the last byte, a carriage return.\<close>

fun open_head :: "string \<Rightarrow> bool" where
  "open_head [] = True"
| "open_head (c # s) = ((c = CHR 0x0A \<longrightarrow> (case s of [] \<Rightarrow> True | d # t \<Rightarrow> d \<noteq> CHR 0x0A \<and> (d = CHR 0x0D \<longrightarrow> t = []))) \<and> open_head s)"

lemma open_head_take: "open_head p \<Longrightarrow> open_head (take n p)"
proof (induction p arbitrary: n)
  case (Cons c s)
  show ?case
  proof (cases n)
    case (Suc k)
    have "(case take k s of [] \<Rightarrow> True | d # t \<Rightarrow> d \<noteq> CHR 0x0A \<and> (d = CHR 0x0D \<longrightarrow> t = []))" if "c = CHR 0x0A"
      using Cons.prems that by (cases s; cases k) auto
    then show ?thesis using Suc Cons by simp
  qed simp
qed simp

lemma open_head_nth:
  "open_head p \<Longrightarrow> p ! i = CHR 0x0A \<Longrightarrow> Suc i < length p \<Longrightarrow> p ! Suc i \<noteq> CHR 0x0A \<and> (p ! Suc i = CHR 0x0D \<longrightarrow> length p \<le> i + 2)"
proof (induction p arbitrary: i)
  case (Cons c s)
  then show ?case by (cases i) (auto split: list.splits)
qed simp

lemma open_head_end:
  assumes "open_head p"
  shows "header_end p = None"
proof -
  have lf: "\<not> (p ! (i - 1) = CHR 0x0A \<and> p ! i = CHR 0x0A)" if "i \<in> set [1..<length p]" for i
    using open_head_nth [OF assms, of "i - 1"] that by auto
  moreover have "\<not> crlf2_ends p i" if i: "i \<in> set [3..<length p]" for i
  proof -
    have "Suc (i - 2) = i - 1" "i - 1 < length p" "\<not> length p \<le> i - 2 + 2" using i by auto
    then show ?thesis using open_head_nth [OF assms, of "i - 2"] by metis
  qed
  ultimately have "find (crlf2_ends p) [3..<length p] = None" "find (\<lambda>i. p ! (i - 1) = CHR 0x0A \<and> p ! i = CHR 0x0A) [1..<length p] = None"
    unfolding find_None_iff by blast+
  then show ?thesis by (simp add: header_end_def)
qed

definition plain_line :: "string \<Rightarrow> bool" where
  "plain_line l \<longleftrightarrow> l \<noteq> [] \<and> CHR 0x0A \<notin> set l \<and> CHR 0x0D \<notin> set l"

definition head_of :: "string list \<Rightarrow> string" where
  "head_of ls = concat (map (\<lambda>l. l @ crlf) ls) @ crlf"

lemma open_head_line: "CHR 0x0A \<notin> set l \<Longrightarrow> open_head (l @ s) = open_head s"
  by (induction l) auto

lemma open_head_lines: "list_all plain_line ls \<Longrightarrow> open_head (concat (map (\<lambda>l. l @ crlf) ls) @ [CHR 0x0D])"
proof (induction ls)
  case (Cons l ls)
  have "\<exists>d t. concat (map (\<lambda>l. l @ crlf) ls) @ [CHR 0x0D] = d # t \<and> d \<noteq> CHR 0x0A \<and> (d = CHR 0x0D \<longrightarrow> t = [])"
  proof (cases ls)
    case (Cons l' ls')
    then have "plain_line l'" using Cons.prems by simp
    then show ?thesis using Cons by (cases l') (auto simp: plain_line_def)
  qed simp
  then have "open_head (crlf @ concat (map (\<lambda>l. l @ crlf) ls) @ [CHR 0x0D])" using Cons by (auto simp: crlf_def)
  then show ?case using Cons.prems by (simp add: open_head_line plain_line_def)
qed simp

lemma whole_head_lines:
  assumes "list_all plain_line ls" "ls \<noteq> []"
  shows "whole_head (head_of ls)"
proof -
  let ?p = "concat (map (\<lambda>l. l @ crlf) ls) @ [CHR 0x0D]"
  have h: "head_of ls = ?p @ [CHR 0x0A]" by (simp add: head_of_def crlf_def)
  obtain l ls' where ls: "ls = ls' @ [l]" using assms(2) by (cases ls rule: rev_cases) auto
  have "suffix crlf2 (head_of ls)" by (simp add: head_of_def ls crlf_def crlf2_def suffix_def)
  moreover have "header_end (take n (head_of ls)) = None" if "n < length (head_of ls)" for n
  proof -
    have "n \<le> length ?p" using that by (simp add: h)
    then have "take n (head_of ls) = take n ?p" unfolding h by (simp only: take_append diff_is_0_eq) simp
    then show ?thesis using open_head_end [OF open_head_take [OF open_head_lines [OF assms(1)]]] by simp
  qed
  ultimately show ?thesis by (simp add: whole_head_def list_all_iff)
qed

lemma line_cut: "CHR 0x0A \<notin> set l \<Longrightarrow> length l < k \<Longrightarrow> takeWhile (\<lambda>c. c \<noteq> CHR 0x0A) (take k (l @ CHR 0x0A # y)) = l"
proof -
  assume l: "CHR 0x0A \<notin> set l" "length l < k"
  then have "take k (l @ CHR 0x0A # y) = l @ CHR 0x0A # take (k - length l - 1) y" by (cases "k - length l") auto
  moreover have "takeWhile (\<lambda>c. c \<noteq> CHR 0x0A) (l @ CHR 0x0A # z) = l" for z using l(1) by (induction l) auto
  ultimately show ?thesis by simp
qed

lemma content_length_skip:
  assumes "CHR 0x0A \<notin> set l" and "length l + 2 \<le> k" and "\<not> (15 \<le> length l \<and> strncasecmp_eq (l @ crlf @ y) ''Content-Length:'')"
  shows "content_length_loop (l @ crlf @ y) k = content_length_loop y (k - (length l + 2))"
proof -
  let ?p = "l @ crlf @ y"
  have "takeWhile (\<lambda>c. c \<noteq> CHR 0x0A) (take k ?p) = l @ [CHR 0x0D]"
    using line_cut [of "l @ [CHR 0x0D]" k y] assms by (simp add: crlf_def)
  moreover have "drop (Suc (Suc (length l))) ?p = y" by (simp add: crlf_def)
  moreover have "?p ! length l = CHR 0x0D" by (simp add: crlf_def nth_append)
  ultimately show ?thesis using assms
    by (subst content_length_loop.simps) (auto simp: Let_def crlf_def)
qed

lemma content_length_read:
  assumes "16 + length (show_nat n) + 2 \<le> k" and "n \<le> INT64_MAX"
  shows "content_length_loop (''Content-Length: '' @ show_nat n @ crlf @ y) k = int n"
proof -
  let ?l = "''Content-Length: '' @ show_nat n" and ?p = "''Content-Length: '' @ show_nat n @ crlf @ y"
  have d: "\<not> c_isspace c" "c \<noteq> CHR 0x0A" "c \<noteq> CHR 0x00" if "c \<in> set (show_nat n)" for c
    using show_nat_digits [of n] that isdigit_not_space by (auto simp: list_all_iff c_isdigit_def)
  have "takeWhile (\<lambda>c. c \<noteq> CHR 0x0A) (take k ?p) = ?l @ [CHR 0x0D]"
    using line_cut [of "?l @ [CHR 0x0D]" k y] assms d(2) by (auto simp: crlf_def)
  then have len: "length (takeWhile (\<lambda>c. c \<noteq> CHR 0x0A) (take k ?p)) = 17 + length (show_nat n)" by simp
  have cr: "?p ! (16 + length (show_nat n)) = CHR 0x0D" by (simp add: crlf_def nth_append)
  have cmp: "strncasecmp_eq ?p ''Content-Length:''" by (simp add: strncasecmp_eq_def)
  have "takeWhile c_isspace (take (1 + length (show_nat n)) (drop 15 ?p)) = '' ''"
  proof -
    have "take (1 + length (show_nat n)) (drop 15 ?p) = '' '' @ show_nat n" by simp
    moreover have "takeWhile c_isspace (show_nat n) = []" using d(1) by (cases "show_nat n") auto
    moreover have "c_isspace (CHR '' '')" by (simp add: c_isspace_def)
    ultimately show ?thesis by simp
  qed
  moreover have "c_str (drop 16 ?p) = show_nat n @ crlf @ c_str y"
    using d(3) by (simp add: c_str_def takeWhile_append2 crlf_def)
  moreover have "fst (c_strtol (show_nat n @ crlf @ c_str y)) = int n"
    using strto_scan_show_nat [of "crlf @ c_str y" n] assms(2) by (simp add: c_strtol_def crlf_def c_isdigit_def)
  ultimately show ?thesis using assms(1) len cr cmp
    by (subst content_length_loop.simps) (simp add: Let_def del: append.simps)
qed

lemma tolower_upper: "c_tolower (CHR ''C'') = CHR ''c''" "c_tolower (CHR ''H'') = CHR ''h''" "c_tolower (CHR ''P'') = CHR ''p''"
  by code_simp+

lemma content_length_lines:
  assumes "CHR 0x0A \<notin> set l" and "l \<noteq> []" and "c_tolower (hd l) \<noteq> CHR ''c''" and "n \<le> INT64_MAX"
    and "length l + 20 + length (show_nat n) \<le> k"
  shows "content_length (l @ crlf @ ''Content-Length: '' @ show_nat n @ crlf @ y) k = int n"
proof -
  have "\<not> strncasecmp_eq (l @ z) ''Content-Length:''" for z using assms(2,3) by (cases l) (simp_all add: strncasecmp_eq_def tolower_upper)
  then show ?thesis unfolding content_length_def
    using content_length_skip [OF assms(1), of k "''Content-Length: '' @ show_nat n @ crlf @ y"]
      content_length_read [of n "k - (length l + 2)" y] assms(4,5) by simp
qed

text \<open>The request the server's own reading rules are meant for, delivered in any pieces.\<close>

definition sample_head :: string where "sample_head = head_of [''POST /v1/completions?x=1 HTTP/1.1'', ''Content-Length: 5'']"


lemma send_all_prefix: "send_all es s = (ok, out) \<Longrightarrow> prefix out s \<and> (ok \<longrightarrow> out = s)"
proof (induction es s arbitrary: ok out rule: send_all.induct)
  case (7 w es c s)
  obtain ok' out' where r: "send_all es (drop w (c # s)) = (ok', out')" by fastforce
  show ?case
  proof (cases "w = 0")
    case False
    then have "ok = ok'" "out = take w (c # s) @ out'" using "7.prems" r by simp_all
    moreover have "prefix out' (drop w (c # s))" "ok' \<Longrightarrow> out' = drop w (c # s)" using "7.IH" [OF False r] by simp_all
    moreover have "prefix (take w (c # s) @ out') (take w (c # s) @ drop w (c # s)) \<longleftrightarrow> prefix out' (drop w (c # s))" by (rule same_prefix_prefix)
    ultimately show ?thesis by simp
  qed (use "7.prems" in simp)
qed (auto split: if_splits)

lemma http_head_lines:
  "http_head cors code type n = head_of ([''HTTP/1.1 '' @ show_nat code @ '' '' @ http_reason code, ''Content-Length: '' @ show_nat n]
     @ (case type of None \<Rightarrow> [] | Some t \<Rightarrow> if t = [] then [] else [''Content-Type: '' @ t])
     @ (if cors then [''Access-Control-Allow-Origin: *'', ''Access-Control-Allow-Methods: GET, POST, OPTIONS'', ''Access-Control-Allow-Headers: *''] else [])
     @ [''Connection: close''])"
  by (simp add: http_head_def head_of_def append_cors_headers_def split: option.splits)

lemma show_nat_plain: "CHR 0x0A \<notin> set (show_nat n)" "CHR 0x0D \<notin> set (show_nat n)"
  using show_nat_digits [of n] by (auto simp: list_all_iff c_isdigit_def)

lemma http_reason_plain: "CHR 0x0A \<notin> set (http_reason code)" "CHR 0x0D \<notin> set (http_reason code)"
  by (simp_all add: http_reason_def)

text \<open>
  Responses are framed. Whatever the socket does, what a response puts on the wire is a prefix of its head followed by
  its body, and all of it exactly when the call reports success; and the head ends where the body starts and declares the
  length of the body, for every status, body and media type without line breaks, with and without CORS headers.
\<close>

lemma http_response_framed:
  assumes "\<forall>t. type = Some t \<longrightarrow> CHR 0x0A \<notin> set t \<and> CHR 0x0D \<notin> set t" and "length body \<le> INT64_MAX"
  shows "header_end (http_head cors code type (length body) @ body) = Some (length (http_head cors code type (length body)))
    \<and> content_length (http_head cors code type (length body) @ body) (length (http_head cors code type (length body))) = int (length body)
    \<and> prefix (snd (http_response es1 es2 cors code type (Some body))) (http_head cors code type (length body) @ body)
    \<and> (fst (http_response es1 es2 cors code type (Some body))
        \<longrightarrow> snd (http_response es1 es2 cors code type (Some body)) = http_head cors code type (length body) @ body)"
proof -
  let ?h = "http_head cors code type (length body)"
  have "whole_head ?h" unfolding http_head_lines
    using assms(1) show_nat_plain http_reason_plain by (intro whole_head_lines) (auto simp: plain_line_def split: option.splits)
  then have "header_end (?h @ body) = Some (length ?h)" by (rule whole_head_end)
  moreover have "content_length (?h @ body) (length ?h) = int (length body)"
  proof -
    define rest where "rest = (case type of None \<Rightarrow> [] | Some t \<Rightarrow> if t = [] then [] else ''Content-Type: '' @ t @ crlf)
      @ (if cors then append_cors_headers else []) @ ''Connection: close'' @ crlf @ crlf"
    define l where "l = ''HTTP/1.1 '' @ show_nat code @ '' '' @ http_reason code"
    have h: "?h = l @ crlf @ ''Content-Length: '' @ show_nat (length body) @ crlf @ rest" by (simp add: http_head_def rest_def l_def)
    have "content_length (l @ crlf @ ''Content-Length: '' @ show_nat (length body) @ crlf @ rest @ body) (length ?h) = int (length body)"
      using show_nat_plain http_reason_plain assms(2)
      by (intro content_length_lines) (simp_all add: h l_def tolower_upper crlf_def)
    then show ?thesis by (simp add: h)
  qed
  moreover obtain ok out where o: "send_all es1 ?h = (ok, out)" by fastforce
  moreover obtain ok2 out2 where o2: "send_all es2 body = (ok2, out2)" by fastforce
  ultimately show ?thesis using send_all_prefix [OF o] send_all_prefix [OF o2]
    by (auto simp: http_response_def Let_def)
qed

text \<open>
  The bare line feeds the reader also accepts are not safe: an empty line of carriage return and line feed found later
  in the buffer takes precedence, so the same bytes are read or refused depending on how they arrive.
\<close>

lemma bare_lf_depends_on_delivery:
  "read_head [Data [CHR ''A'', CHR 0x0A, CHR 0x0A], Data crlf2] [] = Some (3, [CHR ''A'', CHR 0x0A, CHR 0x0A], [Data crlf2])
    \<and> read_head [Data ([CHR ''A'', CHR 0x0A, CHR 0x0A] @ crlf2)] [] = Some (7, [CHR ''A'', CHR 0x0A, CHR 0x0A] @ crlf2, [])"
  by (simp add: read_head.simps header_end_def crlf2_def upt_rec)

end
