(* ===== verification/Tool_Stream.thy ===== *)
theory Tool_Stream
  imports Stream_Text Json
begin

text \<open>
  The OpenAI tool-call stream of \<open>ds4_server.c\<close>: a state machine that reads the growing text of a tool block and
  emits the header of each call and pieces of its JSON arguments as soon as they are certain. The three spellings of
  the markers are a datatype, so the five marker fields of the C structure are functions of it. What is sent is the
  list of deltas; a send that fails ends the request at once, so the model is of a connection that stays up. The ids
  given to the calls are drawn at random once per index and are an argument.
\<close>

section \<open>State\<close>

datatype dsml_tool_stream_state =
  DSML_TOOL_BETWEEN_INVOKES | DSML_TOOL_BETWEEN_PARAMS | DSML_TOOL_PARAM_VALUE | DSML_TOOL_DONE | DSML_TOOL_ERROR

datatype dsml_form = Full | Short | Plain

fun tool_calls_start :: "dsml_form \<Rightarrow> string" where
  "tool_calls_start Full = DS4_TOOL_CALLS_START" | "tool_calls_start Short = DS4_TOOL_CALLS_START_SHORT" | "tool_calls_start Plain = ''<tool_calls>''"

fun tool_calls_end :: "dsml_form \<Rightarrow> string" where
  "tool_calls_end Full = DS4_TOOL_CALLS_END" | "tool_calls_end Short = DS4_TOOL_CALLS_END_SHORT" | "tool_calls_end Plain = ''</tool_calls>''"

fun invoke_start :: "dsml_form \<Rightarrow> string" where
  "invoke_start Full = DS4_INVOKE_START" | "invoke_start Short = DS4_INVOKE_START_SHORT" | "invoke_start Plain = ''<invoke''"

fun invoke_end :: "dsml_form \<Rightarrow> string" where
  "invoke_end Full = DS4_INVOKE_END" | "invoke_end Short = DS4_INVOKE_END_SHORT" | "invoke_end Plain = ''</invoke>''"

fun param_start :: "dsml_form \<Rightarrow> string" where
  "param_start Full = DS4_PARAM_START" | "param_start Short = DS4_PARAM_START_SHORT" | "param_start Plain = ''<parameter''"

fun param_end :: "dsml_form \<Rightarrow> string" where
  "param_end Full = DS4_PARAM_END" | "param_end Short = DS4_PARAM_END_SHORT" | "param_end Plain = ''</parameter>''"

record openai_tool_stream =
  ts_state :: dsml_tool_stream_state
  ts_form :: dsml_form
  parse_pos :: nat
  ts_index :: nat
  ts_active :: bool
  emitted_any :: bool
  args_open :: bool
  first_param :: bool
  param_is_string :: bool

datatype tool_delta = Call_start nat string string | Call_args nat string

section \<open>Literals in the text so far\<close>

definition raw_full_lit :: "string \<Rightarrow> nat \<Rightarrow> string \<Rightarrow> bool" where
  "raw_full_lit raw pos lit \<longleftrightarrow> pos \<le> length raw \<and> length raw - pos \<ge> length lit \<and> take (length lit) (drop pos raw) = lit"

definition raw_partial_lit :: "string \<Rightarrow> nat \<Rightarrow> string \<Rightarrow> bool" where
  "raw_partial_lit raw pos lit \<longleftrightarrow>
     \<not> (pos > length raw \<or> length raw - pos \<ge> length lit) \<and> drop pos raw = take (length raw - pos) lit"

definition raw_partial_any :: "string \<Rightarrow> nat \<Rightarrow> string \<Rightarrow> string \<Rightarrow> bool" where
  "raw_partial_any raw pos a b \<longleftrightarrow> raw_partial_lit raw pos a \<or> raw_partial_lit raw pos b"

definition find_lit_bounded :: "string \<Rightarrow> string \<Rightarrow> nat option" where
  "find_lit_bounded s lit =
     (if lit = [] then Some 0 else if length s < length lit then None
      else find (\<lambda>i. take (length lit) (drop i s) = lit) [0..<length s - length lit + 1])"

text \<open>The tag that starts at a position, with its closing \<open>>\<close>, once that has arrived (\<open>memchr\<close> and \<open>xstrndup\<close>).\<close>

definition tag_at :: "string \<Rightarrow> nat \<Rightarrow> string option" where
  "tag_at raw pos = tag_text (drop pos raw)"

section \<open>Emitting\<close>

definition openai_tool_emit_args_fragment :: "openai_tool_stream \<Rightarrow> string \<Rightarrow> tool_delta list" where
  "openai_tool_emit_args_fragment ts s = (if s = [] then [] else [Call_args (ts_index ts) s])"

definition openai_tool_emit_string_value :: "openai_tool_stream \<Rightarrow> string \<Rightarrow> tool_delta list" where
  "openai_tool_emit_string_value ts s =
     (if s = [] then []
      else openai_tool_emit_args_fragment ts (json_escape_fragment_n (ds4_tool_text_unescape (c_str s) (param_end (ts_form ts)))))"

definition openai_tool_emit_param_prefix :: "openai_tool_stream \<Rightarrow> string \<Rightarrow> bool \<Rightarrow> openai_tool_stream \<times> tool_delta list" where
  "openai_tool_emit_param_prefix ts name is_string =
     (ts\<lparr>first_param := False\<rparr>,
      openai_tool_emit_args_fragment ts ((if first_param ts then [] else '','') @ json_escape name @ '':'' @ (if is_string then [CHR 0x22] else [])))"

section \<open>The machine\<close>

definition blank_tool_stream :: openai_tool_stream where
  "blank_tool_stream = \<lparr>ts_state = DSML_TOOL_BETWEEN_INVOKES, ts_form = Plain, parse_pos = 0, ts_index = 0, ts_active = False,
     emitted_any = False, args_open = False, first_param = False, param_is_string = False\<rparr>"

definition openai_tool_stream_init :: "string \<Rightarrow> nat \<Rightarrow> bool \<times> openai_tool_stream" where
  "openai_tool_stream_init raw pos =
     (let ts = blank_tool_stream\<lparr>ts_active := True, parse_pos := pos\<rparr>;
          start = (\<lambda>f. (True, ts\<lparr>ts_form := f, parse_pos := pos + length (tool_calls_start f)\<rparr>))
      in if raw_full_lit raw pos DS4_TOOL_CALLS_START then start Full
         else if raw_full_lit raw pos DS4_TOOL_CALLS_START_SHORT then start Short
         else if raw_full_lit raw pos ''<tool_calls>'' then start Plain
         else (False, ts\<lparr>ts_active := False, ts_state := DSML_TOOL_ERROR\<rparr>))"

definition openai_tool_stream_fail :: "openai_tool_stream \<Rightarrow> openai_tool_stream" where
  "openai_tool_stream_fail ts = ts\<lparr>ts_active := False, ts_state := DSML_TOOL_ERROR\<rparr>"

definition openai_tool_start_invoke ::
  "(nat \<Rightarrow> string) \<Rightarrow> openai_tool_stream \<Rightarrow> string \<Rightarrow> openai_tool_stream \<times> tool_delta list" where
  "openai_tool_start_invoke ids ts raw =
     (case tag_at raw (parse_pos ts) of
        None \<Rightarrow> (ts, [])
      | Some tag \<Rightarrow>
          (case dsml_attr tag ''name'' of
             None \<Rightarrow> (openai_tool_stream_fail ts, [])
           | Some name \<Rightarrow>
               (ts\<lparr>emitted_any := True, args_open := True, first_param := True, parse_pos := parse_pos ts + length tag,
                   ts_state := DSML_TOOL_BETWEEN_PARAMS\<rparr>,
                [Call_start (ts_index ts) (ids (ts_index ts)) name] @ openai_tool_emit_args_fragment ts ''{'')))"

definition openai_tool_start_param :: "openai_tool_stream \<Rightarrow> string \<Rightarrow> openai_tool_stream \<times> tool_delta list" where
  "openai_tool_start_param ts raw =
     (case tag_at raw (parse_pos ts) of
        None \<Rightarrow> (ts, [])
      | Some tag \<Rightarrow>
          (case (dsml_attr tag ''name'', dsml_attr tag ''string'') of
             (Some name, Some is_string) \<Rightarrow>
               (case openai_tool_emit_param_prefix ts name (is_string = ''true'') of
                  (ts1, ds) \<Rightarrow> (ts1\<lparr>param_is_string := (is_string = ''true''), parse_pos := parse_pos ts + length tag,
                                  ts_state := DSML_TOOL_PARAM_VALUE\<rparr>, ds))
           | _ \<Rightarrow> (openai_tool_stream_fail ts, [])))"

definition emit_value :: "openai_tool_stream \<Rightarrow> string \<Rightarrow> tool_delta list" where
  "emit_value ts s = (if param_is_string ts then openai_tool_emit_string_value ts s else openai_tool_emit_args_fragment ts s)"

definition openai_tool_finish_param :: "openai_tool_stream \<Rightarrow> string \<Rightarrow> nat \<Rightarrow> openai_tool_stream \<times> tool_delta list" where
  "openai_tool_finish_param ts raw value_end =
     (ts\<lparr>parse_pos := value_end + length (param_end (ts_form ts)), ts_state := DSML_TOOL_BETWEEN_PARAMS\<rparr>,
      (if value_end > parse_pos ts then emit_value ts (take (value_end - parse_pos ts) (drop (parse_pos ts) raw)) else [])
      @ (if param_is_string ts then openai_tool_emit_args_fragment ts [CHR 0x22] else []))"

definition skip_blanks :: "openai_tool_stream \<Rightarrow> string \<Rightarrow> openai_tool_stream" where
  "skip_blanks ts raw = ts\<lparr>parse_pos := parse_pos ts + length (takeWhile c_isspace (drop (parse_pos ts) raw))\<rparr>"

text \<open>One round of the loop of \<open>openai_tool_stream_update\<close>: whether it goes on, the state and the deltas.\<close>

definition moved :: "openai_tool_stream \<Rightarrow> openai_tool_stream \<times> tool_delta list \<Rightarrow> bool \<times> openai_tool_stream \<times> tool_delta list" where
  "moved before r = (\<not> (parse_pos (fst r) = parse_pos before \<and> ts_state (fst r) = ts_state before), fst r, snd r)"

definition between_invokes :: "(nat \<Rightarrow> string) \<Rightarrow> openai_tool_stream \<Rightarrow> string \<Rightarrow> bool \<times> openai_tool_stream \<times> tool_delta list" where
  "between_invokes ids ts0 raw =
     (let ts = skip_blanks ts0 raw; f = ts_form ts
      in if parse_pos ts \<ge> length raw then (False, ts, [])
         else if raw_full_lit raw (parse_pos ts) (tool_calls_end f)
         then (False, ts\<lparr>parse_pos := parse_pos ts + length (tool_calls_end f), ts_active := False, ts_state := DSML_TOOL_DONE\<rparr>, [])
         else if raw_partial_any raw (parse_pos ts) (tool_calls_end f) (invoke_start f) then (False, ts, [])
         else if raw_full_lit raw (parse_pos ts) (invoke_start f) then moved ts (openai_tool_start_invoke ids ts raw)
         else (False, openai_tool_stream_fail ts, []))"

definition between_params :: "openai_tool_stream \<Rightarrow> string \<Rightarrow> bool \<times> openai_tool_stream \<times> tool_delta list" where
  "between_params ts0 raw =
     (let ts = skip_blanks ts0 raw; f = ts_form ts
      in if parse_pos ts \<ge> length raw then (False, ts, [])
         else if raw_full_lit raw (parse_pos ts) (invoke_end f)
         then (True, ts\<lparr>args_open := False, parse_pos := parse_pos ts + length (invoke_end f), ts_index := ts_index ts + 1,
                        ts_state := DSML_TOOL_BETWEEN_INVOKES\<rparr>,
               if args_open ts then openai_tool_emit_args_fragment ts ''}'' else [])
         else if raw_partial_any raw (parse_pos ts) (invoke_end f) (param_start f) then (False, ts, [])
         else if raw_full_lit raw (parse_pos ts) (param_start f) then moved ts (openai_tool_start_param ts raw)
         else (False, openai_tool_stream_fail ts, []))"

definition param_value :: "openai_tool_stream \<Rightarrow> string \<Rightarrow> bool \<times> openai_tool_stream \<times> tool_delta list" where
  "param_value ts raw =
     (case find_lit_bounded (drop (parse_pos ts) raw) (param_end (ts_form ts)) of
        Some i \<Rightarrow> (case openai_tool_finish_param ts raw (parse_pos ts + i) of (ts1, ds) \<Rightarrow> (True, ts1, ds))
      | None \<Rightarrow>
          let limit = tool_param_value_stream_safe_len raw (parse_pos ts) (length raw) (param_end (ts_form ts)) (param_is_string ts)
          in if limit > parse_pos ts
             then (False, ts\<lparr>parse_pos := limit\<rparr>, emit_value ts (take (limit - parse_pos ts) (drop (parse_pos ts) raw)))
             else (False, ts, []))"

definition tool_round :: "(nat \<Rightarrow> string) \<Rightarrow> openai_tool_stream \<Rightarrow> string \<Rightarrow> bool \<times> openai_tool_stream \<times> tool_delta list" where
  "tool_round ids ts raw =
     (case ts_state ts of
        DSML_TOOL_BETWEEN_INVOKES \<Rightarrow> between_invokes ids ts raw
      | DSML_TOOL_BETWEEN_PARAMS \<Rightarrow> between_params ts raw
      | DSML_TOOL_PARAM_VALUE \<Rightarrow> param_value ts raw
      | _ \<Rightarrow> (False, ts, []))"

lemmas marker_defs = DS4_DSML_def DS4_DSML_SHORT_def dsml_bar_def DS4_TOOL_CALLS_START_def DS4_TOOL_CALLS_END_def DS4_INVOKE_START_def
  DS4_INVOKE_END_def DS4_PARAM_START_def DS4_PARAM_END_def DS4_TOOL_CALLS_START_SHORT_def DS4_TOOL_CALLS_END_SHORT_def
  DS4_INVOKE_START_SHORT_def DS4_INVOKE_END_SHORT_def DS4_PARAM_START_SHORT_def DS4_PARAM_END_SHORT_def

lemma markers_nonempty [simp]: "invoke_end f \<noteq> []" "param_end f \<noteq> []" "invoke_start f \<noteq> []" "param_start f \<noteq> []" "tool_calls_end f \<noteq> []"
  by (cases f; simp add: marker_defs)+

lemma tag_at_nonempty: "tag_at raw pos = Some tag \<Longrightarrow> tag \<noteq> []"
  by (auto simp: tag_at_def tag_text_def split: if_splits)

lemma start_invoke_moves:
  assumes "openai_tool_start_invoke ids ts raw = (ts', ds)"
  shows "(ts' = ts \<and> ds = [] \<and> tag_at raw (parse_pos ts) = None) \<or> \<not> ts_active ts' \<or> parse_pos ts < parse_pos ts'"
  using assms tag_at_nonempty by (auto simp: openai_tool_start_invoke_def openai_tool_stream_fail_def split: option.splits)

lemma start_param_moves:
  assumes "openai_tool_start_param ts raw = (ts', ds)"
  shows "(ts' = ts \<and> ds = [] \<and> tag_at raw (parse_pos ts) = None) \<or> \<not> ts_active ts' \<or> parse_pos ts < parse_pos ts'"
  using assms tag_at_nonempty
  by (auto simp: openai_tool_start_param_def openai_tool_stream_fail_def openai_tool_emit_param_prefix_def split: option.splits)

lemma skip_blanks_le: "parse_pos ts \<le> parse_pos (skip_blanks ts raw)"
  by (simp add: skip_blanks_def)

lemma tool_round_moves:
  assumes "tool_round ids ts raw = (True, ts', ds)"
  shows "parse_pos ts < parse_pos ts' \<or> \<not> ts_active ts'"
proof (cases "ts_state ts")
  case DSML_TOOL_BETWEEN_INVOKES
  let ?s = "skip_blanks ts raw"
  have "moved ?s (openai_tool_start_invoke ids ?s raw) = (True, ts', ds)"
    using assms DSML_TOOL_BETWEEN_INVOKES by (simp add: tool_round_def between_invokes_def Let_def split: if_splits)
  then have "openai_tool_start_invoke ids ?s raw = (ts', ds)" "ts' \<noteq> ?s" by (auto simp: moved_def prod_eq_iff)
  then show ?thesis using start_invoke_moves [of ids ?s raw ts' ds] skip_blanks_le [of ts raw] by auto
next
  case DSML_TOOL_BETWEEN_PARAMS
  let ?s = "skip_blanks ts raw"
  consider "moved ?s (openai_tool_start_param ?s raw) = (True, ts', ds)" | "parse_pos ts' = parse_pos ?s + length (invoke_end (ts_form ?s))"
    using assms DSML_TOOL_BETWEEN_PARAMS by (auto simp: tool_round_def between_params_def Let_def split: if_splits)
  then show ?thesis
  proof cases
    case 1
    then have "openai_tool_start_param ?s raw = (ts', ds)" "ts' \<noteq> ?s" by (auto simp: moved_def prod_eq_iff)
    then show ?thesis using start_param_moves [of ?s raw ts' ds] skip_blanks_le [of ts raw] by auto
  next
    case 2
    moreover have "0 < length (invoke_end (ts_form ?s))" by simp
    ultimately show ?thesis using skip_blanks_le [of ts raw] by linarith
  qed
next
  case DSML_TOOL_PARAM_VALUE
  then show ?thesis using assms
    by (auto simp: tool_round_def param_value_def openai_tool_finish_param_def Let_def split: option.splits if_splits)
qed (use assms in \<open>simp_all add: tool_round_def\<close>)

function openai_tool_stream_update :: "(nat \<Rightarrow> string) \<Rightarrow> openai_tool_stream \<Rightarrow> string \<Rightarrow> openai_tool_stream \<times> tool_delta list" where
  "openai_tool_stream_update ids ts raw =
     (if ts_active ts \<and> parse_pos ts < length raw
      then (case tool_round ids ts raw of
              (go_on, ts1, ds) \<Rightarrow>
                if go_on then (case openai_tool_stream_update ids ts1 raw of (ts2, ds2) \<Rightarrow> (ts2, ds @ ds2)) else (ts1, ds))
      else (ts, []))"
  by pat_completeness auto
termination
  by (relation "measure (\<lambda>(ids, ts, raw). if ts_active ts \<and> parse_pos ts < length raw then length raw - parse_pos ts else 0)")
    (auto dest: tool_round_moves [OF sym])

declare openai_tool_stream_update.simps [simp del]

section \<open>Decisions are stable\<close>

lemma full_lit_iff: "raw_full_lit raw pos lit \<longleftrightarrow> pos \<le> length raw \<and> prefix lit (drop pos raw)"
  using prefix_length_le [of lit "drop pos raw"] by (auto simp: raw_full_lit_def prefix_take_iff [symmetric])

lemma partial_lit_iff: "raw_partial_lit raw pos lit \<longleftrightarrow> pos \<le> length raw \<and> strict_prefix (drop pos raw) lit"
proof -
  have k: "strict_prefix s lit \<longleftrightarrow> length s < length lit \<and> s = take (length s) lit" for s
    by (auto simp: strict_prefix_def prefix_def) (metis append_take_drop_id)
  show ?thesis by (simp only: raw_partial_lit_def k length_drop not_less not_le de_Morgan_disj conj_assoc)
qed

lemma lit_grows: "raw_full_lit raw pos lit \<Longrightarrow> raw_full_lit (raw @ x) pos lit"
  by (auto simp: full_lit_iff)

lemma full_not_partial: "raw_full_lit raw pos lit \<Longrightarrow> \<not> raw_partial_lit raw pos lit"
  by (auto simp: full_lit_iff partial_lit_iff strict_prefix_def dest: prefix_order.antisym)

lemma lit_settled:
  assumes "\<not> raw_full_lit raw pos lit" "\<not> raw_partial_lit raw pos lit" "pos \<le> length raw"
  shows "\<not> raw_full_lit (raw @ x) pos lit" "\<not> raw_partial_lit (raw @ x) pos lit"
proof -
  have n: "\<not> prefix lit (drop pos raw)" "\<not> prefix (drop pos raw) lit"
    using assms by (auto simp: full_lit_iff partial_lit_iff strict_prefix_def)
  show "\<not> raw_full_lit (raw @ x) pos lit" using n assms(3) prefix_same_cases [of lit "drop pos raw @ x" "drop pos raw"] by (auto simp: full_lit_iff)
  show "\<not> raw_partial_lit (raw @ x) pos lit" using n(2) assms(3) by (auto simp: partial_lit_iff strict_prefix_def prefix_def)
qed

lemma tag_grows: "tag_at raw pos = Some tag \<Longrightarrow> pos \<le> length raw \<Longrightarrow> tag_at (raw @ x) pos = Some tag"
  by (auto simp: tag_at_def tag_text_def takeWhile_append1 split: if_splits)

lemma find_lit_strstr:
  assumes "lit \<noteq> []"
  shows "find_lit_bounded s lit = strstr lit s"
proof (cases "strstr lit s")
  case None
  then have "\<not> sublist lit s" by (simp add: strstr_None)
  then have "take (length lit) (drop i s) \<noteq> lit" for i by (metis sublist_take sublist_drop sublist_order.order.trans)
  then show ?thesis using None assms by (simp add: find_lit_bounded_def find_None_iff)
next
  case (Some i)
  note f = strstr_Some_prefix [OF Some] strstr_Some_first [OF Some]
  have len: "length lit + i \<le> length s" using prefix_length_le [of lit "drop i s"] f(1) assms by (cases lit) auto
  then have "find (\<lambda>i. take (length lit) (drop i s) = lit) [0..<length s - length lit + 1] = Some (0 + i)"
    using f by (intro find_upt) (auto simp: prefix_take_iff)
  then show ?thesis using Some assms len by (simp add: find_lit_bounded_def)
qed

lemma strstr_grows:
  assumes "strstr lit s = Some i" "lit \<noteq> []"
  shows "strstr lit (s @ x) = Some i"
proof (rule strstr_eqI)
  note f = strstr_Some_prefix [OF assms(1)]
  have len: "length lit + i \<le> length s" using prefix_length_le [of lit "drop i s"] f assms(2) by (cases lit) auto
  show "prefix lit (drop i (s @ x))" "i \<le> length (s @ x)" using f by (simp_all add: prefix_prefix)
  show "\<not> prefix lit (drop j (s @ x))" if "j < i" for j
    using strstr_Some_first [OF assms(1) that] that len prefix_append_iff [of lit "drop j s" x] by simp
qed

lemma skip_again: "parse_pos ts \<le> length raw \<Longrightarrow> skip_blanks (skip_blanks ts raw) (raw @ x) = skip_blanks ts (raw @ x)"
proof -
  assume "parse_pos ts \<le> length raw"
  then have d: "drop (parse_pos ts) (raw @ x) = drop (parse_pos ts) raw @ x" by simp
  let ?a = "length (takeWhile c_isspace (drop (parse_pos ts) raw))"
  have "length (takeWhile P s) + length (takeWhile P (drop (length (takeWhile P s)) (s @ x))) = length (takeWhile P (s @ x))" for P and s :: string
    by (induction s) simp_all
  moreover have "drop (parse_pos ts + ?a) (raw @ x) = drop ?a (drop (parse_pos ts) raw @ x)" by (metis d drop_drop add.commute)
  ultimately have "?a + length (takeWhile c_isspace (drop (parse_pos ts + ?a) (raw @ x))) = length (takeWhile c_isspace (drop (parse_pos ts) (raw @ x)))"
    unfolding d by metis
  then show ?thesis by (simp add: skip_blanks_def add.assoc del: drop_append)
qed

lemma skip_settled: "parse_pos ts \<le> length raw \<Longrightarrow> parse_pos (skip_blanks ts raw) < length raw \<Longrightarrow> skip_blanks ts (raw @ x) = skip_blanks ts raw"
proof -
  assume le: "parse_pos ts \<le> length raw" and lt: "parse_pos (skip_blanks ts raw) < length raw"
  have "length (takeWhile P s) < length s \<Longrightarrow> takeWhile P (s @ x) = takeWhile P s" for P and s :: string
    by (induction s) auto
  from this [of c_isspace "drop (parse_pos ts) raw"] show ?thesis using le lt by (simp add: skip_blanks_def)
qed

lemma skip_bound: "parse_pos ts \<le> length raw \<Longrightarrow> parse_pos (skip_blanks ts raw) \<le> length raw"
  using length_takeWhile_le [of c_isspace "drop (parse_pos ts) raw"] by (simp add: skip_blanks_def)

lemma moved_still [simp]: "moved ts (ts, []) = (False, ts, [])"
  by (simp add: moved_def)

lemma no_tag:
  assumes "tag_at raw (parse_pos ts) = None"
  shows "openai_tool_start_invoke ids ts raw = (ts, [])" "openai_tool_start_param ts raw = (ts, [])"
  using assms by (simp_all add: openai_tool_start_invoke_def openai_tool_start_param_def)

lemma tag_settled:
  assumes "tag_at raw (parse_pos ts) \<noteq> None" "parse_pos ts \<le> length raw"
  shows "openai_tool_start_invoke ids ts (raw @ x) = openai_tool_start_invoke ids ts raw"
    "openai_tool_start_param ts (raw @ x) = openai_tool_start_param ts raw"
proof -
  have "tag_at (raw @ x) (parse_pos ts) = tag_at raw (parse_pos ts)" using assms tag_grows by fastforce
  then show "openai_tool_start_invoke ids ts (raw @ x) = openai_tool_start_invoke ids ts raw"
    "openai_tool_start_param ts (raw @ x) = openai_tool_start_param ts raw"
    by (simp_all add: openai_tool_start_invoke_def openai_tool_start_param_def)
qed

lemma invokes_grows:
  assumes "between_invokes ids ts raw = (True, ts', ds)" "parse_pos ts \<le> length raw"
  shows "between_invokes ids ts (raw @ x) = (True, ts', ds)"
proof -
  let ?s = "skip_blanks ts raw" let ?p = "parse_pos ?s" and ?f = "ts_form ?s"
  have c: "?p < length raw" "\<not> raw_full_lit raw ?p (tool_calls_end ?f)" "\<not> raw_partial_lit raw ?p (tool_calls_end ?f)"
    "\<not> raw_partial_lit raw ?p (invoke_start ?f)" "raw_full_lit raw ?p (invoke_start ?f)"
    "moved ?s (openai_tool_start_invoke ids ?s raw) = (True, ts', ds)"
    using assms(1) by (auto simp: between_invokes_def Let_def raw_partial_any_def split: if_splits)
  then have le: "?p \<le> length raw" by simp
  have "tag_at raw ?p \<noteq> None" using c(6) no_tag(1) [of raw ?s ids] by (cases "tag_at raw ?p") auto
  then have "openai_tool_start_invoke ids ?s (raw @ x) = openai_tool_start_invoke ids ?s raw" by (rule tag_settled(1) [OF _ le])
  moreover have "skip_blanks ts (raw @ x) = ?s" by (rule skip_settled [OF assms(2) c(1)])
  ultimately show ?thesis using c(1,6) lit_settled [OF c(2,3) le, of x] lit_grows [OF c(5), of x] full_not_partial [OF lit_grows [OF c(5), of x]]
    by (simp add: between_invokes_def Let_def raw_partial_any_def)
qed

lemma params_grows:
  assumes "between_params ts raw = (True, ts', ds)" "parse_pos ts \<le> length raw"
  shows "between_params ts (raw @ x) = (True, ts', ds)"
proof -
  let ?s = "skip_blanks ts raw" let ?p = "parse_pos ?s" and ?f = "ts_form ?s"
  have lt: "?p < length raw" using assms(1) by (auto simp: between_params_def Let_def split: if_splits)
  then have le: "?p \<le> length raw" by simp
  have s: "skip_blanks ts (raw @ x) = ?s" by (rule skip_settled [OF assms(2) lt])
  show ?thesis
  proof (cases "raw_full_lit raw ?p (invoke_end ?f)")
    case True
    then show ?thesis using assms(1) lt s lit_grows [OF True, of x] by (simp add: between_params_def Let_def)
  next
    case False
    have c: "\<not> raw_partial_lit raw ?p (invoke_end ?f)" "\<not> raw_partial_lit raw ?p (param_start ?f)" "raw_full_lit raw ?p (param_start ?f)"
      "moved ?s (openai_tool_start_param ?s raw) = (True, ts', ds)"
      using assms(1) False by (auto simp: between_params_def Let_def raw_partial_any_def split: if_splits)
    have "tag_at raw ?p \<noteq> None" using c(4) no_tag(2) [of raw ?s] by (cases "tag_at raw ?p") auto
    then have "openai_tool_start_param ?s (raw @ x) = openai_tool_start_param ?s raw" by (rule tag_settled(2) [OF _ le])
    then show ?thesis using c(4) lt s lit_settled [OF False c(1) le, of x] lit_grows [OF c(3), of x] full_not_partial [OF lit_grows [OF c(3), of x]]
      by (simp add: between_params_def Let_def raw_partial_any_def)
  qed
qed

lemma value_grows:
  assumes "param_value ts raw = (True, ts', ds)" "parse_pos ts \<le> length raw"
  shows "param_value ts (raw @ x) = (True, ts', ds)"
proof -
  let ?p = "parse_pos ts" and ?e = "param_end (ts_form ts)"
  obtain i where i: "strstr ?e (drop ?p raw) = Some i" "openai_tool_finish_param ts raw (?p + i) = (ts', ds)"
    using assms(1) by (auto simp: param_value_def find_lit_strstr Let_def split: option.splits if_splits)
  have "i \<le> length raw - ?p" using strstr_Some_prefix [OF i(1)] by simp
  then have "take (?p + i - ?p) (drop ?p (raw @ x)) = take (?p + i - ?p) (drop ?p raw)" using assms(2) by simp
  then have "openai_tool_finish_param ts (raw @ x) (?p + i) = (ts', ds)" using i(2) by (simp only: openai_tool_finish_param_def)
  moreover have "strstr ?e (drop ?p (raw @ x)) = Some i" using strstr_grows [OF i(1), of x] assms(2) by simp
  ultimately show ?thesis by (simp add: param_value_def find_lit_strstr)
qed

lemma round_grows:
  assumes "tool_round ids ts raw = (True, ts', ds)" "parse_pos ts \<le> length raw"
  shows "tool_round ids ts (raw @ x) = (True, ts', ds)"
  using assms invokes_grows params_grows value_grows by (cases "ts_state ts") (simp_all add: tool_round_def)

text \<open>A round that stops outside a value has sent nothing, and either is final or is taken again on the longer text.\<close>

lemma invokes_stops:
  assumes "between_invokes ids ts raw = (False, ts', ds)" "parse_pos ts \<le> length raw" "ts_active ts" "ts_state ts = DSML_TOOL_BETWEEN_INVOKES"
  shows "ds = [] \<and> (ts' = skip_blanks ts raw \<or> (\<not> ts_active ts' \<and> between_invokes ids ts (raw @ x) = (False, ts', [])))"
proof -
  let ?s = "skip_blanks ts raw" let ?p = "parse_pos ?s" and ?f = "ts_form ?s"
  have st: "ts_state ?s = DSML_TOOL_BETWEEN_INVOKES" "ts_active ?s" using assms(3,4) by (simp_all add: skip_blanks_def)
  show ?thesis
  proof (cases "?p \<ge> length raw \<or> (\<not> raw_full_lit raw ?p (tool_calls_end ?f) \<and> raw_partial_any raw ?p (tool_calls_end ?f) (invoke_start ?f))")
    case True
    then show ?thesis using assms(1) by (auto simp: between_invokes_def Let_def split: if_splits)
  next
    case False
    then have lt: "?p < length raw" "?p \<le> length raw" by simp_all
    note s = skip_settled [OF assms(2) lt(1), of x]
    consider (fin) "raw_full_lit raw ?p (tool_calls_end ?f)"
      | (tag) "\<not> raw_full_lit raw ?p (tool_calls_end ?f)" "raw_full_lit raw ?p (invoke_start ?f)"
      | (bad) "\<not> raw_full_lit raw ?p (tool_calls_end ?f)" "\<not> raw_full_lit raw ?p (invoke_start ?f)" by blast
    then show ?thesis
    proof cases
      case fin
      then show ?thesis using assms(1) lt s lit_grows [OF fin, of x] by (auto simp: between_invokes_def Let_def)
    next
      case tag
      then have "moved ?s (openai_tool_start_invoke ids ?s raw) = (False, ts', ds)"
        using assms(1) False by (simp add: between_invokes_def Let_def)
      then have "tag_at raw ?p = None" using st tag_at_nonempty
        by (auto simp: moved_def openai_tool_start_invoke_def openai_tool_stream_fail_def split: option.splits)
      then show ?thesis using \<open>moved _ _ = _\<close> no_tag(1) [of raw ?s ids] by simp
    next
      case bad
      then have "\<not> raw_partial_lit raw ?p (tool_calls_end ?f)" "\<not> raw_partial_lit raw ?p (invoke_start ?f)"
        using False by (auto simp: raw_partial_any_def)
      then show ?thesis using assms(1) bad lt s lit_settled [OF bad(1) _ lt(2)] lit_settled [OF bad(2) _ lt(2)]
        by (auto simp: between_invokes_def Let_def raw_partial_any_def openai_tool_stream_fail_def)
    qed
  qed
qed

lemma params_stops:
  assumes "between_params ts raw = (False, ts', ds)" "parse_pos ts \<le> length raw" "ts_active ts" "ts_state ts = DSML_TOOL_BETWEEN_PARAMS"
  shows "ds = [] \<and> (ts' = skip_blanks ts raw \<or> (\<not> ts_active ts' \<and> between_params ts (raw @ x) = (False, ts', [])))"
proof -
  let ?s = "skip_blanks ts raw" let ?p = "parse_pos ?s" and ?f = "ts_form ?s"
  have st: "ts_state ?s = DSML_TOOL_BETWEEN_PARAMS" "ts_active ?s" using assms(3,4) by (simp_all add: skip_blanks_def)
  show ?thesis
  proof (cases "?p \<ge> length raw \<or> raw_partial_any raw ?p (invoke_end ?f) (param_start ?f)")
    case True
    then show ?thesis using assms(1) by (auto simp: between_params_def Let_def split: if_splits)
  next
    case False
    then have lt: "?p < length raw" "?p \<le> length raw" by simp_all
    note s = skip_settled [OF assms(2) lt(1), of x]
    have ne: "\<not> raw_full_lit raw ?p (invoke_end ?f)" using assms(1) lt by (auto simp: between_params_def Let_def)
    show ?thesis
    proof (cases "raw_full_lit raw ?p (param_start ?f)")
      case True
      then have m: "moved ?s (openai_tool_start_param ?s raw) = (False, ts', ds)"
        using assms(1) False ne by (simp add: between_params_def Let_def)
      then have "tag_at raw ?p = None" using st tag_at_nonempty
        by (auto simp: moved_def openai_tool_start_param_def openai_tool_stream_fail_def openai_tool_emit_param_prefix_def split: option.splits)
      then show ?thesis using m no_tag(2) [of raw ?s] by simp
    next
      case bad: False
      have "\<not> raw_partial_lit raw ?p (invoke_end ?f)" "\<not> raw_partial_lit raw ?p (param_start ?f)"
        using False by (auto simp: raw_partial_any_def)
      then show ?thesis using assms(1) ne bad lt s lit_settled [OF ne _ lt(2)] lit_settled [OF bad _ lt(2)]
        by (auto simp: between_params_def Let_def raw_partial_any_def openai_tool_stream_fail_def)
    qed
  qed
qed

section \<open>What the client assembles\<close>

text \<open>The headers in order, and for each call the concatenation of its argument pieces.\<close>

fun is_start :: "tool_delta \<Rightarrow> bool" where
  "is_start (Call_start i tid name) = True"
| "is_start (Call_args i s) = False"

fun args_piece :: "nat \<Rightarrow> tool_delta \<Rightarrow> string" where
  "args_piece i (Call_start j tid name) = []"
| "args_piece i (Call_args j s) = (if i = j then s else [])"

definition client_args :: "nat \<Rightarrow> tool_delta list \<Rightarrow> string" where
  "client_args i ds = concat (map (args_piece i) ds)"

definition same_view :: "tool_delta list \<Rightarrow> tool_delta list \<Rightarrow> bool" where
  "same_view ds es \<longleftrightarrow> filter is_start ds = filter is_start es \<and> (\<forall>i. client_args i ds = client_args i es)"

lemma same_view_refl [simp]: "same_view ds ds"
  by (simp add: same_view_def)

lemma same_view_append: "same_view a a' \<Longrightarrow> same_view b b' \<Longrightarrow> same_view (a @ b) (a' @ b')"
  by (simp add: same_view_def client_args_def)

lemma same_view_trans: "same_view a b \<Longrightarrow> same_view b c \<Longrightarrow> same_view a c"
  by (simp add: same_view_def)

lemma fragments_view: "same_view (openai_tool_emit_args_fragment ts a @ openai_tool_emit_args_fragment ts b) (openai_tool_emit_args_fragment ts (a @ b))"
  by (simp add: same_view_def client_args_def openai_tool_emit_args_fragment_def)

lemma emit_value_fragment:
  "CHR 0x00 \<notin> set s \<Longrightarrow> emit_value ts s = openai_tool_emit_args_fragment ts
     (if param_is_string ts then json_escape_fragment_n (ds4_tool_text_unescape s (param_end (ts_form ts))) else s)"
proof -
  assume "CHR 0x00 \<notin> set s"
  moreover have "ds4_tool_text_unescape [] e = []" for e by (simp add: ds4_tool_text_unescape.simps)
  ultimately show ?thesis
    by (cases "s = []") (simp_all add: emit_value_def openai_tool_emit_string_value_def c_str_id openai_tool_emit_args_fragment_def json_escape_fragment_n_def)
qed

lemma param_end_delim: "closing_delim (param_end f)" "(of_char (last (param_end f)) :: nat) < 128"
  by (cases f; simp add: marker_defs closing_delim_def)+

lemma emit_value_split:
  assumes "CHR 0x00 \<notin> set (a @ b)"
    and "param_is_string ts \<Longrightarrow> ds4_tool_text_unescape (a @ b) (param_end (ts_form ts))
        = ds4_tool_text_unescape a (param_end (ts_form ts)) @ ds4_tool_text_unescape b (param_end (ts_form ts))"
  shows "same_view (emit_value ts a @ emit_value ts b) (emit_value ts (a @ b))"
  using assms fragments_view [of ts] by (simp add: emit_value_fragment json_escape_fragment_n_def)

lemma emit_value_simps [simp]: "emit_value ts [] = []" "emit_value (ts\<lparr>parse_pos := n\<rparr>) s = emit_value ts s"
  "openai_tool_emit_args_fragment (ts\<lparr>parse_pos := n\<rparr>) s = openai_tool_emit_args_fragment ts s"
  by (simp_all add: emit_value_def openai_tool_emit_string_value_def openai_tool_emit_args_fragment_def)

lemma finish_param_eq:
  "openai_tool_finish_param ts raw (parse_pos ts + i)
    = (ts\<lparr>parse_pos := parse_pos ts + i + length (param_end (ts_form ts)), ts_state := DSML_TOOL_BETWEEN_PARAMS\<rparr>,
       emit_value ts (take i (drop (parse_pos ts) raw)) @ (if param_is_string ts then openai_tool_emit_args_fragment ts [CHR 0x22] else []))"
  by (cases "i = 0") (simp_all add: openai_tool_finish_param_def)

text \<open>A value sent up to the safe length and finished later is the value sent whole.\<close>

lemma value_resumes:
  assumes v: "param_value ts raw = (False, ts', ds)" and le: "parse_pos ts \<le> length raw" and nul: "CHR 0x00 \<notin> set (raw @ x)"
    and w: "param_value ts (raw @ x) = (True, t, e)"
  shows "\<exists>e'. param_value ts' (raw @ x) = (True, t, e') \<and> same_view (ds @ e') e \<and> ts_active ts' = ts_active ts
    \<and> ts_state ts' = ts_state ts \<and> parse_pos ts' < length (raw @ x)"
proof -
  let ?p = "parse_pos ts" and ?e = "param_end (ts_form ts)" and ?b = "param_is_string ts"
  define L where "L = tool_param_value_stream_safe_len raw ?p (length raw) ?e ?b"
  have none: "strstr ?e (drop ?p raw) = None" using v by (auto simp: param_value_def find_lit_strstr Let_def split: option.splits if_splits)
  then have ns: "\<not> sublist ?e (drop ?p raw)" by (simp add: strstr_None)
  note cut = safe_len_cut_end [OF param_end_delim(1) le ns L_def [symmetric]]
  obtain i where i: "strstr ?e (drop ?p raw @ x) = Some i" "openai_tool_finish_param ts (raw @ x) (?p + i) = (t, e)"
    using w le by (auto simp: param_value_def find_lit_strstr Let_def split: option.splits if_splits)
  note f = strstr_Some_prefix [OF i(1)] and g = strstr_Some_first [OF i(1)]
  have fit: "length ?e + (?p + i) \<le> length (raw @ x)"
    using prefix_length_le [of ?e "drop i (drop ?p raw @ x)"] f le markers_nonempty(2) [of "ts_form ts"] by (cases ?e) auto
  have Li: "L \<le> ?p + i"
  proof (cases "?p + i < length raw")
    case True
    then have "prefix ?e (drop (?p + i) raw @ x)" using f le by (simp add: drop_drop add.commute)
    then show ?thesis using cut(3) [of "?p + i" x] True by simp
  qed (use cut(2) in simp)
  have d: "drop ?p (raw @ x) = drop ?p raw @ x" "drop L (raw @ x) = drop L raw @ x" using le cut(2) by simp_all
  define a b where "a = take (L - ?p) (drop ?p raw)" and "b = take (?p + i - L) (drop L (raw @ x))"
  have ab: "take i (drop ?p (raw @ x)) = a @ b"
  proof -
    have "take i (drop ?p (raw @ x)) = take (L - ?p) (drop ?p (raw @ x)) @ take (i - (L - ?p)) (drop (L - ?p) (drop ?p (raw @ x)))"
      using Li cut(1) by (metis add_diff_inverse_nat le_diff_conv2 le_imp_diff_is_add take_add add.commute diff_le_mono le_add_diff_inverse2 not_less diff_add_inverse)
    then show ?thesis using cut(1,2) le by (simp add: a_def b_def d drop_drop add.commute)
  qed
  have s: "ts' = ts\<lparr>parse_pos := L\<rparr>" "ds = emit_value ts a"
  proof -
    have "param_value ts raw = (if L > ?p then (False, ts\<lparr>parse_pos := L\<rparr>, emit_value ts a) else (False, ts, []))"
      by (simp add: param_value_def find_lit_strstr none L_def a_def Let_def)
    moreover have "L = ?p \<Longrightarrow> emit_value ts a = []"
      by (simp add: a_def emit_value_def openai_tool_emit_string_value_def openai_tool_emit_args_fragment_def)
    ultimately show "ts' = ts\<lparr>parse_pos := L\<rparr>" "ds = emit_value ts a" using v cut(1) by (cases "L > ?p"; simp)+
  qed
  have first: "strstr ?e (drop L (raw @ x)) = Some (?p + i - L)"
  proof (rule strstr_eqI)
    have q: "drop (?p + i - L) (drop L (raw @ x)) = drop i (drop ?p (raw @ x))" using Li cut(1) by (simp add: add.commute del: drop_append)
    show "prefix ?e (drop (?p + i - L) (drop L (raw @ x)))" unfolding q d(1) using f by blast
    show "\<not> prefix ?e (drop j (drop L (raw @ x)))" if "j < ?p + i - L" for j
    proof -
      have q: "drop j (drop L (raw @ x)) = drop (L - ?p + j) (drop ?p (raw @ x))" using cut(1) by (simp add: add.commute del: drop_append)
      have "L - ?p + j < i" using that cut(1) by linarith
      then show ?thesis unfolding q d(1) by (rule g)
    qed
    show "?p + i - L \<le> length (drop L (raw @ x))" using fit by simp
  qed
  have sv: "same_view (emit_value ts a @ emit_value ts b) (emit_value ts (a @ b))"
  proof (rule emit_value_split)
    show "CHR 0x00 \<notin> set (a @ b)" using nul unfolding ab [symmetric] by (meson in_set_dropD in_set_takeD)
    show "ds4_tool_text_unescape (a @ b) ?e = ds4_tool_text_unescape a ?e @ ds4_tool_text_unescape b ?e" if ?b
    proof -
      have "prefix b (drop L raw @ x)" unfolding b_def d(2) by (rule take_is_prefix)
      moreover have "tool_param_value_stream_safe_len raw ?p (length raw) ?e True = L" using that by (simp add: L_def)
      ultimately show ?thesis unfolding a_def by (intro safe_len_cut_value [OF param_end_delim le])
    qed
  qed
  define q where "q = (if ?b then openai_tool_emit_args_fragment ts [CHR 0x22] else [])"
  have "openai_tool_finish_param ts' (raw @ x) (L + (?p + i - L)) = (t, emit_value ts b @ q)"
    using i(2) Li finish_param_eq [of ts "raw @ x" i] finish_param_eq [of ts' "raw @ x" "?p + i - L"] by (simp add: s b_def q_def del: drop_append)
  then have "param_value ts' (raw @ x) = (True, t, emit_value ts b @ q)"
    using first by (simp add: param_value_def find_lit_strstr s del: drop_append)
  moreover have "e = emit_value ts (a @ b) @ q" using i(2) finish_param_eq [of ts "raw @ x" i] unfolding ab by (simp add: q_def)
  moreover have "same_view (emit_value ts a @ emit_value ts b @ q) (emit_value ts (a @ b) @ q)"
    using same_view_append [OF sv same_view_refl, of q] by simp
  moreover have "L < length (raw @ x)" using fit Li markers_nonempty(2) [of "ts_form ts"] by (cases ?e) auto
  ultimately show ?thesis using s by simp
qed

section \<open>Resuming\<close>

lemma update_stop:
  "ts_active ts \<Longrightarrow> parse_pos ts < length raw \<Longrightarrow> tool_round ids ts raw = (False, ts', ds) \<Longrightarrow> openai_tool_stream_update ids ts raw = (ts', ds)"
  by (simp add: openai_tool_stream_update.simps [of ids ts])

lemma update_go:
  "ts_active ts \<Longrightarrow> parse_pos ts < length raw \<Longrightarrow> tool_round ids ts raw = (True, ts', ds) \<Longrightarrow>
    openai_tool_stream_update ids ts raw = (fst (openai_tool_stream_update ids ts' raw), ds @ snd (openai_tool_stream_update ids ts' raw))"
  by (simp add: openai_tool_stream_update.simps [of ids ts] split_beta)

lemma update_idle: "\<not> ts_active ts \<or> length raw \<le> parse_pos ts \<Longrightarrow> openai_tool_stream_update ids ts raw = (ts, [])"
  by (auto simp: openai_tool_stream_update.simps [of ids ts])

lemma skip_update:
  assumes "ts_active ts" "parse_pos ts < length raw" "ts_state ts \<in> {DSML_TOOL_BETWEEN_INVOKES, DSML_TOOL_BETWEEN_PARAMS}"
  shows "openai_tool_stream_update ids (skip_blanks ts raw) (raw @ x) = openai_tool_stream_update ids ts (raw @ x)"
proof -
  let ?s = "skip_blanks ts raw" and ?R = "raw @ x"
  have a: "skip_blanks ?s ?R = skip_blanks ts ?R" using assms(2) by (intro skip_again) simp
  have st: "ts_state ?s = ts_state ts" "ts_active ?s" using assms(1) by (simp_all add: skip_blanks_def)
  have r: "tool_round ids ?s ?R = tool_round ids ts ?R"
    using assms(3) a st by (auto simp: tool_round_def between_invokes_def between_params_def)
  show ?thesis
  proof (cases "parse_pos ?s < length ?R")
    case True
    then show ?thesis using assms(1,2) st r
      by (simp add: openai_tool_stream_update.simps [of ids ?s] openai_tool_stream_update.simps [of ids ts])
  next
    case False
    then have "skip_blanks ?s ?R = ?s" by (simp add: skip_blanks_def [of ?s])
    then have "tool_round ids ts ?R = (False, ?s, [])"
      using a assms(3) False by (auto simp: tool_round_def between_invokes_def between_params_def Let_def)
    then show ?thesis using update_stop [of ts ?R ids] assms(1,2) update_idle [of ?s ?R ids] False by simp
  qed
qed

lemma value_state: "param_value ts raw = (False, ts', ds) \<Longrightarrow> ts_state ts' = ts_state ts"
  by (auto simp: param_value_def Let_def split: option.splits if_splits prod.splits)

lemma stop_resumes:
  assumes r: "tool_round ids ts raw = (False, ts', ds)" and a: "ts_active ts" "parse_pos ts < length raw"
    and nul: "CHR 0x00 \<notin> set (raw @ x)"
    and u: "openai_tool_stream_update ids ts (raw @ x) = (t, e)" "ts_state t \<noteq> DSML_TOOL_PARAM_VALUE"
  shows "\<exists>e'. openai_tool_stream_update ids ts' (raw @ x) = (t, e') \<and> same_view (ds @ e') e"
proof -
  let ?R = "raw @ x"
  have le: "parse_pos ts \<le> length raw" and lt: "parse_pos ts < length ?R" using a(2) by simp_all
  have between: "\<exists>e'. openai_tool_stream_update ids ts' ?R = (t, e') \<and> same_view (ds @ e') e"
    if st: "ts_state ts \<in> {DSML_TOOL_BETWEEN_INVOKES, DSML_TOOL_BETWEEN_PARAMS}"
      and s: "ds = [] \<and> (ts' = skip_blanks ts raw \<or> (\<not> ts_active ts' \<and> tool_round ids ts ?R = (False, ts', [])))"
  proof (cases "ts' = skip_blanks ts raw")
    case True
    then show ?thesis using skip_update [OF a st] u(1) s by simp
  next
    case False
    then show ?thesis using s update_stop [OF a(1) lt, of ids ts' "[]"] update_idle [of ts' ?R ids] u(1) by simp
  qed
  show ?thesis
  proof (cases "ts_state ts")
    case DSML_TOOL_BETWEEN_INVOKES
    then show ?thesis using between invokes_stops [of ids ts raw ts' ds x] r a le by (simp add: tool_round_def)
  next
    case DSML_TOOL_BETWEEN_PARAMS
    then show ?thesis using between params_stops [of ts raw ts' ds x] r a le by (simp add: tool_round_def)
  next
    case DSML_TOOL_PARAM_VALUE
    have v: "param_value ts raw = (False, ts', ds)" using r DSML_TOOL_PARAM_VALUE by (simp add: tool_round_def)
    obtain go t' e1 where w: "param_value ts ?R = (go, t', e1)" by (metis prod.collapse)
    then have rr: "tool_round ids ts ?R = (go, t', e1)" using DSML_TOOL_PARAM_VALUE by (simp add: tool_round_def)
    have go: go
    proof (rule ccontr)
      assume "\<not> go"
      then have "t = t'" "ts_state t' = ts_state ts" using update_stop [OF a(1) lt, of ids t' e1] rr u(1) value_state w by auto
      then show False using u(2) DSML_TOOL_PARAM_VALUE by simp
    qed
    then obtain e' where e': "param_value ts' ?R = (True, t', e')" "same_view (ds @ e') e1" "ts_active ts' = ts_active ts"
      "ts_state ts' = ts_state ts" "parse_pos ts' < length ?R" using value_resumes [OF v le nul, of t' e1] w by auto
    let ?u = "openai_tool_stream_update ids t' ?R"
    have "openai_tool_stream_update ids ts ?R = (fst ?u, e1 @ snd ?u)" using update_go [OF a(1) lt, of ids t' e1] rr go by simp
    moreover have "openai_tool_stream_update ids ts' ?R = (fst ?u, e' @ snd ?u)"
      using update_go [of ts' ?R ids t' e'] e' a(1) DSML_TOOL_PARAM_VALUE by (simp add: tool_round_def)
    moreover have "same_view ((ds @ e') @ snd ?u) (e1 @ snd ?u)" using e'(2) by (rule same_view_append) simp
    ultimately show ?thesis using u(1) by simp
  next
    case DSML_TOOL_DONE
    then show ?thesis using r u(1) update_stop [OF a(1) lt, of ids ts "[]"] by (auto simp: tool_round_def)
  next
    case DSML_TOOL_ERROR
    then show ?thesis using r u(1) update_stop [OF a(1) lt, of ids ts "[]"] by (auto simp: tool_round_def)
  qed
qed

lemma update_resumes:
  "CHR 0x00 \<notin> set (raw @ x) \<Longrightarrow> openai_tool_stream_update ids ts raw = (t1, d1) \<Longrightarrow> openai_tool_stream_update ids ts (raw @ x) = (t, e)
    \<Longrightarrow> ts_state t \<noteq> DSML_TOOL_PARAM_VALUE
    \<Longrightarrow> \<exists>e'. openai_tool_stream_update ids t1 (raw @ x) = (t, e') \<and> same_view (d1 @ e') e"
proof (induction ids ts raw arbitrary: t1 d1 e rule: openai_tool_stream_update.induct)
  case (1 ids ts raw)
  show ?case
  proof (cases "ts_active ts \<and> parse_pos ts < length raw")
    case False
    then show ?thesis using "1.prems"(2,3) update_idle [of ts raw ids] by auto
  next
    case True
    then have lt: "parse_pos ts < length (raw @ x)" by simp
    obtain go ts' ds where r: "tool_round ids ts raw = (go, ts', ds)" by (metis prod.collapse)
    show ?thesis
    proof (cases go)
      case False
      then have "t1 = ts'" "d1 = ds" using update_stop [of ts raw ids ts' ds] r True "1.prems"(2) by auto
      then show ?thesis using stop_resumes [of ids ts raw ts' ds x t e] r False True "1.prems" by auto
    next
      case go: True
      let ?a = "openai_tool_stream_update ids ts' raw" and ?b = "openai_tool_stream_update ids ts' (raw @ x)"
      have "tool_round ids ts (raw @ x) = (True, ts', ds)" using round_grows [of ids ts raw ts' ds x] r go True by simp
      then have b: "t = fst ?b" "e = ds @ snd ?b" using update_go [of ts "raw @ x" ids ts' ds] True lt "1.prems"(3) by auto
      have a: "t1 = fst ?a" "d1 = ds @ snd ?a" using update_go [of ts raw ids ts' ds] r go True "1.prems"(2) by auto
      have "\<exists>e'. openai_tool_stream_update ids (fst ?a) (raw @ x) = (t, e') \<and> same_view (snd ?a @ e') (snd ?b)"
        using "1.IH" [OF True r [symmetric] refl _ "1.prems"(1), of "fst ?a" "snd ?a" "snd ?b"] go b(1) "1.prems"(4) by simp
      then show ?thesis using a b same_view_append [OF same_view_refl, of _ _ ds] by auto
    qed
  qed
qed

text \<open>The calls made as the text grows, and their deltas together.\<close>

fun run_updates :: "(nat \<Rightarrow> string) \<Rightarrow> openai_tool_stream \<Rightarrow> string list \<Rightarrow> openai_tool_stream \<times> tool_delta list" where
  "run_updates ids ts [] = (ts, [])"
| "run_updates ids ts (raw # raws) =
     (case openai_tool_stream_update ids ts raw of
        (ts1, ds) \<Rightarrow> (case run_updates ids ts1 raws of (ts2, ds2) \<Rightarrow> (ts2, ds @ ds2)))"

text \<open>
  (C34) The client sees the same tool calls however the model's text is cut into tokens. Call the streamer on any number of
  prefixes of the text, in any order of sizes, and then on the whole text: when the whole text does not end inside a
  parameter value, the machine ends in the very state one call on the whole text ends in, the call headers are the same,
  and for every call the argument pieces concatenate to the same JSON text.
\<close>

theorem tool_stream_cut_irrelevant:
  assumes "CHR 0x00 \<notin> set raw" and "list_all (\<lambda>r. prefix r raw) raws"
    and "ts_state (fst (openai_tool_stream_update ids ts raw)) \<noteq> DSML_TOOL_PARAM_VALUE"
  shows "fst (run_updates ids ts (raws @ [raw])) = fst (openai_tool_stream_update ids ts raw)
    \<and> filter is_start (snd (run_updates ids ts (raws @ [raw]))) = filter is_start (snd (openai_tool_stream_update ids ts raw))
    \<and> (\<forall>i. client_args i (snd (run_updates ids ts (raws @ [raw]))) = client_args i (snd (openai_tool_stream_update ids ts raw)))"
proof -
  have "fst (run_updates ids ts (raws @ [raw])) = fst (openai_tool_stream_update ids ts raw)
      \<and> same_view (snd (run_updates ids ts (raws @ [raw]))) (snd (openai_tool_stream_update ids ts raw))"
    using assms(2,3)
  proof (induction raws arbitrary: ts)
    case Nil
    then show ?case by (simp add: split_beta)
  next
    case (Cons r raws)
    obtain x where x: "raw = r @ x" using Cons.prems(1) by (auto simp: prefix_def)
    obtain t1 d1 where u: "openai_tool_stream_update ids ts r = (t1, d1)" by fastforce
    obtain t e where w: "openai_tool_stream_update ids ts raw = (t, e)" by fastforce
    obtain e' where e': "openai_tool_stream_update ids t1 raw = (t, e')" "same_view (d1 @ e') e"
      using update_resumes [of r x ids ts t1 d1 t e] u w Cons.prems(2) assms(1) x by auto
    have ih: "fst (run_updates ids t1 (raws @ [raw])) = t" "same_view (snd (run_updates ids t1 (raws @ [raw]))) e'"
      using Cons.IH [of t1] Cons.prems e' w by simp_all
    have "run_updates ids ts ((r # raws) @ [raw])
        = (fst (run_updates ids t1 (raws @ [raw])), d1 @ snd (run_updates ids t1 (raws @ [raw])))" by (simp add: u split_beta)
    then show ?case using w ih(1) same_view_trans [OF same_view_append [OF same_view_refl ih(2)] e'(2)] by simp
  qed
  then show ?thesis by (simp add: same_view_def)
qed

definition sample_call :: string where
  "sample_call = ''<invoke name='' @ [CHR 0x22] @ ''f'' @ [CHR 0x22] @ ''><parameter name='' @ [CHR 0x22] @ ''a'' @ [CHR 0x22] @ '' string='' @ [CHR 0x22] @ ''true''
     @ [CHR 0x22] @ ''>x</parameter></invoke></tool_calls>''"

definition sample_stream :: openai_tool_stream where "sample_stream = blank_tool_stream\<lparr>ts_active := True\<rparr>"

definition sample_args :: string where
  "sample_args = ''{'' @ [CHR 0x22] @ ''a'' @ [CHR 0x22] @ '':'' @ [CHR 0x22] @ ''x'' @ [CHR 0x22] @ ''}''"

lemma sample_call_result:
  "ts_state (fst (openai_tool_stream_update (\<lambda>_. ''id'') sample_stream sample_call)) = DSML_TOOL_DONE"
  "client_args 0 (snd (openai_tool_stream_update (\<lambda>_. ''id'') sample_stream sample_call)) = sample_args"
  by code_simp+

theorem tool_stream_cut_irrelevant_witness:
  "CHR 0x00 \<notin> set sample_call \<and> list_all (\<lambda>r. prefix r sample_call) [take 20 sample_call, take 50 sample_call]
    \<and> ts_state (fst (run_updates (\<lambda>_. ''id'') sample_stream ([take 20 sample_call, take 50 sample_call] @ [sample_call]))) = DSML_TOOL_DONE
    \<and> client_args 0 (snd (run_updates (\<lambda>_. ''id'') sample_stream ([take 20 sample_call, take 50 sample_call] @ [sample_call]))) = sample_args"
proof -
  have n: "CHR 0x00 \<notin> set sample_call" by (simp add: sample_call_def)
  have p: "list_all (\<lambda>r. prefix r sample_call) [take 20 sample_call, take 50 sample_call]" by (simp add: take_is_prefix)
  show ?thesis using tool_stream_cut_irrelevant [OF n p, of "\<lambda>_. ''id''" sample_stream] sample_call_result n p by simp
qed

end
