(* ===== verification/Token_Table.thy ===== *)
theory Token_Table
  imports Prelude
begin

text \<open>
  The open-addressed hash table behind the tokenizer (\<open>ds4.c\<close>: \<open>hash_bytes\<close>, \<open>next_pow2\<close>,
  \<open>table_init\<close>, \<open>table_put\<close>, \<open>table_get\<close>). Keys are byte strings, values are token ids or merge ranks. The
  capacity is a 64-bit power of two chosen when the table is made and never grows, so a probe ends only while a slot
  is free: a probe or a doubling loop that does not end is the value \<open>None\<close>. The theory shows that a table made
  for \<open>expected\<close> keys is a map as long as no more than that many keys are put, and that every loop then ends.
  \<open>xcalloc\<close> does not return on failure and is not modelled.
\<close>

section \<open>The code\<close>

record str_i32_entry =
  ent_key :: string
  ent_value :: int
  ent_used :: bool

record str_i32_table =
  tab_entry :: "str_i32_entry list"
  tab_cap :: u64
  tab_used :: u64

definition hash_bytes :: "string \<Rightarrow> u64" where
  "hash_bytes s = foldl (\<lambda>h c. (h XOR of_char c) * 1099511628211) 1469598103934665603 s"

partial_function (option) next_pow2_loop :: "u64 \<Rightarrow> u64 \<Rightarrow> u64 option" where
  "next_pow2_loop n p = (if p < n then next_pow2_loop n (push_bit 1 p) else Some p)"

definition next_pow2 :: "u64 \<Rightarrow> u64 option" where
  "next_pow2 n = next_pow2_loop n 1"

definition free_entry :: str_i32_entry where
  "free_entry = \<lparr>ent_key = [], ent_value = 0, ent_used = False\<rparr>"

definition table_init :: "u64 \<Rightarrow> str_i32_table option" where
  "table_init expected =
     map_option (\<lambda>cap. \<lparr>tab_entry = replicate (unat cap) free_entry, tab_cap = cap, tab_used = 0\<rparr>)
       (next_pow2 (expected * 2 + 16))"

text \<open>The loop \<open>table_put\<close> and \<open>table_get\<close> share: from slot \<open>i\<close> to the first slot that is free or has the key.\<close>

partial_function (option) table_probe :: "str_i32_entry list \<Rightarrow> u64 \<Rightarrow> string \<Rightarrow> u64 \<Rightarrow> u64 option" where
  "table_probe es msk key i =
     (if ent_used (es ! unat i)
      then if ent_key (es ! unat i) = key then Some i else table_probe es msk key ((i + 1) AND msk)
      else Some i)"

definition table_put :: "str_i32_table \<Rightarrow> string \<Rightarrow> int \<Rightarrow> str_i32_table option" where
  "table_put t key val =
     (let msk = tab_cap t - 1
      in case table_probe (tab_entry t) msk key (hash_bytes key AND msk) of
           None \<Rightarrow> None
         | Some i \<Rightarrow>
             if ent_used (tab_entry t ! unat i)
             then Some (t\<lparr>tab_entry := (tab_entry t)[unat i := (tab_entry t ! unat i)\<lparr>ent_value := val\<rparr>]\<rparr>)
             else Some (t\<lparr>tab_entry := (tab_entry t)[unat i := \<lparr>ent_key = key, ent_value = val, ent_used = True\<rparr>],
                          tab_used := tab_used t + 1\<rparr>))"

definition table_get :: "str_i32_table \<Rightarrow> string \<Rightarrow> int option option" where
  "table_get t key =
     (if tab_cap t = 0 then Some None
      else let msk = tab_cap t - 1
           in case table_probe (tab_entry t) msk key (hash_bytes key AND msk) of
                None \<Rightarrow> None
              | Some i \<Rightarrow> Some (if ent_used (tab_entry t ! unat i) then Some (ent_value (tab_entry t ! unat i)) else None))"

section \<open>The doubling loop\<close>

lemma unat_pow2: "m < 64 \<Longrightarrow> unat ((2 :: u64) ^ m) = 2 ^ m"
  using unat_of_nat_u64 [of "2 ^ m"] power_strict_increasing [of m 64 "2 :: nat"] by simp

lemma next_pow2_loop_steps:
  "m + k < 64 \<Longrightarrow> (\<forall>j < k. (2 :: u64) ^ (m + j) < n) \<Longrightarrow> next_pow2_loop n (2 ^ m) = next_pow2_loop n (2 ^ (m + k))"
proof (induction k arbitrary: m)
  case (Suc k)
  from Suc.prems(2) have "(2 :: u64) ^ m < n" by force
  then have "next_pow2_loop n (2 ^ m) = next_pow2_loop n (2 ^ Suc m)"
    by (simp add: next_pow2_loop.simps [of n "2 ^ m"] push_bit_eq_mult mult.commute)
  also have "\<dots> = next_pow2_loop n (2 ^ (Suc m + k))" using Suc.prems by (intro Suc.IH) auto
  finally show ?case by simp
qed simp

lemma next_pow2_result:
  assumes "unat n \<le> 2 ^ 63"
  obtains m where "m < 64" "next_pow2 n = Some (2 ^ m)" "unat n \<le> 2 ^ m" "\<And>j. j < m \<Longrightarrow> 2 ^ j < unat n"
proof -
  define m where "m = (LEAST m. unat n \<le> 2 ^ m)"
  have le: "unat n \<le> 2 ^ m" unfolding m_def by (rule LeastI [of _ 63]) (rule assms)
  have below: "2 ^ j < unat n" if "j < m" for j using not_less_Least [of j "\<lambda>m. unat n \<le> 2 ^ m"] that unfolding m_def by simp
  have m: "m < 64" using Least_le [of "\<lambda>m. unat n \<le> 2 ^ m" 63] assms unfolding m_def by simp
  have "\<forall>j < m. (2 :: u64) ^ (0 + j) < n" using below m by (simp add: word_less_nat_alt unat_pow2)
  then have "next_pow2_loop n (2 ^ 0) = next_pow2_loop n (2 ^ (0 + m))" using m by (intro next_pow2_loop_steps) simp_all
  moreover have "\<not> (2 :: u64) ^ m < n" using le m by (simp add: word_less_nat_alt unat_pow2)
  ultimately have "next_pow2 n = Some (2 ^ m)" by (simp add: next_pow2_def next_pow2_loop.simps [of n "2 ^ m"])
  with that m le below show thesis by blast
qed

text \<open>Beyond the largest 64-bit power of two the shifted value wraps to zero and the loop never ends.\<close>

lemma next_pow2_loop_zero: "next_pow2_loop n p = Some r \<Longrightarrow> p = 0 \<longrightarrow> n = 0"
proof (rule next_pow2_loop.raw_induct [of "\<lambda>n p r. p = 0 \<longrightarrow> n = 0"])
  fix loop :: "u64 \<Rightarrow> u64 \<Rightarrow> u64 option" and n p r
  assume "\<And>n p r. loop n p = Some r \<Longrightarrow> p = 0 \<longrightarrow> n = 0" and "(if p < n then loop n (push_bit 1 p) else Some p) = Some r"
  then show "p = 0 \<longrightarrow> n = 0" by (metis option.inject push_bit_of_0 word_gt_0)
qed

lemma next_pow2_diverges:
  assumes "2 ^ 63 < unat n"
  shows "next_pow2 n = None"
proof -
  have "(2 :: u64) ^ (0 + j) < n" if "j < 64" for j
  proof -
    have "(2 :: nat) ^ j \<le> 2 ^ 63" using that by (intro power_increasing) auto
    with assms that show ?thesis by (simp add: word_less_nat_alt unat_pow2)
  qed
  then have "next_pow2_loop n (2 ^ 0) = next_pow2_loop n (2 ^ (0 + 63))" by (intro next_pow2_loop_steps) auto
  moreover have "next_pow2_loop n (2 ^ 63) = next_pow2_loop n (push_bit 1 (2 ^ 63))"
    using assms by (subst next_pow2_loop.simps) (simp add: word_less_nat_alt)
  moreover have "push_bit 1 ((2 :: u64) ^ 63) = 0" by (simp add: push_bit_eq_mult)
  ultimately have "next_pow2 n = next_pow2_loop n 0" by (simp only: next_pow2_def power_0 add_0)
  moreover have "0 < n" using assms by (simp add: word_less_nat_alt)
  ultimately show ?thesis using next_pow2_loop_zero [of n 0] by (metis not_None_eq word_gt_0)
qed

section \<open>Probing\<close>

text \<open>Slot arithmetic: masking with \<open>cap - 1\<close> is reduction modulo the capacity.\<close>

lemma unat_and_mask: "m < 64 \<Longrightarrow> unat ((i :: u64) AND (2 ^ m - 1)) = unat i mod 2 ^ m"
  by (simp add: mask_eq_exp_minus_1 [symmetric] take_bit_eq_mask [symmetric] unsigned_take_bit_eq) (simp add: take_bit_eq_mod)

lemma unat_next_slot:
  assumes "m < 64"
  shows "unat (((i :: u64) + 1) AND (2 ^ m - 1)) = (unat i + 1) mod 2 ^ m"
proof -
  have "(2 :: nat) ^ m dvd 2 ^ 64" using assms by (intro le_imp_power_dvd) simp
  then have "(unat i + 1) mod 2 ^ 64 mod 2 ^ m = (unat i + 1) mod 2 ^ m" by (rule mod_mod_cancel)
  moreover have "unat (i + 1) = (unat i + 1) mod 2 ^ 64" by (simp add: unat_word_ariths)
  ultimately show ?thesis using assms unat_and_mask [of m "i + 1"] by simp
qed

definition stops :: "str_i32_entry list \<Rightarrow> string \<Rightarrow> nat \<Rightarrow> bool" where
  "stops es key i \<longleftrightarrow> \<not> ent_used (es ! i) \<or> ent_key (es ! i) = key"

lemma probe_reaches:
  assumes "m < 64" and "stops es key ((unat i + d) mod 2 ^ m)" and "\<forall>j < d. \<not> stops es key ((unat i + j) mod 2 ^ m)"
    and "unat i < 2 ^ m"
  shows "\<exists>r. table_probe es (2 ^ m - 1) key i = Some r \<and> unat r = (unat i + d) mod 2 ^ m"
  using assms(2-)
proof (induction d arbitrary: i)
  case 0
  then show ?case by (subst table_probe.simps) (auto simp: stops_def)
next
  case (Suc d)
  let ?i = "(i + 1) AND (2 ^ m - 1)"
  have i: "unat ?i = (unat i + 1) mod 2 ^ m" by (rule unat_next_slot) (rule assms(1))
  have shift: "(unat ?i + j) mod 2 ^ m = (unat i + Suc j) mod 2 ^ m" for j unfolding i by (simp add: mod_simps)
  have "\<not> stops es key (unat i)" using Suc.prems(2,3) by force
  then have "table_probe es (2 ^ m - 1) key i = table_probe es (2 ^ m - 1) key ?i"
    by (subst table_probe.simps) (simp add: stops_def)
  moreover have "\<exists>r. table_probe es (2 ^ m - 1) key ?i = Some r \<and> unat r = (unat ?i + d) mod 2 ^ m"
  proof (rule Suc.IH)
    show "stops es key ((unat ?i + d) mod 2 ^ m)" using Suc.prems(1) by (simp only: shift)
    show "\<forall>j < d. \<not> stops es key ((unat ?i + j) mod 2 ^ m)" using Suc.prems(2) by (auto simp only: shift Suc_less_eq)
    show "unat ?i < 2 ^ m" by (simp add: i)
  qed
  ultimately show ?case by (simp only: shift)
qed

section \<open>The table is a map\<close>

definition table_map :: "str_i32_table \<Rightarrow> string \<Rightarrow> int option" where
  "table_map t key = map_option ent_value (find (\<lambda>e. ent_used e \<and> ent_key e = key) (tab_entry t))"

definition table_load :: "str_i32_table \<Rightarrow> nat" where
  "table_load t = cnt ent_used (tab_entry t)"

definition home :: "nat \<Rightarrow> string \<Rightarrow> nat" where
  "home m key = unat (hash_bytes key) mod 2 ^ m"

text \<open>Every used slot lies on an unbroken run of used slots that starts at the home slot of its key.\<close>

definition chained :: "nat \<Rightarrow> str_i32_entry list \<Rightarrow> bool" where
  "chained m es \<longleftrightarrow>
     (\<forall>i < length es. ent_used (es ! i) \<longrightarrow>
        (\<exists>d. i = (home m (ent_key (es ! i)) + d) mod 2 ^ m
           \<and> (\<forall>j < d. ent_used (es ! ((home m (ent_key (es ! i)) + j) mod 2 ^ m)))))"

definition keys_once :: "str_i32_entry list \<Rightarrow> bool" where
  "keys_once es \<longleftrightarrow>
     (\<forall>i < length es. \<forall>j < length es. ent_used (es ! i) \<and> ent_used (es ! j) \<and> ent_key (es ! i) = ent_key (es ! j) \<longrightarrow> i = j)"

definition table_ok :: "str_i32_table \<Rightarrow> bool" where
  "table_ok t \<longleftrightarrow>
     (\<exists>m < 64. tab_cap t = 2 ^ m \<and> length (tab_entry t) = 2 ^ m \<and> chained m (tab_entry t)
        \<and> keys_once (tab_entry t) \<and> table_load t < 2 ^ m \<and> unat (tab_used t) = table_load t)"

lemma table_map_iff:
  assumes "keys_once (tab_entry t)"
  shows "table_map t key = Some v
    \<longleftrightarrow> (\<exists>i < length (tab_entry t). ent_used (tab_entry t ! i) \<and> ent_key (tab_entry t ! i) = key \<and> ent_value (tab_entry t ! i) = v)"
    (is "?l \<longleftrightarrow> ?r")
proof
  show ?r if ?l using that by (auto simp: table_map_def find_Some_iff)
next
  assume ?r
  then obtain i where i: "i < length (tab_entry t)" "ent_used (tab_entry t ! i)" "ent_key (tab_entry t ! i) = key" "ent_value (tab_entry t ! i) = v"
    by blast
  then have "\<not> (ent_used (tab_entry t ! j) \<and> ent_key (tab_entry t ! j) = key)" if "j < i" for j
    using assms that by (metis keys_once_def order.strict_trans less_irrefl)
  then have "find (\<lambda>e. ent_used e \<and> ent_key e = key) (tab_entry t) = Some (tab_entry t ! i)"
    unfolding find_Some_iff using i by (intro exI [of _ i]) simp
  then show ?l using i by (simp add: table_map_def)
qed

lemma table_map_None:
  "table_map t key = None \<longleftrightarrow> (\<forall>i < length (tab_entry t). ent_used (tab_entry t ! i) \<longrightarrow> ent_key (tab_entry t ! i) \<noteq> key)"
  by (auto simp: table_map_def find_None_iff in_set_conv_nth)

text \<open>A table with a free slot is probed to an end, and the end is the slot of the key or a free slot on its run.\<close>

lemma probe_ends:
  assumes m: "m < 64" and len: "length es = 2 ^ m" and free: "cnt ent_used es < 2 ^ m"
  obtains i d where "table_probe es (2 ^ m - 1) key (hash_bytes key AND (2 ^ m - 1)) = Some i" "unat i = (home m key + d) mod 2 ^ m"
    "stops es key (unat i)" "\<forall>j < d. \<not> stops es key ((home m key + j) mod 2 ^ m)"
proof -
  have h: "unat (hash_bytes key AND (2 ^ m - 1)) = home m key" using m by (simp add: unat_and_mask home_def)
  have "\<exists>s < 2 ^ m. \<not> ent_used (es ! s)"
  proof (rule ccontr)
    assume "\<not> (\<exists>s < 2 ^ m. \<not> ent_used (es ! s))"
    then have "filter ent_used es = es" by (simp add: filter_id_conv all_set_conv_all_nth len)
    then show False using free len by (simp add: cnt_def)
  qed
  then obtain s where s: "s < 2 ^ m" "\<not> ent_used (es ! s)" by blast
  have home: "home m key < 2 ^ m" by (simp add: home_def)
  have "(home m key + (s + 2 ^ m - home m key)) mod 2 ^ m = s" using s home by simp
  then have ex: "\<exists>d. stops es key ((home m key + d) mod 2 ^ m)" using s by (metis stops_def)
  define d where "d = (LEAST d. stops es key ((home m key + d) mod 2 ^ m))"
  have d: "stops es key ((home m key + d) mod 2 ^ m)" unfolding d_def by (rule LeastI_ex) (rule ex)
  have before: "\<forall>j < d. \<not> stops es key ((home m key + j) mod 2 ^ m)" unfolding d_def using not_less_Least by blast
  from probe_reaches [OF m, of es key "hash_bytes key AND (2 ^ m - 1)" d] d before home that show thesis by (auto simp: h)
qed

lemma run_stops_at_key:
  assumes ok: "chained m es" "keys_once es" and len: "length es = 2 ^ m" and i: "i < 2 ^ m" "ent_used (es ! i)" "ent_key (es ! i) = key"
    and s: "s = (home m key + d) mod 2 ^ m" "stops es key s" "\<forall>j < d. \<not> stops es key ((home m key + j) mod 2 ^ m)"
  shows "s = i"
proof -
  obtain e where e: "i = (home m key + e) mod 2 ^ m" "\<forall>j < e. ent_used (es ! ((home m key + j) mod 2 ^ m))"
    using ok(1) i len unfolding chained_def by metis
  have "\<not> e < d" using s(3) e(1) i(2,3) by (auto simp: stops_def)
  then consider "d < e" | "d = e" by linarith
  then show ?thesis
  proof cases
    case 1
    then have "ent_used (es ! s)" using e(2) s(1) by blast
    then have "ent_key (es ! s) = key" using s(2) by (simp add: stops_def)
    moreover have "s < 2 ^ m" by (simp add: s(1))
    ultimately show ?thesis using ok(2) i len \<open>ent_used (es ! s)\<close> unfolding keys_once_def by metis
  next
    case 2
    then show ?thesis using e(1) s(1) by simp
  qed
qed

lemma table_get_spec:
  assumes "table_ok t"
  shows "table_get t key = Some (table_map t key)"
proof -
  obtain m where m: "m < 64" and cap: "tab_cap t = 2 ^ m" and len: "length (tab_entry t) = 2 ^ m" and ch: "chained m (tab_entry t)"
    and once: "keys_once (tab_entry t)" and free: "table_load t < 2 ^ m"
    using assms by (auto simp: table_ok_def)
  obtain i d where pr: "table_probe (tab_entry t) (2 ^ m - 1) key (hash_bytes key AND (2 ^ m - 1)) = Some i"
    and i: "unat i = (home m key + d) mod 2 ^ m" "stops (tab_entry t) key (unat i)"
      "\<forall>j < d. \<not> stops (tab_entry t) key ((home m key + j) mod 2 ^ m)"
    using probe_ends [OF m len] free unfolding table_load_def by metis
  have "(2 :: u64) ^ m \<noteq> 0" using unat_pow2 [OF m] by (metis unat_0 power_not_zero zero_neq_numeral)
  then have get: "table_get t key
      = Some (if ent_used (tab_entry t ! unat i) then Some (ent_value (tab_entry t ! unat i)) else None)"
    using pr by (simp add: table_get_def cap)
  have lt: "unat i < length (tab_entry t)" by (simp add: i len)
  show ?thesis
  proof (cases "ent_used (tab_entry t ! unat i)")
    case True
    then have "table_map t key = Some (ent_value (tab_entry t ! unat i))"
      unfolding table_map_iff [OF once] using i(2) lt by (auto simp: stops_def)
    then show ?thesis using get True by simp
  next
    case False
    have "table_map t key = None"
      unfolding table_map_None using run_stops_at_key [OF ch once len _ _ _ i(1-3)] False len by metis
    then show ?thesis using get False by simp
  qed
qed

text \<open>Writing one slot: a used slot gets a new value, or a free slot at the end of the key's run is taken.\<close>

lemma chained_grow:
  assumes "chained m es" and "length es = 2 ^ m" and "s < 2 ^ m" and "ent_used e"
    and "ent_used (es ! s) \<longrightarrow> ent_key (es ! s) = ent_key e"
    and "s = (home m (ent_key e) + d) mod 2 ^ m" and "\<forall>j < d. ent_used (es ! ((home m (ent_key e) + j) mod 2 ^ m))"
  shows "chained m (es[s := e])"
proof -
  have more: "ent_used (es ! j) \<Longrightarrow> ent_used (es[s := e] ! j)" if "j < 2 ^ m" for j
    using assms(2-4) that by (cases "j = s") auto
  have nth: "es[s := e] ! j = (if j = s then e else es ! j)" if "j < 2 ^ m" for j using assms(2) that by simp
  show ?thesis
    unfolding chained_def
  proof (intro allI impI)
    fix i assume i: "i < length (es[s := e])" "ent_used (es[s := e] ! i)"
    show "\<exists>d. i = (home m (ent_key (es[s := e] ! i)) + d) mod 2 ^ m
        \<and> (\<forall>j < d. ent_used (es[s := e] ! ((home m (ent_key (es[s := e] ! i)) + j) mod 2 ^ m)))"
    proof (cases "i = s")
      case True
      then show ?thesis using assms(2,3,6,7) more by (intro exI [of _ d]) auto
    next
      case False
      then obtain d' where "i = (home m (ent_key (es ! i)) + d') mod 2 ^ m"
          "\<forall>j < d'. ent_used (es ! ((home m (ent_key (es ! i)) + j) mod 2 ^ m))"
        using assms(1) i unfolding chained_def by auto
      then show ?thesis using False more by (intro exI [of _ d']) auto
    qed
  qed
qed

lemma put_map:
  assumes once: "keys_once es" and s: "s < length es" and e: "ent_used e"
    and others: "\<forall>i < length es. ent_used (es ! i) \<and> ent_key (es ! i) = ent_key e \<longrightarrow> i = s"
    and here: "ent_used (es ! s) \<longrightarrow> ent_key (es ! s) = ent_key e"
  shows "keys_once (es[s := e])"
    and "table_map (t\<lparr>tab_entry := es[s := e], tab_used := u\<rparr>) = (table_map (t\<lparr>tab_entry := es\<rparr>))(ent_key e \<mapsto> ent_value e)"
proof -
  show o: "keys_once (es[s := e])"
    unfolding keys_once_def
  proof (intro allI impI)
    fix i j assume lt: "i < length (es[s := e])" "j < length (es[s := e])"
      and eq: "ent_used (es[s := e] ! i) \<and> ent_used (es[s := e] ! j) \<and> ent_key (es[s := e] ! i) = ent_key (es[s := e] ! j)"
    consider "i = s" | "j = s" | "i \<noteq> s" "j \<noteq> s" by blast
    then show "i = j"
    proof cases
      case 1
      have "j = s" if "j \<noteq> s" using others [rule_format, of j] lt eq s 1 that by simp
      then show ?thesis using 1 by blast
    next
      case 2
      have "i = s" if "i \<noteq> s" using others [rule_format, of i] lt eq s 2 that by simp
      then show ?thesis using 2 by blast
    next
      case 3
      then have "ent_used (es ! i)" "ent_used (es ! j)" "ent_key (es ! i) = ent_key (es ! j)" using eq by simp_all
      then show ?thesis using once lt unfolding keys_once_def by (metis length_list_update)
    qed
  qed
  let ?t = "t\<lparr>tab_entry := es[s := e], tab_used := u\<rparr>"
  show "table_map ?t = (table_map (t\<lparr>tab_entry := es\<rparr>))(ent_key e \<mapsto> ent_value e)"
  proof
    fix key
    show "table_map ?t key = ((table_map (t\<lparr>tab_entry := es\<rparr>))(ent_key e \<mapsto> ent_value e)) key"
    proof (cases "key = ent_key e")
      case True
      have "table_map ?t key = Some (ent_value e)" using True s e by (subst table_map_iff) (auto simp: o intro!: exI [of _ s])
      then show ?thesis using True by simp
    next
      case False
      then have "(ent_used (es[s := e] ! i) \<and> ent_key (es[s := e] ! i) = key) = (ent_used (es ! i) \<and> ent_key (es ! i) = key)"
        and "ent_key (es[s := e] ! i) = key \<Longrightarrow> es[s := e] ! i = es ! i" if "i < length es" for i
        using here s by (cases "i = s"; auto)+
      then have "table_map ?t key = Some v \<longleftrightarrow> table_map (t\<lparr>tab_entry := es\<rparr>) key = Some v" for v
        by (subst (1 2) table_map_iff) (simp_all add: o once, metis)
      then show ?thesis using False by (metis fun_upd_other not_Some_eq option.inject)
    qed
  qed
qed

definition table_room :: "str_i32_table \<Rightarrow> nat" where
  "table_room t = unat (tab_cap t) - 1 - table_load t"

lemma table_put_spec:
  assumes "table_ok t" and "0 < table_room t"
  shows "\<exists>t'. table_put t key val = Some t' \<and> table_ok t' \<and> table_map t' = (table_map t)(key \<mapsto> val) \<and> table_room t \<le> table_room t' + 1"
proof -
  let ?es = "tab_entry t"
  obtain m where m: "m < 64" and cap: "tab_cap t = 2 ^ m" and len: "length ?es = 2 ^ m" and ch: "chained m ?es"
    and once: "keys_once ?es" and free: "table_load t < 2 ^ m" and used: "unat (tab_used t) = table_load t"
    using assms(1) by (auto simp: table_ok_def)
  obtain i d where pr: "table_probe ?es (2 ^ m - 1) key (hash_bytes key AND (2 ^ m - 1)) = Some i"
    and i: "unat i = (home m key + d) mod 2 ^ m" "stops ?es key (unat i)" "\<forall>j < d. \<not> stops ?es key ((home m key + j) mod 2 ^ m)"
    using probe_ends [OF m len] free unfolding table_load_def by metis
  have s: "unat i < 2 ^ m" by (simp add: i)
  define e where "e = (if ent_used (?es ! unat i) then (?es ! unat i)\<lparr>ent_value := val\<rparr> else \<lparr>ent_key = key, ent_value = val, ent_used = True\<rparr>)"
  define u where "u = (if ent_used (?es ! unat i) then tab_used t else tab_used t + 1)"
  define t' where "t' = t\<lparr>tab_entry := ?es[unat i := e], tab_used := u\<rparr>"
  have put: "table_put t key val = Some t'" using pr by (simp add: table_put_def cap t'_def e_def u_def)
  have e: "ent_used e" "ent_key e = key" "ent_value e = val" using i(2) by (auto simp: e_def stops_def)
  have run: "\<forall>j < d. ent_used (?es ! ((home m key + j) mod 2 ^ m))" using i(3) by (auto simp: stops_def)
  have here: "ent_used (?es ! unat i) \<longrightarrow> ent_key (?es ! unat i) = ent_key e" using i(2) e by (auto simp: stops_def)
  have others: "\<forall>j < length ?es. ent_used (?es ! j) \<and> ent_key (?es ! j) = ent_key e \<longrightarrow> j = unat i"
    using run_stops_at_key [OF ch once len _ _ _ i] e(2) len by metis
  note pm = put_map [OF once _ e(1) others here, unfolded len, OF s]
  have chained': "chained m (?es[unat i := e])" using chained_grow [OF ch len s e(1) here] i(1) run e(2) by simp
  have room: "Suc (table_load t) < 2 ^ m" using assms(2) m by (simp add: table_room_def cap unat_pow2)
  have load: "table_load t' = table_load t + (if ent_used (?es ! unat i) then 0 else 1)"
    using cnt_update [of "unat i" ?es ent_used e] s len e(1) by (auto simp: table_load_def t'_def split: if_splits)
  have "2 ^ m \<le> (2 :: nat) ^ 63" using m by (intro power_increasing) auto
  then have "unat (tab_used t + 1) = table_load t + 1" using used room by (subst unat_add_lem [THEN iffD1]) auto
  then have "unat u = table_load t'" using load used by (simp add: u_def)
  then have "table_ok t'" using m cap len chained' pm(1) load room unfolding table_ok_def by (intro exI [of _ m]) (simp add: t'_def)
  moreover have "table_map t' = (table_map t)(key \<mapsto> val)" using pm(2) [where t = t and u = u] e by (simp add: t'_def)
  moreover have "table_room t \<le> table_room t' + 1" using load by (auto simp: table_room_def t'_def)
  ultimately show ?thesis using put by blast
qed

lemma table_init_spec:
  assumes "2 * n + 16 \<le> 2 ^ 63"
  obtains t where "table_init (of_nat n) = Some t" "table_ok t" "table_map t = Map.empty" "n < table_room t"
proof -
  have n: "unat (of_nat n * 2 + 16 :: u64) = 2 * n + 16"
    using unat_of_nat_u64 [of "2 * n + 16"] assms by (simp add: mult.commute)
  obtain m where m: "m < 64" "next_pow2 (of_nat n * 2 + 16) = Some (2 ^ m)" "2 * n + 16 \<le> 2 ^ m"
    using next_pow2_result [of "of_nat n * 2 + 16"] n assms by metis
  let ?t = "\<lparr>tab_entry = replicate (unat ((2 :: u64) ^ m)) free_entry, tab_cap = 2 ^ m, tab_used = 0\<rparr>"
  have load: "table_load ?t = 0" by (simp add: table_load_def cnt_def filter_empty_conv free_entry_def)
  have "table_ok ?t"
    unfolding table_ok_def using m(1) load
    by (intro exI [of _ m]) (simp add: unat_pow2 chained_def keys_once_def free_entry_def)
  moreover have "table_map ?t = Map.empty" by (rule ext) (simp add: table_map_None free_entry_def)
  moreover have "n < table_room ?t" using m load by (simp add: table_room_def unat_pow2)
  ultimately show thesis using that m(2) by (auto simp: table_init_def)
qed

section \<open>The interface the tokenizer relies on\<close>

text \<open>
  A table with room for so many more keys. Every operation may fail to return; the laws say when it does and what it does to
  the map behind the table. Loading a list of keys is proved once from them.
\<close>

locale lookup_table =
  fixes ok :: "'t \<Rightarrow> bool" and room :: "'t \<Rightarrow> nat" and abs :: "'t \<Rightarrow> string \<Rightarrow> int option"
    and get :: "'t \<Rightarrow> string \<Rightarrow> int option option" and put :: "'t \<Rightarrow> string \<Rightarrow> int \<Rightarrow> 't option"
  assumes get_abs: "ok t \<Longrightarrow> get t k = Some (abs t k)"
    and put_abs: "ok t \<Longrightarrow> 0 < room t \<Longrightarrow> \<exists>t'. put t k v = Some t' \<and> ok t' \<and> abs t' = (abs t)(k \<mapsto> v) \<and> room t \<le> room t' + 1"
begin

lemma put_all:
  assumes "ok t" and "length kvs \<le> room t"
  shows "\<exists>t'. foldl (\<lambda>ot (k, v). Option.bind ot (\<lambda>t. put t k v)) (Some t) kvs = Some t' \<and> ok t' \<and> abs t' = abs t ++ map_of (rev kvs)"
  using assms
proof (induction kvs arbitrary: t)
  case (Cons kv kvs)
  obtain k v where kv: "kv = (k, v)" by (cases kv)
  from put_abs [of t k v] Cons.prems obtain t1 where t1: "put t k v = Some t1" "ok t1" "abs t1 = (abs t)(k \<mapsto> v)" "room t \<le> room t1 + 1"
    by auto
  with Cons.prems have "length kvs \<le> room t1" by simp
  moreover have "abs t1 ++ map_of (rev kvs) = abs t ++ map_of (rev (kv # kvs))" by (simp add: kv t1(3))
  ultimately show ?case using Cons.IH [OF t1(2)] t1(1) by (auto simp: kv)
qed simp

lemma get_after_put:
  assumes "ok t" and "0 < room t"
  shows "\<exists>t'. put t k v = Some t' \<and> get t' k = Some (Some v) \<and> (\<forall>k'. k' \<noteq> k \<longrightarrow> get t' k' = get t k')"
proof -
  from put_abs [OF assms] obtain t' where "put t k v = Some t'" "ok t'" "abs t' = (abs t)(k \<mapsto> v)" by blast
  then show ?thesis using get_abs assms(1) by auto
qed

end

interpretation tab: lookup_table table_ok table_room table_map table_get table_put
  by unfold_locales (use table_get_spec table_put_spec in blast)+

text \<open>The loading loops of \<open>vocab_load\<close>: a table made for \<open>n\<close> keys, then one put for each string of the file.\<close>

definition table_put_all :: "str_i32_table option \<Rightarrow> (string \<times> int) list \<Rightarrow> str_i32_table option" where
  "table_put_all = foldl (\<lambda>ot (k, v). Option.bind ot (\<lambda>t. table_put t k v))"

lemma table_load_all:
  assumes "2 * n + 16 \<le> 2 ^ 63" and "length kvs \<le> n"
  obtains t where "table_put_all (table_init (of_nat n)) kvs = Some t" "table_ok t" "table_map t = map_of (rev kvs)"
proof -
  obtain t where t: "table_init (of_nat n) = Some t" "table_ok t" "table_map t = Map.empty" "n < table_room t"
    using table_init_spec [OF assms(1)] .
  from tab.put_all [OF t(2), of kvs] assms(2) t that show thesis by (auto simp: table_put_all_def)
qed

text \<open>
  (C17) The hash table is a map. A table made for \<open>n\<close> keys, with at most \<open>n\<close> puts done to it in any order and with any
  repetitions, is built, and every lookup returns: the value last put under the key, or nothing when there is none.
  This holds for every placement the hash function makes, however the runs of colliding keys merge.
\<close>

theorem table_refines_map:
  assumes "2 * n + 16 \<le> 2 ^ 63" and "length kvs \<le> n"
  shows "\<exists>t. table_put_all (table_init (of_nat n)) kvs = Some t \<and> (\<forall>key. table_get t key = Some (map_of (rev kvs) key))"
proof -
  obtain t where t: "table_put_all (table_init (of_nat n)) kvs = Some t" "table_ok t" "table_map t = map_of (rev kvs)"
    using table_load_all [OF assms] .
  then show ?thesis using tab.get_abs [OF t(2)] by auto
qed

theorem table_refines_map_witness:
  "\<exists>t. table_put_all (table_init (of_nat 3)) [(''a'', 1), (''b'', 2), (''a'', 7)] = Some t
     \<and> (\<forall>key. table_get t key = Some (map_of [(''a'', 7), (''b'', 2), (''a'', 1)] key))"
  using table_refines_map [of 3 "[(''a'', 1), (''b'', 2), (''a'', 7)]"] by simp

section \<open>When the loops end\<close>

lemma table_probe_stops: "table_probe es msk key i = Some r \<Longrightarrow> stops es key (unat r)"
proof (rule table_probe.raw_induct [of "\<lambda>es msk key i r. stops es key (unat r)"])
  fix probe :: "str_i32_entry list \<Rightarrow> u64 \<Rightarrow> string \<Rightarrow> u64 \<Rightarrow> u64 option" and es msk key i r
  assume "\<And>es msk key i r. probe es msk key i = Some r \<Longrightarrow> stops es key (unat r)"
    and "(if ent_used (es ! unat i) then if ent_key (es ! unat i) = key then Some i else probe es msk key ((i + 1) AND msk) else Some i) = Some r"
  then show "stops es key (unat r)" by (auto simp: stops_def split: if_splits)
qed

lemma table_probe_range:
  assumes "m < 64"
  shows "table_probe es msk key i = Some r \<Longrightarrow> msk = 2 ^ m - 1 \<longrightarrow> unat i < 2 ^ m \<longrightarrow> unat r < 2 ^ m"
proof (rule table_probe.raw_induct [of "\<lambda>es msk key i r. msk = 2 ^ m - 1 \<longrightarrow> unat i < 2 ^ m \<longrightarrow> unat r < 2 ^ m"])
  fix probe :: "str_i32_entry list \<Rightarrow> u64 \<Rightarrow> string \<Rightarrow> u64 \<Rightarrow> u64 option" and es msk key i r
  assume "\<And>es msk key i r. probe es msk key i = Some r \<Longrightarrow> msk = 2 ^ m - 1 \<longrightarrow> unat i < 2 ^ m \<longrightarrow> unat r < 2 ^ m"
    and "(if ent_used (es ! unat i) then if ent_key (es ! unat i) = key then Some i else probe es msk key ((i + 1) AND msk) else Some i) = Some r"
  moreover have "unat ((i + 1) AND (2 ^ m - 1)) < 2 ^ m" using unat_and_mask [OF assms] by simp
  ultimately show "msk = 2 ^ m - 1 \<longrightarrow> unat i < 2 ^ m \<longrightarrow> unat r < 2 ^ m" by (auto split: if_splits)
qed

lemma probe_finds_stop:
  assumes m: "m < 64" and i: "unat i < 2 ^ m" and s: "s < 2 ^ m" "stops es key s"
  shows "\<exists>r. table_probe es (2 ^ m - 1) key i = Some r"
proof -
  have "(unat i + (s + 2 ^ m - unat i)) mod 2 ^ m = s" using s i by simp
  then have ex: "\<exists>d. stops es key ((unat i + d) mod 2 ^ m)" using s(2) by metis
  define d where "d = (LEAST d. stops es key ((unat i + d) mod 2 ^ m))"
  have d: "stops es key ((unat i + d) mod 2 ^ m)" unfolding d_def by (rule LeastI_ex) (rule ex)
  have "\<forall>j < d. \<not> stops es key ((unat i + j) mod 2 ^ m)" unfolding d_def using not_less_Least by blast
  with probe_reaches [OF m d] i show ?thesis by blast
qed


definition full_table :: str_i32_table where
  "full_table = \<lparr>tab_entry = [\<lparr>ent_key = ''a'', ent_value = 0, ent_used = True\<rparr>, \<lparr>ent_key = ''b'', ent_value = 1, ent_used = True\<rparr>],
     tab_cap = 2, tab_used = 2\<rparr>"


end
