(* ===== verification/Bpe.thy ===== *)
theory Bpe
  imports Token_Table
begin

text \<open>
  The byte-level BPE tokenizer of \<open>ds4.c\<close>: the printable alphabet that stands for the 256 bytes, the greedy merging of
  the symbols of one piece, the two pre-tokenizers that cut a text into pieces (JoyAI for DeepSeek models, GLM4 for GLM
  models), and the way back from a token to its text. A text position is the rest of the text. The token and merge
  tables are the hash tables of \<open>Token_Table\<close>; \<open>table_find\<close> reads one whose probes end, which the tables of a loaded
  vocabulary always do. The pieces of a text and the tokens of a piece are lists, so a token vector grows by appending.
\<close>

section \<open>The vocabulary\<close>

record ds4_vocab =
  token :: "string list"
  bos_id :: int
  eos_id :: int
  system_id :: int
  user_id :: int
  assistant_id :: int
  observation_id :: int
  sop_id :: int
  think_start_id :: int
  think_end_id :: int
  tool_call_start_id :: int
  tool_call_end_id :: int
  tool_response_start_id :: int
  tool_response_end_id :: int
  arg_key_start_id :: int
  arg_key_end_id :: int
  arg_value_start_id :: int
  arg_value_end_id :: int
  dsml_id :: int
  token_to_id :: str_i32_table
  merge_rank :: str_i32_table

definition table_find :: "str_i32_table \<Rightarrow> string \<Rightarrow> int option" where
  "table_find t s = Option.bind (table_get t s) (\<lambda>r. r)"

lemma table_find_map: "table_ok t \<Longrightarrow> table_find t s = table_map t s"
  by (simp add: table_find_def tab.get_abs)

section \<open>Bytes as printable symbols\<close>

abbreviation byte :: "char \<Rightarrow> nat" where "byte c \<equiv> of_char c"

text \<open>The bit patterns that the C code combines with \<open>|\<close> do not overlap, so they are added here.\<close>

definition utf8_put :: "nat \<Rightarrow> string" where
  "utf8_put cp =
     (if cp \<le> 0x7f then [char_of cp]
      else if cp \<le> 0x7ff then [char_of (0xc0 + cp div 64), char_of (0x80 + cp mod 64)]
      else if cp \<le> 0xffff then [char_of (0xe0 + cp div 4096), char_of (0x80 + cp div 64 mod 64), char_of (0x80 + cp mod 64)]
      else [char_of (0xf0 + cp div 262144), char_of (0x80 + cp div 4096 mod 64), char_of (0x80 + cp div 64 mod 64), char_of (0x80 + cp mod 64)])"

definition kept_byte :: "nat \<Rightarrow> bool" where
  "kept_byte b \<longleftrightarrow> (b \<ge> 33 \<and> b \<le> 126) \<or> (b \<ge> 161 \<and> b \<le> 172) \<or> b \<ge> 174"

fun byte_cp_loop :: "nat \<Rightarrow> nat \<Rightarrow> nat list \<Rightarrow> nat" where
  "byte_cp_loop b n [] = b"
| "byte_cp_loop b n (x # xs) =
     (if kept_byte x then byte_cp_loop b n xs else if x = b then 256 + n else byte_cp_loop b (n + 1) xs)"

definition gpt2_byte_to_codepoint :: "nat \<Rightarrow> nat" where
  "gpt2_byte_to_codepoint b = (if kept_byte b then b else byte_cp_loop b 0 [0..<256])"

definition byte_encode :: "string \<Rightarrow> string" where
  "byte_encode s = concat (map (\<lambda>c. utf8_put (gpt2_byte_to_codepoint (byte c))) s)"

definition utf8_len_from_first_byte :: "char \<Rightarrow> nat" where
  "utf8_len_from_first_byte c =
     (if byte c < 0x80 then 1 else if byte c div 32 = 6 then 2 else if byte c div 16 = 14 then 3 else if byte c div 8 = 30 then 4 else 1)"

fun cp_byte_loop :: "nat \<Rightarrow> nat \<Rightarrow> nat list \<Rightarrow> nat option" where
  "cp_byte_loop cp n [] = None"
| "cp_byte_loop cp n (b # bs) =
     (if kept_byte b then cp_byte_loop cp n bs else if cp = 256 + n then Some b else cp_byte_loop cp (n + 1) bs)"

definition gpt2_codepoint_to_byte :: "nat \<Rightarrow> nat option" where
  "gpt2_codepoint_to_byte cp = (if kept_byte cp \<and> cp \<le> 255 then Some cp else cp_byte_loop cp 0 [0..<256])"

text \<open>One code point from the front of a token, with the number of bytes it takes.\<close>

definition utf8_decode_one :: "string \<Rightarrow> nat \<times> nat" where
  "utf8_decode_one s =
     (let c = byte (hd s); at = (\<lambda>i. byte (s ! i) mod 64)
      in if c < 0x80 \<or> length s \<le> 1 then (c, 1)
         else if c div 32 = 6 \<and> 1 < length s then (c mod 32 * 64 + at 1, 2)
         else if c div 16 = 14 \<and> 2 < length s then (c mod 16 * 4096 + at 1 * 64 + at 2, 3)
         else if c div 8 = 30 \<and> 3 < length s then (c mod 8 * 262144 + at 1 * 4096 + at 2 * 64 + at 3, 4)
         else (c, 1))"

lemma utf8_decode_one_pos: "0 < snd (utf8_decode_one s)"
  by (simp add: utf8_decode_one_def Let_def)

function decode_token :: "string \<Rightarrow> string" where
  "decode_token s =
     (if s = [] then []
      else case utf8_decode_one s of
             (cp, n) \<Rightarrow> (case gpt2_codepoint_to_byte cp of Some b \<Rightarrow> [char_of b] | None \<Rightarrow> []) @ decode_token (drop n s))"
  by pat_completeness auto
termination
proof (relation "measure length", goal_cases)
  case (2 s cp n)
  then have "0 < n" using utf8_decode_one_pos [of s] by (metis snd_conv)
  then show ?case using 2(1) by simp
qed simp

declare decode_token.simps [simp del]

definition vocab_token_is_literal_special :: "string \<Rightarrow> bool" where
  "vocab_token_is_literal_special s \<longleftrightarrow> sublist [CHR 0xEF, CHR 0xBD, CHR 0x9C] s"

definition ds4_token_text :: "ds4_vocab \<Rightarrow> int \<Rightarrow> string" where
  "ds4_token_text v t =
     (if t < 0 \<or> t \<ge> int (length (token v)) then []
      else let s = token v ! nat t in if vocab_token_is_literal_special s then s else decode_token s)"

lemma byte_cp_loop_back:
  assumes "b \<in> set xs" and "\<not> kept_byte b"
  shows "cp_byte_loop (byte_cp_loop b n xs) n xs = Some b" and "256 + n \<le> byte_cp_loop b n xs"
    and "byte_cp_loop b n xs < 256 + n + length xs"
  using assms(1)
proof (induction xs arbitrary: n)
  case (Cons x xs)
  { case 1 show ?case using 1 assms(2) Cons.IH(1) [of n] Cons.IH(1,2) [of "n + 1"] by (cases "x = b") auto }
  { case 2 show ?case using 2 assms(2) Cons.IH(2) [of n] Cons.IH(2) [of "n + 1"] by (cases "x = b") auto }
  { case 3 show ?case using 3 assms(2) Cons.IH(3) [of n] Cons.IH(3) [of "n + 1"] by (cases "x = b") auto }
qed simp_all

lemma codepoint_range: "b < 256 \<Longrightarrow> gpt2_byte_to_codepoint b < 512"
  using byte_cp_loop_back(3) [of b "[0..<256]" 0] by (auto simp: gpt2_byte_to_codepoint_def)

lemma codepoint_inverse:
  assumes "b < 256"
  shows "gpt2_codepoint_to_byte (gpt2_byte_to_codepoint b) = Some b"
proof (cases "kept_byte b")
  case True
  then show ?thesis using assms by (simp add: gpt2_byte_to_codepoint_def gpt2_codepoint_to_byte_def)
next
  case False
  then show ?thesis using byte_cp_loop_back [of b "[0..<256]" 0] assms
    by (simp add: gpt2_byte_to_codepoint_def gpt2_codepoint_to_byte_def)
qed

section \<open>Merging\<close>

text \<open>The symbols a piece starts with: one per UTF-8 character of its encoded form.\<close>

definition next_utf8_char :: "string \<Rightarrow> nat" where
  "next_utf8_char s = (let n = utf8_len_from_first_byte (hd s) in if n > length s then 1 else n)"

lemma next_utf8_char_pos: "0 < next_utf8_char s"
  by (simp add: next_utf8_char_def utf8_len_from_first_byte_def Let_def)

lemma next_utf8_char_le: "s \<noteq> [] \<Longrightarrow> next_utf8_char s \<le> length s"
  by (cases s) (simp_all add: next_utf8_char_def Let_def)

function split_symbols :: "string \<Rightarrow> string list" where
  "split_symbols s = (if s = [] then [] else take (next_utf8_char s) s # split_symbols (drop (next_utf8_char s) s))"
  by pat_completeness auto
termination by (relation "measure length") (auto simp: next_utf8_char_pos)

declare split_symbols.simps [simp del]

definition bpe_rank :: "ds4_vocab \<Rightarrow> string \<Rightarrow> string \<Rightarrow> int" where
  "bpe_rank v a b = (case table_find (merge_rank v) (a @ '' '' @ b) of Some r \<Rightarrow> r | None \<Rightarrow> -1)"

text \<open>The scan for the pair of least rank, the first of several equal ones: index and rank of the best pair so far.\<close>

fun best_scan :: "ds4_vocab \<Rightarrow> nat \<Rightarrow> nat option \<times> int \<Rightarrow> string list \<Rightarrow> nat option \<times> int" where
  "best_scan v i best (a # b # syms) =
     (let r = bpe_rank v a b in best_scan v (i + 1) (if r \<ge> 0 \<and> r < snd best then (Some i, r) else best) (b # syms))"
| "best_scan v i best _ = best"

definition best_pair :: "ds4_vocab \<Rightarrow> string list \<Rightarrow> nat option" where
  "best_pair v syms = fst (best_scan v 0 (None, INT_MAX) syms)"

definition merge_at :: "nat \<Rightarrow> string list \<Rightarrow> string list" where
  "merge_at i syms = take i syms @ (syms ! i @ syms ! (i + 1)) # drop (i + 2) syms"

lemma best_scan_bound:
  "fst (best_scan v i best syms) = Some k \<Longrightarrow> fst best = Some k \<or> (i \<le> k \<and> k + 1 < i + length syms)"
proof (induction v i best syms rule: best_scan.induct)
  case (1 v i best a b syms)
  then show ?case by (fastforce simp: Let_def split: if_splits)
qed auto

lemma best_pair_bound: "best_pair v syms = Some i \<Longrightarrow> i + 1 < length syms"
  using best_scan_bound [of v 0 "(None, INT_MAX)" syms i] by (simp add: best_pair_def)

lemma merge_at_length: "i + 1 < length syms \<Longrightarrow> length (merge_at i syms) + 1 = length syms"
  by (simp add: merge_at_def)

function bpe_merge :: "ds4_vocab \<Rightarrow> string list \<Rightarrow> string list" where
  "bpe_merge v syms = (case best_pair v syms of None \<Rightarrow> syms | Some i \<Rightarrow> bpe_merge v (merge_at i syms))"
  by pat_completeness auto
termination
proof (relation "measure (\<lambda>(v, syms). length syms)", goal_cases)
  case (2 v syms i)
  then show ?case using merge_at_length [OF best_pair_bound] by fastforce
qed simp

declare bpe_merge.simps [simp del]

definition emit_symbol :: "ds4_vocab \<Rightarrow> string \<Rightarrow> int list" where
  "emit_symbol v s =
     (case table_find (token_to_id v) s of
        Some t \<Rightarrow> [t]
      | None \<Rightarrow> concat (map (\<lambda>c. case table_find (token_to_id v) [c] of Some t \<Rightarrow> [t] | None \<Rightarrow> []) s))"

definition bpe_emit_piece :: "ds4_vocab \<Rightarrow> string \<Rightarrow> int list" where
  "bpe_emit_piece v piece = concat (map (emit_symbol v) (bpe_merge v (split_symbols (byte_encode piece))))"

subsection \<open>The encoded alphabet\<close>

definition byte_symbol :: "char \<Rightarrow> string" where
  "byte_symbol c = utf8_put (gpt2_byte_to_codepoint (byte c))"

lemma byte_encode_symbols: "byte_encode s = concat (map byte_symbol s)"
  by (simp add: byte_encode_def byte_symbol_def [abs_def])

lemma byte_symbol_cases:
  obtains (one) cp where "cp < 128" "byte_symbol c = [char_of cp]" "cp = gpt2_byte_to_codepoint (byte c)"
  | (two) cp where "128 \<le> cp" "cp < 512" "byte_symbol c = [char_of (0xc0 + cp div 64), char_of (0x80 + cp mod 64)]" "cp = gpt2_byte_to_codepoint (byte c)"
proof -
  define cp where "cp = gpt2_byte_to_codepoint (byte c)"
  have "cp < 512" unfolding cp_def by (rule codepoint_range) (rule nat_of_char_less_256)
  then show thesis using one [of cp] two [of cp] by (cases "cp < 128") (auto simp: byte_symbol_def utf8_put_def cp_def)
qed

lemma byte_char_of: "n < 256 \<Longrightarrow> byte (char_of n) = n"
  by (simp add: of_char_of)

text \<open>Every byte of a symbol is below \<open>0xC8\<close>, and a symbol announces its own length.\<close>

lemma byte_symbol_low: "x \<in> set (byte_symbol c) \<Longrightarrow> byte x < 0xC8"
proof -
  assume "x \<in> set (byte_symbol c)"
  then show ?thesis
  proof (cases c rule: byte_symbol_cases)
    case (two cp)
    then have "cp div 64 < 8" by (intro less_mult_imp_div_less) simp
    then show ?thesis using \<open>x \<in> set (byte_symbol c)\<close> two by (auto simp: byte_char_of)
  qed (use \<open>x \<in> set (byte_symbol c)\<close> in \<open>auto simp: byte_char_of\<close>)
qed

lemma byte_symbol_next: "next_utf8_char (byte_symbol c @ r) = length (byte_symbol c)"
proof (cases c rule: byte_symbol_cases)
  case (two cp)
  then have "cp div 64 < 8" by (intro less_mult_imp_div_less) simp
  then show ?thesis using two by (simp add: next_utf8_char_def utf8_len_from_first_byte_def byte_char_of)
qed (simp add: next_utf8_char_def utf8_len_from_first_byte_def byte_char_of)

lemma byte_symbol_ne: "byte_symbol c \<noteq> []"
  by (cases c rule: byte_symbol_cases) auto

lemma split_symbols_encode: "split_symbols (byte_encode s) = map byte_symbol s"
proof (induction s)
  case Nil
  then show ?case by (simp add: byte_encode_symbols split_symbols.simps)
next
  case (Cons c s)
  then show ?case by (subst split_symbols.simps) (simp add: byte_encode_symbols byte_symbol_ne byte_symbol_next)
qed

lemma lead_byte: "(q :: nat) < 8 \<Longrightarrow> (192 + q) div 32 = 6 \<and> (192 + q) mod 32 = q"
  using div_mult_self1 [of 32 q 6] mod_mult_self1 [of q 6 32] by (simp add: add.commute)

lemma cont_byte: "(r :: nat) < 64 \<Longrightarrow> (128 + r) mod 64 = r"
  using mod_mult_self1 [of r 2 64] by (simp add: add.commute)

lemma decode_symbol: "decode_token (byte_symbol c @ r) = c # decode_token r"
proof -
  have inv: "gpt2_codepoint_to_byte (gpt2_byte_to_codepoint (byte c)) = Some (byte c)"
    by (rule codepoint_inverse) (rule nat_of_char_less_256)
  have "utf8_decode_one (byte_symbol c @ r) = (gpt2_byte_to_codepoint (byte c), length (byte_symbol c))"
  proof (cases c rule: byte_symbol_cases)
    case one
    then show ?thesis by (simp add: utf8_decode_one_def byte_char_of)
  next
    case (two cp)
    then have "cp div 64 < 8" by (intro less_mult_imp_div_less) simp
    then have "(192 + cp div 64) div 32 = 6" "(192 + cp div 64) mod 32 = cp div 64" using lead_byte by blast+
    moreover have "cp mod 64 < 64" by simp
    then have "byte (char_of (128 + cp mod 64)) = 128 + cp mod 64" "(128 + cp mod 64) mod 64 = cp mod 64"
      by (intro byte_char_of cont_byte; linarith)+
    moreover have "cp div 64 * 64 + cp mod 64 = cp" by (rule div_mult_mod_eq)
    ultimately show ?thesis using two \<open>cp div 64 < 8\<close> unfolding two(4) [symmetric] by (simp add: utf8_decode_one_def byte_char_of Let_def)
  qed
  then show ?thesis by (subst decode_token.simps) (simp add: inv byte_symbol_ne)
qed

lemma decode_encode: "decode_token (byte_encode s) = s"
  by (induction s) (simp_all add: byte_encode_symbols decode_symbol decode_token.simps [of "[]"])

lemma byte_encode_low: "x \<in> set (byte_encode s) \<Longrightarrow> byte x < 0xC8"
  by (auto simp: byte_encode_symbols dest: byte_symbol_low)

lemma encoded_not_special: "\<not> vocab_token_is_literal_special (byte_encode s)"
proof
  assume "vocab_token_is_literal_special (byte_encode s)"
  then have "CHR 0xEF \<in> set (byte_encode s)" unfolding vocab_token_is_literal_special_def by (auto dest!: set_mono_sublist)
  then show False using byte_encode_low by fastforce
qed

subsection \<open>The merge loop against its specification\<close>

text \<open>
  What one round has to find: the adjacent pair of least rank, the leftmost of several. Merging goes on until no adjacent pair
  has a rank. The relation says so without a scan.
\<close>

definition pair_rank :: "ds4_vocab \<Rightarrow> string list \<Rightarrow> nat \<Rightarrow> int" where
  "pair_rank v syms i = bpe_rank v (syms ! i) (syms ! (i + 1))"

definition ranked :: "ds4_vocab \<Rightarrow> string list \<Rightarrow> nat \<Rightarrow> bool" where
  "ranked v syms i \<longleftrightarrow> i + 1 < length syms \<and> 0 \<le> pair_rank v syms i \<and> pair_rank v syms i < INT_MAX"

definition least_pair :: "ds4_vocab \<Rightarrow> string list \<Rightarrow> nat \<Rightarrow> bool" where
  "least_pair v syms i \<longleftrightarrow>
     ranked v syms i \<and> (\<forall>j. ranked v syms j \<longrightarrow> pair_rank v syms i \<le> pair_rank v syms j \<and> (j < i \<longrightarrow> pair_rank v syms i < pair_rank v syms j))"

inductive bpe_reduces :: "ds4_vocab \<Rightarrow> string list \<Rightarrow> string list \<Rightarrow> bool" for v where
  stop: "(\<forall>i. \<not> ranked v syms i) \<Longrightarrow> bpe_reduces v syms syms"
| merge: "least_pair v syms i \<Longrightarrow> bpe_reduces v (merge_at i syms) r \<Longrightarrow> bpe_reduces v syms r"

lemma best_scan_spec:
  assumes "snd best \<le> INT_MAX"
  shows "case best_scan v i best syms of (k, r) \<Rightarrow>
      ((k, r) = best \<and> (\<forall>j. j + 1 < length syms \<longrightarrow> \<not> (0 \<le> pair_rank v syms j \<and> pair_rank v syms j < snd best)))
    \<or> (\<exists>j. k = Some (i + j) \<and> j + 1 < length syms \<and> r = pair_rank v syms j \<and> 0 \<le> r \<and> r < snd best
         \<and> (\<forall>j'. j' + 1 < length syms \<longrightarrow> 0 \<le> pair_rank v syms j' \<longrightarrow> r \<le> pair_rank v syms j' \<and> (j' < j \<longrightarrow> r < pair_rank v syms j')))"
  using assms
proof (induction v i best syms rule: best_scan.induct)
  case (1 v i best a b syms)
  define r0 where "r0 = bpe_rank v a b"
  define best1 where "best1 = (if r0 \<ge> 0 \<and> r0 < snd best then (Some i, r0) else best)"
  have r0: "pair_rank v (a # b # syms) 0 = r0" by (simp add: pair_rank_def r0_def)
  have sh: "pair_rank v (a # b # syms) (Suc j) = pair_rank v (b # syms) j" for j by (simp add: pair_rank_def)
  have eq: "best_scan v i best (a # b # syms) = best_scan v (i + 1) best1 (b # syms)" by (simp add: Let_def r0_def best1_def)
  obtain k r where kr: "best_scan v (i + 1) best1 (b # syms) = (k, r)" by (cases "best_scan v (i + 1) best1 (b # syms)")
  have "snd best1 \<le> INT_MAX" using 1(2) by (auto simp: best1_def)
  from 1(1) [OF refl this [unfolded best1_def r0_def]] kr
  consider (old) "(k, r) = best1" "\<forall>j. j + 1 < length (b # syms) \<longrightarrow> \<not> (0 \<le> pair_rank v (b # syms) j \<and> pair_rank v (b # syms) j < snd best1)"
    | (new) j where "k = Some (i + 1 + j)" "j + 1 < length (b # syms)" "r = pair_rank v (b # syms) j" "0 \<le> r" "r < snd best1"
        "\<forall>j'. j' + 1 < length (b # syms) \<longrightarrow> 0 \<le> pair_rank v (b # syms) j' \<longrightarrow> r \<le> pair_rank v (b # syms) j' \<and> (j' < j \<longrightarrow> r < pair_rank v (b # syms) j')"
    unfolding best1_def r0_def by auto
  then show ?case
  proof cases
    case old
    show ?thesis
    proof (cases "r0 \<ge> 0 \<and> r0 < snd best")
      case True
      have "\<forall>j'. j' + 1 < length (a # b # syms) \<longrightarrow> 0 \<le> pair_rank v (a # b # syms) j' \<longrightarrow> r0 \<le> pair_rank v (a # b # syms) j'"
      proof (intro allI impI)
        fix j' assume "j' + 1 < length (a # b # syms)" "0 \<le> pair_rank v (a # b # syms) j'"
        then show "r0 \<le> pair_rank v (a # b # syms) j'" using old(2) True by (cases j') (auto simp: r0 sh best1_def not_less)
      qed
      then show ?thesis using old(1) True unfolding eq kr by (auto simp: best1_def r0 intro!: exI [of _ 0])
    next
      case False
      have "\<not> (0 \<le> pair_rank v (a # b # syms) j \<and> pair_rank v (a # b # syms) j < snd best)" if "j + 1 < length (a # b # syms)" for j
        using old(2) False that by (cases j) (auto simp: r0 sh best1_def)
      then show ?thesis using old(1) False unfolding eq kr by (auto simp: best1_def)
    qed
  next
    case new
    have lt: "r < r0" if "0 \<le> r0" using new(5) 1(2) that by (auto simp: best1_def split: if_splits)
    have "r \<le> pair_rank v (a # b # syms) j' \<and> (j' < Suc j \<longrightarrow> r < pair_rank v (a # b # syms) j')"
      if "j' + 1 < length (a # b # syms)" "0 \<le> pair_rank v (a # b # syms) j'" for j'
      using new(6) lt that by (cases j') (auto simp: r0 sh)
    moreover have "r < snd best" using new(5) by (auto simp: best1_def split: if_splits)
    ultimately show ?thesis using new(1-4) unfolding eq kr by (auto simp: sh intro!: exI [of _ "Suc j"])
  qed
qed (auto simp: le_less_Suc_eq)

lemma best_pair_spec:
  "case best_pair v syms of None \<Rightarrow> (\<forall>i. \<not> ranked v syms i) | Some i \<Rightarrow> least_pair v syms i"
  using best_scan_spec [where best = "(None, INT_MAX)" and v = v and i = 0 and syms = syms]
  by (cases "best_scan v 0 (None, INT_MAX) syms") (auto simp: best_pair_def ranked_def least_pair_def)

lemma least_pair_unique:
  assumes "least_pair v syms i" "least_pair v syms j"
  shows "i = j"
proof -
  have "ranked v syms i" "ranked v syms j" using assms by (simp_all add: least_pair_def)
  then have "\<not> i < j" "\<not> j < i" using assms unfolding least_pair_def by force+
  then show ?thesis by simp
qed

text \<open>
  (C19) The merge loop is the BPE merge. From any symbols, the loop ends with exactly the symbols the specification derives: merge the
  leftmost pair of least rank while some adjacent pair has a rank below the largest \<open>int\<close>, then stop.
\<close>

theorem bpe_merge_greedy: "bpe_reduces v syms r \<longleftrightarrow> r = bpe_merge v syms"
proof
  show "r = bpe_merge v syms" if "bpe_reduces v syms r"
    using that
  proof induction
    case (stop syms)
    then show ?case using best_pair_spec [of v syms] by (subst bpe_merge.simps) (auto simp: least_pair_def split: option.splits)
  next
    case (merge syms i r)
    then have "best_pair v syms = Some i"
      using best_pair_spec [of v syms] least_pair_unique by (auto simp: least_pair_def split: option.splits)
    then show ?case using merge by (subst bpe_merge.simps) simp
  qed
next
  have "bpe_reduces v syms (bpe_merge v syms)"
  proof (induction v syms rule: bpe_merge.induct)
    case (1 v syms)
    show ?case
    proof (cases "best_pair v syms")
      case None
      then show ?thesis using best_pair_spec [of v syms] by (subst bpe_merge.simps) (auto intro: bpe_reduces.stop)
    next
      case (Some i)
      then show ?thesis using best_pair_spec [of v syms] 1 by (subst bpe_merge.simps) (auto intro: bpe_reduces.merge)
    qed
  qed
  then show "bpe_reduces v syms r" if "r = bpe_merge v syms" using that by simp
qed

subsection \<open>The tokens of a piece\<close>

text \<open>What loading guarantees of the token table: an id found under a string is the index of that string.\<close>

definition vocab_ok :: "ds4_vocab \<Rightarrow> bool" where
  "vocab_ok v \<longleftrightarrow> table_ok (token_to_id v) \<and> table_ok (merge_rank v)
     \<and> (\<forall>s t. table_map (token_to_id v) s = Some t \<longrightarrow> 0 \<le> t \<and> t < int (length (token v)) \<and> token v ! nat t = s)"

text \<open>What a byte-level vocabulary has besides: a token for every byte, and one for the result of every merge.\<close>

definition vocab_complete :: "ds4_vocab \<Rightarrow> bool" where
  "vocab_complete v \<longleftrightarrow> (\<forall>c. table_map (token_to_id v) (byte_symbol c) \<noteq> None)
     \<and> (\<forall>a b. table_map (merge_rank v) (a @ '' '' @ b) \<noteq> None \<longrightarrow> table_map (token_to_id v) (a @ b) \<noteq> None)"

definition tokens_text :: "ds4_vocab \<Rightarrow> int list \<Rightarrow> string" where
  "tokens_text v ts = concat (map (ds4_token_text v) ts)"

lemma tokens_text_append [simp]: "tokens_text v (a @ b) = tokens_text v a @ tokens_text v b"
  by (simp add: tokens_text_def)

lemma tokens_text_Nil [simp]: "tokens_text v [] = []"
  by (simp add: tokens_text_def)

text \<open>The symbols of a piece at any time: encodings of a partition of it.\<close>

definition partition_of :: "string \<Rightarrow> string list \<Rightarrow> bool" where
  "partition_of piece syms \<longleftrightarrow> (\<exists>ts. syms = map byte_encode ts \<and> concat ts = piece)"

lemma partition_start: "partition_of s (split_symbols (byte_encode s))"
proof -
  have "map byte_symbol s = map byte_encode (map (\<lambda>c. [c]) s)" by (simp add: byte_encode_symbols)
  moreover have "concat (map (\<lambda>c. [c]) s) = s" by (induction s) simp_all
  ultimately show ?thesis unfolding partition_of_def split_symbols_encode by blast
qed

lemma partition_merge:
  assumes "partition_of piece syms" and "i + 1 < length syms"
  shows "partition_of piece (merge_at i syms)"
proof -
  obtain ts where ts: "syms = map byte_encode ts" "concat ts = piece" using assms(1) by (auto simp: partition_of_def)
  have i: "i + 1 < length ts" using assms(2) ts by simp
  then have "ts = take i ts @ ts ! i # ts ! (i + 1) # drop (i + 2) ts"
    by (simp add: Cons_nth_drop_Suc)
  then have "concat ts = concat (take i ts @ ts ! i # ts ! (i + 1) # drop (i + 2) ts)" by (rule arg_cong)
  then have "concat (take i ts @ (ts ! i @ ts ! (i + 1)) # drop (i + 2) ts) = piece" using ts(2) by simp
  moreover have "merge_at i syms = map byte_encode (take i ts @ (ts ! i @ ts ! (i + 1)) # drop (i + 2) ts)"
    using i by (simp add: merge_at_def ts(1) take_map drop_map byte_encode_symbols)
  ultimately show ?thesis unfolding partition_of_def by blast
qed

lemma bpe_merge_partition: "partition_of piece syms \<Longrightarrow> partition_of piece (bpe_merge v syms)"
proof (induction v syms rule: bpe_merge.induct)
  case (1 v syms)
  then show ?case
    by (subst bpe_merge.simps) (auto split: option.splits intro: partition_merge dest: best_pair_bound)
qed

lemma bpe_merge_known:
  assumes "vocab_ok v" and "vocab_complete v" and "\<forall>s \<in> set syms. table_map (token_to_id v) s \<noteq> None"
  shows "\<forall>s \<in> set (bpe_merge v syms). table_map (token_to_id v) s \<noteq> None"
  using assms
proof (induction v syms rule: bpe_merge.induct)
  case (1 v syms)
  show ?case
  proof (cases "best_pair v syms")
    case None
    then show ?thesis using 1(4) by (subst bpe_merge.simps) simp
  next
    case (Some i)
    then have "least_pair v syms i" using best_pair_spec [of v syms] by simp
    then have "0 \<le> bpe_rank v (syms ! i) (syms ! (i + 1))" by (simp add: least_pair_def ranked_def pair_rank_def)
    then have "table_map (merge_rank v) (syms ! i @ '' '' @ syms ! (i + 1)) \<noteq> None"
      using 1(2) by (auto simp: bpe_rank_def vocab_ok_def table_find_map split: option.splits)
    then have "table_map (token_to_id v) (syms ! i @ syms ! (i + 1)) \<noteq> None" using 1(3) unfolding vocab_complete_def by blast
    then have "\<forall>s \<in> set (merge_at i syms). table_map (token_to_id v) s \<noteq> None"
      using 1(4) by (auto simp: merge_at_def dest: in_set_takeD in_set_dropD)
    then show ?thesis using 1(1) [OF Some 1(2,3)] Some by (subst bpe_merge.simps) simp
  qed
qed

lemma emit_symbol_text:
  assumes "vocab_ok v" and "table_map (token_to_id v) (byte_encode t) \<noteq> None"
  shows "tokens_text v (emit_symbol v (byte_encode t)) = t"
proof -
  obtain i where i: "table_map (token_to_id v) (byte_encode t) = Some i" using assms(2) by blast
  then have "0 \<le> i" "i < int (length (token v))" "token v ! nat i = byte_encode t" using assms(1) unfolding vocab_ok_def by blast+
  moreover have "emit_symbol v (byte_encode t) = [i]" using assms(1) i by (simp add: emit_symbol_def vocab_ok_def table_find_map)
  ultimately show ?thesis by (simp add: tokens_text_def ds4_token_text_def encoded_not_special decode_encode)
qed

lemma bpe_emit_piece_text:
  assumes "vocab_ok v" and "vocab_complete v"
  shows "tokens_text v (bpe_emit_piece v piece) = piece"
proof -
  let ?syms = "bpe_merge v (split_symbols (byte_encode piece))"
  obtain ts where ts: "?syms = map byte_encode ts" "concat ts = piece"
    using bpe_merge_partition [OF partition_start] unfolding partition_of_def by blast
  have "\<forall>s \<in> set ?syms. table_map (token_to_id v) s \<noteq> None"
    using assms by (intro bpe_merge_known) (auto simp: split_symbols_encode vocab_complete_def)
  then have "\<forall>t \<in> set ts. tokens_text v (emit_symbol v (byte_encode t)) = t" using emit_symbol_text [OF assms(1)] ts(1) by simp
  then have "map (\<lambda>t. tokens_text v (emit_symbol v (byte_encode t))) ts = ts" by (intro map_idI) blast
  moreover have "tokens_text v (concat (map (emit_symbol v) (map byte_encode ts))) = concat (map (\<lambda>t. tokens_text v (emit_symbol v (byte_encode t))) ts)"
    for ts by (induction ts) simp_all
  ultimately show ?thesis using ts by (simp add: bpe_emit_piece_def)
qed

text \<open>Whatever the vocabulary, a token of a piece is spelled with bytes of the encoded alphabet only.\<close>

definition plain_token :: "ds4_vocab \<Rightarrow> int \<Rightarrow> bool" where
  "plain_token v t \<longleftrightarrow> 0 \<le> t \<and> t < int (length (token v)) \<and> (\<forall>c \<in> set (token v ! nat t). byte c < 0xC8)"

lemma bpe_emit_piece_plain:
  assumes "vocab_ok v" and "t \<in> set (bpe_emit_piece v piece)"
  shows "plain_token v t"
proof -
  let ?syms = "bpe_merge v (split_symbols (byte_encode piece))"
  obtain ts where ts: "?syms = map byte_encode ts" using bpe_merge_partition [OF partition_start] unfolding partition_of_def by blast
  obtain u where u: "t \<in> set (emit_symbol v (byte_encode u))" using assms(2) ts by (auto simp: bpe_emit_piece_def)
  then obtain s where s: "table_map (token_to_id v) s = Some t" "set s \<subseteq> set (byte_encode u)"
    using assms(1) by (auto simp: emit_symbol_def vocab_ok_def table_find_map split: option.splits)
  then show ?thesis using assms(1) byte_encode_low unfolding vocab_ok_def plain_token_def by blast
qed

end
