(* ===== verification/Pretokenizer.thy ===== *)
theory Pretokenizer
  imports Bpe
begin

text \<open>
  Cutting a text into the pieces that are merged separately (\<open>ds4.c\<close>: \<open>bpe_tokenize_text\<close> for DeepSeek models and
  \<open>bpe_tokenize_text_glm4\<close> for GLM models). A position is the rest of the text; each rule of the code is a branch of the
  function that gives the length of the next piece. The theory shows that every piece is non-empty and inside the text, so that the
  loop ends, that the pieces are the text, and that the tokens of a text decode to it.
\<close>

section \<open>Character classes\<close>

definition ascii_alpha :: "nat \<Rightarrow> bool" where
  "ascii_alpha c \<longleftrightarrow> (c \<ge> 65 \<and> c \<le> 90) \<or> (c \<ge> 97 \<and> c \<le> 122)"

definition ascii_digit :: "nat \<Rightarrow> bool" where
  "ascii_digit c \<longleftrightarrow> c \<ge> 48 \<and> c \<le> 57"

definition ascii_space :: "nat \<Rightarrow> bool" where
  "ascii_space c \<longleftrightarrow> c = 32 \<or> c = 9 \<or> c = 10 \<or> c = 13 \<or> c = 11 \<or> c = 12"

definition ascii_newline :: "nat \<Rightarrow> bool" where
  "ascii_newline c \<longleftrightarrow> c = 10 \<or> c = 13"

definition joyai_ascii_punct_symbol :: "nat \<Rightarrow> bool" where
  "joyai_ascii_punct_symbol c \<longleftrightarrow> (c \<ge> 33 \<and> c \<le> 47) \<or> (c \<ge> 58 \<and> c \<le> 64) \<or> (c \<ge> 91 \<and> c \<le> 96) \<or> (c \<ge> 123 \<and> c \<le> 126)"

definition utf8_is_cjk_hira_kata :: "nat \<Rightarrow> bool" where
  "utf8_is_cjk_hira_kata cp \<longleftrightarrow> (cp \<ge> 0x4e00 \<and> cp \<le> 0x9fa5) \<or> (cp \<ge> 0x3040 \<and> cp \<le> 0x309f) \<or> (cp \<ge> 0x30a0 \<and> cp \<le> 0x30ff)"

text \<open>The code point at the front of a text and its length. Bits that the C code masks are taken modulo here.\<close>

definition utf8_peek_one :: "string \<Rightarrow> nat \<times> nat" where
  "utf8_peek_one s =
     (let c0 = byte (hd s); n = next_utf8_char s; at = (\<lambda>i. byte (s ! i) mod 64)
      in (if n = 1 then c0
          else if n = 2 then c0 mod 32 * 64 + at 1
          else if n = 3 then c0 mod 16 * 4096 + at 1 * 64 + at 2
          else c0 mod 8 * 262144 + at 1 * 4096 + at 2 * 64 + at 3, n))"

definition joyai_letter_like_at :: "string \<Rightarrow> bool" where
  "joyai_letter_like_at s \<longleftrightarrow> (if byte (hd s) < 128 then ascii_alpha (byte (hd s)) else True)"

definition joyai_cjk_at :: "string \<Rightarrow> bool" where
  "joyai_cjk_at s \<longleftrightarrow> \<not> byte (hd s) < 128 \<and> utf8_is_cjk_hira_kata (fst (utf8_peek_one s))"

text \<open>The length of the run of characters at the front of a text that satisfy a test made at their position.\<close>

function run_while :: "(string \<Rightarrow> bool) \<Rightarrow> string \<Rightarrow> nat" where
  "run_while P s = (if s \<noteq> [] \<and> P s then next_utf8_char s + run_while P (drop (next_utf8_char s) s) else 0)"
  by pat_completeness auto
termination by (relation "measure (\<lambda>(P, s). length s)") (auto simp: next_utf8_char_pos)

declare run_while.simps [simp del]

definition joyai_consume_letters :: "string \<Rightarrow> nat" where
  "joyai_consume_letters = run_while joyai_letter_like_at"

abbreviation bytes_while :: "(nat \<Rightarrow> bool) \<Rightarrow> string \<Rightarrow> nat" where
  "bytes_while P s \<equiv> length (takeWhile (\<lambda>c. P (byte c)) s)"

section \<open>The JoyAI rules\<close>

text \<open>The rule for white space: up to the last newline of the run; else without its last blank when a word or punctuation follows.\<close>

definition joyai_space_len :: "string \<Rightarrow> nat" where
  "joyai_space_len s =
     (let p = bytes_while ascii_space s;
          last_newline_end = length (dropWhile (\<lambda>c. \<not> ascii_newline (byte c)) (rev (take p s)))
      in if last_newline_end \<noteq> 0 then last_newline_end
         else if p < length s \<and> p > 1 \<and> (joyai_letter_like_at (drop p s) \<or> joyai_ascii_punct_symbol (byte (s ! p))) then p - 1
         else p)"

definition punct_newlines :: "string \<Rightarrow> nat" where
  "punct_newlines s =
     (let p = bytes_while joyai_ascii_punct_symbol s in p + bytes_while ascii_newline (drop p s))"

definition joyai_rule_len :: "string \<Rightarrow> nat" where
  "joyai_rule_len s =
     (let c = byte (hd s); more = length s > 1; c1 = byte (s ! 1)
      in if ascii_digit c then bytes_while ascii_digit (take 3 s)
         else if joyai_cjk_at s then run_while joyai_cjk_at s
         else if joyai_ascii_punct_symbol c \<and> more \<and> ascii_alpha c1 then 1 + bytes_while ascii_alpha (tl s)
         else if joyai_letter_like_at s then joyai_consume_letters s
         else if \<not> ascii_newline c \<and> \<not> joyai_ascii_punct_symbol c \<and> more \<and> joyai_letter_like_at (tl s)
         then 1 + joyai_consume_letters (tl s)
         else if c = 32 \<and> more \<and> joyai_ascii_punct_symbol c1 then 1 + punct_newlines (tl s)
         else if joyai_ascii_punct_symbol c then punct_newlines s
         else if ascii_space c then joyai_space_len s
         else next_utf8_char s)"

definition joyai_piece_len :: "string \<Rightarrow> nat" where
  "joyai_piece_len s = (if joyai_rule_len s = 0 then next_utf8_char s else joyai_rule_len s)"

section \<open>The GLM4 rules\<close>

record glm4_char_info =
  gc_cp :: nat
  gc_next :: nat
  gc_valid :: bool
  is_letter :: bool
  is_number :: bool
  is_whitespace :: bool

definition in_ranges :: "(nat \<times> nat) list \<Rightarrow> nat \<Rightarrow> bool" where
  "in_ranges rs cp \<longleftrightarrow> list_ex (\<lambda>(lo, hi). cp \<ge> lo \<and> cp \<le> hi) rs"

definition glm4_unicode_whitespace :: "nat \<Rightarrow> bool" where
  "glm4_unicode_whitespace cp \<longleftrightarrow>
     (if cp < 128 then ascii_space cp
      else in_ranges [(0x85, 0x85), (0xa0, 0xa0), (0x1680, 0x1680), (0x2000, 0x200a), (0x2028, 0x2028), (0x2029, 0x2029),
             (0x202f, 0x202f), (0x205f, 0x205f), (0x3000, 0x3000)] cp)"

definition glm4_unicode_number :: "nat \<Rightarrow> bool" where
  "glm4_unicode_number cp \<longleftrightarrow>
     (if cp < 128 then ascii_digit cp
      else in_ranges [(0x0660, 0x0669), (0x06f0, 0x06f9), (0x07c0, 0x07c9), (0x0966, 0x096f), (0x09e6, 0x09ef), (0x0a66, 0x0a6f),
             (0x0ae6, 0x0aef), (0x0b66, 0x0b6f), (0x0be6, 0x0bef), (0x0c66, 0x0c6f), (0x0ce6, 0x0cef), (0x0d66, 0x0d6f),
             (0x0de6, 0x0def), (0x0e50, 0x0e59), (0x0ed0, 0x0ed9), (0x0f20, 0x0f29), (0x1040, 0x1049), (0x1090, 0x1099),
             (0x17e0, 0x17e9), (0x1810, 0x1819), (0xff10, 0xff19)] cp)"

definition glm4_unicode_punct_symbol :: "nat \<Rightarrow> bool" where
  "glm4_unicode_punct_symbol cp \<longleftrightarrow>
     (if cp < 128 then joyai_ascii_punct_symbol cp
      else in_ranges [(0x00a1, 0x00a9), (0x00ab, 0x00ac), (0x00ae, 0x00b1), (0x00b4, 0x00b4), (0x00b6, 0x00b8), (0x00bb, 0x00bb),
             (0x00bf, 0x00bf), (0x00d7, 0x00d7), (0x00f7, 0x00f7), (0x02c2, 0x02df), (0x02e5, 0x02eb), (0x02ed, 0x02ff),
             (0x0375, 0x037e), (0x0384, 0x0385), (0x0387, 0x0387), (0x055a, 0x055f), (0x0589, 0x058a), (0x05be, 0x05c0),
             (0x05c3, 0x05c3), (0x05c6, 0x05c7), (0x0609, 0x060a), (0x060c, 0x060d), (0x061b, 0x061b), (0x061e, 0x061f),
             (0x066a, 0x066a), (0x066d, 0x066d), (0x06d4, 0x06d4), (0x2000, 0x206f), (0x20a0, 0x20cf), (0x2100, 0x214f),
             (0x2190, 0x23ff), (0x2460, 0x24ff), (0x2500, 0x2775), (0x2794, 0x2bff), (0x2e00, 0x2e7f), (0x3000, 0x303f),
             (0xfd3e, 0xfd3f), (0xfe10, 0xfe6f), (0xff01, 0xff0f), (0xff1a, 0xff20), (0xff3b, 0xff40), (0xff5b, 0xff65),
             (0x1f000, 0x1faff)] cp)"

text \<open>The character at the front of a text; \<open>gc_next\<close> is relative to it. Past the end every field is zero, as after \<open>memset\<close>.\<close>

definition glm4_char_at :: "string \<Rightarrow> glm4_char_info" where
  "glm4_char_at s =
     (if s = [] then \<lparr>gc_cp = 0, gc_next = 0, gc_valid = False, is_letter = False, is_number = False, is_whitespace = False\<rparr>
      else case utf8_peek_one s of
             (cp, n) \<Rightarrow>
               let ws = glm4_unicode_whitespace cp; num = glm4_unicode_number cp
               in \<lparr>gc_cp = cp, gc_next = n, gc_valid = True,
                   is_letter = (if cp < 128 then ascii_alpha cp else \<not> ws \<and> \<not> num \<and> \<not> glm4_unicode_punct_symbol cp),
                   is_number = num, is_whitespace = ws\<rparr>)"

definition ascii_tolower_cp :: "nat \<Rightarrow> nat" where
  "ascii_tolower_cp cp = (if cp \<ge> 65 \<and> cp \<le> 90 then cp + 32 else cp)"

text \<open>The length of a contraction (\<open>'s\<close>, \<open>'re\<close>, ...) at the front, 0 when there is none.\<close>

definition glm4_contraction_len :: "string \<Rightarrow> nat" where
  "glm4_contraction_len s =
     (let cur = glm4_char_at s
      in if gc_cp cur = 39 \<and> gc_next cur < length s
         then let nx = glm4_char_at (drop (gc_next cur) s); n1 = ascii_tolower_cp (gc_cp nx); p2 = gc_next cur + gc_next nx
              in if n1 = 115 \<or> n1 = 116 \<or> n1 = 109 \<or> n1 = 100 then p2
                 else if gc_valid nx \<and> p2 < length s
                 then let nx2 = glm4_char_at (drop p2 s); n2 = ascii_tolower_cp (gc_cp nx2)
                      in if (n1 = 114 \<and> n2 = 101) \<or> (n1 = 118 \<and> n2 = 101) \<or> (n1 = 108 \<and> n2 = 108) then p2 + gc_next nx2 else 0
                 else 0
         else 0)"

text \<open>At most three digits.\<close>

fun glm4_digits_len :: "nat \<Rightarrow> string \<Rightarrow> nat" where
  "glm4_digits_len 0 s = 0"
| "glm4_digits_len (Suc k) s =
     (let c = glm4_char_at s
      in if s \<noteq> [] \<and> gc_valid c \<and> is_number c then gc_next c + glm4_digits_len k (drop (gc_next c) s) else 0)"

abbreviation glm4_newline :: "glm4_char_info \<Rightarrow> bool" where
  "glm4_newline c \<equiv> gc_cp c = 13 \<or> gc_cp c = 10"

abbreviation glm4_symbol :: "glm4_char_info \<Rightarrow> bool" where
  "glm4_symbol c \<equiv> gc_valid c \<and> \<not> is_whitespace c \<and> \<not> is_letter c \<and> \<not> is_number c"

text \<open>The run of white space at the front: its length, the end of its last newline, the start of its last character, its count.\<close>

function glm4_space_scan :: "string \<Rightarrow> nat \<Rightarrow> nat \<Rightarrow> nat \<Rightarrow> nat \<Rightarrow> nat \<times> nat \<times> nat \<times> nat" where
  "glm4_space_scan s p nl_end ws_start nspace =
     (let c = glm4_char_at s; n = next_utf8_char s
      in if s \<noteq> [] \<and> is_whitespace c
         then glm4_space_scan (drop n s) (p + n) (if glm4_newline c then p + n else nl_end) p (nspace + 1)
         else (p, nl_end, ws_start, nspace))"
  by pat_completeness auto
termination by (relation "measure (\<lambda>(s, _). length s)") (auto simp: next_utf8_char_pos)

declare glm4_space_scan.simps [simp del]

definition glm4_space_len :: "string \<Rightarrow> nat" where
  "glm4_space_len s =
     (case glm4_space_scan s 0 0 0 0 of
        (p, nl_end, ws_start, nspace) \<Rightarrow>
          if nl_end \<noteq> 0 then nl_end else if nspace > 1 \<and> p < length s then ws_start else p)"

definition glm4_piece_len :: "string \<Rightarrow> nat" where
  "glm4_piece_len s =
     (let cur = glm4_char_at s; nx = glm4_char_at (drop (gc_next cur) s);
          pp = (if gc_cp cur = 32 then gc_next cur else 0); punct = (if gc_cp cur = 32 then nx else cur)
      in if glm4_contraction_len s \<noteq> 0 then glm4_contraction_len s
         else if \<not> (glm4_newline cur \<or> is_number cur) \<and> (is_letter cur \<or> is_letter nx)
         then gc_next cur + run_while (\<lambda>t. is_letter (glm4_char_at t)) (drop (gc_next cur) s)
         else if is_number cur then glm4_digits_len 3 s
         else if glm4_symbol punct
         then let p = pp + run_while (\<lambda>t. glm4_symbol (glm4_char_at t)) (drop pp s)
              in p + run_while (\<lambda>t. glm4_newline (glm4_char_at t)) (drop p s)
         else if is_whitespace cur then glm4_space_len s
         else if gc_next cur = 0 then next_utf8_char s
         else gc_next cur)"

section \<open>Every piece is inside the text and not empty\<close>

lemma run_while_le: "run_while P s \<le> length s"
proof (induction P s rule: run_while.induct)
  case (1 P s)
  then show ?case using next_utf8_char_le [of s] by (subst run_while.simps) auto
qed

lemma run_while_pos: "s \<noteq> [] \<Longrightarrow> P s \<Longrightarrow> 0 < run_while P s"
  using next_utf8_char_pos [of s] by (subst run_while.simps) simp

lemma run_while_drop_le: "n \<le> length s \<Longrightarrow> n + run_while P (drop n s) \<le> length s"
  using run_while_le [of P "drop n s"] by simp

lemma bytes_while_drop_le: "n \<le> length s \<Longrightarrow> n + bytes_while P (drop n s) \<le> length s"
  using length_takeWhile_le [of "\<lambda>c. P (byte c)" "drop n s"] by simp

lemma punct_newlines_le: "punct_newlines s \<le> length s"
  using bytes_while_drop_le [OF length_takeWhile_le] by (simp add: punct_newlines_def Let_def)

lemma joyai_space_len_le: "joyai_space_len s \<le> length s"
proof -
  have "length (dropWhile (\<lambda>c. \<not> ascii_newline (byte c)) (rev (take (bytes_while ascii_space s) s))) \<le> length s"
    using length_dropWhile_le [of "\<lambda>c. \<not> ascii_newline (byte c)" "rev (take (bytes_while ascii_space s) s)"] by simp
  then show ?thesis using length_takeWhile_le [of "\<lambda>c. ascii_space (byte c)" s] by (auto simp: joyai_space_len_def Let_def)
qed

lemma joyai_rule_len_le:
  assumes "s \<noteq> []"
  shows "joyai_rule_len s \<le> length s"
proof -
  obtain c r where s: "s = c # r" using assms by (cases s) auto
  have "bytes_while ascii_digit (take 3 s) \<le> length s"
    using length_takeWhile_le [of "\<lambda>c. ascii_digit (byte c)" "take 3 s"] by simp
  then show ?thesis
    using run_while_le [of joyai_cjk_at s] run_while_le [of joyai_letter_like_at s] run_while_le [of joyai_letter_like_at r]
      length_takeWhile_le [of "\<lambda>c. ascii_alpha (byte c)" r] punct_newlines_le [of s] punct_newlines_le [of r]
      joyai_space_len_le [of s] next_utf8_char_le [OF assms]
    unfolding joyai_rule_len_def Let_def joyai_consume_letters_def by (auto simp: s simp del: length_takeWhile_le)
qed

lemma joyai_piece_len_bounds: "s \<noteq> [] \<Longrightarrow> 0 < joyai_piece_len s \<and> joyai_piece_len s \<le> length s"
  using joyai_rule_len_le [of s] next_utf8_char_pos [of s] next_utf8_char_le [of s] by (simp add: joyai_piece_len_def)

lemma glm4_char_simps:
  assumes "s \<noteq> []"
  shows "gc_next (glm4_char_at s) = next_utf8_char s" "gc_valid (glm4_char_at s)"
  using assms by (simp_all add: glm4_char_at_def utf8_peek_one_def Let_def)

lemma glm4_char_Nil: "\<not> is_letter (glm4_char_at [])" "\<not> is_number (glm4_char_at [])" "\<not> is_whitespace (glm4_char_at [])" "\<not> gc_valid (glm4_char_at [])"
  "gc_next (glm4_char_at []) = 0"
  by (simp_all add: glm4_char_at_def)

lemma glm4_next_le: "gc_next (glm4_char_at s) \<le> length s"
  by (cases "s = []") (simp_all add: glm4_char_simps glm4_char_Nil next_utf8_char_le)

lemma glm4_next_drop: "n \<le> length s \<Longrightarrow> n + gc_next (glm4_char_at (drop n s)) \<le> length s"
  using glm4_next_le [of "drop n s"] by simp

lemma glm4_contraction_le: "glm4_contraction_len s \<le> length s"
proof -
  let ?n1 = "gc_next (glm4_char_at s)"
  let ?n2 = "?n1 + gc_next (glm4_char_at (drop ?n1 s))"
  have "?n2 \<le> length s" by (rule glm4_next_drop) (rule glm4_next_le)
  moreover from this have "?n2 + gc_next (glm4_char_at (drop ?n2 s)) \<le> length s" by (rule glm4_next_drop)
  ultimately show ?thesis by (simp add: glm4_contraction_len_def Let_def)
qed

lemma glm4_digits_le: "glm4_digits_len k s \<le> length s"
proof (induction k arbitrary: s)
  case (Suc k)
  then show ?case using Suc [of "drop (gc_next (glm4_char_at s)) s"] glm4_next_le [of s] by (auto simp: Let_def)
qed simp

lemma glm4_space_scan_bounds:
  assumes "glm4_space_scan s p nl ws ns = (p', nl', ws', ns')" and "nl \<le> p" and "ns = 0 \<longrightarrow> ws = 0 \<and> p = 0" and "1 < ns \<longrightarrow> 0 < ws" and "ws \<le> p" and "ns \<noteq> 0 \<longrightarrow> 0 < p"
  shows "p' \<le> p + length s \<and> nl' \<le> p' \<and> ws' \<le> p' \<and> (1 < ns' \<longrightarrow> 0 < ws') \<and> (s \<noteq> [] \<and> is_whitespace (glm4_char_at s) \<longrightarrow> 0 < p')
    \<and> p \<le> p'"
  using assms
proof (induction s p nl ws ns rule: glm4_space_scan.induct)
  case (1 s p nl ws ns)
  let ?c = "glm4_char_at s" and ?n = "next_utf8_char s"
  show ?case
  proof (cases "s \<noteq> [] \<and> is_whitespace ?c")
    case True
    then have n: "0 < ?n" "?n \<le> length s" using next_utf8_char_pos next_utf8_char_le by auto
    have step: "glm4_space_scan (drop ?n s) (p + ?n) (if glm4_newline ?c then p + ?n else nl) p (ns + 1) = (p', nl', ws', ns')"
      using 1(2) True by (subst (asm) glm4_space_scan.simps) (simp add: Let_def)
    have "p' \<le> p + ?n + length (drop ?n s) \<and> nl' \<le> p' \<and> ws' \<le> p' \<and> (1 < ns' \<longrightarrow> 0 < ws')
        \<and> (drop ?n s \<noteq> [] \<and> is_whitespace (glm4_char_at (drop ?n s)) \<longrightarrow> 0 < p') \<and> p + ?n \<le> p'"
      by (rule 1(1) [OF refl refl True step]) (use 1(3-7) n in auto)
    then show ?thesis using n by auto
  next
    case False
    then have "(p', nl', ws', ns') = (p, nl, ws, ns)" using 1(2) by (subst (asm) glm4_space_scan.simps) (simp add: Let_def split: if_splits)
    then show ?thesis using False 1(3-7) by auto
  qed
qed

lemma glm4_space_len_bounds:
  assumes "s \<noteq> []" and "is_whitespace (glm4_char_at s)"
  shows "0 < glm4_space_len s \<and> glm4_space_len s \<le> length s"
proof -
  obtain p nl ws ns where r: "glm4_space_scan s 0 0 0 0 = (p, nl, ws, ns)" by (cases "glm4_space_scan s 0 0 0 0") auto
  from glm4_space_scan_bounds [OF r] assms show ?thesis by (auto simp: glm4_space_len_def r)
qed

lemma glm4_piece_len_bounds:
  assumes "s \<noteq> []"
  shows "0 < glm4_piece_len s \<and> glm4_piece_len s \<le> length s"
proof -
  let ?cur = "glm4_char_at s" and ?n = "gc_next (glm4_char_at s)"
  have n: "0 < ?n" "?n \<le> length s" using assms glm4_char_simps next_utf8_char_pos next_utf8_char_le by auto
  have digits: "0 < glm4_digits_len 3 s" if "is_number ?cur" using that assms n glm4_char_simps by (simp add: eval_nat_numeral Let_def)
  define sym where "sym pp = pp + run_while (\<lambda>t. glm4_symbol (glm4_char_at t)) (drop pp s)" for pp
  have sym: "sym pp \<le> length s" if "pp \<le> length s" for pp unfolding sym_def by (rule run_while_drop_le) (rule that)
  have sym0: "0 < sym 0" if "glm4_symbol ?cur" using run_while_pos [of s "\<lambda>t. glm4_symbol (glm4_char_at t)"] assms that by (simp add: sym_def)
  have symn: "0 < sym ?n" using n by (simp add: sym_def)
  have nl: "sym pp + run_while (\<lambda>t. glm4_newline (glm4_char_at t)) (drop (sym pp) s) \<le> length s" if "pp \<le> length s" for pp
    by (rule run_while_drop_le) (rule sym [OF that])
  show ?thesis
    using n digits sym0 symn nl [of 0] nl [of ?n] glm4_contraction_le [of s] glm4_digits_le [of 3 s] glm4_space_len_bounds [OF assms]
      run_while_drop_le [OF n(2), of "\<lambda>t. is_letter (glm4_char_at t)"]
    unfolding glm4_piece_len_def Let_def sym_def by auto
qed

section \<open>The pieces are the text\<close>

text \<open>What the two loops have in common: a rule for the length of the next piece, and the loop that applies it.\<close>

locale cutter =
  fixes len :: "string \<Rightarrow> nat" and cut :: "string \<Rightarrow> string list"
  assumes len_bounds: "s \<noteq> [] \<Longrightarrow> 0 < len s \<and> len s \<le> length s"
    and cut_eq: "cut s = (if s = [] then [] else take (len s) s # cut (drop (len s) s))"
begin

lemma cut_concat: "concat (cut s) = s"
proof (induction "length s" arbitrary: s rule: less_induct)
  case less
  show ?case
  proof (cases "s = []")
    case False
    then have "concat (cut (drop (len s) s)) = drop (len s) s" using len_bounds by (intro less) simp
    then show ?thesis using False by (subst cut_eq) simp
  qed (simp add: cut_eq [of "[]"])
qed

lemma cut_nonempty: "p \<in> set (cut s) \<Longrightarrow> p \<noteq> []"
proof (induction "length s" arbitrary: s rule: less_induct)
  case less
  then have s: "s \<noteq> []" by (auto simp: cut_eq [of "[]"])
  from less.prems s have "p = take (len s) s \<or> p \<in> set (cut (drop (len s) s))" by (subst (asm) cut_eq) simp
  then show ?case using less.hyps [of "drop (len s) s"] len_bounds [OF s] s by auto
qed

text \<open>Emitting the pieces one after the other gives tokens that spell the text.\<close>

lemma emit_all_text:
  assumes "\<And>p. tokens_text v (emit p) = p"
  shows "tokens_text v (concat (map emit (cut s))) = s"
proof -
  have "tokens_text v (concat (map emit ps)) = concat ps" for ps by (induction ps) (simp_all add: assms)
  then show ?thesis by (simp add: cut_concat)
qed

end

function joyai_pieces :: "string \<Rightarrow> string list" where
  "joyai_pieces s = (if s = [] then [] else take (joyai_piece_len s) s # joyai_pieces (drop (joyai_piece_len s) s))"
  by pat_completeness auto
termination by (relation "measure length") (auto simp: joyai_piece_len_bounds)

function glm4_pieces :: "string \<Rightarrow> string list" where
  "glm4_pieces s = (if s = [] then [] else take (glm4_piece_len s) s # glm4_pieces (drop (glm4_piece_len s) s))"
  by pat_completeness auto
termination by (relation "measure length") (auto simp: glm4_piece_len_bounds)

declare joyai_pieces.simps [simp del] glm4_pieces.simps [simp del]

interpretation joyai: cutter joyai_piece_len joyai_pieces
  by unfold_locales (simp_all add: joyai_piece_len_bounds joyai_pieces.simps)

interpretation glm4: cutter glm4_piece_len glm4_pieces
  by unfold_locales (simp_all add: glm4_piece_len_bounds glm4_pieces.simps)

datatype ds4_model_family = DS4_MODEL_FAMILY_DEEPSEEK4 | DS4_MODEL_FAMILY_GLM_DSA

definition bpe_tokenize_text_glm4 :: "ds4_vocab \<Rightarrow> string \<Rightarrow> int list" where
  "bpe_tokenize_text_glm4 v s = concat (map (bpe_emit_piece v) (glm4_pieces s))"

definition bpe_tokenize_text :: "ds4_model_family \<Rightarrow> ds4_vocab \<Rightarrow> string \<Rightarrow> int list" where
  "bpe_tokenize_text fam v s =
     (if fam = DS4_MODEL_FAMILY_GLM_DSA then bpe_tokenize_text_glm4 v s else concat (map (bpe_emit_piece v) (joyai_pieces s)))"

lemma bpe_text_lossless:
  assumes "vocab_ok v" and "vocab_complete v"
  shows "tokens_text v (bpe_tokenize_text fam v s) = s"
  using joyai.emit_all_text [of v "bpe_emit_piece v" s] glm4.emit_all_text [of v "bpe_emit_piece v" s] bpe_emit_piece_text [OF assms]
  by (simp add: bpe_tokenize_text_def bpe_tokenize_text_glm4_def)

lemma bpe_text_plain: "vocab_ok v \<Longrightarrow> t \<in> set (bpe_tokenize_text fam v s) \<Longrightarrow> plain_token v t"
  using bpe_emit_piece_plain [of v t] by (auto simp: bpe_tokenize_text_def bpe_tokenize_text_glm4_def split: if_splits)

text \<open>
  Both pre-tokenizers cut a text into consecutive, non-empty pieces: their concatenation is the text, byte for byte, for every
  input, valid UTF-8 or not. No rule stays at its position, so neither loop runs forever, and no rule looks past the end.
\<close>

lemma pretokenizers_partition:
  "concat (joyai_pieces s) = s \<and> concat (glm4_pieces s) = s \<and> [] \<notin> set (joyai_pieces s) \<and> [] \<notin> set (glm4_pieces s)"
  using joyai.cut_concat glm4.cut_concat joyai.cut_nonempty glm4.cut_nonempty by blast

end
