(* ===== verification/Gguf.thy ===== *)
theory Gguf
  imports Kv_Codec
begin

text \<open>
  The model file reader of \<open>ds4.c\<close>: the byte cursor, the metadata values of a GGUF file with the nesting ceiling,
  the metadata table, the tensor directory with its offsets, and the typed lookups. The mapped file is the list of its
  bytes; the system calls that map it fail before anything is read and are not modelled. A string of the file is its
  position and length, as in the code, which never copies it. Positions and counts are natural numbers, with
  \<open>mod 2 ^ 64\<close> written where a C expression can wrap. A call of \<open>ds4_die\<close> is the error with its message; the
  cursor's own error text is the message with the byte position.
\<close>

section \<open>The cursor\<close>

record ds4_str =
  str_pos :: nat
  str_len :: nat

definition str_text :: "bytes \<Rightarrow> ds4_str \<Rightarrow> string" where
  "str_text f s = bytes_str (take (str_len s) (drop (str_pos s) f))"

definition ds4_streq :: "bytes \<Rightarrow> ds4_str \<Rightarrow> string \<Rightarrow> bool" where
  "ds4_streq f s z \<longleftrightarrow> str_len s = length z \<and> str_text f s = z"

type_synonym 'a result = "string + 'a"

definition and_then :: "'a result \<Rightarrow> ('a \<Rightarrow> 'b result) \<Rightarrow> 'b result" where
  "and_then r k = (case r of Inl e \<Rightarrow> Inl e | Inr x \<Rightarrow> k x)"

lemma and_then_simps [simp]: "and_then (Inl e) k = Inl e" "and_then (Inr x) k = k x"
  by (simp_all add: and_then_def)

lemma and_then_Inr: "and_then r k = Inr y \<longleftrightarrow> (\<exists>x. r = Inr x \<and> k x = Inr y)"
  by (cases r) simp_all

definition cursor_error :: "string \<Rightarrow> nat \<Rightarrow> string" where
  "cursor_error msg pos = msg @ '' at byte '' @ show_nat pos"

definition cursor_has :: "bytes \<Rightarrow> nat \<Rightarrow> nat \<Rightarrow> unit result" where
  "cursor_has f pos n =
     (if n > length f \<or> pos > length f - n then Inl (cursor_error ''truncated GGUF file'' pos) else Inr ())"

definition cursor_read :: "bytes \<Rightarrow> nat \<Rightarrow> nat \<Rightarrow> (bytes \<times> nat) result" where
  "cursor_read f pos n = and_then (cursor_has f pos n) (\<lambda>_. Inr (take n (drop pos f), pos + n))"

definition cursor_skip :: "bytes \<Rightarrow> nat \<Rightarrow> nat \<Rightarrow> nat result" where
  "cursor_skip f pos n = and_then (cursor_has f pos n) (\<lambda>_. Inr (pos + n))"

definition cursor_u32 :: "bytes \<Rightarrow> nat \<Rightarrow> (u32 \<times> nat) result" where
  "cursor_u32 f pos = and_then (cursor_read f pos 4) (\<lambda>(b, p). Inr (ds4_kvstore_le_get32 b, p))"

definition cursor_u64 :: "bytes \<Rightarrow> nat \<Rightarrow> (u64 \<times> nat) result" where
  "cursor_u64 f pos = and_then (cursor_read f pos 8) (\<lambda>(b, p). Inr (kv_le_get64 b, p))"

definition cursor_string :: "bytes \<Rightarrow> nat \<Rightarrow> (ds4_str \<times> nat) result" where
  "cursor_string f pos =
     and_then (cursor_u64 f pos) (\<lambda>(len, p).
     and_then (cursor_has f p (unat len)) (\<lambda>_.
     Inr (\<lparr>str_pos = p, str_len = unat len\<rparr>, p + unat len)))"

definition align_up :: "nat \<Rightarrow> nat \<Rightarrow> nat" where
  "align_up val alignment =
     (let rem = val mod alignment in if rem = 0 then val else (val + alignment - rem) mod 2 ^ 64)"

section \<open>Metadata values\<close>

abbreviation "GGUF_VALUE_UINT8 \<equiv> 0 :: u32"
abbreviation "GGUF_VALUE_INT8 \<equiv> 1 :: u32"
abbreviation "GGUF_VALUE_UINT16 \<equiv> 2 :: u32"
abbreviation "GGUF_VALUE_INT16 \<equiv> 3 :: u32"
abbreviation "GGUF_VALUE_UINT32 \<equiv> 4 :: u32"
abbreviation "GGUF_VALUE_INT32 \<equiv> 5 :: u32"
abbreviation "GGUF_VALUE_FLOAT32 \<equiv> 6 :: u32"
abbreviation "GGUF_VALUE_BOOL \<equiv> 7 :: u32"
abbreviation "GGUF_VALUE_STRING \<equiv> 8 :: u32"
abbreviation "GGUF_VALUE_ARRAY \<equiv> 9 :: u32"
abbreviation "GGUF_VALUE_UINT64 \<equiv> 10 :: u32"
abbreviation "GGUF_VALUE_INT64 \<equiv> 11 :: u32"
abbreviation "GGUF_VALUE_FLOAT64 \<equiv> 12 :: u32"

definition scalar_value_size :: "u32 \<Rightarrow> nat" where
  "scalar_value_size ty =
     (if ty \<in> {GGUF_VALUE_UINT8, GGUF_VALUE_INT8, GGUF_VALUE_BOOL} then 1
      else if ty \<in> {GGUF_VALUE_UINT16, GGUF_VALUE_INT16} then 2
      else if ty \<in> {GGUF_VALUE_UINT32, GGUF_VALUE_INT32, GGUF_VALUE_FLOAT32} then 4
      else if ty \<in> {GGUF_VALUE_UINT64, GGUF_VALUE_INT64, GGUF_VALUE_FLOAT64} then 8
      else 0)"

text \<open>The loop over the items of an array.\<close>

primrec skip_items :: "(nat \<Rightarrow> nat result) \<Rightarrow> nat \<Rightarrow> nat \<Rightarrow> nat result" where
  "skip_items item 0 pos = Inr pos"
| "skip_items item (Suc n) pos = and_then (item pos) (skip_items item n)"

text \<open>\<open>skip_value\<close> by the number of levels that are left: the code's \<open>depth\<close> is at most 8, so nine levels from the top.\<close>

primrec skip_value_levels :: "nat \<Rightarrow> bytes \<Rightarrow> u32 \<Rightarrow> nat \<Rightarrow> nat result" where
  "skip_value_levels 0 f ty pos = Inl (cursor_error ''metadata array nesting is too deep'' pos)"
| "skip_value_levels (Suc k) f ty pos =
     (let scalar = scalar_value_size ty
      in if scalar \<noteq> 0 then cursor_skip f pos scalar
         else if ty = GGUF_VALUE_STRING then and_then (cursor_string f pos) (\<lambda>(_, p). Inr p)
         else if ty = GGUF_VALUE_ARRAY
         then and_then (cursor_u32 f pos) (\<lambda>(item_type, p1).
              and_then (cursor_u64 f p1) (\<lambda>(len, p2).
              let item_size = scalar_value_size item_type
              in if item_size \<noteq> 0
                 then if unat len > UINT64_MAX div item_size then Inl (cursor_error ''metadata array is too large'' p2)
                      else cursor_skip f p2 (unat len * item_size)
                 else skip_items (skip_value_levels k f item_type) (unat len) p2))
         else Inl (cursor_error ''unknown GGUF metadata type'' pos))"

definition skip_value :: "bytes \<Rightarrow> nat \<Rightarrow> u32 \<Rightarrow> nat \<Rightarrow> nat result" where
  "skip_value f pos ty depth = skip_value_levels (9 - depth) f ty pos"

section \<open>Tensor types\<close>

definition gguf_types :: "(nat \<times> string \<times> nat \<times> nat) list" where
  "gguf_types =
     [(0, ''f32'', 1, 4), (1, ''f16'', 1, 2), (2, ''q4_0'', 32, 18), (3, ''q4_1'', 32, 20), (6, ''q5_0'', 32, 22),
      (7, ''q5_1'', 32, 24), (8, ''q8_0'', 32, 34), (9, ''q8_1'', 32, 40), (10, ''q2_k'', 256, 84),
      (11, ''q3_k'', 256, 110), (12, ''q4_k'', 256, 144), (13, ''q5_k'', 256, 176), (14, ''q6_k'', 256, 210),
      (15, ''q8_k'', 256, 292), (16, ''iq2_xxs'', 256, 66), (17, ''iq2_xs'', 256, 74), (18, ''iq3_xxs'', 256, 98),
      (19, ''iq1_s'', 256, 110), (20, ''iq4_nl'', 256, 50), (21, ''iq3_s'', 256, 110), (22, ''iq2_s'', 256, 82),
      (23, ''iq4_xs'', 256, 136), (24, ''i8'', 1, 1), (25, ''i16'', 1, 2), (26, ''i32'', 1, 4), (27, ''i64'', 1, 8),
      (28, ''f64'', 1, 8), (29, ''iq1_m'', 256, 56), (30, ''bf16'', 1, 2), (39, ''mxfp4'', 32, 17)]"

definition tensor_type :: "u32 \<Rightarrow> (string \<times> nat \<times> nat) option" where
  "tensor_type ty = map_of gguf_types (unat ty)"

definition tensor_type_name :: "u32 \<Rightarrow> string" where
  "tensor_type_name ty = (case tensor_type ty of Some (name, _) \<Rightarrow> name | None \<Rightarrow> ''unknown'')"

definition tensor_nbytes :: "u32 \<Rightarrow> nat \<Rightarrow> nat option" where
  "tensor_nbytes ty elements =
     (case tensor_type ty of
        None \<Rightarrow> None
      | Some (_, block_elems, block_bytes) \<Rightarrow>
          if block_elems = 0 then None
          else let blocks = (elements + block_elems - 1) mod 2 ^ 64 div block_elems
               in if blocks > UINT64_MAX div block_bytes then None else Some (blocks * block_bytes))"

section \<open>The model tables\<close>

record ds4_kv =
  kv_key :: ds4_str
  kv_type :: u32
  value_pos :: nat

record ds4_tensor =
  tn_name :: ds4_str
  tn_ndim :: nat
  tn_dim :: "nat list"
  tn_type :: u32
  rel_offset :: nat
  abs_offset :: nat
  tn_elements :: nat
  tn_bytes :: nat

record ds4_model =
  m_map :: bytes
  m_version :: u32
  n_kv :: nat
  n_tensors :: nat
  m_alignment :: nat
  tensor_data_pos :: nat
  max_tensor_bytes :: nat
  m_kv :: "ds4_kv list"
  m_tensors :: "ds4_tensor list"

definition metadata_alignment :: "bytes \<Rightarrow> ds4_str \<Rightarrow> u32 \<Rightarrow> nat \<Rightarrow> nat \<Rightarrow> nat" where
  "metadata_alignment f key ty pos alignment =
     (if ds4_streq f key ''general.alignment'' \<and> ty = GGUF_VALUE_UINT32
      then case cursor_u32 f pos of
             Inr (a, _) \<Rightarrow> if a \<noteq> 0 then unat a else alignment
           | Inl _ \<Rightarrow> alignment
      else alignment)"

primrec parse_kvs :: "bytes \<Rightarrow> nat \<Rightarrow> nat \<Rightarrow> nat \<Rightarrow> (ds4_kv list \<times> nat \<times> nat) result" where
  "parse_kvs f 0 alignment pos = Inr ([], alignment, pos)"
| "parse_kvs f (Suc n) alignment pos =
     and_then (cursor_string f pos) (\<lambda>(key, p1).
     and_then (cursor_u32 f p1) (\<lambda>(ty, p2).
     and_then (skip_value f p2 ty 0) (\<lambda>p3.
     and_then (parse_kvs f n (metadata_alignment f key ty p2 alignment) p3) (\<lambda>(kvs, al, p4).
     Inr (\<lparr>kv_key = key, kv_type = ty, value_pos = p2\<rparr> # kvs, al, p4)))))"

definition parse_metadata :: "ds4_model \<Rightarrow> nat \<Rightarrow> (ds4_model \<times> nat) result" where
  "parse_metadata m pos =
     (if n_kv m > length (m_map m) - pos then Inl ''GGUF metadata count exceeds file size''
      else and_then (parse_kvs (m_map m) (n_kv m) 32 pos) (\<lambda>(kvs, al, p).
           Inr (m\<lparr>m_kv := kvs, m_alignment := al\<rparr>, p)))"

definition DS4_MAX_DIMS :: nat where "DS4_MAX_DIMS = 8"

primrec read_dims :: "bytes \<Rightarrow> nat \<Rightarrow> nat \<Rightarrow> nat \<Rightarrow> (nat list \<times> nat \<times> nat) result" where
  "read_dims f 0 elements pos = Inr ([], elements, pos)"
| "read_dims f (Suc n) elements pos =
     and_then (cursor_u64 f pos) (\<lambda>(dim, p1).
     if unat dim \<noteq> 0 \<and> elements > UINT64_MAX div unat dim then Inl ''tensor element count overflow''
     else and_then (read_dims f n (elements * unat dim) p1) (\<lambda>(dims, el, p2). Inr (unat dim # dims, el, p2)))"

definition read_tensor :: "bytes \<Rightarrow> nat \<Rightarrow> (ds4_tensor \<times> nat) result" where
  "read_tensor f pos =
     and_then (cursor_string f pos) (\<lambda>(name, p1).
     and_then (cursor_u32 f p1) (\<lambda>(ndim, p2).
     if ndim = 0 \<or> unat ndim > DS4_MAX_DIMS then Inl ''tensor has an unsupported number of dimensions''
     else and_then (read_dims f (unat ndim) 1 p2) (\<lambda>(dims, elements, p3).
          and_then (cursor_u32 f p3) (\<lambda>(ty, p4).
          and_then (cursor_u64 f p4) (\<lambda>(rel, p5).
          Inr (\<lparr>tn_name = name, tn_ndim = unat ndim, tn_dim = dims, tn_type = ty, rel_offset = unat rel, abs_offset = 0,
                tn_elements = elements, tn_bytes = (case tensor_nbytes ty elements of Some b \<Rightarrow> b | None \<Rightarrow> 0)\<rparr>, p5))))))"

primrec read_tensors :: "bytes \<Rightarrow> nat \<Rightarrow> nat \<Rightarrow> (ds4_tensor list \<times> nat) result" where
  "read_tensors f 0 pos = Inr ([], pos)"
| "read_tensors f (Suc n) pos =
     and_then (read_tensor f pos) (\<lambda>(t, p1).
     and_then (read_tensors f n p1) (\<lambda>(ts, p2). Inr (t # ts, p2)))"

primrec place_tensors :: "nat \<Rightarrow> nat \<Rightarrow> nat \<Rightarrow> ds4_tensor list \<Rightarrow> (ds4_tensor list \<times> nat) result" where
  "place_tensors fsize data_pos mx [] = Inr ([], mx)"
| "place_tensors fsize data_pos mx (t # ts) =
     (if rel_offset t > UINT64_MAX - data_pos then Inl ''tensor offset overflow''
      else let off = data_pos + rel_offset t
           in if tn_bytes t \<noteq> 0 \<and> (off > fsize \<or> tn_bytes t > fsize - off) then Inl ''tensor points outside GGUF file''
              else and_then (place_tensors fsize data_pos (if tn_bytes t > mx then tn_bytes t else mx) ts)
                     (\<lambda>(ts1, mx1). Inr (t\<lparr>abs_offset := off\<rparr> # ts1, mx1)))"

definition parse_tensors :: "ds4_model \<Rightarrow> nat \<Rightarrow> ds4_model result" where
  "parse_tensors m pos =
     (if n_tensors m > length (m_map m) - pos then Inl ''GGUF tensor count exceeds file size''
      else and_then (read_tensors (m_map m) (n_tensors m) pos) (\<lambda>(ts, p).
           let data_pos = align_up p (m_alignment m)
           in and_then (place_tensors (length (m_map m)) data_pos (max_tensor_bytes m) ts) (\<lambda>(ts1, mx).
              Inr (m\<lparr>m_tensors := ts1, tensor_data_pos := data_pos, max_tensor_bytes := mx\<rparr>))))"

definition DS4_GGUF_MAGIC :: u32 where "DS4_GGUF_MAGIC = 0x46554747"

definition model_open :: "bytes \<Rightarrow> ds4_model result" where
  "model_open f =
     (if length f < 32 then Inl ''model file is too small to be GGUF''
      else and_then (cursor_u32 f 0) (\<lambda>(magic, p1).
           if magic \<noteq> DS4_GGUF_MAGIC then Inl ''model is not a GGUF file''
           else and_then (cursor_u32 f p1) (\<lambda>(version, p2).
                and_then (cursor_u64 f p2) (\<lambda>(nt, p3).
                and_then (cursor_u64 f p3) (\<lambda>(nk, p4).
                if version \<noteq> 3 then Inl ''only GGUF v3 is supported''
                else and_then (parse_metadata \<lparr>m_map = f, m_version = version, n_kv = unat nk, n_tensors = unat nt, m_alignment = 0,
                       tensor_data_pos = 0, max_tensor_bytes = 0, m_kv = [], m_tensors = []\<rparr> p4) (\<lambda>(m, p5).
                     parse_tensors m p5))))))"

section \<open>Typed lookups\<close>

definition model_find_kv :: "ds4_model \<Rightarrow> string \<Rightarrow> ds4_kv option" where
  "model_find_kv m key = find (\<lambda>kv. ds4_streq (m_map m) (kv_key kv) key) (m_kv m)"

definition model_find_tensor :: "ds4_model \<Rightarrow> string \<Rightarrow> ds4_tensor option" where
  "model_find_tensor m name = find (\<lambda>t. ds4_streq (m_map m) (tn_name t) name) (m_tensors m)"

definition ok_value :: "('a \<times> nat) result \<Rightarrow> 'a option" where
  "ok_value r = (case r of Inr (x, _) \<Rightarrow> Some x | Inl _ \<Rightarrow> None)"

definition model_get_string :: "ds4_model \<Rightarrow> string \<Rightarrow> ds4_str option" where
  "model_get_string m key =
     (case model_find_kv m key of
        Some kv \<Rightarrow> if kv_type kv \<noteq> GGUF_VALUE_STRING then None else ok_value (cursor_string (m_map m) (value_pos kv))
      | None \<Rightarrow> None)"

definition model_get_u32 :: "ds4_model \<Rightarrow> string \<Rightarrow> u32 option" where
  "model_get_u32 m key =
     (case model_find_kv m key of
        Some kv \<Rightarrow> if kv_type kv \<noteq> GGUF_VALUE_UINT32 then None else ok_value (cursor_u32 (m_map m) (value_pos kv))
      | None \<Rightarrow> None)"

definition model_get_u64_compat :: "ds4_model \<Rightarrow> string \<Rightarrow> u64 option" where
  "model_get_u64_compat m key =
     (case model_find_kv m key of
        Some kv \<Rightarrow>
          if kv_type kv = GGUF_VALUE_UINT64 then ok_value (cursor_u64 (m_map m) (value_pos kv))
          else if kv_type kv = GGUF_VALUE_UINT32 then map_option ucast (ok_value (cursor_u32 (m_map m) (value_pos kv)))
          else None
      | None \<Rightarrow> None)"

text \<open>An id is read as an unsigned or signed integer of either width and refused when it is not a non-negative \<open>int\<close>.\<close>

definition model_get_token_id :: "ds4_model \<Rightarrow> string \<Rightarrow> int option" where
  "model_get_token_id m key =
     (case model_find_kv m key of
        None \<Rightarrow> None
      | Some kv \<Rightarrow>
          let u32v = ok_value (cursor_u32 (m_map m) (value_pos kv)); u64v = ok_value (cursor_u64 (m_map m) (value_pos kv));
              fits = (\<lambda>x. if x < 0 \<or> x > INT_MAX then None else Some x)
          in if kv_type kv = GGUF_VALUE_UINT32 then Option.bind u32v (\<lambda>v. fits (uint v))
             else if kv_type kv = GGUF_VALUE_INT32 then Option.bind u32v (\<lambda>v. fits (sint v))
             else if kv_type kv = GGUF_VALUE_UINT64 then Option.bind u64v (\<lambda>v. fits (uint v))
             else if kv_type kv = GGUF_VALUE_INT64 then Option.bind u64v (\<lambda>v. fits (sint v))
             else None)"

definition model_get_bool :: "ds4_model \<Rightarrow> string \<Rightarrow> bool option" where
  "model_get_bool m key =
     (case model_find_kv m key of
        Some kv \<Rightarrow> if kv_type kv \<noteq> GGUF_VALUE_BOOL then None
                   else map_option (\<lambda>b. hd b \<noteq> 0) (ok_value (cursor_read (m_map m) (value_pos kv) 1))
      | None \<Rightarrow> None)"

record ds4_array_ref =
  arr_type :: u32
  arr_len :: nat
  data_pos :: nat

definition model_get_array :: "ds4_model \<Rightarrow> string \<Rightarrow> ds4_array_ref option" where
  "model_get_array m key =
     (case model_find_kv m key of
        Some kv \<Rightarrow>
          if kv_type kv \<noteq> GGUF_VALUE_ARRAY then None
          else (case and_then (cursor_u32 (m_map m) (value_pos kv)) (\<lambda>(ty, p1).
                     and_then (cursor_u64 (m_map m) p1) (\<lambda>(len, p2).
                     Inr \<lparr>arr_type = ty, arr_len = unat len, data_pos = p2\<rparr>)) of
                  Inr a \<Rightarrow> Some a | Inl _ \<Rightarrow> None)
      | None \<Rightarrow> None)"

section \<open>Nothing is read outside the file\<close>

text \<open>Each read of the cursor that succeeds stays inside the file and moves forward by what it read.\<close>

lemma cursor_has_Inr [simp]: "cursor_has f pos n = Inr u \<longleftrightarrow> pos + n \<le> length f"
  by (auto simp: cursor_has_def)

lemma cursor_skip_Inr [simp]: "cursor_skip f pos n = Inr p \<longleftrightarrow> pos + n \<le> length f \<and> p = pos + n"
  by (auto simp: cursor_skip_def and_then_Inr)

lemma cursor_read_Inr: "cursor_read f pos n = Inr (b, p) \<longleftrightarrow> pos + n \<le> length f \<and> p = pos + n \<and> b = take n (drop pos f)"
  by (auto simp: cursor_read_def and_then_Inr)

lemma cursor_u32_Inr:
  "cursor_u32 f pos = Inr (v, p) \<longleftrightarrow> pos + 4 \<le> length f \<and> p = pos + 4 \<and> v = ds4_kvstore_le_get32 (take 4 (drop pos f))"
  by (auto simp: cursor_u32_def and_then_Inr cursor_read_Inr)

lemma cursor_u64_Inr:
  "cursor_u64 f pos = Inr (v, p) \<longleftrightarrow> pos + 8 \<le> length f \<and> p = pos + 8 \<and> v = kv_le_get64 (take 8 (drop pos f))"
  by (auto simp: cursor_u64_def and_then_Inr cursor_read_Inr)

definition str_inside :: "bytes \<Rightarrow> ds4_str \<Rightarrow> bool" where
  "str_inside f s \<longleftrightarrow> str_pos s + str_len s \<le> length f"

lemma cursor_string_Inr:
  "cursor_string f pos = Inr (s, p) \<Longrightarrow> pos + 8 \<le> p \<and> p \<le> length f \<and> str_inside f s \<and> p = str_pos s + str_len s"
  by (auto simp: cursor_string_def and_then_Inr cursor_u64_Inr str_inside_def)

lemma skip_items_Inr:
  assumes "\<And>p q. item p = Inr q \<Longrightarrow> p \<le> length f \<Longrightarrow> p \<le> q \<and> q \<le> length f"
  shows "skip_items item n pos = Inr p \<Longrightarrow> pos \<le> length f \<Longrightarrow> pos \<le> p \<and> p \<le> length f"
proof (induction n arbitrary: pos)
  case (Suc n)
  from Suc.prems(1) obtain q where q: "item pos = Inr q" "skip_items item n q = Inr p" by (auto simp: and_then_Inr)
  with assms Suc.prems(2) have "pos \<le> q \<and> q \<le> length f" by blast
  with Suc.IH [OF q(2)] show ?case by auto
qed simp

lemma skip_value_levels_Inr: "skip_value_levels k f ty pos = Inr p \<Longrightarrow> pos \<le> length f \<Longrightarrow> pos \<le> p \<and> p \<le> length f"
proof (induction k arbitrary: ty pos p)
  case (Suc k)
  note IH = Suc.IH
  show ?case
  proof (cases "scalar_value_size ty = 0 \<and> ty = GGUF_VALUE_ARRAY")
    case True
    with Suc.prems(1) obtain it p1 len p2 where hdr: "cursor_u32 f pos = Inr (it, p1)" "cursor_u64 f p1 = Inr (len, p2)"
      and rest: "(let item_size = scalar_value_size it
              in if item_size \<noteq> 0
                 then if unat (len :: u64) > UINT64_MAX div item_size then Inl (cursor_error ''metadata array is too large'' p2)
                      else cursor_skip f p2 (unat len * item_size)
                 else skip_items (skip_value_levels k f it) (unat len) p2) = Inr p"
      by (auto simp: and_then_Inr)
    have p2: "pos \<le> p2" "p2 \<le> length f" using hdr by (auto simp: cursor_u32_Inr cursor_u64_Inr)
    show ?thesis
    proof (cases "scalar_value_size it = 0")
      case True
      have "skip_items (skip_value_levels k f it) (unat len) p2 = Inr p" using rest True by simp
      then have "p2 \<le> p \<and> p \<le> length f" using p2(2) by (rule skip_items_Inr [rotated]) (rule IH)
      then show ?thesis using p2(1) by simp
    next
      case False
      then show ?thesis using rest p2 by (auto simp: Let_def split: if_splits)
    qed
  next
    case False
    then show ?thesis using Suc.prems
      by (auto simp: Let_def and_then_Inr split: if_splits dest!: cursor_string_Inr)
  qed
qed simp

lemma skip_value_Inr: "skip_value f pos ty d = Inr p \<Longrightarrow> pos \<le> length f \<Longrightarrow> pos \<le> p \<and> p \<le> length f"
  by (simp add: skip_value_def skip_value_levels_Inr)

lemma parse_kvs_Inr:
  assumes "parse_kvs f n al pos = Inr (kvs, al', p)" and "pos \<le> length f"
  shows "length kvs = n \<and> (\<forall>kv \<in> set kvs. str_inside f (kv_key kv) \<and> value_pos kv \<le> length f) \<and> pos \<le> p \<and> p \<le> length f
    \<and> (0 < al \<longrightarrow> 0 < al') \<and> (al < 2 ^ 32 \<longrightarrow> al' < 2 ^ 32)"
  using assms
proof (induction n arbitrary: al pos kvs)
  case (Suc n)
  from Suc.prems(1) obtain key p1 ty p2 p3 kvs1 where s:
    "cursor_string f pos = Inr (key, p1)" "cursor_u32 f p1 = Inr (ty, p2)" "skip_value f p2 ty 0 = Inr p3"
    "parse_kvs f n (metadata_alignment f key ty p2 al) p3 = Inr (kvs1, al', p)"
    "kvs = \<lparr>kv_key = key, kv_type = ty, value_pos = p2\<rparr> # kvs1"
    by (auto simp: and_then_Inr)
  have p2: "pos \<le> p2" "p2 \<le> length f" using cursor_string_Inr [OF s(1)] s(2) by (auto simp: cursor_u32_Inr)
  have p3: "p2 \<le> p3" "p3 \<le> length f" using skip_value_Inr [OF s(3) p2(2)] by auto
  have al: "0 < al \<longrightarrow> 0 < metadata_alignment f key ty p2 al" "al < 2 ^ 32 \<longrightarrow> metadata_alignment f key ty p2 al < 2 ^ 32"
    using unsigned_less [where 'b = 32 and 'a = nat]
    by (auto simp: metadata_alignment_def unat_gt_0 split: sum.splits if_splits)
  from Suc.IH [OF s(4) p3(2)] show ?case using s(5) p2 p3 al cursor_string_Inr [OF s(1)] by auto
qed simp

definition tensor_shape_ok :: "bytes \<Rightarrow> ds4_tensor \<Rightarrow> bool" where
  "tensor_shape_ok f t \<longleftrightarrow>
     str_inside f (tn_name t) \<and> 1 \<le> tn_ndim t \<and> tn_ndim t \<le> 8 \<and> length (tn_dim t) = tn_ndim t
     \<and> tn_elements t = prod_list (tn_dim t) \<and> tn_elements t \<le> UINT64_MAX
     \<and> tn_bytes t = (case tensor_nbytes (tn_type t) (tn_elements t) of Some b \<Rightarrow> b | None \<Rightarrow> 0)"

lemma read_dims_Inr:
  assumes "read_dims f n el pos = Inr (dims, el', p)" and "pos \<le> length f" and "el \<le> UINT64_MAX"
  shows "length dims = n \<and> el' = el * prod_list dims \<and> el' \<le> UINT64_MAX \<and> pos \<le> p \<and> p \<le> length f"
  using assms
proof (induction n arbitrary: el pos dims)
  case (Suc n)
  from Suc.prems(1) obtain d p1 dims1 where s: "cursor_u64 f pos = Inr (d, p1)" "\<not> (unat d \<noteq> 0 \<and> el > UINT64_MAX div unat d)"
    "read_dims f n (el * unat d) p1 = Inr (dims1, el', p)" "dims = unat d # dims1"
    by (auto simp: and_then_Inr split: if_splits)
  have "el * unat d \<le> UINT64_MAX"
  proof (cases "unat d = 0")
    case False
    then have "el \<le> UINT64_MAX div unat d" using s(2) by simp
    then show ?thesis using False by (simp add: less_eq_div_iff_mult_less_eq)
  qed simp
  with Suc.IH [OF s(3)] s(1,4) show ?case by (auto simp: cursor_u64_Inr)
qed simp

lemma read_tensor_Inr:
  assumes "read_tensor f pos = Inr (t, p)" and "pos \<le> length f"
  shows "tensor_shape_ok f t \<and> pos \<le> p \<and> p \<le> length f"
proof -
  from assms(1) obtain name p1 ndim p2 dims el p3 ty p4 rel where s:
    "cursor_string f pos = Inr (name, p1)" "cursor_u32 f p1 = Inr (ndim, p2)" "\<not> (ndim = 0 \<or> unat ndim > DS4_MAX_DIMS)"
    "read_dims f (unat ndim) 1 p2 = Inr (dims, el, p3)" "cursor_u32 f p3 = Inr (ty, p4)" "cursor_u64 f p4 = Inr (rel, p)"
    and t: "t = \<lparr>tn_name = name, tn_ndim = unat ndim, tn_dim = dims, tn_type = ty, rel_offset = unat rel, abs_offset = 0,
                tn_elements = el, tn_bytes = (case tensor_nbytes ty el of Some b \<Rightarrow> b | None \<Rightarrow> 0)\<rparr>"
    by (auto simp: read_tensor_def and_then_Inr split: if_splits)
  have p2: "pos \<le> p2" "p2 \<le> length f" using cursor_string_Inr [OF s(1)] s(2) by (auto simp: cursor_u32_Inr)
  have "0 < unat ndim" using s(3) by (simp add: unat_gt_0)
  then show ?thesis
    using read_dims_Inr [OF s(4) p2(2)] cursor_string_Inr [OF s(1)] s(3,5,6) p2
    by (auto simp: t tensor_shape_ok_def DS4_MAX_DIMS_def cursor_u32_Inr cursor_u64_Inr)
qed

lemma read_tensors_Inr:
  assumes "read_tensors f n pos = Inr (ts, p)" and "pos \<le> length f"
  shows "length ts = n \<and> (\<forall>t \<in> set ts. tensor_shape_ok f t) \<and> pos \<le> p \<and> p \<le> length f"
  using assms
proof (induction n arbitrary: pos ts)
  case (Suc n)
  from Suc.prems(1) obtain t p1 ts1 where s: "read_tensor f pos = Inr (t, p1)" "read_tensors f n p1 = Inr (ts1, p)" "ts = t # ts1"
    by (auto simp: and_then_Inr)
  from read_tensor_Inr [OF s(1) Suc.prems(2)] Suc.IH [OF s(2)] s(3) show ?case by auto
qed simp

definition tensor_placed :: "nat \<Rightarrow> nat \<Rightarrow> nat \<Rightarrow> ds4_tensor \<Rightarrow> bool" where
  "tensor_placed fsize dpos mx t \<longleftrightarrow>
     abs_offset t = dpos + rel_offset t \<and> abs_offset t \<le> UINT64_MAX \<and> tn_bytes t \<le> mx
     \<and> (tn_bytes t \<noteq> 0 \<longrightarrow> abs_offset t + tn_bytes t \<le> fsize)"

lemma place_tensors_Inr:
  assumes "place_tensors fsize dpos mx ts = Inr (ts', mx')" and "dpos \<le> UINT64_MAX"
  shows "mx \<le> mx' \<and> (\<forall>t \<in> set ts'. tensor_placed fsize dpos mx' t) \<and> length ts' = length ts
    \<and> (\<forall>t' \<in> set ts'. \<exists>t \<in> set ts. t' = t\<lparr>abs_offset := dpos + rel_offset t\<rparr>)"
  using assms(1)
proof (induction ts arbitrary: mx ts')
  case (Cons t ts)
  define mx1 where "mx1 = (if tn_bytes t > mx then tn_bytes t else mx)"
  from Cons.prems obtain ts1 where s: "\<not> rel_offset t > UINT64_MAX - dpos"
    "\<not> (tn_bytes t \<noteq> 0 \<and> (dpos + rel_offset t > fsize \<or> tn_bytes t > fsize - (dpos + rel_offset t)))"
    "place_tensors fsize dpos mx1 ts = Inr (ts1, mx')" "ts' = t\<lparr>abs_offset := dpos + rel_offset t\<rparr> # ts1"
    by (auto simp: Let_def and_then_Inr mx1_def split: if_splits)
  from Cons.IH [OF s(3)] show ?case using s(1,2,4) assms(2) by (auto simp: tensor_placed_def mx1_def split: if_splits)
qed simp

lemma align_up_spec:
  assumes "0 < al" and "v + al \<le> 2 ^ 64"
  shows "v \<le> align_up v al" "align_up v al < v + al" "align_up v al mod al = 0"
proof -
  have r: "v mod al < al" using assms(1) by simp
  have eq: "align_up v al = (if v mod al = 0 then v else v + al - v mod al)"
    using assms r by (auto simp: align_up_def Let_def)
  show "v \<le> align_up v al" "align_up v al < v + al" using assms r unfolding eq by auto
  have "v + al - v mod al = (v div al + 1) * al" using r by (metis add.commute add_diff_assoc2 distrib_right minus_mod_eq_div_mult mod_less_eq_dividend nat_mult_1)
  then show "align_up v al mod al = 0" by (simp add: eq)
qed


section \<open>The size of a tensor\<close>

lemma gguf_types_range: "tensor_type ty = Some (name, be, bb) \<Longrightarrow> 1 \<le> be \<and> be \<le> 256 \<and> 1 \<le> bb \<and> bb \<le> 292"
proof -
  assume "tensor_type ty = Some (name, be, bb)"
  then have "(unat ty, name, be, bb) \<in> set gguf_types" unfolding tensor_type_def by (rule map_of_SomeD)
  moreover have "\<forall>(i, nm, e, b) \<in> set gguf_types. 1 \<le> e \<and> e \<le> 256 \<and> 1 \<le> b \<and> b \<le> 292" by (simp add: gguf_types_def)
  ultimately show ?thesis by blast
qed

text \<open>
  Below the top 255 element counts the byte size is exact: the blocks that cover the elements, times their size, or a refusal
  when that leaves 64 bits. At the top the rounding up wraps, no block is counted, and the tensor has no bytes to check.
\<close>

lemma tensor_nbytes_exact:
  assumes "tensor_type ty = Some (name, be, bb)" and "elements + 255 \<le> UINT64_MAX"
  shows "tensor_nbytes ty elements
    = (if (elements + be - 1) div be * bb \<le> UINT64_MAX then Some ((elements + be - 1) div be * bb) else None)"
proof -
  have r: "1 \<le> be" "be \<le> 256" "1 \<le> bb" using gguf_types_range [OF assms(1)] by auto
  then have "(elements + be - 1) mod 2 ^ 64 = elements + be - 1" using assms(2) by (intro mod_less) simp
  moreover have "(elements + be - 1) div be > UINT64_MAX div bb \<longleftrightarrow> \<not> (elements + be - 1) div be * bb \<le> UINT64_MAX"
    using r(3) by (simp add: less_eq_div_iff_mult_less_eq [symmetric] not_le)
  ultimately show ?thesis using r assms(1) by (simp add: tensor_nbytes_def Let_def)
qed

lemma tensor_nbytes_wraps: "tensor_nbytes 2 UINT64_MAX = Some 0"
  by (simp add: tensor_nbytes_def tensor_type_def gguf_types_def)

section \<open>Reading back a written file\<close>

text \<open>\<open>stands f pos b\<close>: the bytes \<open>b\<close> are in the file at \<open>pos\<close>.\<close>

definition stands :: "bytes \<Rightarrow> nat \<Rightarrow> bytes \<Rightarrow> bool" where
  "stands f pos b \<longleftrightarrow> pos + length b \<le> length f \<and> take (length b) (drop pos f) = b"

lemma stands_append: "stands f pos (a @ b) \<longleftrightarrow> stands f pos a \<and> stands f (pos + length a) b"
proof
  assume "stands f pos (a @ b)"
  then have l: "pos + length a + length b \<le> length f" and t: "take (length a + length b) (drop pos f) = a @ b"
    by (auto simp: stands_def)
  have t': "take (length a) (drop pos f) @ take (length b) (drop (pos + length a) f) = a @ b"
    using t l by (simp add: take_add add.commute)
  moreover have "length (take (length a) (drop pos f)) = length a" using l by simp
  ultimately show "stands f pos a \<and> stands f (pos + length a) b" using l by (simp add: stands_def)
next
  assume "stands f pos a \<and> stands f (pos + length a) b"
  then show "stands f pos (a @ b)" by (simp add: stands_def take_add add.commute add.assoc)
qed

lemma stands_whole: "stands f 0 f"
  by (simp add: stands_def)

lemma stands_le: "stands f pos b \<Longrightarrow> pos + length b \<le> length f"
  by (simp add: stands_def)

lemma cursor_u32_stands: "stands f pos (ds4_kvstore_le_put32 v) \<Longrightarrow> cursor_u32 f pos = Inr (v, pos + 4)"
  using le32.get_put [of v "[]"] by (simp add: stands_def cursor_u32_Inr le32.put_width)

lemma cursor_u64_stands: "stands f pos (kv_le_put64 v) \<Longrightarrow> cursor_u64 f pos = Inr (v, pos + 8)"
  using le64.get_put [of v "[]"] by (simp add: stands_def cursor_u64_Inr le64.put_width)

definition put_str :: "string \<Rightarrow> bytes" where
  "put_str s = kv_le_put64 (of_nat (length s)) @ str_bytes s"

lemma put_str_length [simp]: "length (put_str s) = 8 + length s"
  by (simp add: put_str_def le64.put_width)

lemma cursor_string_stands:
  assumes "stands f pos (put_str s)" and "length s < 2 ^ 64"
  shows "cursor_string f pos = Inr (\<lparr>str_pos = pos + 8, str_len = length s\<rparr>, pos + 8 + length s)"
    and "str_text f \<lparr>str_pos = pos + 8, str_len = length s\<rparr> = s"
proof -
  have u: "stands f pos (kv_le_put64 (of_nat (length s)))" and b: "stands f (pos + 8) (str_bytes s)"
    using assms(1) by (auto simp: put_str_def stands_append le64.put_width)
  show "cursor_string f pos = Inr (\<lparr>str_pos = pos + 8, str_len = length s\<rparr>, pos + 8 + length s)"
    using cursor_u64_stands [OF u] stands_le [OF b] unat_of_nat_u64 [OF assms(2)] by (simp add: cursor_string_def cursor_has_def)
  show "str_text f \<lparr>str_pos = pos + 8, str_len = length s\<rparr> = s"
    using b by (simp add: stands_def str_text_def)
qed

text \<open>The values a file may hold and their bytes. A scalar is its type code and raw bytes.\<close>

datatype gval = GScalar u32 bytes | GString string | GArray u32 "gval list"

fun val_type :: "gval \<Rightarrow> u32" where
  "val_type (GScalar ty b) = ty"
| "val_type (GString s) = GGUF_VALUE_STRING"
| "val_type (GArray ty vs) = GGUF_VALUE_ARRAY"

fun put_val :: "gval \<Rightarrow> bytes" where
  "put_val (GScalar ty b) = b"
| "put_val (GString s) = put_str s"
| "put_val (GArray ty vs) = ds4_kvstore_le_put32 ty @ kv_le_put64 (of_nat (length vs)) @ concat (map put_val vs)"

text \<open>Well-formed with at most so many levels of nesting: sizes fit, and the items of an array have its item type.\<close>

fun gval_ok :: "nat \<Rightarrow> gval \<Rightarrow> bool" where
  "gval_ok 0 v \<longleftrightarrow> False"
| "gval_ok (Suc k) (GScalar ty b) \<longleftrightarrow> scalar_value_size ty \<noteq> 0 \<and> length b = scalar_value_size ty"
| "gval_ok (Suc k) (GString s) \<longleftrightarrow> length s < 2 ^ 64"
| "gval_ok (Suc k) (GArray ty vs) \<longleftrightarrow>
     length vs * 8 < 2 ^ 64 \<and> (\<forall>v \<in> set vs. val_type v = ty) \<and> (if scalar_value_size ty \<noteq> 0 then (\<forall>v \<in> set vs. length (put_val v) = scalar_value_size ty)
       else (\<forall>v \<in> set vs. gval_ok k v))"

lemma scalar_value_size_simps [simp]: "scalar_value_size GGUF_VALUE_STRING = 0" "scalar_value_size GGUF_VALUE_ARRAY = 0"
  by (simp_all add: scalar_value_size_def)

lemma scalar_value_size_le: "scalar_value_size ty \<le> 8"
  by (simp add: scalar_value_size_def)

lemma skip_items_stands:
  assumes "stands f pos (concat (map put_val vs))"
    and "\<And>v p. v \<in> set vs \<Longrightarrow> stands f p (put_val v) \<Longrightarrow> item p = Inr (p + length (put_val v))"
  shows "skip_items item (length vs) pos = Inr (pos + length (concat (map put_val vs)))"
  using assms
proof (induction vs arbitrary: pos)
  case (Cons v vs)
  have "item pos = Inr (pos + length (put_val v))" using Cons.prems by (simp add: stands_append)
  moreover have "skip_items item (length vs) (pos + length (put_val v)) = Inr (pos + length (put_val v) + length (concat (map put_val vs)))"
    using Cons.prems by (intro Cons.IH) (auto simp: stands_append)
  ultimately show ?case by (simp add: add.assoc)
qed simp

lemma skip_value_stands:
  "gval_ok k v \<Longrightarrow> stands f pos (put_val v) \<Longrightarrow> skip_value_levels k f (val_type v) pos = Inr (pos + length (put_val v))"
proof (induction k v arbitrary: pos rule: gval_ok.induct)
  case (2 k ty b)
  then show ?case using stands_le [OF 2(2)] by simp
next
  case (3 k s)
  then show ?case using cursor_string_stands [of f pos s] by (simp add: put_str_def le64.put_width)
next
  case (4 k ty vs)
  from 4(3) have p: "stands f pos (ds4_kvstore_le_put32 ty)" "stands f (pos + 4) (kv_le_put64 (of_nat (length vs)))"
    "stands f (pos + 4 + 8) (concat (map put_val vs))"
    by (auto simp: stands_append le32.put_width le64.put_width)
  have len: "unat (of_nat (length vs) :: u64) = length vs" using 4(2) by (intro unat_of_nat_u64) simp
  note hdr = cursor_u32_stands [OF p(1)] cursor_u64_stands [OF p(2)] len
  show ?case
  proof (cases "scalar_value_size ty = 0")
    case True
    then have "skip_items (skip_value_levels k f ty) (length vs) (pos + 4 + 8) = Inr (pos + 4 + 8 + length (concat (map put_val vs)))"
      using 4(2) by (intro skip_items_stands [OF p(3)]) (use 4(1) in auto)
    then show ?thesis using True hdr by (simp add: le32.put_width le64.put_width)
  next
    case False
    then have sz: "length (concat (map put_val vs)) = length vs * scalar_value_size ty"
      using 4(2) by (simp add: length_concat comp_def sum_list_triv cong: map_cong)
    have "length vs * 8 \<le> UINT64_MAX" using 4(2) by simp
    then have "length vs * scalar_value_size ty \<le> UINT64_MAX" using mult_le_mono2 [OF scalar_value_size_le] by (rule order_trans [rotated])
    then have "\<not> length vs > UINT64_MAX div scalar_value_size ty" using False by (simp add: not_less less_eq_div_iff_mult_less_eq)
    then show ?thesis using False hdr sz stands_le [OF p(3)] by (simp add: le32.put_width le64.put_width)
  qed
qed simp

definition put_kv :: "string \<times> gval \<Rightarrow> bytes" where
  "put_kv kv = put_str (fst kv) @ ds4_kvstore_le_put32 (val_type (snd kv)) @ put_val (snd kv)"

definition kv_ok :: "string \<times> gval \<Rightarrow> bool" where
  "kv_ok kv \<longleftrightarrow> length (fst kv) < 2 ^ 64 \<and> gval_ok 9 (snd kv)"

fun file_alignment :: "nat \<Rightarrow> (string \<times> gval) list \<Rightarrow> nat" where
  "file_alignment al [] = al"
| "file_alignment al ((key, v) # kvs) =
     file_alignment (if key = ''general.alignment'' \<and> val_type v = GGUF_VALUE_UINT32 \<and> ds4_kvstore_le_get32 (put_val v) \<noteq> 0
                     then unat (ds4_kvstore_le_get32 (put_val v)) else al) kvs"

definition kv_holds :: "bytes \<Rightarrow> string \<times> gval \<Rightarrow> ds4_kv \<Rightarrow> bool" where
  "kv_holds f kv k \<longleftrightarrow> str_text f (kv_key k) = fst kv \<and> str_len (kv_key k) = length (fst kv) \<and> kv_type k = val_type (snd kv)
     \<and> stands f (value_pos k) (put_val (snd kv))"

lemma u32_value: "gval_ok k v \<Longrightarrow> val_type v = GGUF_VALUE_UINT32 \<Longrightarrow> length (put_val v) = 4"
  by (cases k; cases v) (auto simp: scalar_value_size_def)

lemma gval_ok_lengths: "gval_ok k (GString s) \<Longrightarrow> length s < 2 ^ 64" "gval_ok k (GArray ty vs) \<Longrightarrow> length vs < 2 ^ 64"
  by (cases k; simp)+

lemma metadata_alignment_stands:
  assumes "kv_ok (key, v)" and "stands f p (put_val v)" and "str_text f s = key" "str_len s = length key"
  shows "metadata_alignment f s (val_type v) p al
    = (if key = ''general.alignment'' \<and> val_type v = GGUF_VALUE_UINT32 \<and> ds4_kvstore_le_get32 (put_val v) \<noteq> 0
       then unat (ds4_kvstore_le_get32 (put_val v)) else al)"
proof (cases "key = ''general.alignment'' \<and> val_type v = GGUF_VALUE_UINT32")
  case True
  then have "length (put_val v) = 4" using assms(1) u32_value by (auto simp: kv_ok_def)
  then have "cursor_u32 f p = Inr (ds4_kvstore_le_get32 (put_val v), p + 4)" using assms(2) by (simp add: stands_def cursor_u32_Inr)
  then show ?thesis using True assms(3,4) by (simp add: metadata_alignment_def ds4_streq_def)
next
  case False
  then show ?thesis using assms(3,4) by (auto simp: metadata_alignment_def ds4_streq_def)
qed

lemma parse_kvs_stands:
  assumes "list_all kv_ok kvs" and "stands f pos (concat (map put_kv kvs))"
  shows "\<exists>l. parse_kvs f (length kvs) al pos = Inr (l, file_alignment al kvs, pos + length (concat (map put_kv kvs))) \<and> list_all2 (kv_holds f) kvs l"
  using assms
proof (induction kvs arbitrary: al pos)
  case (Cons kv kvs)
  obtain key v where kv: "kv = (key, v)" by (cases kv)
  let ?s = "\<lparr>str_pos = pos + 8, str_len = length key\<rparr>" and ?p1 = "pos + 8 + length key"
  have ok: "length key < 2 ^ 64" "gval_ok 9 v" "kv_ok (key, v)" using Cons.prems(1) by (auto simp: kv kv_ok_def)
  have pk: "put_kv kv = put_str key @ ds4_kvstore_le_put32 (val_type v) @ put_val v" by (simp add: kv put_kv_def)
  have st: "stands f pos (put_str key)" "stands f ?p1 (ds4_kvstore_le_put32 (val_type v))" "stands f (?p1 + 4) (put_val v)"
    "stands f (?p1 + 4 + length (put_val v)) (concat (map put_kv kvs))"
    using Cons.prems(2) by (auto simp: pk stands_append le32.put_width add.assoc)
  note key = cursor_string_stands [OF st(1) ok(1)]
  have skip: "skip_value f (?p1 + 4) (val_type v) 0 = Inr (?p1 + 4 + length (put_val v))"
    using skip_value_stands [OF ok(2) st(3)] by (simp add: skip_value_def)
  note al = metadata_alignment_stands [OF ok(3) st(3) key(2), of al]
  have "list_all kv_ok kvs" using Cons.prems(1) by simp
  from Cons.IH [OF this st(4)] obtain l where
    l: "parse_kvs f (length kvs) (metadata_alignment f ?s (val_type v) (?p1 + 4) al) (?p1 + 4 + length (put_val v))
       = Inr (l, file_alignment (metadata_alignment f ?s (val_type v) (?p1 + 4) al) kvs, ?p1 + 4 + length (put_val v) + length (concat (map put_kv kvs)))"
    and h: "list_all2 (kv_holds f) kvs l" by metis
  have "parse_kvs f (length (kv # kvs)) al pos
      = Inr (\<lparr>kv_key = ?s, kv_type = val_type v, value_pos = ?p1 + 4\<rparr> # l, file_alignment al (kv # kvs), pos + length (concat (map put_kv (kv # kvs))))"
    using key(1) cursor_u32_stands [OF st(2)] skip l al
    by (simp add: pk le32.put_width add.assoc add.left_commute) (simp add: kv)
  moreover have "kv_holds f kv \<lparr>kv_key = ?s, kv_type = val_type v, value_pos = ?p1 + 4\<rparr>" using key(2) st(3) by (simp add: kv_holds_def kv)
  ultimately show ?case using h by blast
qed simp

record gtensor =
  gt_name :: string
  gt_dims :: "nat list"
  gt_type :: u32
  gt_rel :: nat

definition put_tensor :: "gtensor \<Rightarrow> bytes" where
  "put_tensor t = put_str (gt_name t) @ ds4_kvstore_le_put32 (of_nat (length (gt_dims t)))
     @ concat (map (\<lambda>d. kv_le_put64 (of_nat d)) (gt_dims t)) @ ds4_kvstore_le_put32 (gt_type t) @ kv_le_put64 (of_nat (gt_rel t))"

fun dims_ok :: "nat \<Rightarrow> nat list \<Rightarrow> bool" where
  "dims_ok el [] \<longleftrightarrow> True"
| "dims_ok el (d # ds) \<longleftrightarrow> d < 2 ^ 64 \<and> el * d < 2 ^ 64 \<and> dims_ok (el * d) ds"

definition gtensor_bytes :: "gtensor \<Rightarrow> nat" where
  "gtensor_bytes t = (case tensor_nbytes (gt_type t) (prod_list (gt_dims t)) of Some b \<Rightarrow> b | None \<Rightarrow> 0)"

definition gtensor_ok :: "nat \<Rightarrow> gtensor \<Rightarrow> bool" where
  "gtensor_ok room t \<longleftrightarrow> length (gt_name t) < 2 ^ 64 \<and> 1 \<le> length (gt_dims t) \<and> length (gt_dims t) \<le> 8 \<and> dims_ok 1 (gt_dims t)
     \<and> gt_rel t + gtensor_bytes t \<le> room"

lemma read_dims_stands:
  assumes "dims_ok el ds" and "stands f pos (concat (map (\<lambda>d. kv_le_put64 (of_nat d)) ds))"
  shows "read_dims f (length ds) el pos = Inr (ds, el * prod_list ds, pos + 8 * length ds)"
  using assms
proof (induction ds arbitrary: el pos)
  case (Cons d ds)
  have d: "unat (of_nat d :: u64) = d" using Cons.prems(1) by (intro unat_of_nat_u64) simp
  have st: "stands f pos (kv_le_put64 (of_nat d))" "stands f (pos + 8) (concat (map (\<lambda>d. kv_le_put64 (of_nat d)) ds))"
    using Cons.prems(2) by (auto simp: stands_append le64.put_width)
  have "\<not> (d \<noteq> 0 \<and> el > UINT64_MAX div d)" using Cons.prems(1) by (cases "d = 0") (auto simp: not_less less_eq_div_iff_mult_less_eq)
  then show ?case using cursor_u64_stands [OF st(1)] Cons.IH [OF _ st(2), of "el * d"] Cons.prems(1) d by (auto simp: mult.assoc)
qed simp

definition tensor_holds :: "bytes \<Rightarrow> gtensor \<Rightarrow> ds4_tensor \<Rightarrow> bool" where
  "tensor_holds f g t \<longleftrightarrow> str_text f (tn_name t) = gt_name g \<and> str_len (tn_name t) = length (gt_name g) \<and> tn_dim t = gt_dims g
     \<and> tn_type t = gt_type g \<and> rel_offset t = gt_rel g \<and> tn_bytes t = gtensor_bytes g"

lemma read_tensor_stands:
  assumes ok: "gtensor_ok room g" "room < 2 ^ 63" and st: "stands f pos (put_tensor g)"
  shows "\<exists>t. read_tensor f pos = Inr (t, pos + length (put_tensor g)) \<and> tensor_holds f g t"
proof -
  let ?n = "length (gt_name g)" and ?k = "length (gt_dims g)"
  let ?p1 = "pos + 8 + ?n" and ?s = "\<lparr>str_pos = pos + 8, str_len = ?n\<rparr>"
  have dl: "length (concat (map (\<lambda>d. kv_le_put64 (of_nat d)) ds)) = 8 * length ds" for ds :: "nat list"
    by (induction ds) (simp_all add: le64.put_width)
  have s: "stands f pos (put_str (gt_name g))" "stands f ?p1 (ds4_kvstore_le_put32 (of_nat ?k))"
    "stands f (?p1 + 4) (concat (map (\<lambda>d. kv_le_put64 (of_nat d)) (gt_dims g)))"
    "stands f (?p1 + 4 + 8 * ?k) (ds4_kvstore_le_put32 (gt_type g))" "stands f (?p1 + 4 + 8 * ?k + 4) (kv_le_put64 (of_nat (gt_rel g)))"
    using st by (auto simp: put_tensor_def stands_append le32.put_width dl add.assoc)
  have n: "?n < 2 ^ 64" "1 \<le> ?k" "?k \<le> 8" "dims_ok 1 (gt_dims g)" using ok(1) by (auto simp: gtensor_ok_def)
  have k: "unat (of_nat ?k :: u32) = ?k" "(of_nat ?k :: u32) \<noteq> 0"
    using n unat_of_nat_u32 [of ?k] of_nat_u32_nonzero [of ?k] by auto
  have rel: "unat (of_nat (gt_rel g) :: u64) = gt_rel g" using ok by (intro unat_of_nat_u64) (simp add: gtensor_ok_def)
  note c = cursor_string_stands [OF s(1) n(1)] cursor_u32_stands [OF s(2)] read_dims_stands [OF n(4) s(3)]
    cursor_u32_stands [OF s(4)] cursor_u64_stands [OF s(5)]
  have "length (put_tensor g) = 8 + ?n + 4 + 8 * ?k + 4 + 8" by (simp add: put_tensor_def le32.put_width le64.put_width dl)
  then have "read_tensor f pos = Inr (\<lparr>tn_name = ?s, tn_ndim = ?k, tn_dim = gt_dims g, tn_type = gt_type g, rel_offset = gt_rel g,
      abs_offset = 0, tn_elements = prod_list (gt_dims g), tn_bytes = gtensor_bytes g\<rparr>, pos + length (put_tensor g))"
    using c k n(3) rel by (simp add: read_tensor_def DS4_MAX_DIMS_def gtensor_bytes_def)
  then show ?thesis using c(2) by (simp add: tensor_holds_def)
qed

lemma read_tensors_stands:
  assumes "list_all (gtensor_ok room) gs" and "room < 2 ^ 63" and "stands f pos (concat (map put_tensor gs))"
  shows "\<exists>ts. read_tensors f (length gs) pos = Inr (ts, pos + length (concat (map put_tensor gs))) \<and> list_all2 (tensor_holds f) gs ts"
  using assms
proof (induction gs arbitrary: pos)
  case (Cons g gs)
  have st: "stands f pos (put_tensor g)" "stands f (pos + length (put_tensor g)) (concat (map put_tensor gs))"
    using Cons.prems(3) by (auto simp: stands_append)
  from read_tensor_stands [OF _ Cons.prems(2) st(1)] Cons.prems(1)
  obtain t where t: "read_tensor f pos = Inr (t, pos + length (put_tensor g))" "tensor_holds f g t" by auto
  from Cons.IH [OF _ Cons.prems(2) st(2)] Cons.prems(1) obtain ts where
    ts: "read_tensors f (length gs) (pos + length (put_tensor g)) = Inr (ts, pos + length (put_tensor g) + length (concat (map put_tensor gs)))"
      "list_all2 (tensor_holds f) gs ts" by auto
  have "read_tensors f (length (g # gs)) pos = Inr (t # ts, pos + length (concat (map put_tensor (g # gs))))"
    using t(1) ts(1) by (simp add: add.assoc)
  then show ?case using t(2) ts(2) by blast
qed simp

lemma place_tensors_stands:
  assumes "list_all2 (tensor_holds f) gs ts" and "list_all (gtensor_ok room) gs" and "dpos + room \<le> fsize" and "fsize < 2 ^ 63"
  shows "\<exists>ts' mx'. place_tensors fsize dpos mx ts = Inr (ts', mx') \<and> list_all2 (tensor_holds f) gs ts'
    \<and> list_all (\<lambda>t. abs_offset t = dpos + rel_offset t) ts'"
  using assms(1,2)
proof (induction gs ts arbitrary: mx rule: list_all2_induct)
  case (Cons g gs t ts)
  from Cons obtain ts' mx' where ih: "place_tensors fsize dpos (if tn_bytes t > mx then tn_bytes t else mx) ts = Inr (ts', mx')"
    "list_all2 (tensor_holds f) gs ts'" "list_all (\<lambda>t. abs_offset t = dpos + rel_offset t) ts'" by force
  have b: "rel_offset t + tn_bytes t \<le> room" using Cons.hyps(1) Cons.prems by (simp add: tensor_holds_def gtensor_ok_def)
  then have "\<not> rel_offset t > UINT64_MAX - dpos"
    and "\<not> (tn_bytes t \<noteq> 0 \<and> (dpos + rel_offset t > fsize \<or> tn_bytes t > fsize - (dpos + rel_offset t)))"
    using assms(3,4) by auto
  then have "place_tensors fsize dpos mx (t # ts) = Inr (t\<lparr>abs_offset := dpos + rel_offset t\<rparr> # ts', mx')"
    using ih(1) by (simp add: Let_def)
  moreover have "tensor_holds f g (t\<lparr>abs_offset := dpos + rel_offset t\<rparr>)" using Cons.hyps(1) by (simp add: tensor_holds_def)
  ultimately show ?case using ih(2,3) by auto
qed simp

text \<open>A whole file: header, metadata, tensor directory, padding to the alignment, tensor data.\<close>

definition gguf_head :: "(string \<times> gval) list \<Rightarrow> gtensor list \<Rightarrow> bytes" where
  "gguf_head kvs gs = ds4_kvstore_le_put32 DS4_GGUF_MAGIC @ ds4_kvstore_le_put32 3 @ kv_le_put64 (of_nat (length gs)) @ kv_le_put64 (of_nat (length kvs))
     @ concat (map put_kv kvs) @ concat (map put_tensor gs)"

definition gguf_start :: "(string \<times> gval) list \<Rightarrow> gtensor list \<Rightarrow> nat" where
  "gguf_start kvs gs = align_up (length (gguf_head kvs gs)) (file_alignment 32 kvs)"

definition gguf_file :: "(string \<times> gval) list \<Rightarrow> gtensor list \<Rightarrow> bytes \<Rightarrow> bytes" where
  "gguf_file kvs gs data = gguf_head kvs gs @ replicate (gguf_start kvs gs - length (gguf_head kvs gs)) 0 @ data"

definition gguf_ok :: "(string \<times> gval) list \<Rightarrow> gtensor list \<Rightarrow> bytes \<Rightarrow> bool" where
  "gguf_ok kvs gs data \<longleftrightarrow> list_all kv_ok kvs \<and> list_all (gtensor_ok (length data)) gs
     \<and> 32 \<le> length (gguf_file kvs gs data) \<and> length (gguf_file kvs gs data) < 2 ^ 63"

lemma file_alignment_range: "0 < al \<Longrightarrow> al < 2 ^ 32 \<Longrightarrow> 0 < file_alignment al kvs \<and> file_alignment al kvs < 2 ^ 32"
proof (induction al kvs rule: file_alignment.induct)
  case (2 al key v kvs)
  then show ?case using unsigned_less [where ?'a = nat, of "ds4_kvstore_le_get32 (put_val v)"] by (auto simp: unat_gt_0)
qed simp

lemma concat_length_ge: "(\<And>x. x \<in> set xs \<Longrightarrow> 1 \<le> length (g x)) \<Longrightarrow> length xs \<le> length (concat (map g xs))"
proof (induction xs)
  case (Cons x xs)
  have "1 \<le> length (g x)" and "length xs \<le> length (concat (map g xs))" using Cons by auto
  then show ?case by simp
qed simp

lemma gguf_start_ge:
  assumes "gguf_ok kvs gs data"
  shows "length (gguf_head kvs gs) \<le> gguf_start kvs gs"
proof -
  have "0 < file_alignment 32 kvs" "file_alignment 32 kvs < 2 ^ 32" using file_alignment_range [of 32 kvs] by auto
  moreover have "length (gguf_head kvs gs) < 2 ^ 63" using assms by (auto simp: gguf_ok_def gguf_file_def)
  ultimately show ?thesis unfolding gguf_start_def by (intro align_up_spec(1)) auto
qed

lemma model_open_file:
  assumes ok: "gguf_ok kvs gs data"
  shows "\<exists>m. model_open (gguf_file kvs gs data) = Inr m \<and> m_map m = gguf_file kvs gs data \<and> list_all2 (kv_holds (gguf_file kvs gs data)) kvs (m_kv m)
    \<and> list_all2 (tensor_holds (gguf_file kvs gs data)) gs (m_tensors m)
    \<and> (\<forall>t \<in> set (m_tensors m). abs_offset t = gguf_start kvs gs + rel_offset t)"
proof -
  let ?f = "gguf_file kvs gs data" and ?K = "concat (map put_kv kvs)" and ?T = "concat (map put_tensor gs)"
  let ?al = "file_alignment 32 kvs" and ?p = "length (gguf_head kvs gs)"
  have sizes: "32 \<le> length ?f" "length ?f < 2 ^ 63" "list_all kv_ok kvs" "list_all (gtensor_ok (length data)) gs" using ok by (auto simp: gguf_ok_def)
  have "stands ?f 0 (gguf_head kvs gs @ replicate (gguf_start kvs gs - ?p) 0 @ data)" using stands_whole [of ?f] by (simp add: gguf_file_def)
  then have s: "stands ?f 0 (ds4_kvstore_le_put32 DS4_GGUF_MAGIC)" "stands ?f 4 (ds4_kvstore_le_put32 3)"
    "stands ?f 8 (kv_le_put64 (of_nat (length gs)))" "stands ?f 16 (kv_le_put64 (of_nat (length kvs)))" "stands ?f 24 ?K" "stands ?f (24 + length ?K) ?T"
    by (auto simp: stands_append gguf_head_def le32.put_width le64.put_width add.commute)
  have p: "?p = 24 + length ?K + length ?T" by (simp add: gguf_head_def le32.put_width le64.put_width)
  have cnt: "length kvs \<le> length ?K" "length gs \<le> length ?T"
    by (intro concat_length_ge; simp add: put_kv_def put_tensor_def)+
  have pf: "?p \<le> length ?f" by (simp add: gguf_file_def)
  have u: "unat (of_nat (length gs) :: u64) = length gs" "unat (of_nat (length kvs) :: u64) = length kvs"
    using cnt p pf sizes(2) by (intro unat_of_nat_u64; simp)+
  have len: "gguf_start kvs gs + length data = length ?f" using gguf_start_ge [OF ok] by (simp add: gguf_file_def)
  obtain l where l: "parse_kvs ?f (length kvs) 32 24 = Inr (l, ?al, 24 + length ?K)" "list_all2 (kv_holds ?f) kvs l"
    using parse_kvs_stands [OF sizes(3) s(5), of 32] by auto
  obtain ts where ts: "read_tensors ?f (length gs) (24 + length ?K) = Inr (ts, ?p)" "list_all2 (tensor_holds ?f) gs ts"
    using read_tensors_stands [OF sizes(4) _ s(6)] len sizes(2) by (auto simp: p)
  obtain ts' mx where pl: "place_tensors (length ?f) (gguf_start kvs gs) 0 ts = Inr (ts', mx)" "list_all2 (tensor_holds ?f) gs ts'"
    "list_all (\<lambda>t. abs_offset t = gguf_start kvs gs + rel_offset t) ts'"
    using place_tensors_stands [OF ts(2) sizes(4), of "gguf_start kvs gs" "length ?f" 0] len sizes(2) by auto
  have start: "align_up (24 + length ?K + length ?T) ?al = gguf_start kvs gs" by (simp only: gguf_start_def p)
  have room: "\<not> length kvs > length ?f - 24" "\<not> length gs > length ?f - (24 + length ?K)" using cnt p pf by linarith+
  have "\<exists>m. model_open ?f = Inr m \<and> m_map m = ?f \<and> m_kv m = l \<and> m_tensors m = ts'"
    using sizes(1) cursor_u32_stands [OF s(1)] cursor_u32_stands [OF s(2)] cursor_u64_stands [OF s(3)] cursor_u64_stands [OF s(4)] u
      l(1) ts(1) [unfolded p] pl(1) room
    by (simp add: model_open_def parse_metadata_def parse_tensors_def start Let_def)
  then show ?thesis using l(2) pl(2,3) by (auto simp: list_all_iff)
qed

lemma find_kv_holds:
  assumes "list_all2 (kv_holds f) kvs l"
  shows "map_of kvs key = None \<Longrightarrow> find (\<lambda>k. ds4_streq f (kv_key k) key) l = None"
    and "map_of kvs key = Some v \<Longrightarrow> \<exists>k. find (\<lambda>k. ds4_streq f (kv_key k) key) l = Some k \<and> kv_type k = val_type v \<and> stands f (value_pos k) (put_val v)"
  using assms
proof (induction kvs l rule: list_all2_induct)
  case (Cons kv kvs k l)
  have eq: "ds4_streq f (kv_key k) key \<longleftrightarrow> fst kv = key" using Cons.hyps(1) by (auto simp: ds4_streq_def kv_holds_def)
  {
    case 1
    then show ?case using Cons.IH(1) eq by (cases kv) (auto split: if_splits)
  next
    case 2
    then show ?case using Cons.IH(2) Cons.hyps(1) eq by (cases kv) (auto simp: kv_holds_def split: if_splits)
  }
qed simp_all

lemma model_get_array_holds:
  assumes "list_all2 (kv_holds (m_map m)) kvs (m_kv m)" and "map_of kvs key = Some (GArray ty vs)" and "length vs < 2 ^ 64"
  shows "\<exists>a. model_get_array m key = Some a \<and> arr_type a = ty \<and> arr_len a = length vs \<and> stands (m_map m) (data_pos a) (concat (map put_val vs))"
proof -
  obtain k where k: "model_find_kv m key = Some k" "kv_type k = GGUF_VALUE_ARRAY" "stands (m_map m) (value_pos k) (put_val (GArray ty vs))"
    using find_kv_holds(2) [OF assms(1,2)] by (auto simp: model_find_kv_def)
  then have s: "stands (m_map m) (value_pos k) (ds4_kvstore_le_put32 ty)" "stands (m_map m) (value_pos k + 4) (kv_le_put64 (of_nat (length vs)))"
    "stands (m_map m) (value_pos k + 4 + 8) (concat (map put_val vs))"
    by (auto simp: stands_append le32.put_width le64.put_width)
  then show ?thesis
    using k(1,2) cursor_u32_stands [OF s(1)] cursor_u64_stands [OF s(2)] unat_of_nat_u64 [OF assms(3)] by (simp add: model_get_array_def)
qed

lemma model_get_string_holds:
  assumes "list_all2 (kv_holds (m_map m)) kvs (m_kv m)" and "map_of kvs key = Some (GString s)" and "length s < 2 ^ 64"
  shows "\<exists>r. model_get_string m key = Some r \<and> str_text (m_map m) r = s"
proof -
  obtain k where "model_find_kv m key = Some k" "kv_type k = GGUF_VALUE_STRING" "stands (m_map m) (value_pos k) (put_str s)"
    using find_kv_holds(2) [OF assms(1,2)] by (auto simp: model_find_kv_def)
  then show ?thesis using cursor_string_stands [of "m_map m" "value_pos k" s] assms(3) by (simp add: model_get_string_def ok_value_def)
qed

lemma model_get_u32_holds:
  assumes "list_all2 (kv_holds (m_map m)) kvs (m_kv m)" and "map_of kvs key = Some (GScalar GGUF_VALUE_UINT32 b)"
    and "gval_ok k (GScalar GGUF_VALUE_UINT32 b)"
  shows "model_get_u32 m key = Some (ds4_kvstore_le_get32 b)"
proof -
  obtain k where k: "model_find_kv m key = Some k" "kv_type k = GGUF_VALUE_UINT32" "stands (m_map m) (value_pos k) b"
    using find_kv_holds(2) [OF assms(1,2)] by (auto simp: model_find_kv_def)
  then have "cursor_u32 (m_map m) (value_pos k) = Inr (ds4_kvstore_le_get32 b, value_pos k + 4)"
    using u32_value [OF assms(3)] by (simp add: stands_def cursor_u32_Inr)
  then show ?thesis using k by (simp add: model_get_u32_def ok_value_def)
qed

text \<open>
  (C16) A well-formed model file is opened and gives back what was written: every string value, 32-bit value and array is found
  under the first pair with its key, an absent key is not found, and every tensor has the dimensions and type written for it and
  its offset and size cut exactly its bytes out of the data section, whatever the alignment the metadata declare.
\<close>

theorem gguf_roundtrip:
  assumes "gguf_ok kvs gs data"
  shows "\<exists>m. model_open (gguf_file kvs gs data) = Inr m
    \<and> (\<forall>key s. map_of kvs key = Some (GString s) \<longrightarrow> (\<exists>r. model_get_string m key = Some r \<and> str_text (gguf_file kvs gs data) r = s))
    \<and> (\<forall>key b. map_of kvs key = Some (GScalar GGUF_VALUE_UINT32 b) \<longrightarrow> model_get_u32 m key = Some (ds4_kvstore_le_get32 b))
    \<and> (\<forall>key ty vs. map_of kvs key = Some (GArray ty vs) \<longrightarrow>
         (\<exists>a. model_get_array m key = Some a \<and> arr_type a = ty \<and> arr_len a = length vs \<and> stands (gguf_file kvs gs data) (data_pos a) (concat (map put_val vs))))
    \<and> (\<forall>key. map_of kvs key = None \<longrightarrow> model_find_kv m key = None)
    \<and> length (m_tensors m) = length gs
    \<and> (\<forall>i < length gs. tn_dim (m_tensors m ! i) = gt_dims (gs ! i) \<and> tn_type (m_tensors m ! i) = gt_type (gs ! i)
         \<and> take (tn_bytes (m_tensors m ! i)) (drop (abs_offset (m_tensors m ! i)) (gguf_file kvs gs data))
           = take (gtensor_bytes (gs ! i)) (drop (gt_rel (gs ! i)) data))"
proof -
  let ?f = "gguf_file kvs gs data"
  obtain m where m: "model_open ?f = Inr m" "m_map m = ?f" "list_all2 (kv_holds ?f) kvs (m_kv m)" "list_all2 (tensor_holds ?f) gs (m_tensors m)"
    "\<forall>t \<in> set (m_tensors m). abs_offset t = gguf_start kvs gs + rel_offset t"
    using model_open_file [OF assms] by blast
  have val_ok: "gval_ok 9 v" if "map_of kvs key = Some v" for key v
    using assms map_of_SomeD [OF that] by (auto simp: gguf_ok_def list_all_iff kv_ok_def)
  note str = model_get_string_holds [of m kvs, unfolded m(2), OF m(3) _ gval_ok_lengths(1) [OF val_ok]]
    and u32 = model_get_u32_holds [of m kvs, unfolded m(2), OF m(3) _ val_ok]
    and arr = model_get_array_holds [of m kvs, unfolded m(2), OF m(3) _ gval_ok_lengths(2) [OF val_ok]]
  have none: "model_find_kv m key = None" if "map_of kvs key = None" for key
    using find_kv_holds(1) [OF m(3) that] m(2) by (simp add: model_find_kv_def)
  have len: "length (m_tensors m) = length gs" using m(4) by (simp add: list_all2_lengthD)
  have tens: "tn_dim (m_tensors m ! i) = gt_dims (gs ! i) \<and> tn_type (m_tensors m ! i) = gt_type (gs ! i)
      \<and> take (tn_bytes (m_tensors m ! i)) (drop (abs_offset (m_tensors m ! i)) ?f) = take (gtensor_bytes (gs ! i)) (drop (gt_rel (gs ! i)) data)"
    if i: "i < length gs" for i
  proof -
    have h: "tensor_holds ?f (gs ! i) (m_tensors m ! i)" using m(4) i by (simp add: list_all2_nthD)
    have "abs_offset (m_tensors m ! i) = gguf_start kvs gs + gt_rel (gs ! i)" using m(5) h i len by (simp add: tensor_holds_def)
    moreover have "drop (gguf_start kvs gs + gt_rel (gs ! i)) ?f = drop (gt_rel (gs ! i)) data"
      using gguf_start_ge [OF assms] by (simp add: gguf_file_def)
    ultimately show ?thesis using h by (simp add: tensor_holds_def)
  qed
  from m(1) str u32 arr none len tens show ?thesis by blast
qed

definition demo_kvs :: "(string \<times> gval) list" where
  "demo_kvs = [(''general.alignment'', GScalar GGUF_VALUE_UINT32 [64, 0, 0, 0]), (''name'', GString ''m''),
     (''tok'', GArray GGUF_VALUE_STRING [GString ''a'', GString ''b''])]"

definition demo_tensors :: "gtensor list" where
  "demo_tensors = [\<lparr>gt_name = ''w'', gt_dims = [2, 2], gt_type = 0, gt_rel = 0\<rparr>]"

definition demo_data :: bytes where
  "demo_data = replicate 16 7"

lemma demo_gguf_ok: "gguf_ok demo_kvs demo_tensors demo_data"
proof -
  obtain k :: nat where nine: "9 = Suc (Suc k)" using that [of 7] by simp
  have "list_all kv_ok demo_kvs" unfolding demo_kvs_def kv_ok_def nine by (simp add: scalar_value_size_def)
  moreover have "list_all (gtensor_ok (length demo_data)) demo_tensors"
    by (simp add: demo_tensors_def gtensor_ok_def gtensor_bytes_def tensor_nbytes_def tensor_type_def gguf_types_def demo_data_def)
  moreover have "file_alignment 32 demo_kvs = 64" by (simp add: demo_kvs_def ds4_kvstore_le_get32_def)
  moreover have "length (gguf_head demo_kvs demo_tensors) = 168"
    by (simp add: gguf_head_def demo_kvs_def demo_tensors_def put_kv_def put_tensor_def le32.put_width le64.put_width)
  ultimately show ?thesis by (simp add: gguf_ok_def gguf_file_def gguf_start_def align_up_def demo_data_def)
qed

theorem gguf_roundtrip_witness:
  "\<exists>m. model_open (gguf_file demo_kvs demo_tensors demo_data) = Inr m
    \<and> (\<exists>r. model_get_string m ''name'' = Some r \<and> str_text (gguf_file demo_kvs demo_tensors demo_data) r = ''m'')
    \<and> model_find_kv m ''other'' = None \<and> length (m_tensors m) = 1"
proof -
  have "map_of demo_kvs ''name'' = Some (GString ''m'')" "map_of demo_kvs ''other'' = None" "length demo_tensors = 1"
    by (simp_all add: demo_kvs_def demo_tensors_def)
  then show ?thesis using gguf_roundtrip [OF demo_gguf_ok] by metis
qed


end
