(* ===== verification/Chat_Tokens.thy ===== *)
theory Chat_Tokens
  imports Pretokenizer Gguf Tool_Text
begin

text \<open>
  From a model file to the tokens of a conversation (\<open>ds4.c\<close>): loading the vocabulary, the special tokens in a rendered
  chat, the messages of the chat interface with their role markers, the guarded text of a tool result, and which tokens end
  a generation. This is where the model file, the hash tables, the tokenizer and the escape grammar of tool bodies meet.
  A missing required token ends the process; here it is an error. A hash table loop that does not end makes \<open>vocab_load\<close>
  \<open>None\<close>, and the first theorem shows that this does not happen.
\<close>

section \<open>Loading the vocabulary\<close>

primrec read_strings :: "bytes \<Rightarrow> nat \<Rightarrow> nat \<Rightarrow> ds4_str list result" where
  "read_strings f 0 pos = Inr []"
| "read_strings f (Suc n) pos =
     and_then (cursor_string f pos) (\<lambda>(s, p). and_then (read_strings f n p) (\<lambda>ss. Inr (s # ss)))"

definition vocab_lookup :: "ds4_vocab \<Rightarrow> string \<Rightarrow> int result" where
  "vocab_lookup v s = (case table_find (token_to_id v) s of Some t \<Rightarrow> Inr t | None \<Rightarrow> Inl (''required tokenizer token is missing: '' @ s))"

definition vocab_lookup_optional :: "ds4_vocab \<Rightarrow> string \<Rightarrow> int" where
  "vocab_lookup_optional v s = (case table_find (token_to_id v) s of Some t \<Rightarrow> t | None \<Rightarrow> -1)"

definition low_line :: string where "low_line = [CHR 0xE2, CHR 0x96, CHR 0x81]"

definition BOS_TEXT :: string where "BOS_TEXT = ''<'' @ dsml_bar @ ''begin'' @ low_line @ ''of'' @ low_line @ ''sentence'' @ dsml_bar @ ''>''"
definition EOS_TEXT :: string where "EOS_TEXT = ''<'' @ dsml_bar @ ''end'' @ low_line @ ''of'' @ low_line @ ''sentence'' @ dsml_bar @ ''>''"
definition USER_TEXT :: string where "USER_TEXT = ''<'' @ dsml_bar @ ''User'' @ dsml_bar @ ''>''"
definition ASSISTANT_TEXT :: string where "ASSISTANT_TEXT = ''<'' @ dsml_bar @ ''Assistant'' @ dsml_bar @ ''>''"

definition empty_vocab :: "string list \<Rightarrow> str_i32_table \<Rightarrow> str_i32_table \<Rightarrow> ds4_vocab" where
  "empty_vocab ts tt mr = \<lparr>token = ts, bos_id = 0, eos_id = 0, system_id = 0, user_id = 0, assistant_id = 0, observation_id = 0, sop_id = 0,
     think_start_id = 0, think_end_id = 0, tool_call_start_id = 0, tool_call_end_id = 0, tool_response_start_id = 0, tool_response_end_id = 0,
     arg_key_start_id = 0, arg_key_end_id = 0, arg_value_start_id = 0, arg_value_end_id = 0, dsml_id = 0, token_to_id = tt, merge_rank = mr\<rparr>"

definition glm_ids :: "ds4_model \<Rightarrow> ds4_vocab \<Rightarrow> ds4_vocab" where
  "glm_ids m v =
     v\<lparr>bos_id := (case model_get_token_id m ''tokenizer.ggml.bos_token_id'' of Some t \<Rightarrow> t | None \<Rightarrow> vocab_lookup_optional v ''<sop>''),
       eos_id := (case model_get_token_id m ''tokenizer.ggml.eos_token_id'' of Some t \<Rightarrow> t | None \<Rightarrow> vocab_lookup_optional v ''<|endoftext|>''),
       system_id := vocab_lookup_optional v ''<|system|>'', user_id := vocab_lookup_optional v ''<|user|>'',
       assistant_id := vocab_lookup_optional v ''<|assistant|>'', observation_id := vocab_lookup_optional v ''<|observation|>'',
       sop_id := vocab_lookup_optional v ''<sop>'', think_start_id := vocab_lookup_optional v ''<think>'',
       think_end_id := vocab_lookup_optional v ''</think>'', tool_call_start_id := vocab_lookup_optional v ''<tool_call>'',
       tool_call_end_id := vocab_lookup_optional v ''</tool_call>'', tool_response_start_id := vocab_lookup_optional v ''<tool_response>'',
       tool_response_end_id := vocab_lookup_optional v ''</tool_response>'', arg_key_start_id := vocab_lookup_optional v ''<arg_key>'',
       arg_key_end_id := vocab_lookup_optional v ''</arg_key>'', arg_value_start_id := vocab_lookup_optional v ''<arg_value>'',
       arg_value_end_id := vocab_lookup_optional v ''</arg_value>'', dsml_id := -1\<rparr>"

definition deepseek_ids :: "ds4_vocab \<Rightarrow> ds4_vocab result" where
  "deepseek_ids v =
     and_then (vocab_lookup v BOS_TEXT) (\<lambda>bos.
     and_then (vocab_lookup v EOS_TEXT) (\<lambda>eos.
     and_then (vocab_lookup v USER_TEXT) (\<lambda>user.
     and_then (vocab_lookup v ASSISTANT_TEXT) (\<lambda>assistant.
     and_then (vocab_lookup v ''<think>'') (\<lambda>think_start.
     and_then (vocab_lookup v ''</think>'') (\<lambda>think_end.
     and_then (vocab_lookup v DS4_DSML) (\<lambda>dsml.
     Inr (v\<lparr>bos_id := bos, eos_id := eos, system_id := -1, user_id := user, assistant_id := assistant, observation_id := -1, sop_id := -1,
            think_start_id := think_start, think_end_id := think_end, tool_call_start_id := -1, tool_call_end_id := -1,
            tool_response_start_id := -1, tool_response_end_id := -1, arg_key_start_id := -1, arg_key_end_id := -1,
            arg_value_start_id := -1, arg_value_end_id := -1, dsml_id := dsml\<rparr>))))))))"

text \<open>The rank of a merge is its index stored in an \<open>int\<close>.\<close>

definition merge_index :: "nat \<Rightarrow> int" where
  "merge_index i = sint (of_nat i :: u32)"

definition vocab_load :: "ds4_model_family \<Rightarrow> ds4_model \<Rightarrow> ds4_vocab result option" where
  "vocab_load fam m =
     (case model_get_array m ''tokenizer.ggml.tokens'' of
        None \<Rightarrow> Some (Inl ''GGUF tokenizer token table is missing or invalid'')
      | Some tarr \<Rightarrow>
          if arr_type tarr \<noteq> GGUF_VALUE_STRING \<or> int (arr_len tarr) > INT_MAX
          then Some (Inl ''GGUF tokenizer token table is missing or invalid'')
          else case model_get_array m ''tokenizer.ggml.merges'' of
                 None \<Rightarrow> Some (Inl ''GGUF tokenizer merge table is missing or invalid'')
               | Some marr \<Rightarrow>
                   if arr_type marr \<noteq> GGUF_VALUE_STRING then Some (Inl ''GGUF tokenizer merge table is missing or invalid'')
                   else case read_strings (m_map m) (arr_len tarr) (data_pos tarr) of
                          Inl e \<Rightarrow> Some (Inl e)
                        | Inr tss \<Rightarrow>
                            (case read_strings (m_map m) (arr_len marr) (data_pos marr) of
                               Inl e \<Rightarrow> Some (Inl e)
                             | Inr mss \<Rightarrow>
                                 let ts = map (str_text (m_map m)) tss; ms = map (str_text (m_map m)) mss
                                 in case (table_put_all (table_init (of_nat (arr_len tarr))) (zip ts (map int [0..<length ts])),
                                          table_put_all (table_init (of_nat (arr_len marr))) (zip ms (map merge_index [0..<length ms]))) of
                                      (Some tt, Some mr) \<Rightarrow>
                                        Some (if fam = DS4_MODEL_FAMILY_GLM_DSA then Inr (glm_ids m (empty_vocab ts tt mr))
                                              else deepseek_ids (empty_vocab ts tt mr))
                                    | _ \<Rightarrow> None))"

section \<open>Special tokens in a rendered chat\<close>

definition specials :: "ds4_vocab \<Rightarrow> (string \<times> int) list" where
  "specials v =
     [(BOS_TEXT, bos_id v), (EOS_TEXT, eos_id v), (''[gMASK]'', bos_id v), (''<sop>'', sop_id v), (''<|system|>'', system_id v),
      (USER_TEXT, user_id v), (ASSISTANT_TEXT, assistant_id v), (''<|user|>'', user_id v), (''<|assistant|>'', assistant_id v),
      (''<|observation|>'', observation_id v), (''<think>'', think_start_id v), (''</think>'', think_end_id v),
      (''<tool_call>'', tool_call_start_id v), (''</tool_call>'', tool_call_end_id v), (''<tool_response>'', tool_response_start_id v),
      (''</tool_response>'', tool_response_end_id v), (''<arg_key>'', arg_key_start_id v), (''</arg_key>'', arg_key_end_id v),
      (''<arg_value>'', arg_value_start_id v), (''</arg_value>'', arg_value_end_id v), (DS4_DSML, dsml_id v)]"

definition special_token_at :: "ds4_vocab \<Rightarrow> string \<Rightarrow> (string \<times> int) option" where
  "special_token_at v p = find (\<lambda>(lit, t). \<not> t < 0 \<and> prefix lit p) (specials v)"

definition tokenize_span :: "ds4_model_family \<Rightarrow> ds4_vocab \<Rightarrow> string \<Rightarrow> int list" where
  "tokenize_span fam v s = (if s = [] then [] else bpe_tokenize_text fam v s)"

lemma special_nonempty: "special_token_at v p = Some (lit, t) \<Longrightarrow> lit \<noteq> [] \<and> prefix lit p \<and> 0 \<le> t \<and> (lit, t) \<in> set (specials v)"
proof -
  assume "special_token_at v p = Some (lit, t)"
  then have "(lit, t) \<in> set (specials v)" "\<not> t < 0" "prefix lit p"
    unfolding special_token_at_def find_Some_iff by (metis case_prodD nth_mem)+
  moreover have "\<forall>x \<in> set (specials v). fst x \<noteq> []"
    by (simp add: specials_def BOS_TEXT_def EOS_TEXT_def USER_TEXT_def ASSISTANT_TEXT_def DS4_DSML_def dsml_bar_def)
  ultimately show ?thesis by force
qed

text \<open>The loop over the text: \<open>span\<close> is what has passed since the last special token.\<close>

function rendered_loop :: "ds4_model_family \<Rightarrow> ds4_vocab \<Rightarrow> string \<Rightarrow> string \<Rightarrow> int list" where
  "rendered_loop fam v span p =
     (if p = [] then tokenize_span fam v span
      else case special_token_at v p of
             Some (lit, t) \<Rightarrow> tokenize_span fam v span @ t # rendered_loop fam v [] (drop (length lit) p)
           | None \<Rightarrow> rendered_loop fam v (span @ [hd p]) (tl p))"
  by pat_completeness auto
termination
  by (relation "measure (\<lambda>(fam, v, span, p). length p)") (auto dest: special_nonempty simp: length_greater_0_conv [symmetric] simp del: length_greater_0_conv)

declare rendered_loop.simps [simp del]

definition tokenize_rendered_chat_vocab :: "ds4_model_family \<Rightarrow> ds4_vocab \<Rightarrow> string \<Rightarrow> int list" where
  "tokenize_rendered_chat_vocab fam v s = rendered_loop fam v [] s"

section \<open>Messages\<close>

datatype ds4_think_mode = DS4_THINK_NONE | DS4_THINK_HIGH | DS4_THINK_MAX

definition ds4_think_mode_enabled :: "ds4_think_mode \<Rightarrow> bool" where
  "ds4_think_mode_enabled mode \<longleftrightarrow> mode = DS4_THINK_HIGH \<or> mode = DS4_THINK_MAX"

definition DS4_REASONING_EFFORT_MAX_PREFIX :: string where
  "DS4_REASONING_EFFORT_MAX_PREFIX =
     ''Reasoning Effort: Absolute maximum with no shortcuts permitted.'' @ [CHR 0x0A]
     @ ''You MUST be very thorough in your thinking and comprehensively decompose the problem to resolve the root cause, rigorously stress-testing your logic against all potential paths, edge cases, and adversarial scenarios.'' @ [CHR 0x0A]
     @ ''Explicitly write out your entire deliberation process, documenting every intermediate step, considered alternative, and rejected hypothesis to ensure absolutely no assumption is left unchecked.'' @ [CHR 0x0A, CHR 0x0A]"

fun ds4_glm_reasoning_effort_text :: "ds4_think_mode \<Rightarrow> string option" where
  "ds4_glm_reasoning_effort_text DS4_THINK_HIGH = Some ''Reasoning Effort: High''"
| "ds4_glm_reasoning_effort_text DS4_THINK_MAX = Some ''Reasoning Effort: Max''"
| "ds4_glm_reasoning_effort_text DS4_THINK_NONE = None"

definition chat_push_bos_sequence :: "ds4_model_family \<Rightarrow> ds4_vocab \<Rightarrow> int list" where
  "chat_push_bos_sequence fam v = bos_id v # (if fam = DS4_MODEL_FAMILY_GLM_DSA \<and> sop_id v \<ge> 0 then [sop_id v] else [])"

definition chat_push_think_prefix :: "ds4_model_family \<Rightarrow> ds4_vocab \<Rightarrow> ds4_think_mode \<Rightarrow> int list" where
  "chat_push_think_prefix fam v mode =
     (if fam = DS4_MODEL_FAMILY_GLM_DSA
      then case ds4_glm_reasoning_effort_text mode of
             Some effort \<Rightarrow> system_id v # bpe_tokenize_text fam v effort
           | None \<Rightarrow> []
      else if mode = DS4_THINK_MAX then bpe_tokenize_text fam v DS4_REASONING_EFFORT_MAX_PREFIX else [])"

definition encode_chat_prompt :: "ds4_model_family \<Rightarrow> ds4_vocab \<Rightarrow> string option \<Rightarrow> string \<Rightarrow> ds4_think_mode \<Rightarrow> int list result" where
  "encode_chat_prompt fam v sys prompt mode =
     (let glm = (fam = DS4_MODEL_FAMILY_GLM_DSA); need_think_start = (ds4_think_mode_enabled mode \<or> glm)
      in if bos_id v < 0 \<or> user_id v < 0 \<or> assistant_id v < 0 \<or> think_end_id v < 0 \<or> (glm \<and> system_id v < 0)
            \<or> (need_think_start \<and> think_start_id v < 0)
         then Inl ''this tokenizer does not provide the DeepSeek chat markers; use raw prompt tokenization''
         else Inr (chat_push_bos_sequence fam v @ chat_push_think_prefix fam v mode
           @ (case sys of
                Some s \<Rightarrow> if s = [] then [] else (if glm then [system_id v] else []) @ bpe_tokenize_text fam v s
              | None \<Rightarrow> [])
           @ [user_id v] @ bpe_tokenize_text fam v prompt @ [assistant_id v]
           @ (if ds4_think_mode_enabled mode then [think_start_id v]
              else if glm then [think_start_id v, think_end_id v] else [think_end_id v])))"

text \<open>The guarded text of a tool result: each spelling that collides with the closing tag is escaped, the rest is tokenized as spans.\<close>

fun wrapped_loop :: "ds4_model_family \<Rightarrow> ds4_vocab \<Rightarrow> string \<Rightarrow> string \<Rightarrow> string \<Rightarrow> int list" where
  "wrapped_loop fam v end span [] = tokenize_span fam v span"
| "wrapped_loop fam v end span (c # p) =
     (if ds4_tool_text_needs_escape (c # p) end
      then tokenize_span fam v span @ bpe_tokenize_text fam v (if c = CHR ''<'' then ''&lt;'' else ''&amp;'') @ wrapped_loop fam v end [] p
      else wrapped_loop fam v end (span @ [c]) p)"

definition bpe_tokenize_wrapped_payload_text :: "ds4_model_family \<Rightarrow> ds4_vocab \<Rightarrow> string \<Rightarrow> string \<Rightarrow> int list" where
  "bpe_tokenize_wrapped_payload_text fam v content end = wrapped_loop fam v end [] content"

definition bpe_tokenize_tool_result_text :: "ds4_model_family \<Rightarrow> ds4_vocab \<Rightarrow> string \<Rightarrow> int list" where
  "bpe_tokenize_tool_result_text fam v content = bpe_tokenize_wrapped_payload_text fam v content ''</tool_result>''"

definition bpe_tokenize_tool_response_text :: "ds4_model_family \<Rightarrow> ds4_vocab \<Rightarrow> string \<Rightarrow> int list" where
  "bpe_tokenize_tool_response_text fam v content = bpe_tokenize_wrapped_payload_text fam v content ''</tool_response>''"

definition ds4_chat_append_message :: "ds4_model_family \<Rightarrow> ds4_vocab \<Rightarrow> string option \<Rightarrow> string option \<Rightarrow> int list" where
  "ds4_chat_append_message fam v role0 content0 =
     (let role = (case role0 of Some r \<Rightarrow> r | None \<Rightarrow> ''user''); content = (case content0 of Some c \<Rightarrow> c | None \<Rightarrow> []);
          has_think = (prefix ''<think>'' content \<or> prefix ''</think>'' content)
      in if fam = DS4_MODEL_FAMILY_GLM_DSA
         then if role = ''system'' \<or> role = ''developer''
              then (if system_id v \<ge> 0 then [system_id v] else []) @ tokenize_rendered_chat_vocab fam v content
              else if role = ''assistant''
              then assistant_id v # (if has_think then [] else [think_start_id v, think_end_id v]) @ tokenize_rendered_chat_vocab fam v content
              else if role = ''tool'' \<or> role = ''function''
              then (if observation_id v \<ge> 0 then [observation_id v] else []) @ tokenize_rendered_chat_vocab fam v ''<tool_response>''
                   @ bpe_tokenize_tool_response_text fam v content @ tokenize_rendered_chat_vocab fam v ''</tool_response>''
              else user_id v # bpe_tokenize_text fam v content
         else if role = ''system'' \<or> role = ''developer'' then bpe_tokenize_text fam v content
         else if role = ''assistant'' then assistant_id v # (if has_think then [] else [think_end_id v]) @ bpe_tokenize_text fam v content
         else if role = ''tool'' \<or> role = ''function''
         then user_id v # bpe_tokenize_text fam v ''<tool_result>'' @ bpe_tokenize_tool_result_text fam v content
              @ bpe_tokenize_text fam v ''</tool_result>''
         else user_id v # bpe_tokenize_text fam v content)"

definition ds4_chat_append_assistant_prefix :: "ds4_model_family \<Rightarrow> ds4_vocab \<Rightarrow> ds4_think_mode \<Rightarrow> int list" where
  "ds4_chat_append_assistant_prefix fam v mode =
     assistant_id v # (if fam = DS4_MODEL_FAMILY_GLM_DSA \<and> \<not> ds4_think_mode_enabled mode then [think_start_id v, think_end_id v]
                       else [if ds4_think_mode_enabled mode then think_start_id v else think_end_id v])"

section \<open>Stop tokens\<close>

definition vocab_token_is_generation_stop :: "ds4_model_family \<Rightarrow> ds4_vocab \<Rightarrow> int \<Rightarrow> bool" where
  "vocab_token_is_generation_stop fam v t \<longleftrightarrow>
     \<not> t < 0 \<and> (t = eos_id v \<or> (fam = DS4_MODEL_FAMILY_GLM_DSA \<and>
       ((system_id v \<ge> 0 \<and> t = system_id v) \<or> (user_id v \<ge> 0 \<and> t = user_id v) \<or> (assistant_id v \<ge> 0 \<and> t = assistant_id v)
        \<or> (observation_id v \<ge> 0 \<and> t = observation_id v))))"

definition ds4_token_is_thinking_control :: "ds4_vocab \<Rightarrow> int \<Rightarrow> bool" where
  "ds4_token_is_thinking_control v t \<longleftrightarrow>
     \<not> t < 0 \<and> ((think_start_id v \<ge> 0 \<and> t = think_start_id v) \<or> (think_end_id v \<ge> 0 \<and> t = think_end_id v))"

definition ds4_token_is_stop_for_think_mode :: "ds4_model_family \<Rightarrow> ds4_vocab \<Rightarrow> int \<Rightarrow> ds4_think_mode \<Rightarrow> bool" where
  "ds4_token_is_stop_for_think_mode fam v t mode \<longleftrightarrow>
     vocab_token_is_generation_stop fam v t \<or> (\<not> ds4_think_mode_enabled mode \<and> ds4_token_is_thinking_control v t)"

section \<open>A loaded vocabulary\<close>

lemma read_strings_stands:
  assumes "stands f pos (concat (map put_str ss))" and "\<forall>s \<in> set ss. length s < 2 ^ 64"
  shows "\<exists>l. read_strings f (length ss) pos = Inr l \<and> map (str_text f) l = ss"
  using assms
proof (induction ss arbitrary: pos)
  case (Cons s ss)
  have st: "stands f pos (put_str s)" "stands f (pos + 8 + length s) (concat (map put_str ss))"
    using Cons.prems(1) by (auto simp: stands_append add.assoc)
  have "length s < 2 ^ 64" using Cons.prems(2) by simp
  note c = cursor_string_stands [OF st(1) this]
  from Cons.IH [OF st(2)] Cons.prems(2) obtain l where "read_strings f (length ss) (pos + 8 + length s) = Inr l" "map (str_text f) l = ss" by auto
  then show ?case using c by (auto intro!: exI [of _ "\<lparr>str_pos = pos + 8, str_len = length s\<rparr> # l"])
qed simp

lemma map_of_rev_zip_index:
  assumes "map_of (rev (zip ts (map g [0..<length ts]))) s = Some t"
  shows "\<exists>i < length ts. ts ! i = s \<and> t = g i"
proof -
  have "(s, t) \<in> set (zip ts (map g [0..<length ts]))" using map_of_SomeD [OF assms] by simp
  then show ?thesis by (auto simp: in_set_zip)
qed

lemma map_of_rev_zip_dom: "s \<in> set ts \<Longrightarrow> map_of (rev (zip ts (map g [0..<length ts]))) s \<noteq> None"
  by (simp add: map_of_eq_None_iff map_fst_zip flip: set_map)

text \<open>
  The tables that loading builds from the two string lists of a file. The larger of the two sizes is far below the point where the
  capacity computation would run forever.
\<close>

lemma vocab_tables:
  assumes "length ts < 2 ^ 61" and "length ms < 2 ^ 61"
  obtains tt mr where "table_put_all (table_init (of_nat (length ts))) (zip ts (map int [0..<length ts])) = Some tt"
    and "table_put_all (table_init (of_nat (length ms))) (zip ms (map merge_index [0..<length ms])) = Some mr"
    and "table_ok tt" "table_map tt = map_of (rev (zip ts (map int [0..<length ts])))"
    and "table_ok mr" "table_map mr = map_of (rev (zip ms (map merge_index [0..<length ms])))"
proof -
  obtain tt where tt: "table_put_all (table_init (of_nat (length ts))) (zip ts (map int [0..<length ts])) = Some tt" "table_ok tt"
    "table_map tt = map_of (rev (zip ts (map int [0..<length ts])))"
    by (rule table_load_all [of "length ts" "zip ts (map int [0..<length ts])"]) (use assms(1) in auto)
  obtain mr where mr: "table_put_all (table_init (of_nat (length ms))) (zip ms (map merge_index [0..<length ms])) = Some mr" "table_ok mr"
    "table_map mr = map_of (rev (zip ms (map merge_index [0..<length ms])))"
    by (rule table_load_all [of "length ms" "zip ms (map merge_index [0..<length ms])"]) (use assms(2) in auto)
  show thesis using that [OF tt(1) mr(1) tt(2,3) mr(2,3)] .
qed

lemma read_strings_Inr:
  assumes "read_strings f n pos = Inr l" and "pos \<le> length f"
  shows "length l = n \<and> pos + 8 * n \<le> length f"
  using assms
proof (induction n arbitrary: pos l)
  case (Suc n)
  then obtain s p ss where s: "cursor_string f pos = Inr (s, p)" "read_strings f n p = Inr ss" "l = s # ss" by (auto simp: and_then_Inr)
  from cursor_string_Inr [OF s(1)] Suc.IH [OF s(2)] s(3) show ?case by auto
qed simp

lemma model_get_array_pos: "model_get_array m key = Some a \<Longrightarrow> data_pos a \<le> length (m_map m)"
  by (auto simp: model_get_array_def and_then_Inr cursor_u32_Inr cursor_u64_Inr split: option.splits sum.splits if_splits)

text \<open>Every id of a DeepSeek vocabulary is found under its marker.\<close>

definition deepseek_markers :: "ds4_vocab \<Rightarrow> (int \<times> string) list" where
  "deepseek_markers v = [(bos_id v, BOS_TEXT), (eos_id v, EOS_TEXT), (user_id v, USER_TEXT), (assistant_id v, ASSISTANT_TEXT),
     (think_start_id v, ''<think>''), (think_end_id v, ''</think>''), (dsml_id v, DS4_DSML)]"

definition markers_found :: "ds4_vocab \<Rightarrow> bool" where
  "markers_found v \<longleftrightarrow> list_all (\<lambda>(t, s). table_map (token_to_id v) s = Some t) (deepseek_markers v)"

lemma vocab_ok_tables:
  assumes "table_ok tt" "table_ok mr" and "table_map tt = map_of (rev (zip ts (map int [0..<length ts])))"
    and "token v = ts" "token_to_id v = tt" "merge_rank v = mr"
  shows "vocab_ok v"
  using assms map_of_rev_zip_index [of ts int] unfolding vocab_ok_def by fastforce

lemma vocab_lookup_Inr: "table_ok (token_to_id v) \<Longrightarrow> vocab_lookup v s = Inr t \<longleftrightarrow> table_map (token_to_id v) s = Some t"
  by (simp add: vocab_lookup_def table_find_map split: option.splits)

lemma deepseek_ids_Inr:
  assumes "table_ok (token_to_id v0)" and "deepseek_ids v0 = Inr v"
  shows "token v = token v0 \<and> token_to_id v = token_to_id v0 \<and> merge_rank v = merge_rank v0 \<and> markers_found v
    \<and> system_id v = -1 \<and> observation_id v = -1"
  using assms(2) by (auto simp: deepseek_ids_def and_then_Inr vocab_lookup_Inr [OF assms(1)] markers_found_def deepseek_markers_def)

lemma glm_ids_keep: "token (glm_ids m v) = token v" "token_to_id (glm_ids m v) = token_to_id v" "merge_rank (glm_ids m v) = merge_rank v"
  by (simp_all add: glm_ids_def)

text \<open>Once both string lists are read, the tables are built and loading ends with the ids of the family.\<close>

lemma vocab_load_tail:
  assumes "length (m_map m) < 2 ^ 63"
    and a: "model_get_array m ''tokenizer.ggml.tokens'' = Some tarr" "arr_type tarr = GGUF_VALUE_STRING" "\<not> int (arr_len tarr) > INT_MAX"
      "model_get_array m ''tokenizer.ggml.merges'' = Some marr" "arr_type marr = GGUF_VALUE_STRING"
      "read_strings (m_map m) (arr_len tarr) (data_pos tarr) = Inr tss" "read_strings (m_map m) (arr_len marr) (data_pos marr) = Inr mss"
    and ts: "ts = map (str_text (m_map m)) tss" and ms: "ms = map (str_text (m_map m)) mss"
  obtains tt mr where "table_ok tt" "table_map tt = map_of (rev (zip ts (map int [0..<length ts])))"
    and "table_ok mr" "table_map mr = map_of (rev (zip ms (map merge_index [0..<length ms])))"
    and "vocab_load fam m = Some (if fam = DS4_MODEL_FAMILY_GLM_DSA then Inr (glm_ids m (empty_vocab ts tt mr)) else deepseek_ids (empty_vocab ts tt mr))"
proof -
  have len: "length ts = arr_len tarr" "length ms = arr_len marr" "length ts < 2 ^ 61" "length ms < 2 ^ 61"
    using read_strings_Inr [OF a(6) model_get_array_pos [OF a(1)]] read_strings_Inr [OF a(7) model_get_array_pos [OF a(4)]] assms(1)
    by (auto simp: ts ms)
  obtain tt mr where t: "table_put_all (table_init (of_nat (length ts))) (zip ts (map int [0..<length ts])) = Some tt"
    "table_put_all (table_init (of_nat (length ms))) (zip ms (map merge_index [0..<length ms])) = Some mr"
    "table_ok tt" "table_map tt = map_of (rev (zip ts (map int [0..<length ts])))"
    "table_ok mr" "table_map mr = map_of (rev (zip ms (map merge_index [0..<length ms])))"
    using vocab_tables [OF len(3,4)] by metis
  have "vocab_load fam m = Some (if fam = DS4_MODEL_FAMILY_GLM_DSA then Inr (glm_ids m (empty_vocab ts tt mr)) else deepseek_ids (empty_vocab ts tt mr))"
    using a t(1,2) unfolding len(1,2) by (simp add: vocab_load_def Let_def ts [symmetric] ms [symmetric] len)
  with that t(3-6) show thesis by blast
qed

text \<open>Loading always returns, and what it loads from any file has sound tables.\<close>

lemma vocab_load_ok:
  assumes "length (m_map m) < 2 ^ 63"
  shows "\<exists>r. vocab_load fam m = Some r" and "vocab_load fam m = Some (Inr v) \<Longrightarrow> vocab_ok v"
    and "vocab_load DS4_MODEL_FAMILY_DEEPSEEK4 m = Some (Inr v) \<Longrightarrow> markers_found v"
proof -
  have "\<exists>r. vocab_load fam m = Some r \<and> (\<forall>v. r = Inr v \<longrightarrow> vocab_ok v \<and> (fam = DS4_MODEL_FAMILY_DEEPSEEK4 \<longrightarrow> markers_found v))" for fam
  proof (cases "\<exists>e. vocab_load fam m = Some (Inl e)")
    case False
    then obtain tarr marr tss mss where a: "model_get_array m ''tokenizer.ggml.tokens'' = Some tarr" "arr_type tarr = GGUF_VALUE_STRING"
      "\<not> int (arr_len tarr) > INT_MAX" "model_get_array m ''tokenizer.ggml.merges'' = Some marr" "arr_type marr = GGUF_VALUE_STRING"
      "read_strings (m_map m) (arr_len tarr) (data_pos tarr) = Inr tss" "read_strings (m_map m) (arr_len marr) (data_pos marr) = Inr mss"
      by (auto simp: vocab_load_def split: option.splits if_splits sum.splits)
    obtain ts tt mr where t: "table_ok tt" "table_map tt = map_of (rev (zip ts (map int [0..<length ts])))" "table_ok mr"
      "vocab_load fam m = Some (if fam = DS4_MODEL_FAMILY_GLM_DSA then Inr (glm_ids m (empty_vocab ts tt mr)) else deepseek_ids (empty_vocab ts tt mr))"
      using vocab_load_tail [OF assms a refl refl] by metis
    have "vocab_ok w" if "token w = ts" "token_to_id w = tt" "merge_rank w = mr" for w using vocab_ok_tables [OF t(1,3,2) that] .
    then show ?thesis
      using deepseek_ids_Inr [of "empty_vocab ts tt mr"] t(1,4) by (cases fam) (auto simp: glm_ids_keep empty_vocab_def)
  qed auto
  then show "\<exists>r. vocab_load fam m = Some r" and "vocab_load fam m = Some (Inr v) \<Longrightarrow> vocab_ok v"
    and "vocab_load DS4_MODEL_FAMILY_DEEPSEEK4 m = Some (Inr v) \<Longrightarrow> markers_found v" by (metis option.inject)+
qed

section \<open>From the file to the tokens\<close>

definition required_markers :: "string list" where
  "required_markers = [BOS_TEXT, EOS_TEXT, USER_TEXT, ASSISTANT_TEXT, ''<think>'', ''</think>'', DS4_DSML]"

lemma deepseek_ids_found:
  assumes "table_ok (token_to_id v)" and "\<forall>s \<in> set required_markers. table_map (token_to_id v) s \<noteq> None"
  shows "\<exists>v'. deepseek_ids v = Inr v'"
proof -
  have "\<exists>t. vocab_lookup v s = Inr t" if "s \<in> set required_markers" for s using assms that by (auto simp: vocab_lookup_Inr)
  then obtain f where f: "\<And>s. s \<in> set required_markers \<Longrightarrow> vocab_lookup v s = Inr (f s)" by metis
  show ?thesis by (simp add: deepseek_ids_def f required_markers_def)
qed

lemma file_strings:
  assumes ok: "gguf_ok kvs gs data" and m: "m_map m = gguf_file kvs gs data" "list_all2 (kv_holds (gguf_file kvs gs data)) kvs (m_kv m)"
    and key: "map_of kvs key = Some (GArray GGUF_VALUE_STRING (map GString ss))"
  obtains a l where "model_get_array m key = Some a" "arr_type a = GGUF_VALUE_STRING" "arr_len a = length ss"
    "read_strings (m_map m) (arr_len a) (data_pos a) = Inr l" "map (str_text (m_map m)) l = ss"
proof -
  have "gval_ok 9 (GArray GGUF_VALUE_STRING (map GString ss))"
    using ok map_of_SomeD [OF key] by (auto simp: gguf_ok_def list_all_iff kv_ok_def)
  then obtain k where k: "gval_ok (Suc k) (GArray GGUF_VALUE_STRING (map GString ss))" by (cases "9 :: nat") auto
  then have items: "\<forall>s \<in> set ss. gval_ok k (GString s)" and len: "length (map GString ss) < 2 ^ 64" by auto
  have short: "\<forall>s \<in> set ss. length s < 2 ^ 64" using items gval_ok_lengths(1) by blast
  from model_get_array_holds [of m kvs key] m key len obtain a where a: "model_get_array m key = Some a" "arr_type a = GGUF_VALUE_STRING"
    "arr_len a = length ss" "stands (m_map m) (data_pos a) (concat (map put_val (map GString ss)))" by auto
  have "concat (map put_val (map GString ss)) = concat (map put_str ss)" by (simp add: comp_def)
  with read_strings_stands [of "m_map m" "data_pos a" ss] a short that show thesis by auto
qed

lemma vocab_load_file:
  assumes "gguf_ok kvs gs data"
    and "map_of kvs ''tokenizer.ggml.tokens'' = Some (GArray GGUF_VALUE_STRING (map GString ts))"
    and "map_of kvs ''tokenizer.ggml.merges'' = Some (GArray GGUF_VALUE_STRING (map GString ms))"
    and "length ts \<le> 2147483647"
    and "fam = DS4_MODEL_FAMILY_DEEPSEEK4 \<Longrightarrow> set required_markers \<subseteq> set ts"
  shows "\<exists>m v. model_open (gguf_file kvs gs data) = Inr m \<and> vocab_load fam m = Some (Inr v) \<and> token v = ts \<and> vocab_ok v
    \<and> length (m_map m) < 2 ^ 63 \<and> table_map (token_to_id v) = map_of (rev (zip ts (map int [0..<length ts])))
    \<and> table_map (merge_rank v) = map_of (rev (zip ms (map merge_index [0..<length ms])))
    \<and> (fam = DS4_MODEL_FAMILY_DEEPSEEK4 \<longrightarrow> markers_found v)"
proof -
  let ?f = "gguf_file kvs gs data"
  obtain m where m: "model_open ?f = Inr m" "m_map m = ?f" "list_all2 (kv_holds ?f) kvs (m_kv m)" using model_open_file [OF assms(1)] by blast
  have len: "length (m_map m) < 2 ^ 63" using assms(1) m(2) by (simp add: gguf_ok_def)
  obtain a1 l1 where a1: "model_get_array m ''tokenizer.ggml.tokens'' = Some a1" "arr_type a1 = GGUF_VALUE_STRING" "arr_len a1 = length ts"
    "read_strings (m_map m) (arr_len a1) (data_pos a1) = Inr l1" "map (str_text (m_map m)) l1 = ts" using file_strings [OF assms(1) m(2,3) assms(2)] .
  obtain a2 l2 where a2: "model_get_array m ''tokenizer.ggml.merges'' = Some a2" "arr_type a2 = GGUF_VALUE_STRING" "arr_len a2 = length ms"
    "read_strings (m_map m) (arr_len a2) (data_pos a2) = Inr l2" "map (str_text (m_map m)) l2 = ms" using file_strings [OF assms(1) m(2,3) assms(3)] .
  have small: "\<not> int (arr_len a1) > INT_MAX" using assms(4) a1(3) by simp
  obtain tt mr where t: "table_ok tt" "table_map tt = map_of (rev (zip ts (map int [0..<length ts])))"
    "table_ok mr" "table_map mr = map_of (rev (zip ms (map merge_index [0..<length ms])))"
    "vocab_load fam m = Some (if fam = DS4_MODEL_FAMILY_GLM_DSA then Inr (glm_ids m (empty_vocab ts tt mr)) else deepseek_ids (empty_vocab ts tt mr))"
    using vocab_load_tail [OF len a1(1,2) small a2(1,2) a1(4) a2(4) a1(5) [symmetric] a2(5) [symmetric]] .
  have "\<exists>v. vocab_load fam m = Some (Inr v) \<and> token v = ts \<and> token_to_id v = tt \<and> merge_rank v = mr"
  proof (cases fam)
    case DS4_MODEL_FAMILY_DEEPSEEK4
    then have "\<forall>s \<in> set required_markers. table_map tt s \<noteq> None" using assms(5) map_of_rev_zip_dom [of _ ts int] t(2) by auto
    then obtain v where v: "deepseek_ids (empty_vocab ts tt mr) = Inr v" using deepseek_ids_found [of "empty_vocab ts tt mr"] t(1) by (auto simp: empty_vocab_def)
    show ?thesis using deepseek_ids_Inr [OF _ v] t(1,5) v DS4_MODEL_FAMILY_DEEPSEEK4 by (simp add: empty_vocab_def)
  qed (use t(5) in \<open>simp add: glm_ids_keep empty_vocab_def\<close>)
  then obtain v where v: "vocab_load fam m = Some (Inr v)" "token v = ts" "token_to_id v = tt" "merge_rank v = mr" by blast
  have "vocab_ok v \<and> (fam = DS4_MODEL_FAMILY_DEEPSEEK4 \<longrightarrow> markers_found v)" using vocab_load_ok(2,3) [OF len] v(1) by blast
  then show ?thesis using m(1) len v t(2,4) by auto
qed


text \<open>
  Tokenizing loses nothing. With a vocabulary loaded from any model file that has a token for each of the 256 byte symbols and for
  the result of every merge, the tokens of any text, of either model family, spell exactly that text again.
\<close>

lemma tokenizer_lossless:
  assumes "vocab_load fam m = Some (Inr v)" and "length (m_map m) < 2 ^ 63" and "vocab_complete v"
  shows "tokens_text v (bpe_tokenize_text fam v s) = s"
  using bpe_text_lossless [OF vocab_load_ok(2) [OF assms(2,1)] assms(3)] .

lemma tokens_text_Cons [simp]: "tokens_text v (t # ts) = ds4_token_text v t @ tokens_text v ts"
  by (simp add: tokens_text_def)

lemma tokenize_span_text: "vocab_ok v \<Longrightarrow> vocab_complete v \<Longrightarrow> tokens_text v (tokenize_span fam v s) = s"
  by (simp add: tokenize_span_def bpe_text_lossless)

lemma rendered_loop_text:
  assumes "vocab_ok v" "vocab_complete v"
    and "\<And>lit t. (lit, t) \<in> set (specials v) \<Longrightarrow> 0 \<le> t \<Longrightarrow> sublist lit p \<Longrightarrow> ds4_token_text v t = lit"
  shows "tokens_text v (rendered_loop fam v span p) = span @ p"
  using assms
proof (induction fam v span p rule: rendered_loop.induct)
  case (1 fam v span p)
  note span = tokenize_span_text [OF 1(3,4)]
  show ?case
  proof (cases "p = []")
    case True
    then show ?thesis by (subst rendered_loop.simps) (simp add: span)
  next
    case p: False
    show ?thesis
    proof (cases "special_token_at v p")
      case None
      have "sublist lit (tl p) \<Longrightarrow> sublist lit p" for lit using p by (metis list.exhaust_sel sublist_Cons_right)
      then have "tokens_text v (rendered_loop fam v (span @ [hd p]) (tl p)) = (span @ [hd p]) @ tl p" using 1(3-5) by (intro 1(1) [OF p None]) auto
      then show ?thesis using p None by (subst rendered_loop.simps) simp
    next
      case (Some x)
      obtain lit t where x: "x = (lit, t)" by (cases x)
      from special_nonempty Some x have s: "prefix lit p" "0 \<le> t" "(lit, t) \<in> set (specials v)" by blast+
      have t: "tokens_text v [t] = lit" using 1(5) [OF s(3,2)] s(1) by (simp add: tokens_text_def prefix_imp_sublist)
      have "sublist l (drop (length lit) p) \<Longrightarrow> sublist l p" for l using sublist_drop by (rule sublist_order.order.trans [rotated])
      then have "tokens_text v (rendered_loop fam v [] (drop (length lit) p)) = [] @ drop (length lit) p"
        using 1(3-5) by (intro 1(2) [OF p Some x [symmetric]]) auto
      moreover have "rendered_loop fam v span p = tokenize_span fam v span @ [t] @ rendered_loop fam v [] (drop (length lit) p)"
        using p Some x by (subst rendered_loop.simps) simp
      ultimately show ?thesis using t s(1) by (simp add: span prefix_drop_append [symmetric])
    qed
  qed
qed


section \<open>Messages keep their frame\<close>

lemma marker_token:
  assumes "vocab_ok v" and "markers_found v" and "(t, s) \<in> set (deepseek_markers v)"
  shows "0 \<le> t" "t < int (length (token v))" "token v ! nat t = s"
  using assms unfolding markers_found_def vocab_ok_def list_all_iff by blast+

text \<open>The markers that no text can produce: those spelled with the full-width bar, whose bytes lie outside the encoded alphabet.\<close>

definition role_markers :: "ds4_vocab \<Rightarrow> int set" where
  "role_markers v = {bos_id v, eos_id v, user_id v, assistant_id v, dsml_id v}"

lemma role_marker_bar:
  assumes "vocab_ok v" and "markers_found v" and "t \<in> role_markers v"
  shows "CHR 0xEF \<in> set (token v ! nat t)"
proof -
  have "CHR 0xEF \<in> set BOS_TEXT" "CHR 0xEF \<in> set EOS_TEXT" "CHR 0xEF \<in> set USER_TEXT" "CHR 0xEF \<in> set ASSISTANT_TEXT" "CHR 0xEF \<in> set DS4_DSML"
    by (simp_all add: BOS_TEXT_def EOS_TEXT_def USER_TEXT_def ASSISTANT_TEXT_def DS4_DSML_def dsml_bar_def)
  then have "\<exists>s. (t, s) \<in> set (deepseek_markers v) \<and> CHR 0xEF \<in> set s"
    using assms(3) unfolding role_markers_def deepseek_markers_def by (elim insertE emptyE) (simp, blast)+
  then show ?thesis using marker_token(3) [OF assms(1,2)] by blast
qed

lemma role_marker_not_plain: "vocab_ok v \<Longrightarrow> markers_found v \<Longrightarrow> t \<in> role_markers v \<Longrightarrow> \<not> plain_token v t"
  using role_marker_bar by (fastforce simp: plain_token_def)

lemma filter_markers_text:
  assumes "vocab_ok v" and "markers_found v"
  shows "filter (\<lambda>t. t \<in> role_markers v) (bpe_tokenize_text fam v s) = []"
  using bpe_text_plain [OF assms(1)] role_marker_not_plain [OF assms] by (auto simp: filter_empty_conv)

lemma filter_markers_wrapped:
  assumes "vocab_ok v" and "markers_found v"
  shows "filter (\<lambda>t. t \<in> role_markers v) (wrapped_loop fam v end span p) = []"
  by (induction p arbitrary: span) (simp_all add: filter_markers_text [OF assms] tokenize_span_def)


lemma wrapped_loop_text:
  assumes "vocab_ok v" and "vocab_complete v"
  shows "tokens_text v (wrapped_loop fam v end span p) = span @ append_glm_tag_body_text p end"
proof (induction p arbitrary: span)
  case (Cons c p)
  then show ?case using assms by (simp add: tokenize_span_text bpe_text_lossless)
qed (simp add: tokenize_span_text assms)


text \<open>
  In a DeepSeek vocabulary the GLM spellings are still recognised in a rendered chat: the plain text \<open>[gMASK]\<close> becomes the begin marker
  and \<open><|user|>\<close> the user marker, although these strings are ordinary text of that family.
\<close>

lemma glm_spellings_in_deepseek:
  assumes "vocab_ok v" and "markers_found v"
  shows "tokenize_rendered_chat_vocab DS4_MODEL_FAMILY_DEEPSEEK4 v ''[gMASK]'' = [bos_id v]"
    and "tokenize_rendered_chat_vocab DS4_MODEL_FAMILY_DEEPSEEK4 v ''<|user|>'' = [user_id v]"
proof -
  have "0 \<le> bos_id v" "0 \<le> user_id v" using marker_token(1) [OF assms, of "bos_id v" BOS_TEXT] marker_token(1) [OF assms, of "user_id v" USER_TEXT]
    by (simp_all add: deepseek_markers_def)
  then have "special_token_at v ''[gMASK]'' = Some (''[gMASK]'', bos_id v)" "special_token_at v ''<|user|>'' = Some (''<|user|>'', user_id v)"
    by (simp_all add: special_token_at_def specials_def BOS_TEXT_def EOS_TEXT_def USER_TEXT_def ASSISTANT_TEXT_def dsml_bar_def)
  then show "tokenize_rendered_chat_vocab DS4_MODEL_FAMILY_DEEPSEEK4 v ''[gMASK]'' = [bos_id v]"
    and "tokenize_rendered_chat_vocab DS4_MODEL_FAMILY_DEEPSEEK4 v ''<|user|>'' = [user_id v]"
    by (simp_all add: tokenize_rendered_chat_vocab_def tokenize_span_def rendered_loop.simps)
qed

section \<open>A small model file\<close>

text \<open>A complete byte-level vocabulary with the DeepSeek markers and one merge, and the file that holds it.\<close>

definition small_tokens :: "string list" where
  "small_tokens = required_markers @ map byte_symbol (map char_of [0..<256 :: nat]) @ [''he'']"

definition small_kvs :: "(string \<times> gval) list" where
  "small_kvs = [(''tokenizer.ggml.tokens'', GArray GGUF_VALUE_STRING (map GString small_tokens)),
     (''tokenizer.ggml.merges'', GArray GGUF_VALUE_STRING (map GString [''h e'']))]"

lemma small_tokens_length: "length small_tokens = 264" "\<forall>s \<in> set small_tokens. length s \<le> 40"
proof -
  show "length small_tokens = 264" by (simp add: small_tokens_def required_markers_def)
  have "length (byte_symbol c) \<le> 2" for c by (cases c rule: byte_symbol_cases) auto
  then have "length (byte_symbol c) \<le> 40" for c by (meson le_trans numeral_le_iff semiring_norm(68,69,71))
  moreover have "\<forall>s \<in> set required_markers. length s \<le> 40"
    by (simp add: required_markers_def BOS_TEXT_def EOS_TEXT_def USER_TEXT_def ASSISTANT_TEXT_def DS4_DSML_def dsml_bar_def low_line_def)
  ultimately show "\<forall>s \<in> set small_tokens. length s \<le> 40" by (auto simp: small_tokens_def)
qed

lemma string_array_ok:
  assumes "length ss < 1000" and "\<forall>s \<in> set ss. length s \<le> 40"
  shows "gval_ok (Suc (Suc k)) (GArray GGUF_VALUE_STRING (map GString ss))" "length (concat (map put_val (map GString ss))) \<le> 48 * length ss"
proof -
  show "gval_ok (Suc (Suc k)) (GArray GGUF_VALUE_STRING (map GString ss))" using assms by fastforce
  show "length (concat (map put_val (map GString ss))) \<le> 48 * length ss" using assms(2) by (induction ss) auto
qed

lemma small_file_ok: "gguf_ok small_kvs [] []"
proof -
  obtain k :: nat where nine: "9 = Suc (Suc k)" using that [of 7] by simp
  have a: "gval_ok 9 (GArray GGUF_VALUE_STRING (map GString small_tokens))" "gval_ok 9 (GArray GGUF_VALUE_STRING (map GString [''h e'']))"
    unfolding nine by (intro string_array_ok(1); use small_tokens_length in simp)+
  then have "list_all kv_ok small_kvs" by (simp add: small_kvs_def kv_ok_def)
  moreover have l: "length (concat (map put_val (map GString small_tokens))) \<le> 48 * 264"
    using string_array_ok(2) [of small_tokens] small_tokens_length by simp
  have head: "32 \<le> length (gguf_head small_kvs [])" "length (gguf_head small_kvs []) \<le> 20000"
    using l by (simp_all add: gguf_head_def small_kvs_def put_kv_def le32.put_width le64.put_width)
  have al: "file_alignment 32 small_kvs = 32" by (simp add: small_kvs_def)
  have "gguf_start small_kvs [] < length (gguf_head small_kvs []) + 32" "length (gguf_head small_kvs []) \<le> gguf_start small_kvs []"
    unfolding gguf_start_def al using head(2) by (intro align_up_spec; simp)+
  then have "length (gguf_file small_kvs [] []) \<le> 20032" "32 \<le> length (gguf_file small_kvs [] [])" using head by (simp_all add: gguf_file_def)
  ultimately show ?thesis by (simp add: gguf_ok_def)
qed

lemma small_lists:
  "map_of small_kvs ''tokenizer.ggml.tokens'' = Some (GArray GGUF_VALUE_STRING (map GString small_tokens))"
  "map_of small_kvs ''tokenizer.ggml.merges'' = Some (GArray GGUF_VALUE_STRING (map GString [''h e'']))"
  "length small_tokens \<le> 2147483647" "set required_markers \<subseteq> set small_tokens"
  using small_tokens_length(1) by (auto simp: small_kvs_def small_tokens_def)


lemma small_vocab_complete:
  assumes "vocab_ok v" "table_map (token_to_id v) = map_of (rev (zip small_tokens (map int [0..<length small_tokens])))"
    and "table_map (merge_rank v) = map_of (rev (zip [''h e''] (map merge_index [0..<1])))"
  shows "vocab_complete v"
proof -
  have "byte_symbol c \<in> set small_tokens" for c
  proof -
    have "c = char_of (byte c)" "byte c < 256" using nat_of_char_less_256 by simp_all
    then have "c \<in> set (map char_of [0..<256 :: nat])" by (metis atLeast0LessThan image_eqI lessThan_iff set_map set_upt)
    then have "byte_symbol c \<in> set (map byte_symbol (map char_of [0..<256 :: nat]))" unfolding set_map [of byte_symbol] by (rule imageI)
    then show ?thesis unfolding small_tokens_def set_append by blast
  qed
  then have bytes: "table_map (token_to_id v) (byte_symbol c) \<noteq> None" for c unfolding assms(2) by (intro map_of_rev_zip_dom)
  have he: "table_map (token_to_id v) ''he'' \<noteq> None" unfolding assms(2) by (intro map_of_rev_zip_dom) (simp add: small_tokens_def)
  have "a @ b = ''he''" if "a @ '' '' @ b = ''h e''" for a b :: string
    using that by (cases a; cases "tl a") (auto simp: Cons_eq_append_conv append_eq_Cons_conv)
  then have "table_map (token_to_id v) (a @ b) \<noteq> None" if "table_map (merge_rank v) (a @ '' '' @ b) \<noteq> None" for a b
    using he that unfolding assms(3) by (auto split: if_splits)
  with bytes show ?thesis unfolding vocab_complete_def by blast
qed

lemma small_vocab:
  obtains m v where "vocab_load DS4_MODEL_FAMILY_DEEPSEEK4 m = Some (Inr v)" "length (m_map m) < 2 ^ 63" "vocab_complete v" "markers_found v" "vocab_ok v" "token v = small_tokens"
proof -
  obtain m v where v: "vocab_load DS4_MODEL_FAMILY_DEEPSEEK4 m = Some (Inr v)" "length (m_map m) < 2 ^ 63" "markers_found v" "vocab_ok v"
    "table_map (token_to_id v) = map_of (rev (zip small_tokens (map int [0..<length small_tokens])))"
    "table_map (merge_rank v) = map_of (rev (zip [''h e''] (map merge_index [0..<length [''h e'']])))"
    "token v = small_tokens"
    using vocab_load_file [OF small_file_ok small_lists(1-3), of DS4_MODEL_FAMILY_DEEPSEEK4] small_lists(4) by blast
  have "vocab_complete v" using v(4-6) by (intro small_vocab_complete) simp_all
  with v that show thesis by blast
qed

lemma special_not_plain:
  assumes "(lit, t) \<in> set (specials v)" and "sublist lit s"
  shows "CHR ''<'' \<in> set s \<or> CHR ''['' \<in> set s \<or> CHR 0xEF \<in> set s"
proof -
  have "\<forall>x \<in> set (specials v). hd (fst x) \<in> {CHR ''<'', CHR ''['', CHR 0xEF} \<and> fst x \<noteq> []"
    by (simp add: specials_def BOS_TEXT_def EOS_TEXT_def USER_TEXT_def ASSISTANT_TEXT_def DS4_DSML_def dsml_bar_def)
  then have "hd lit \<in> {CHR ''<'', CHR ''['', CHR 0xEF}" "lit \<noteq> []" using assms(1) by force+
  moreover from this(2) have "hd lit \<in> set s" using set_mono_sublist [OF assms(2)] by auto
  ultimately show ?thesis by auto
qed




end
