(* ===== verification/Sampler.thy ===== *)
theory Sampler
  imports Prelude "HOL-Library.Multiset" "HOL-Library.Product_Lexorder"
begin

text \<open>
  Choosing the next token (\<open>ds4.c\<close>): the greedy choice, with its eight-lane scan, the variant that leaves one token out, the two
  best tokens, and the random generator. A \<open>float\<close> is its bit
  pattern; comparisons are those of IEEE 754, so a NaN compares false and the two zeros are equal.
\<close>

section \<open>Comparing floats\<close>

type_synonym f32 = u32

definition f32_nan :: "f32 \<Rightarrow> bool" where
  "f32_nan x \<longleftrightarrow> x AND 0x7fffffff > 0x7f800000"

definition f32_finite :: "f32 \<Rightarrow> bool" where
  "f32_finite x \<longleftrightarrow> x AND 0x7fffffff < 0x7f800000"

text \<open>The order of the numbers as an integer: the magnitude bits, negated when the sign bit is set; both zeros are 0.\<close>

definition f32_key :: "f32 \<Rightarrow> int" where
  "f32_key x = (if bit x 31 then - uint (x AND 0x7fffffff) else uint (x AND 0x7fffffff))"

definition f32_gt :: "f32 \<Rightarrow> f32 \<Rightarrow> bool" where
  "f32_gt x y \<longleftrightarrow> \<not> f32_nan x \<and> \<not> f32_nan y \<and> f32_key x > f32_key y"

definition f32_eq :: "f32 \<Rightarrow> f32 \<Rightarrow> bool" where
  "f32_eq x y \<longleftrightarrow> \<not> f32_nan x \<and> \<not> f32_nan y \<and> f32_key x = f32_key y"

text \<open>\<open>-1.0e30f\<close>\<close>

definition DS4_NEG_INF :: f32 where "DS4_NEG_INF = 0xf149f2ca"

lemma finite_not_nan: "f32_finite x \<Longrightarrow> \<not> f32_nan x"
  by (simp add: f32_finite_def f32_nan_def)

section \<open>The greedy choice\<close>

text \<open>One step of the plain scan, and the scan over a range of indices.\<close>

definition argmax_step :: "f32 list \<Rightarrow> nat \<Rightarrow> int \<times> f32 \<Rightarrow> int \<times> f32" where
  "argmax_step logits i best = (if f32_gt (logits ! i) (snd best) then (int i, logits ! i) else best)"

definition argmax_scan :: "f32 list \<Rightarrow> nat \<Rightarrow> nat \<Rightarrow> int \<times> f32 \<Rightarrow> int \<times> f32" where
  "argmax_scan logits lo hi best = fold (argmax_step logits) [lo..<hi] best"

text \<open>The eight lanes: lane \<open>j\<close> looks at every eighth index.\<close>

definition lanes_step :: "f32 list \<Rightarrow> nat \<Rightarrow> (int \<times> f32) list \<Rightarrow> (int \<times> f32) list" where
  "lanes_step logits i lanes = map (\<lambda>j. argmax_step logits (i + j) (lanes ! j)) [0..<8]"

function lanes_loop :: "f32 list \<Rightarrow> nat \<Rightarrow> nat \<Rightarrow> (int \<times> f32) list \<Rightarrow> nat \<times> (int \<times> f32) list" where
  "lanes_loop logits i hi lanes = (if hi - i \<ge> 8 then lanes_loop logits (i + 8) hi (lanes_step logits i lanes) else (i, lanes))"
  by pat_completeness auto
termination by (relation "measure (\<lambda>(logits, i, hi, lanes). hi - i)") auto

declare lanes_loop.simps [simp del]

definition merge_lane :: "int \<times> f32 \<Rightarrow> int \<times> f32 \<Rightarrow> int \<times> f32" where
  "merge_lane lane best =
     (if f32_gt (snd lane) (snd best) \<or> (f32_eq (snd lane) (snd best) \<and> fst lane < fst best) then lane else best)"

definition argmax_f32_unrolled8_range :: "f32 list \<Rightarrow> nat \<Rightarrow> nat \<Rightarrow> int \<times> f32 \<Rightarrow> int \<times> f32" where
  "argmax_f32_unrolled8_range logits lo hi best =
     (case lanes_loop logits lo hi (replicate 8 best) of
        (i, lanes) \<Rightarrow> argmax_scan logits i hi (fold merge_lane lanes best))"

definition sample_argmax_unrolled8 :: "f32 list \<Rightarrow> int" where
  "sample_argmax_unrolled8 logits = fst (argmax_f32_unrolled8_range logits 0 (length logits) (0, DS4_NEG_INF))"

text \<open>\<open>disabled\<close>: the environment asks for the plain loop.\<close>

definition sample_argmax :: "bool \<Rightarrow> f32 list \<Rightarrow> int" where
  "sample_argmax disabled logits =
     (if \<not> disabled then sample_argmax_unrolled8 logits else fst (argmax_scan logits 0 (length logits) (0, DS4_NEG_INF)))"

definition argmax_f32_excluding_unrolled8 :: "f32 list \<Rightarrow> int \<Rightarrow> int" where
  "argmax_f32_excluding_unrolled8 logits excluded_id =
     (let n = length logits; first = (if excluded_id = 0 then 1 else 0)
      in if first \<ge> n then -1
         else let init = (int first, logits ! first); lo = first + 1
              in if excluded_id \<ge> 0 \<and> nat excluded_id \<ge> lo \<and> nat excluded_id < n
                 then fst (argmax_f32_unrolled8_range logits (nat excluded_id + 1) n
                        (argmax_f32_unrolled8_range logits lo (nat excluded_id) init))
                 else fst (argmax_f32_unrolled8_range logits lo n init))"

text \<open>The two greatest logits: index and value of each.\<close>

definition top2_step :: "f32 list \<Rightarrow> nat \<Rightarrow> (int \<times> f32) \<times> (int \<times> f32) \<Rightarrow> (int \<times> f32) \<times> (int \<times> f32)" where
  "top2_step logits i b =
     (if f32_gt (logits ! i) (snd (fst b)) then ((int i, logits ! i), fst b)
      else if f32_gt (logits ! i) (snd (snd b)) then (fst b, (int i, logits ! i)) else b)"

definition logits_top2 :: "f32 list \<Rightarrow> (int \<times> f32) \<times> (int \<times> f32)" where
  "logits_top2 logits = fold (top2_step logits) [0..<length logits] ((-1, DS4_NEG_INF), (-1, DS4_NEG_INF))"

subsection \<open>The lanes find what the plain scan finds\<close>

text \<open>
  The best of a set of indices from a starting point: the start while nothing exceeds it, and otherwise the least index of
  the greatest value. At most one pair is the best, however it was found.
\<close>

definition is_best :: "f32 list \<Rightarrow> int \<times> f32 \<Rightarrow> nat set \<Rightarrow> int \<times> f32 \<Rightarrow> bool" where
  "is_best logits init X r \<longleftrightarrow>
     (r = init \<and> (\<forall>i \<in> X. \<not> f32_gt (logits ! i) (snd init)))
   \<or> (\<exists>i \<in> X. r = (int i, logits ! i) \<and> f32_gt (logits ! i) (snd init)
        \<and> (\<forall>k \<in> X. \<not> f32_gt (logits ! k) (logits ! i) \<and> (f32_eq (logits ! k) (logits ! i) \<longrightarrow> i \<le> k)))"

lemma f32_gt_nan: "f32_gt x y \<Longrightarrow> \<not> f32_nan x \<and> \<not> f32_nan y"
  by (simp add: f32_gt_def)

lemma f32_total: "\<not> f32_nan x \<Longrightarrow> \<not> f32_nan y \<Longrightarrow> f32_gt x y \<or> f32_eq x y \<or> f32_gt y x"
  by (auto simp: f32_gt_def f32_eq_def)

lemma is_best_unique:
  assumes "is_best logits init X r" "is_best logits init X s"
  shows "r = s"
  using assms f32_total unfolding is_best_def by (metis f32_eq_def f32_gt_nan le_antisym)

lemma is_best_empty: "is_best logits init {} init"
  by (simp add: is_best_def)

lemma is_best_step:
  assumes "is_best logits init X r" and "\<forall>i \<in> X. i < k"
  shows "is_best logits init (insert k X) (argmax_step logits k r)"
proof -
  consider (none) "r = init" "\<forall>i \<in> X. \<not> f32_gt (logits ! i) (snd init)"
    | (some) i where "i \<in> X" "r = (int i, logits ! i)" "f32_gt (logits ! i) (snd init)"
        "\<forall>k \<in> X. \<not> f32_gt (logits ! k) (logits ! i) \<and> (f32_eq (logits ! k) (logits ! i) \<longrightarrow> i \<le> k)"
    using assms(1) unfolding is_best_def by blast
  then show ?thesis
  proof cases
    case none
    show ?thesis
    proof (cases "f32_gt (logits ! k) (snd init)")
      case True
      have "\<not> f32_gt (logits ! i) (logits ! k) \<and> \<not> f32_eq (logits ! i) (logits ! k)" if "i \<in> X" for i
        using none(2) True that by (fastforce simp: f32_gt_def f32_eq_def)
      then show ?thesis using none(1) True unfolding is_best_def argmax_step_def by (auto simp: f32_gt_def)
    qed (use none in \<open>auto simp: is_best_def argmax_step_def\<close>)
  next
    case some
    have i: "i < k" using assms(2) some(1) by blast
    show ?thesis
    proof (cases "f32_gt (logits ! k) (logits ! i)")
      case True
      have "\<not> f32_gt (logits ! j) (logits ! k) \<and> \<not> f32_eq (logits ! j) (logits ! k)" if "j \<in> X" for j
        using some(4) True that by (fastforce simp: f32_gt_def f32_eq_def)
      moreover have "f32_gt (logits ! k) (snd init)" using True some(3) by (auto simp: f32_gt_def)
      ultimately show ?thesis using True some(2) unfolding is_best_def argmax_step_def by (auto simp: f32_gt_def)
    next
      case False
      then show ?thesis using some i unfolding is_best_def argmax_step_def by auto
    qed
  qed
qed

lemma is_best_merge:
  assumes r: "is_best logits init X r" and s: "is_best logits init Y s"
  shows "is_best logits init (X \<union> Y) (merge_lane s r)"
proof -
  consider (none) "s = init" "\<forall>i \<in> Y. \<not> f32_gt (logits ! i) (snd init)"
    | (some) j where "j \<in> Y" "s = (int j, logits ! j)" "f32_gt (logits ! j) (snd init)"
        "\<forall>k \<in> Y. \<not> f32_gt (logits ! k) (logits ! j) \<and> (f32_eq (logits ! k) (logits ! j) \<longrightarrow> j \<le> k)"
    using s unfolding is_best_def by blast
  then show ?thesis
  proof cases
    case none
    have eq: "merge_lane s r = r" using r none(1) unfolding is_best_def merge_lane_def by (auto simp: f32_gt_def f32_eq_def)
    have "\<not> f32_gt (logits ! k) (logits ! i) \<and> \<not> f32_eq (logits ! k) (logits ! i)"
      if "k \<in> Y" "f32_gt (logits ! i) (snd init)" for k i using none(2) that by (fastforce simp: f32_gt_def f32_eq_def)
    then show ?thesis using r none(2) unfolding eq is_best_def by blast
  next
    case j: some
    from r consider (none) "r = init" "\<forall>i \<in> X. \<not> f32_gt (logits ! i) (snd init)"
      | (some) i where "i \<in> X" "r = (int i, logits ! i)" "f32_gt (logits ! i) (snd init)"
          "\<forall>k \<in> X. \<not> f32_gt (logits ! k) (logits ! i) \<and> (f32_eq (logits ! k) (logits ! i) \<longrightarrow> i \<le> k)"
      unfolding is_best_def by blast
    then show ?thesis
    proof cases
      case none
      have eq: "merge_lane s r = s" using j(2,3) none(1) unfolding merge_lane_def by simp
      have "\<not> f32_gt (logits ! k) (logits ! j) \<and> \<not> f32_eq (logits ! k) (logits ! j)" if "k \<in> X" for k
        using none(2) j(3) that by (fastforce simp: f32_gt_def f32_eq_def)
      then show ?thesis using j unfolding eq is_best_def by blast
    next
      case i: some
      show ?thesis
      proof (cases "f32_gt (logits ! j) (logits ! i) \<or> (f32_eq (logits ! j) (logits ! i) \<and> j < i)")
        case True
        then have eq: "merge_lane s r = s" using j(2) i(2) by (simp add: merge_lane_def)
        have "\<not> f32_gt (logits ! k) (logits ! j) \<and> (f32_eq (logits ! k) (logits ! j) \<longrightarrow> j \<le> k)" if "k \<in> X" for k
          using bspec [OF i(4) that] True by (auto simp: f32_gt_def f32_eq_def)
        then show ?thesis using j unfolding eq is_best_def by blast
      next
        case False
        then have eq: "merge_lane s r = r" using j(2) i(2) by (simp add: merge_lane_def)
        have nn: "\<not> f32_nan (logits ! i)" "\<not> f32_nan (logits ! j)" using i(3) j(3) by (simp_all add: f32_gt_def)
        have "\<not> f32_gt (logits ! k) (logits ! i) \<and> (f32_eq (logits ! k) (logits ! i) \<longrightarrow> i \<le> k)" if "k \<in> Y" for k
          using bspec [OF j(4) that] False nn by (auto simp: f32_gt_def f32_eq_def)
        then show ?thesis using i unfolding eq is_best_def by blast
      qed
    qed
  qed
qed

lemma argmax_scan_best:
  assumes "is_best logits init X r" and "\<forall>i \<in> X. i < lo"
  shows "is_best logits init (X \<union> {lo..<hi}) (argmax_scan logits lo hi r)"
proof (induction hi)
  case 0
  then show ?case using assms(1) by (simp add: argmax_scan_def)
next
  case (Suc hi)
  show ?case
  proof (cases "lo \<le> hi")
    case True
    then have "is_best logits init (insert hi (X \<union> {lo..<hi})) (argmax_step logits hi (argmax_scan logits lo hi r))"
      using assms(2) by (intro is_best_step Suc) auto
    moreover have "insert hi (X \<union> {lo..<hi}) = X \<union> {lo..<Suc hi}" using True by auto
    ultimately show ?thesis using True by (simp add: argmax_scan_def)
  next
    case False
    then show ?thesis using assms(1) by (simp add: argmax_scan_def)
  qed
qed

definition lane_indices :: "nat \<Rightarrow> nat \<Rightarrow> nat \<Rightarrow> nat set" where
  "lane_indices lo i j = {k. lo \<le> k \<and> k < i \<and> (k - lo) mod 8 = j}"

lemma lane_indices_step:
  assumes "j < 8" and "i = lo + 8 * c"
  shows "lane_indices lo (i + 8) j = insert (i + j) (lane_indices lo i j)"
proof -
  have "k = i + j" if k: "i \<le> k" "k < i + 8" "(k - lo) mod 8 = j" for k
  proof -
    obtain d where d: "k = i + d" "d < 8" using k(1,2) by (metis add_less_cancel_left le_iff_add)
    have "(k - lo) mod 8 = d" using d assms(2) by simp
    then show ?thesis using k(3) d by simp
  qed
  moreover have "(i + j - lo) mod 8 = j" using assms by simp
  ultimately have "k \<in> lane_indices lo (i + 8) j \<longleftrightarrow> k \<in> insert (i + j) (lane_indices lo i j)" for k
    using assms by (cases "k < i") (auto simp: lane_indices_def)
  then show ?thesis by (rule set_eqI)
qed

lemma lanes_loop_best:
  assumes "\<forall>j < 8. is_best logits init (lane_indices lo i j) (lanes ! j)" and "length lanes = 8" and "i = lo + 8 * c" and "lo \<le> hi" and "i \<le> hi"
  shows "case lanes_loop logits i hi lanes of (i', lanes') \<Rightarrow>
    length lanes' = 8 \<and> lo \<le> i' \<and> i' \<le> hi \<and> (\<forall>j < 8. is_best logits init (lane_indices lo i' j) (lanes' ! j))"
  using assms
proof (induction logits i hi lanes arbitrary: c rule: lanes_loop.induct)
  case (1 logits i hi lanes)
  show ?case
  proof (cases "hi - i \<ge> 8")
    case True
    have "\<forall>j < 8. is_best logits init (lane_indices lo (i + 8) j) (lanes_step logits i lanes ! j)"
    proof (intro allI impI)
      fix j :: nat assume j: "j < 8"
      have "is_best logits init (insert (i + j) (lane_indices lo i j)) (argmax_step logits (i + j) (lanes ! j))"
        using 1(2) j by (intro is_best_step) (auto simp: lane_indices_def)
      then show "is_best logits init (lane_indices lo (i + 8) j) (lanes_step logits i lanes ! j)"
        using j lane_indices_step [OF j 1(4)] by (simp add: lanes_step_def)
    qed
    then have "case lanes_loop logits (i + 8) hi (lanes_step logits i lanes) of (i', lanes') \<Rightarrow>
        length lanes' = 8 \<and> lo \<le> i' \<and> i' \<le> hi \<and> (\<forall>j < 8. is_best logits init (lane_indices lo i' j) (lanes' ! j))"
      using True 1(4-6) by (intro 1(1) [OF True, of "c + 1"]) (simp_all add: lanes_step_def)
    then show ?thesis using True by (subst lanes_loop.simps) simp
  next
    case False
    then show ?thesis using 1(2-6) by (subst lanes_loop.simps) simp
  qed
qed

lemma fold_merge_best:
  assumes "is_best logits init X r" and "\<forall>j < length lanes. is_best logits init (Y j) (lanes ! j)"
  shows "is_best logits init (X \<union> (\<Union>j < length lanes. Y j)) (fold merge_lane lanes r)"
  using assms
proof (induction lanes arbitrary: X r Y)
  case (Cons l lanes)
  have "is_best logits init (X \<union> Y 0) (merge_lane l r)" using Cons.prems by (intro is_best_merge) auto
  moreover have "\<forall>j < length lanes. is_best logits init (Y (Suc j)) (lanes ! j)" using Cons.prems(2) by auto
  ultimately have "is_best logits init (X \<union> Y 0 \<union> (\<Union>j < length lanes. Y (Suc j))) (fold merge_lane lanes (merge_lane l r))" by (rule Cons.IH)
  moreover have "X \<union> Y 0 \<union> (\<Union>j < length lanes. Y (Suc j)) = X \<union> (\<Union>j < length (l # lanes). Y j)"
    by (auto simp: less_Suc_eq_0_disj)
  ultimately show ?case by simp
qed simp

lemma unrolled_best:
  assumes "lo \<le> hi"
  shows "is_best logits init {lo..<hi} (argmax_f32_unrolled8_range logits lo hi init)"
proof -
  obtain i lanes where l: "lanes_loop logits lo hi (replicate 8 init) = (i, lanes)" by (cases "lanes_loop logits lo hi (replicate 8 init)")
  have "lane_indices lo lo j = {}" for j by (auto simp: lane_indices_def)
  then have "\<forall>j < 8. is_best logits init (lane_indices lo lo j) (replicate 8 init ! j)" by (simp add: is_best_empty)
  from lanes_loop_best [OF this, of 0 hi] l assms have i: "length lanes = 8" "lo \<le> i" "i \<le> hi" "\<forall>j < 8. is_best logits init (lane_indices lo i j) (lanes ! j)"
    by auto
  have "is_best logits init ({} \<union> (\<Union>j < length lanes. lane_indices lo i j)) (fold merge_lane lanes init)"
    using i(1,4) by (intro fold_merge_best is_best_empty) simp
  moreover have "{} \<union> (\<Union>j < length lanes. lane_indices lo i j) = {lo..<i}" using i(1) by (auto simp: lane_indices_def)
  ultimately have "is_best logits init {lo..<i} (fold merge_lane lanes init)" by simp
  then have "is_best logits init ({lo..<i} \<union> {i..<hi}) (argmax_scan logits i hi (fold merge_lane lanes init))" by (intro argmax_scan_best) auto
  moreover have "{lo..<i} \<union> {i..<hi} = {lo..<hi}" using i(2,3) by auto
  ultimately show ?thesis by (simp add: argmax_f32_unrolled8_range_def l)
qed

lemma unrolled_eq_scan:
  assumes "lo \<le> hi"
  shows "argmax_f32_unrolled8_range logits lo hi init = argmax_scan logits lo hi init"
proof -
  have "is_best logits init ({} \<union> {lo..<hi}) (argmax_scan logits lo hi init)" by (intro argmax_scan_best is_best_empty) simp
  then show ?thesis using is_best_unique [OF unrolled_best [OF assms]] by simp
qed

lemma filter_excluded:
  "lo \<le> e \<Longrightarrow> e < n \<Longrightarrow> filter (\<lambda>i. int i \<noteq> int e) [lo..<n] = [lo..<e] @ [e + 1..<n]"
  "e < lo \<or> n \<le> e \<Longrightarrow> filter (\<lambda>i. int i \<noteq> int e) [lo..<n] = [lo..<n]"
proof -
  assume "lo \<le> e" "e < n"
  then have "[lo..<n] = [lo..<e] @ e # [e + 1..<n]" using upt_add_eq_append [of lo e "n - e"] upt_conv_Cons [of e n] by simp
  then show "filter (\<lambda>i. int i \<noteq> int e) [lo..<n] = [lo..<e] @ [e + 1..<n]" by simp
qed (auto simp: filter_id_conv)

lemma excluding_exact:
  "argmax_f32_excluding_unrolled8 logits excluded
     = (case filter (\<lambda>i. int i \<noteq> excluded) [0..<length logits] of
          [] \<Rightarrow> -1 | first # rest \<Rightarrow> fst (fold (argmax_step logits) rest (int first, logits ! first)))"
proof (cases "length logits = 0")
  case False
  let ?n = "length logits"
  have n: "[0..<?n] = 0 # [1..<?n]" using False by (simp add: upt_conv_Cons)
  consider "excluded = 0" | e where "excluded = int e" "1 \<le> e" "e < ?n" | "excluded < 0" | e where "excluded = int e" "?n \<le> e"
  proof (cases "excluded < 0")
    case False
    then obtain e where e: "excluded = int e" by (rule nonneg_int_cases [OF leI])
    show ?thesis
    proof (cases "e = 0")
      case False
      then show ?thesis using e that(2) that(4) by (cases "e < ?n") auto
    qed (use e that(1) in simp)
  qed (use that(3) in simp)
  then show ?thesis
  proof cases
    case 1
    then have "filter (\<lambda>i. int i \<noteq> excluded) [0..<?n] = [1..<?n]" unfolding n using filter_excluded(2) [of 0 1 ?n] by simp
    then show ?thesis using 1 by (cases "1 < ?n") (simp_all add: argmax_f32_excluding_unrolled8_def Let_def unrolled_eq_scan argmax_scan_def upt_conv_Cons)
  next
    case 2
    then have "filter (\<lambda>i. int i \<noteq> excluded) [0..<?n] = 0 # [1..<e] @ [e + 1..<?n]" unfolding n using filter_excluded(1) [of 1 e ?n] by simp
    then show ?thesis using 2 False by (simp add: argmax_f32_excluding_unrolled8_def Let_def unrolled_eq_scan argmax_scan_def)
  next
    case 3
    then have "filter (\<lambda>i. int i \<noteq> excluded) [0..<?n] = [0..<?n]" by (auto simp: filter_id_conv)
    then show ?thesis using 3 False by (simp add: n argmax_f32_excluding_unrolled8_def Let_def unrolled_eq_scan argmax_scan_def Suc_le_eq del: upt_Suc)
  next
    case 4
    then have "filter (\<lambda>i. int i \<noteq> excluded) [0..<?n] = [0..<?n]" using filter_excluded(2) [of e 0 ?n] by simp
    then show ?thesis using 4 False by (simp add: n argmax_f32_excluding_unrolled8_def Let_def unrolled_eq_scan argmax_scan_def Suc_le_eq del: upt_Suc)
  qed
qed (simp add: argmax_f32_excluding_unrolled8_def)

lemma top2_first: "fst (logits_top2 logits) = argmax_scan logits 0 (length logits) (-1, DS4_NEG_INF)"
proof -
  have "fst (fold (top2_step logits) is b) = fold (argmax_step logits) is (fst b)" for "is" b
    by (induction "is" arbitrary: b) (auto simp: top2_step_def argmax_step_def)
  then show ?thesis by (simp add: logits_top2_def argmax_scan_def)
qed

section \<open>The random generator\<close>

text \<open>The new state and the number drawn; the second takes the top 24 bits, the numerator of a fraction of \<open>2 ^ 24\<close>.\<close>

definition sample_rng_next :: "u64 \<Rightarrow> u64 \<times> u64" where
  "sample_rng_next state =
     (let x = (if state = 0 then 0x9e3779b97f4a7c15 else state);
          x = x XOR drop_bit 12 x;
          x = x XOR push_bit 25 x;
          x = x XOR drop_bit 27 x
      in (x, x * 0x2545f4914f6cdd1d))"

definition sample_rng_f32_numerator :: "u64 \<Rightarrow> u64 \<times> u64" where
  "sample_rng_f32_numerator state = (case sample_rng_next state of (state, x) \<Rightarrow> (state, drop_bit 40 x AND 0xffffff))"

lemma xorshift_right_zero: "0 < n \<Longrightarrow> x XOR drop_bit n x = 0 \<longleftrightarrow> x = (0 :: u64)"
proof
  assume n: "0 < n" and "x XOR drop_bit n x = 0"
  then have "bit (x XOR drop_bit n x) i \<longleftrightarrow> False" for i by simp
  then have e: "bit x i \<longleftrightarrow> bit x (n + i)" for i by (simp add: bit_xor_iff bit_drop_bit_eq)
  have "\<not> bit x i" for i
  proof (induction "64 - i" arbitrary: i rule: less_induct)
    case less
    show ?case
    proof (cases "i < 64")
      case True
      then show ?thesis using less [of "n + i"] e [of i] n by simp
    next
      case False
      then show ?thesis using bit_imp_le_length [of x i] by auto
    qed
  qed
  then show "x = 0" by (simp add: bit_eq_iff)
qed simp

lemma xorshift_left_zero: "0 < n \<Longrightarrow> x XOR push_bit n x = 0 \<longleftrightarrow> x = (0 :: u64)"
proof
  assume n: "0 < n" and "x XOR push_bit n x = 0"
  then have z: "bit (x XOR push_bit n x) i \<longleftrightarrow> False" for i by simp
  have e: "n \<le> i \<and> bit x (i - n)" if "bit x i" for i using z [of i] that by (auto simp: bit_xor_iff bit_push_bit_iff)
  have "\<not> bit x i" for i
  proof (induction i rule: less_induct)
    case (less i)
    then show ?case using e [of i] n by (metis diff_less le_less_trans less_le_trans not_le)
  qed
  then show "x = 0" by (simp add: bit_eq_iff)
qed simp

text \<open>The generator never falls into its fixed point 0, and a draw is below \<open>2 ^ 24\<close>.\<close>

lemma sample_rng_next_nonzero: "fst (sample_rng_next state) \<noteq> 0"
proof -
  define x where "x = (if state = 0 then 0x9e3779b97f4a7c15 else state)"
  define y where "y = x XOR drop_bit 12 x"
  define z where "z = y XOR push_bit 25 y"
  have "x \<noteq> 0" by (simp add: x_def)
  then have "z XOR drop_bit 27 z \<noteq> 0" by (simp add: xorshift_right_zero z_def xorshift_left_zero y_def del: drop_bit_xor push_bit_xor)
  then show ?thesis by (simp add: sample_rng_next_def Let_def x_def y_def z_def)
qed

lemma sample_rng_f32_numerator_bound: "snd (sample_rng_f32_numerator state) < 2 ^ 24"
proof -
  have "y AND 0xffffff < 2 ^ 24" for y :: u64
    using word_and_le1 [of y "0xffffff"] by (simp add: word_le_less_eq order_le_less_trans)
  then show ?thesis by (simp add: sample_rng_f32_numerator_def case_prod_beta)
qed

text \<open>
  (C22) The eight-lane argmax is the plain argmax, for every vector of bit patterns: NaNs, infinities and both zeros included. The
  token chosen is the least index of the greatest logit above the floor, and 0 when none is above it; and the variant that leaves
  one token out never returns it and scans the remaining ones the same way.
\<close>

theorem argmax_unrolled_exact:
  "sample_argmax False logits = sample_argmax True logits
   \<and> is_best logits (0, DS4_NEG_INF) {0..<length logits} (argmax_scan logits 0 (length logits) (0, DS4_NEG_INF))
   \<and> argmax_f32_excluding_unrolled8 logits excluded
     = (case filter (\<lambda>i. int i \<noteq> excluded) [0..<length logits] of
          [] \<Rightarrow> -1
        | first # rest \<Rightarrow> fst (fold (argmax_step logits) rest (int first, logits ! first)))"
proof (intro conjI)
  show "sample_argmax False logits = sample_argmax True logits"
    by (simp add: sample_argmax_def sample_argmax_unrolled8_def unrolled_eq_scan)
  show "is_best logits (0, DS4_NEG_INF) {0..<length logits} (argmax_scan logits 0 (length logits) (0, DS4_NEG_INF))"
    using argmax_scan_best [OF is_best_empty, of 0 logits "(0, DS4_NEG_INF)" "length logits"] by simp
  show "argmax_f32_excluding_unrolled8 logits excluded
     = (case filter (\<lambda>i. int i \<noteq> excluded) [0..<length logits] of
          [] \<Rightarrow> -1 | first # rest \<Rightarrow> fst (fold (argmax_step logits) rest (int first, logits ! first)))"
    by (rule excluding_exact)
qed

end
