(* ===== verification/C_Sort.thy ===== *)
theory C_Sort
  imports Prelude "HOL-Library.Multiset"
begin

text \<open>\<open>qsort\<close> of the C library: it puts the elements in the order of the comparison function. The theorems that rest on it use only
  that the result is sorted and has the same elements.\<close>

primrec cmp_insert :: "('a \<Rightarrow> 'a \<Rightarrow> int) \<Rightarrow> 'a \<Rightarrow> 'a list \<Rightarrow> 'a list" where
  "cmp_insert cmp x [] = [x]"
| "cmp_insert cmp x (y # ys) = (if cmp x y \<le> 0 then x # y # ys else y # cmp_insert cmp x ys)"

definition qsort :: "('a \<Rightarrow> 'a \<Rightarrow> int) \<Rightarrow> 'a list \<Rightarrow> 'a list" where
  "qsort cmp xs = foldr (cmp_insert cmp) xs []"

lemma mset_qsort [simp]: "mset (qsort cmp xs) = mset xs"
proof -
  have ins: "mset (cmp_insert cmp x ys) = add_mset x (mset ys)" for x ys by (induction ys) auto
  show ?thesis unfolding qsort_def by (induction xs) (auto simp: ins)
qed

lemma set_qsort [simp]: "set (qsort cmp xs) = set xs"
  by (metis mset_qsort set_mset_mset)

lemma qsort_sorted:
  assumes "\<forall>x \<in> set xs. \<forall>y \<in> set xs. cmp x y \<le> 0 \<longleftrightarrow> key y \<le> (key x :: 'k :: linorder)"
  shows "sorted_wrt (\<lambda>x y. key y \<le> key x) (qsort cmp xs)"
proof -
  have ins: "set (cmp_insert cmp x ys) = insert x (set ys)" for x ys by (induction ys) auto
  have "sorted_wrt (\<lambda>x y. key y \<le> key x) (cmp_insert cmp x ys)"
    if "sorted_wrt (\<lambda>x y. key y \<le> key x) ys" "\<forall>y \<in> set ys. cmp x y \<le> 0 \<longleftrightarrow> key y \<le> key x" for x ys
    using that by (induction ys) (auto simp: ins)
  then show ?thesis using assms
    by (induction xs) (auto simp: qsort_def set_qsort [unfolded qsort_def])
qed

end
