(* ===== verification/Top_K.thy ===== *)
theory Top_K
  imports Sampler C_Sort
begin

text \<open>
  Top-k selection (\<open>ds4.c\<close>): the candidates, their order, the binary heap of the best ones with its two sift loops, the
  loop that offers every finite logit to it, and the sort that follows. The heap array with its fill count is a list of that
  length. The weight \<open>expf((v - max_logit) / temperature)\<close> of a logit is the parameter \<open>raw\<close>: the order and the selection do not
  depend on it. Indices stay below the cap of 1024, so the 32-bit index arithmetic does not wrap.
\<close>

section \<open>Candidates and their order\<close>

record sample_candidate =
  cand_id :: int
  logit :: f32
  prob :: f32

definition sample_candidate_cmp_desc :: "sample_candidate \<Rightarrow> sample_candidate \<Rightarrow> int" where
  "sample_candidate_cmp_desc ca cb =
     (let logit_order = of_bool (f32_gt (logit cb) (logit ca)) - of_bool (f32_gt (logit ca) (logit cb))
      in if logit_order \<noteq> 0 then logit_order
         else of_bool (cand_id ca > cand_id cb) - of_bool (cand_id ca < cand_id cb))"

definition sample_candidate_gt :: "sample_candidate \<Rightarrow> sample_candidate \<Rightarrow> bool" where
  "sample_candidate_gt a b = (if \<not> f32_eq (logit a) (logit b) then f32_gt (logit a) (logit b) else cand_id a < cand_id b)"

section \<open>The heap\<close>

definition swap_at :: "nat \<Rightarrow> nat \<Rightarrow> 'a list \<Rightarrow> 'a list" where
  "swap_at i j xs = xs[j := xs ! i, i := xs ! j]"

function sample_heap_sift_up :: "sample_candidate list \<Rightarrow> nat \<Rightarrow> sample_candidate list" where
  "sample_heap_sift_up heap idx =
     (if idx > 0
      then let parent = (idx - 1) div 2
           in if \<not> sample_candidate_gt (heap ! parent) (heap ! idx) then heap
              else sample_heap_sift_up (swap_at parent idx heap) parent
      else heap)"
  by pat_completeness auto
termination by (relation "measure snd") auto

declare sample_heap_sift_up.simps [simp del]

text \<open>The least of a node and its children below \<open>n\<close>.\<close>

definition sift_smallest :: "sample_candidate list \<Rightarrow> nat \<Rightarrow> nat \<Rightarrow> nat" where
  "sift_smallest heap n idx =
     (let left = idx * 2 + 1; right = left + 1;
          smallest = (if left < n \<and> sample_candidate_gt (heap ! idx) (heap ! left) then left else idx)
      in if right < n \<and> sample_candidate_gt (heap ! smallest) (heap ! right) then right else smallest)"

function sample_heap_sift_down :: "sample_candidate list \<Rightarrow> nat \<Rightarrow> nat \<Rightarrow> sample_candidate list" where
  "sample_heap_sift_down heap n idx =
     (let smallest = sift_smallest heap n idx
      in if smallest = idx then heap
         else sample_heap_sift_down (swap_at idx smallest heap) n smallest)"
  by pat_completeness auto
termination
  by (relation "measure (\<lambda>(heap, n, idx). n - idx)") (auto simp: sift_smallest_def Let_def split: if_splits)

declare sample_heap_sift_down.simps [simp del]

section \<open>Selection\<close>

definition sample_heap_cap :: "int \<Rightarrow> nat \<Rightarrow> nat" where
  "sample_heap_cap top_k n_vocab =
     (let top_k = (if top_k > 1024 then 1024 else top_k);
          top_k = (if top_k < 0 then 0 else top_k);
          top_k = (if nat top_k > n_vocab then int n_vocab else top_k)
      in if top_k > 0 then nat top_k else 512)"

text \<open>One candidate against the heap: appended while there is room, otherwise in place of the least when it is greater.\<close>

definition heap_offer :: "nat \<Rightarrow> sample_candidate \<Rightarrow> sample_candidate list \<Rightarrow> sample_candidate list" where
  "heap_offer cap cand heap =
     (if length heap < cap then sample_heap_sift_up (heap @ [cand]) (length heap)
      else if sample_candidate_gt cand (heap ! 0) then sample_heap_sift_down (heap[0 := cand]) (length heap) 0
      else heap)"

definition select_step :: "(f32 \<Rightarrow> f32) \<Rightarrow> nat \<Rightarrow> f32 list \<Rightarrow> nat \<Rightarrow> sample_candidate list \<Rightarrow> sample_candidate list" where
  "select_step raw cap logits i heap =
     (let v = logits ! i
      in if \<not> f32_finite v then heap
         else heap_offer cap \<lparr>cand_id = int i, logit = v, prob = raw v\<rparr> heap)"

definition top_k_heap :: "(f32 \<Rightarrow> f32) \<Rightarrow> nat \<Rightarrow> f32 list \<Rightarrow> sample_candidate list" where
  "top_k_heap raw cap logits = fold (select_step raw cap logits) [0..<length logits] []"

text \<open>The full candidate array, which the slow path sorts whole.\<close>

definition all_candidates :: "(f32 \<Rightarrow> f32) \<Rightarrow> f32 list \<Rightarrow> sample_candidate list" where
  "all_candidates raw logits =
     map (\<lambda>i. \<lparr>cand_id = int i, logit = logits ! i, prob = raw (logits ! i)\<rparr>) (filter (\<lambda>i. f32_finite (logits ! i)) [0..<length logits])"

text \<open>The sorted candidates of the fast path.\<close>

definition top_k_candidates :: "(f32 \<Rightarrow> f32) \<Rightarrow> int \<Rightarrow> f32 list \<Rightarrow> sample_candidate list" where
  "top_k_candidates raw top_k logits =
     qsort sample_candidate_cmp_desc (top_k_heap raw (sample_heap_cap top_k (length logits)) logits)"

subsection \<open>The order as a key\<close>

definition cand_key :: "sample_candidate \<Rightarrow> int \<times> int" where
  "cand_key c = (f32_key (logit c), - cand_id c)"

definition cand_ok :: "sample_candidate \<Rightarrow> bool" where
  "cand_ok c \<longleftrightarrow> \<not> f32_nan (logit c)"

lemma candidate_gt_key: "cand_ok a \<Longrightarrow> cand_ok b \<Longrightarrow> sample_candidate_gt a b \<longleftrightarrow> cand_key b < cand_key a"
  by (auto simp: sample_candidate_gt_def cand_key_def cand_ok_def f32_gt_def f32_eq_def)

lemma candidate_cmp_key: "cand_ok a \<Longrightarrow> cand_ok b \<Longrightarrow> sample_candidate_cmp_desc a b \<le> 0 \<longleftrightarrow> cand_key b \<le> cand_key a"
  by (auto simp: sample_candidate_cmp_desc_def cand_key_def cand_ok_def f32_gt_def Let_def of_bool_def)

subsection \<open>Sorting\<close>

lemma sorted_unique:
  assumes "sorted_wrt (\<lambda>x y. key y \<le> (key x :: 'k :: linorder)) xs" "sorted_wrt (\<lambda>x y. key y \<le> key x) ys"
    and "mset xs = mset ys" and "inj_on key (set xs)"
  shows "xs = ys"
  using assms
proof (induction xs arbitrary: ys)
  case (Cons x xs)
  obtain y ys' where ys: "ys = y # ys'" using Cons.prems(3) by (cases ys) auto
  have sets: "insert x (set xs) = insert y (set ys')" using Cons.prems(3) unfolding ys by (metis list.simps(15) set_mset_mset)
  then have "x \<in> insert y (set ys')" "y \<in> insert x (set xs)" by auto
  then have "key x = key y" using Cons.prems(1,2) unfolding ys by (auto intro: antisym)
  then have "x = y" using Cons.prems(4) \<open>y \<in> insert x (set xs)\<close> by (auto dest: inj_onD)
  then show ?case using Cons ys by auto
qed simp

section \<open>Keeping the greatest\<close>

text \<open>
  A bounded collection to which elements are offered one by one: it takes everything while there is room; when full it exchanges its
  least element for a greater newcomer and ignores any other. Whatever the structure behind it, after any sequence of offers it holds
  the greatest elements.
\<close>

locale bounded_selection =
  fixes key :: "'a \<Rightarrow> 'k :: linorder"
    and good :: "'a \<Rightarrow> bool"
    and ok :: "'a list \<Rightarrow> bool"
    and offer :: "nat \<Rightarrow> 'a \<Rightarrow> 'a list \<Rightarrow> 'a list"
  assumes ok_nil: "ok []"
    and offer_ok: "ok h \<Longrightarrow> good c \<Longrightarrow> 0 < cap \<Longrightarrow> ok (offer cap c h)"
    and offer_room: "ok h \<Longrightarrow> good c \<Longrightarrow> length h < cap \<Longrightarrow> mset (offer cap c h) = add_mset c (mset h)"
    and offer_full: "ok h \<Longrightarrow> good c \<Longrightarrow> 0 < cap \<Longrightarrow> length h = cap \<Longrightarrow>
      \<exists>m \<in> set h. (\<forall>x \<in> set h. key m \<le> key x)
        \<and> mset (offer cap c h) = (if key m < key c then add_mset c (mset h - {#m#}) else mset h)"
begin

text \<open>What was offered is split into the kept and the dropped, and none of the dropped exceeds any of the kept.\<close>

definition keeps :: "nat \<Rightarrow> 'a multiset \<Rightarrow> 'a list \<Rightarrow> 'a multiset \<Rightarrow> bool" where
  "keeps cap all h dropped \<longleftrightarrow>
     ok h \<and> mset h + dropped = all \<and> length h \<le> cap \<and> (dropped \<noteq> {#} \<longrightarrow> length h = cap)
     \<and> (\<forall>x \<in> set h. \<forall>y \<in># dropped. key y \<le> key x)"

lemma keeps_offer:
  assumes k: "keeps cap all h dropped" and c: "good c" "0 < cap"
  shows "\<exists>dropped'. keeps cap (add_mset c all) (offer cap c h) dropped'"
proof (cases "length h < cap")
  case True
  then have "mset (offer cap c h) = add_mset c (mset h)" "dropped = {#}" using k c offer_room by (auto simp: keeps_def)
  then have "keeps cap (add_mset c all) (offer cap c h) {#}"
    using k c True offer_ok size_mset [of "offer cap c h"] by (auto simp: keeps_def simp flip: size_mset)
  then show ?thesis by blast
next
  case False
  then have full: "ok h" "length h = cap" using k by (auto simp: keeps_def)
  from offer_full [OF full(1) c full(2)] obtain m where m: "m \<in> set h" "\<forall>x \<in> set h. key m \<le> key x"
    and o: "mset (offer cap c h) = (if key m < key c then add_mset c (mset h - {#m#}) else mset h)" by blast
  define d where "d = (if key m < key c then m else c)"
  have mem: "m \<in># mset h" using m(1) by simp
  have all: "mset (offer cap c h) + add_mset d dropped = add_mset c all"
    using k mem o by (auto simp: keeps_def d_def)
  have below: "key y \<le> key x" if "x \<in># mset (offer cap c h)" "y \<in># add_mset d dropped" for x y
  proof (rule order_trans)
    show "key y \<le> key m" using that(2) k m(1) by (auto simp: d_def keeps_def not_less split: if_splits)
    show "key m \<le> key x" using that(1) o m(2) by (auto split: if_splits dest: in_diffD)
  qed
  have "size (mset (offer cap c h)) = size (mset h)" using o mem by (simp add: size_Suc_Diff1)
  then have "keeps cap (add_mset c all) (offer cap c h) (add_mset d dropped)"
    using all below full c offer_ok by (auto simp: keeps_def simp flip: size_mset)
  then show ?thesis by blast
qed

lemma keeps_fold:
  assumes "\<forall>c \<in> set cs. good c" "0 < cap" "keeps cap all h dropped"
  shows "\<exists>dropped'. keeps cap (mset cs + all) (fold (offer cap) cs h) dropped'"
  using assms
proof (induction cs arbitrary: all h dropped)
  case (Cons c cs)
  then obtain d where "keeps cap (add_mset c all) (offer cap c h) d" using keeps_offer by (meson list.set_intros(1))
  then show ?case using Cons.IH [of "add_mset c all" "offer cap c h" d] Cons.prems by simp
qed auto

lemma fold_keeps:
  assumes "\<forall>c \<in> set cs. good c" "0 < cap"
  shows "\<exists>dropped. keeps cap (mset cs) (fold (offer cap) cs []) dropped"
  using keeps_fold [OF assms, of "{#}" "[]" "{#}"] ok_nil by (simp add: keeps_def)

text \<open>Sorted, the kept ones are the front of everything offered, sorted.\<close>

lemma fold_offer_sorted:
  assumes "\<forall>c \<in> set cs. good c" "0 < cap" and inj: "inj_on key (set cs)"
    and cmp: "\<And>x y. good x \<Longrightarrow> good y \<Longrightarrow> cmp x y \<le> 0 \<longleftrightarrow> key y \<le> key x"
  shows "qsort cmp (fold (offer cap) cs []) = take cap (qsort cmp cs)"
proof -
  let ?h = "fold (offer cap) cs []"
  let ?le = "\<lambda>x y. key y \<le> key x"
  obtain ds where k: "keeps cap (mset cs) ?h (mset ds)" using fold_keeps [OF assms(1,2)] ex_mset by metis
  then have cs: "mset ?h + mset ds = mset cs" by (simp add: keeps_def)
  then have sets: "set ?h \<union> set ds = set cs" by (metis set_mset_mset set_mset_union)
  then have good: "\<forall>x \<in> set ?h. good x" "\<forall>x \<in> set ds. good x" using assms(1) by blast+
  have sorted: "sorted_wrt ?le (qsort cmp xs)" if "\<forall>x \<in> set xs. good x" for xs using that cmp by (intro qsort_sorted) blast
  have "sorted_wrt ?le (qsort cmp ?h @ qsort cmp ds)"
    using k sorted [OF good(1)] sorted [OF good(2)] by (simp add: sorted_wrt_append keeps_def)
  then have eq: "qsort cmp ?h @ qsort cmp ds = qsort cmp cs"
    using sorted [OF assms(1)] cs inj sets by (intro sorted_unique [of key]) simp_all
  have len: "length (qsort cmp xs) = length xs" for xs by (metis mset_qsort size_mset)
  show ?thesis
  proof (cases "ds = []")
    case True
    then have "qsort cmp ?h = qsort cmp cs" using eq by (simp add: qsort_def)
    moreover have "length (qsort cmp ?h) \<le> cap" using k by (simp add: keeps_def len)
    ultimately show ?thesis by simp
  next
    case False
    then show ?thesis using k by (simp add: keeps_def len flip: eq)
  qed
qed

end

section \<open>The heap keeps the greatest candidates\<close>

text \<open>
  Heap order on a function from positions to keys, and the two states of a sift in which it fails at one position only: against the
  parent on the way up, against the children on the way down. Either way the parent of that position is below its children.
\<close>

abbreviation parent_at :: "nat \<Rightarrow> nat" where "parent_at i \<equiv> (i - 1) div 2"

definition heap_order :: "nat \<Rightarrow> (nat \<Rightarrow> 'k :: linorder) \<Rightarrow> bool" where
  "heap_order n k \<longleftrightarrow> (\<forall>i. 0 < i \<and> i < n \<longrightarrow> k (parent_at i) \<le> k i)"

definition heap_but_up :: "nat \<Rightarrow> nat \<Rightarrow> (nat \<Rightarrow> 'k :: linorder) \<Rightarrow> bool" where
  "heap_but_up idx n k \<longleftrightarrow>
     (\<forall>i. 0 < i \<and> i < n \<longrightarrow> (i \<noteq> idx \<longrightarrow> k (parent_at i) \<le> k i) \<and> (parent_at i = idx \<and> 0 < idx \<longrightarrow> k (parent_at idx) \<le> k i))"

definition heap_but_down :: "nat \<Rightarrow> nat \<Rightarrow> (nat \<Rightarrow> 'k :: linorder) \<Rightarrow> bool" where
  "heap_but_down idx n k \<longleftrightarrow>
     (\<forall>i. 0 < i \<and> i < n \<longrightarrow> (parent_at i \<noteq> idx \<longrightarrow> k (parent_at i) \<le> k i) \<and> (parent_at i = idx \<and> 0 < idx \<longrightarrow> k (parent_at idx) \<le> k i))"

lemma parent_at_less: "0 < i \<Longrightarrow> parent_at i < i" by simp

lemma heap_but_upI:
  assumes h: "heap_but_up idx n k" and idx: "0 < idx" "idx < n" and gt: "k idx < k (parent_at idx)"
  shows "heap_but_up (parent_at idx) n (k(parent_at idx := k idx, idx := k (parent_at idx)))" (is "heap_but_up ?p n ?k")
  unfolding heap_but_up_def
proof (intro allI impI, elim conjE)
  fix i assume i: "0 < i" "i < n"
  have le: "k (parent_at i) \<le> k i" if "i \<noteq> idx" using h i that by (simp add: heap_but_up_def)
  have grand: "k ?p \<le> k i" if "parent_at i = idx" using h i idx that by (simp add: heap_but_up_def)
  have p: "?p < idx" "parent_at i < i" using idx(1) i(1) by (auto simp: parent_at_less)
  have above: "k (parent_at ?p) \<le> k ?p" if "0 < ?p" using h p(1) idx that by (simp add: heap_but_up_def)
  have "?k (parent_at i) \<le> ?k i" if "i \<noteq> ?p"
    using le grand gt p that by (cases "i = idx"; cases "parent_at i = idx"; cases "parent_at i = ?p") auto
  moreover have "?k (parent_at ?p) \<le> ?k i" if "parent_at i = ?p" "0 < ?p"
  proof -
    have "?k (parent_at ?p) = k (parent_at ?p)" using parent_at_less [OF that(2)] p(1) by simp
    moreover have "k ?p \<le> ?k i" using le that(1) p by (cases "i = idx") auto
    ultimately show ?thesis using above [OF that(2)] by simp
  qed
  ultimately show "(i \<noteq> ?p \<longrightarrow> ?k (parent_at i) \<le> ?k i) \<and> (parent_at i = ?p \<and> 0 < ?p \<longrightarrow> ?k (parent_at ?p) \<le> ?k i)" by simp
qed

lemma heap_but_downI:
  assumes h: "heap_but_down idx n k" and s: "parent_at s = idx" "0 < s" "s < n" and lt: "k s < k idx"
    and least: "\<And>i. 0 < i \<Longrightarrow> i < n \<Longrightarrow> parent_at i = idx \<Longrightarrow> k s \<le> k i"
  shows "heap_but_down s n (k(idx := k s, s := k idx))" (is "heap_but_down s n ?k")
  unfolding heap_but_down_def
proof (intro allI impI, elim conjE)
  fix i assume i: "0 < i" "i < n"
  have p: "idx < s" "parent_at i < i" using s i(1) by (auto simp: parent_at_less)
  have le: "k (parent_at i) \<le> k i" if "parent_at i \<noteq> idx" using h i that by (simp add: heap_but_down_def)
  have grand: "k (parent_at idx) \<le> k s" if "0 < idx" using h s that by (simp add: heap_but_down_def)
  have "?k (parent_at i) \<le> ?k i" if "parent_at i \<noteq> s"
  proof (cases "i = idx")
    case True
    then show ?thesis using grand i(1) p by auto
  next
    case False
    then show ?thesis using le least [OF i] lt p that by (cases "i = s"; cases "parent_at i = idx") auto
  qed
  moreover have "?k (parent_at s) \<le> ?k i" if "parent_at i = s" using le that p s(1) by auto
  ultimately show "(parent_at i \<noteq> s \<longrightarrow> ?k (parent_at i) \<le> ?k i) \<and> (parent_at i = s \<and> 0 < s \<longrightarrow> ?k (parent_at s) \<le> ?k i)" by simp
qed

lemma heap_order_least: "heap_order n k \<Longrightarrow> i < n \<Longrightarrow> k 0 \<le> k i"
proof (induction i rule: less_induct)
  case (less i)
  show ?case
  proof (cases "i = 0")
    case False
    then have "k 0 \<le> k (parent_at i)" using less parent_at_less [of i] by (metis gr0I less_trans)
    also have "\<dots> \<le> k i" using less.prems False by (simp add: heap_order_def)
    finally show ?thesis .
  qed simp
qed

text \<open>The sift loops on the candidates: they exchange elements only, and leave heap order behind.\<close>

definition keys_of :: "sample_candidate list \<Rightarrow> nat \<Rightarrow> int \<times> int" where
  "keys_of heap i = cand_key (heap ! i)"

definition heap_ok :: "sample_candidate list \<Rightarrow> bool" where
  "heap_ok heap \<longleftrightarrow> (\<forall>c \<in> set heap. cand_ok c) \<and> heap_order (length heap) (keys_of heap)"

lemma mset_swap_at [simp]: "i < length xs \<Longrightarrow> j < length xs \<Longrightarrow> mset (swap_at i j xs) = mset xs"
  unfolding swap_at_def by (rule mset_swap)

lemma swap_at_set: "i < length xs \<Longrightarrow> j < length xs \<Longrightarrow> set (swap_at i j xs) = set xs"
  by (metis mset_swap_at set_mset_mset)

lemma length_swap_at [simp]: "length (swap_at i j xs) = length xs"
  by (simp add: swap_at_def)

lemma keys_swap_at:
  "i < length heap \<Longrightarrow> j < length heap \<Longrightarrow> i \<noteq> j \<Longrightarrow>
   keys_of (swap_at i j heap) = (keys_of heap)(i := keys_of heap j, j := keys_of heap i)"
  by (rule ext) (simp add: keys_of_def swap_at_def nth_list_update)

lemma gt_keys_of: "\<forall>c \<in> set heap. cand_ok c \<Longrightarrow> i < length heap \<Longrightarrow> j < length heap \<Longrightarrow>
  sample_candidate_gt (heap ! i) (heap ! j) \<longleftrightarrow> keys_of heap j < keys_of heap i"
  by (simp add: candidate_gt_key keys_of_def)

lemma sift_up_ok:
  assumes "heap_but_up idx (length heap) (keys_of heap)" "idx < length heap" "\<forall>c \<in> set heap. cand_ok c"
  shows "mset (sample_heap_sift_up heap idx) = mset heap \<and> heap_order (length heap) (keys_of (sample_heap_sift_up heap idx))"
  using assms
proof (induction heap idx rule: sample_heap_sift_up.induct)
  case (1 heap idx)
  let ?p = "parent_at idx"
  show ?case
  proof (cases "0 < idx \<and> sample_candidate_gt (heap ! ?p) (heap ! idx)")
    case True
    then have p: "?p < idx" "?p < length heap" using 1(3) by auto
    have gt: "keys_of heap idx < keys_of heap ?p" using True gt_keys_of [OF 1(4) p(2) 1(3)] by simp
    have "heap_but_up ?p (length (swap_at ?p idx heap)) (keys_of (swap_at ?p idx heap))"
      using heap_but_upI [OF 1(2) conjunct1 [OF True] 1(3) gt] p 1(3) by (simp add: keys_swap_at)
    then show ?thesis using 1(1) [OF conjunct1 [OF True] refl] True p 1(3,4)
      by (subst (1 2) sample_heap_sift_up.simps) (simp add: Let_def swap_at_set)
  next
    case False
    then have "sample_heap_sift_up heap idx = heap" by (subst sample_heap_sift_up.simps) (auto simp: Let_def)
    moreover have "keys_of heap (parent_at i) \<le> keys_of heap i" if "0 < i" "i < length heap" for i
    proof (cases "i = idx")
      case True
      moreover have "?p < length heap" using 1(3) by simp
      ultimately show ?thesis using False that gt_keys_of [OF 1(4), of ?p idx] by auto
    qed (use 1(2) that in \<open>simp add: heap_but_up_def\<close>)
    ultimately show ?thesis by (simp add: heap_order_def)
  qed
qed

text \<open>The node chosen on the way down: a child that is less and not above the other, or the node itself when no child is less.\<close>

lemma sift_smallest_cases:
  assumes "\<forall>c \<in> set heap. cand_ok c" "idx < length heap"
  defines "s \<equiv> sift_smallest heap (length heap) idx"
  shows "s = idx \<and> (\<forall>i. 0 < i \<and> i < length heap \<and> parent_at i = idx \<longrightarrow> keys_of heap idx \<le> keys_of heap i)
    \<or> s \<noteq> idx \<and> 0 < s \<and> s < length heap \<and> parent_at s = idx \<and> keys_of heap s < keys_of heap idx
      \<and> (\<forall>i. 0 < i \<and> i < length heap \<and> parent_at i = idx \<longrightarrow> keys_of heap s \<le> keys_of heap i)"
proof -
  let ?l = "idx * 2 + 1" and ?r = "idx * 2 + 2"
  have child: "0 < i \<and> i < length heap \<and> parent_at i = idx \<longleftrightarrow> i < length heap \<and> (i = ?l \<or> i = ?r)" for i by auto
  have l: "?l < length heap \<Longrightarrow> sample_candidate_gt (heap ! idx) (heap ! ?l) \<longleftrightarrow> keys_of heap ?l < keys_of heap idx"
    and r: "?r < length heap \<Longrightarrow> sample_candidate_gt (heap ! idx) (heap ! ?r) \<longleftrightarrow> keys_of heap ?r < keys_of heap idx"
    and lr: "?r < length heap \<Longrightarrow> sample_candidate_gt (heap ! ?l) (heap ! ?r) \<longleftrightarrow> keys_of heap ?r < keys_of heap ?l"
    using gt_keys_of [OF assms(1)] assms(2) by simp_all
  have "s = (if ?l < length heap \<and> keys_of heap ?l < keys_of heap idx
             then if ?r < length heap \<and> keys_of heap ?r < keys_of heap ?l then ?r else ?l
             else if ?r < length heap \<and> keys_of heap ?r < keys_of heap idx then ?r else idx)"
    unfolding s_def sift_smallest_def Let_def using l r lr by auto
  then show ?thesis unfolding child by (auto simp: not_less split: if_splits)
qed

lemma sift_down_ok:
  assumes "heap_but_down idx (length heap) (keys_of heap)" "idx < length heap" "\<forall>c \<in> set heap. cand_ok c" "n = length heap"
  shows "mset (sample_heap_sift_down heap n idx) = mset heap \<and> heap_order n (keys_of (sample_heap_sift_down heap n idx))"
  using assms
proof (induction heap n idx rule: sample_heap_sift_down.induct)
  case (1 heap n idx)
  let ?s = "sift_smallest heap n idx"
  show ?case
  proof (cases "?s = idx")
    case True
    then have "sample_heap_sift_down heap n idx = heap" by (subst sample_heap_sift_down.simps) simp
    moreover have "keys_of heap (parent_at i) \<le> keys_of heap i" if "0 < i" "i < n" for i
      using sift_smallest_cases [OF 1(4,3)] True 1(2,5) that by (cases "parent_at i = idx") (auto simp: heap_but_down_def)
    ultimately show ?thesis by (simp add: heap_order_def)
  next
    case False
    then have s: "0 < ?s" "?s < length heap" "parent_at ?s = idx" "keys_of heap ?s < keys_of heap idx"
      "\<And>i. 0 < i \<Longrightarrow> i < length heap \<Longrightarrow> parent_at i = idx \<Longrightarrow> keys_of heap ?s \<le> keys_of heap i"
      using sift_smallest_cases [OF 1(4,3)] unfolding 1(5) by blast+
    have "heap_but_down ?s (length (swap_at idx ?s heap)) (keys_of (swap_at idx ?s heap))"
      using heap_but_downI [OF 1(2) s(3,1,2,4,5)] False 1(3) s(2) by (simp add: keys_swap_at)
    then show ?thesis using 1(1) [OF refl False] False s(2) 1(3-5)
      by (subst (1 2) sample_heap_sift_down.simps) (simp add: Let_def swap_at_set)
  qed
qed

lemma heap_offer_room:
  assumes "heap_ok heap" "cand_ok c" "length heap < cap"
  shows "mset (heap_offer cap c heap) = add_mset c (mset heap) \<and> heap_ok (heap_offer cap c heap)"
proof -
  let ?h = "heap @ [c]"
  have "keys_of ?h i = keys_of heap i" if "i < length heap" for i using that by (simp add: keys_of_def nth_append)
  moreover have "parent_at i < length heap" if "i < length ?h" "0 < i" for i using that by auto
  moreover have "heap = [] \<or> parent_at (length heap) \<noteq> length heap" by (cases heap) auto
  ultimately have "heap_but_up (length heap) (length ?h) (keys_of ?h)"
    using assms(1) by (auto simp: heap_but_up_def heap_ok_def heap_order_def less_Suc_eq)
  then have m: "mset (sample_heap_sift_up ?h (length heap)) = mset ?h" "heap_order (length ?h) (keys_of (sample_heap_sift_up ?h (length heap)))"
    using sift_up_ok [of "length heap" ?h] assms by (auto simp: heap_ok_def)
  then show ?thesis using assms mset_eq_setD [OF m(1)] mset_eq_length [OF m(1)] by (auto simp: heap_offer_def heap_ok_def)
qed

lemma heap_offer_full:
  assumes "heap_ok heap" "cand_ok c" "cap \<le> length heap" "0 < cap"
  shows "mset (heap_offer cap c heap)
      = (if cand_key (heap ! 0) < cand_key c then add_mset c (mset heap - {#heap ! 0#}) else mset heap)
    \<and> heap_ok (heap_offer cap c heap)"
proof (cases "cand_key (heap ! 0) < cand_key c")
  case True
  let ?h = "heap[0 := c]"
  have ne: "0 < length heap" using assms(3,4) by linarith
  then have "heap ! 0 \<in> set heap" by simp
  then have ok: "cand_ok (heap ! 0)" "\<forall>x \<in> set ?h. cand_ok x" using assms(1,2) by (auto simp: heap_ok_def dest: set_update_subset_insert [THEN subsetD])
  have "heap_but_down 0 (length ?h) (keys_of ?h)"
    using assms(1) by (auto simp: heap_but_down_def heap_ok_def heap_order_def keys_of_def)
  moreover have "0 < length ?h" "length heap = length ?h" using ne by simp_all
  ultimately have m: "mset (sample_heap_sift_down ?h (length heap) 0) = mset ?h" "heap_order (length heap) (keys_of (sample_heap_sift_down ?h (length heap) 0))"
    using sift_down_ok [of 0 ?h "length heap"] ok(2) by (blast, blast)
  have "mset ?h = add_mset c (mset heap - {#heap ! 0#})" using ne by (simp add: mset_update)
  then show ?thesis using True assms(2,3) ok m(2) mset_eq_setD [OF m(1)] mset_eq_length [OF m(1)]
    by (simp add: heap_offer_def candidate_gt_key heap_ok_def m(1))
next
  case False
  moreover have "heap ! 0 \<in> set heap" using assms(3,4) by (intro nth_mem) linarith
  then have "cand_ok (heap ! 0)" using assms(1) by (simp add: heap_ok_def)
  ultimately show ?thesis using assms by (simp add: heap_offer_def candidate_gt_key)
qed

interpretation heap: bounded_selection cand_key cand_ok heap_ok heap_offer
proof unfold_locales
  fix h c and cap :: nat assume h: "heap_ok h" "cand_ok c" "0 < cap"
  show "heap_ok (heap_offer cap c h)" using heap_offer_room [OF h(1,2)] heap_offer_full [OF h(1,2) _ h(3)] by (meson not_less)
  assume cap: "length h = cap"
  then have "h ! 0 \<in> set h" using h(3) by simp
  moreover have "cand_key (h ! 0) \<le> cand_key x" if x: "x \<in> set h" for x
  proof -
    obtain i where "x = h ! i" "i < length h" using x unfolding in_set_conv_nth by blast
    then show ?thesis using h(1) heap_order_least [of "length h" "keys_of h" i] by (simp add: heap_ok_def keys_of_def)
  qed
  ultimately show "\<exists>m \<in> set h. (\<forall>x \<in> set h. cand_key m \<le> cand_key x)
      \<and> mset (heap_offer cap c h) = (if cand_key m < cand_key c then add_mset c (mset h - {#m#}) else mset h)"
    using heap_offer_full [OF h(1,2) _ h(3)] cap by blast
qed (simp_all add: heap_ok_def heap_order_def heap_offer_room)

subsection \<open>The selection\<close>

lemma fold_select: "fold (select_step raw cap logits) is heap
  = fold (heap_offer cap) (map (\<lambda>i. \<lparr>cand_id = int i, logit = logits ! i, prob = raw (logits ! i)\<rparr>) (filter (\<lambda>i. f32_finite (logits ! i)) is)) heap"
  by (induction "is" arbitrary: heap) (simp_all add: select_step_def Let_def)

lemma candidates_ok: "\<forall>c \<in> set (all_candidates raw logits). cand_ok c"
  by (auto simp: all_candidates_def cand_ok_def finite_not_nan)

lemma candidates_inj: "inj_on cand_key (set (all_candidates raw logits))"
  by (auto simp: inj_on_def all_candidates_def cand_key_def)

lemma heap_cap_bounds: "1 \<le> sample_heap_cap top_k n \<and> sample_heap_cap top_k n \<le> 1024"
  by (auto simp: sample_heap_cap_def Let_def)

lemma candidates_sorted: "sorted_wrt sample_candidate_gt (qsort sample_candidate_cmp_desc (all_candidates raw logits))"
proof -
  let ?q = "qsort sample_candidate_cmp_desc (all_candidates raw logits)"
  have s: "sorted_wrt (\<lambda>x y. cand_key y \<le> cand_key x) ?q"
    using candidates_ok by (intro qsort_sorted) (metis candidate_cmp_key)
  have "distinct (all_candidates raw logits)" by (auto simp: all_candidates_def distinct_map inj_on_def)
  then have d: "distinct ?q" by (metis mset_eq_imp_distinct_iff mset_qsort)
  have "sample_candidate_gt (?q ! i) (?q ! j)" if "i < j" "j < length ?q" for i j
  proof -
    have mem: "?q ! i \<in> set (all_candidates raw logits)" "?q ! j \<in> set (all_candidates raw logits)" using that by (metis less_trans nth_mem set_qsort)+
    have "cand_key (?q ! j) \<le> cand_key (?q ! i)" using s that by (simp add: sorted_wrt_iff_nth_less)
    moreover have "cand_key (?q ! j) \<noteq> cand_key (?q ! i)"
      using inj_onD [OF candidates_inj _ mem(2,1)] d that by (auto simp: nth_eq_iff_index_eq)
    ultimately show ?thesis using candidates_ok mem by (simp add: candidate_gt_key)
  qed
  then show ?thesis by (simp add: sorted_wrt_iff_nth_less)
qed

text \<open>
  (C21) The heap keeps exactly the best candidates: what the bounded heap holds after one pass over the logits, sorted, is the front of
  the sorted list of all finite logits, for every vector of bit patterns, every \<open>top_k\<close> (clamped to between 1 and 1024 entries) and every
  weighting. That full list is in strictly descending order of logit, the smaller token id first among equals, so the result does not depend on the
  sort used or on the order in which the heap met the tokens.
\<close>

theorem top_k_exact:
  "top_k_candidates raw top_k logits
     = take (sample_heap_cap top_k (length logits)) (qsort sample_candidate_cmp_desc (all_candidates raw logits))
   \<and> mset (qsort sample_candidate_cmp_desc (all_candidates raw logits)) = mset (all_candidates raw logits)
   \<and> sorted_wrt sample_candidate_gt (qsort sample_candidate_cmp_desc (all_candidates raw logits))
   \<and> 1 \<le> sample_heap_cap top_k (length logits) \<and> sample_heap_cap top_k (length logits) \<le> 1024"
  using heap.fold_offer_sorted [OF candidates_ok _ candidates_inj candidate_cmp_key] heap_cap_bounds [of top_k "length logits"] candidates_sorted
  by (simp add: top_k_candidates_def top_k_heap_def fold_select all_candidates_def)

end
