(* ===== verification/Agent_Read.thy ===== *)
theory Agent_Read
  imports Clib
begin

text \<open>
  The agent's buffers, line spans and file reading tools (\<open>ds4_agent.c\<close>). A file is the text behind its path; opening it for reading
  is the argument \<open>open_file\<close>, \<open>None\<close> when it cannot be opened or is not a regular file, and a pointer into an open file is the text
  not yet read. Reading an open file does not fail in the model. The main result is that a file read raw, page after page, is
  delivered in full and in order, however the pages are cut.
\<close>

section \<open>Buffers\<close>

record agent_buf =
  buf_text :: string
  buf_limit :: nat
  buf_truncated :: bool

definition empty_buf :: agent_buf where
  "empty_buf = \<lparr>buf_text = [], buf_limit = 0, buf_truncated = False\<rparr>"

definition AGENT_TOOL_MAX_BYTES :: nat where "AGENT_TOOL_MAX_BYTES = 131072"

abbreviation utf8_tail :: "char \<Rightarrow> bool" where
  "utf8_tail c \<equiv> 128 \<le> (of_char c :: nat) \<and> (of_char c :: nat) < 192"

text \<open>\<open>while (n && (s[n] & 0xc0) == 0x80) n--\<close>\<close>

fun utf8_back :: "string \<Rightarrow> nat \<Rightarrow> nat" where
  "utf8_back s 0 = 0"
| "utf8_back s (Suc n) = (if utf8_tail (s ! Suc n) then utf8_back s n else Suc n)"

definition agent_buf_append :: "agent_buf \<Rightarrow> string \<Rightarrow> agent_buf" where
  "agent_buf_append b s =
     (if s = [] \<or> buf_truncated b then b
      else let mx = (if buf_limit b \<noteq> 0 then buf_limit b else SIZE_MAX - 1)
           in if length s > mx - length (buf_text b)
              then b\<lparr>buf_text := buf_text b @ take (utf8_back s (mx - length (buf_text b))) s, buf_truncated := True\<rparr>
              else b\<lparr>buf_text := buf_text b @ s\<rparr>)"

definition agent_buf_take :: "agent_buf \<Rightarrow> string" where
  "agent_buf_take b =
     (if buf_truncated b
      then buf_text b @ [CHR 0x0A] @ ''[Output truncated at the tool byte limit. Narrow the request.]'' @ [CHR 0x0A]
      else buf_text b)"

lemma utf8_back_le: "utf8_back s n \<le> n"
  by (induction s n rule: utf8_back.induct) auto

text \<open>A buffer with a limit never outgrows it, what it holds is a front of what was appended, and a cut never splits a character.\<close>

lemma agent_buf_append_limit:
  assumes "buf_limit b \<noteq> 0" "length (buf_text b) \<le> buf_limit b"
  shows "length (buf_text (agent_buf_append b s)) \<le> buf_limit b \<and> prefix (buf_text b) (buf_text (agent_buf_append b s))
    \<and> prefix (buf_text (agent_buf_append b s)) (buf_text b @ s)"
  using assms utf8_back_le [of s "buf_limit b - length (buf_text b)"]
  by (auto simp: agent_buf_append_def Let_def take_is_prefix)

section \<open>Line spans\<close>

record agent_line_span =
  sp_start :: nat
  sp_content_end :: nat
  sp_end :: nat

abbreviation line_end :: "char \<Rightarrow> bool" where
  "line_end c \<equiv> c = CHR 0x0A \<or> c = CHR 0x0D"

function split_from :: "nat \<Rightarrow> string \<Rightarrow> agent_line_span list" where
  "split_from pos s =
     (if s = [] then []
      else let n = length (takeWhile (\<lambda>c. \<not> line_end c) s); rest = drop n s;
               k = (if prefix [CHR 0x0D, CHR 0x0A] rest then n + 2 else if rest \<noteq> [] then n + 1 else n)
           in \<lparr>sp_start = pos, sp_content_end = pos + n, sp_end = pos + k\<rparr> # split_from (pos + k) (drop k s))"
  by pat_completeness auto
termination
proof (relation "measure (\<lambda>(pos, s). length s)", goal_cases)
  case (2 pos s n rest k)
  then show ?case by (cases "n = length s") (auto split: if_splits)
qed simp

declare split_from.simps [simp del]

definition agent_split_lines :: "string \<Rightarrow> agent_line_span list" where
  "agent_split_lines data = split_from 0 data"

definition agent_line_for_offset :: "agent_line_span list \<Rightarrow> nat \<Rightarrow> int" where
  "agent_line_for_offset spans offset =
     (if spans = [] then 1
      else case find (\<lambda>i. offset < sp_end (spans ! i)) [0..<length spans] of
             Some i \<Rightarrow> int i + 1
           | None \<Rightarrow> int (length spans))"

text \<open>The spans follow each other without gap and cover the text.\<close>

lemma split_from_cover:
  "concat (map (\<lambda>sp. take (sp_end sp - sp_start sp) (drop (sp_start sp - pos) s)) (split_from pos s)) = s
   \<and> (\<forall>sp \<in> set (split_from pos s). pos \<le> sp_start sp \<and> sp_start sp \<le> sp_content_end sp \<and> sp_content_end sp \<le> sp_end sp
        \<and> sp_start sp < sp_end sp \<and> sp_end sp \<le> pos + length s)"
proof (induction pos s rule: split_from.induct)
  case (1 pos s)
  show ?case
  proof (cases "s = []")
    case False
    define n where "n = length (takeWhile (\<lambda>c. \<not> line_end c) s)"
    define k where "k = (if prefix [CHR 0x0D, CHR 0x0A] (drop n s) then n + 2 else if drop n s \<noteq> [] then n + 1 else n)"
    have n: "n \<le> length s" by (simp add: n_def length_takeWhile_le)
    have k: "n \<le> k" "k \<le> length s" "0 < k" using n False by (auto simp: k_def dest: prefix_length_le)
    have u: "split_from pos s = \<lparr>sp_start = pos, sp_content_end = pos + n, sp_end = pos + k\<rparr> # split_from (pos + k) (drop k s)"
      using False by (subst split_from.simps) (simp add: n_def k_def Let_def)
    have ih: "concat (map (\<lambda>sp. take (sp_end sp - sp_start sp) (drop (sp_start sp - (pos + k)) (drop k s))) (split_from (pos + k) (drop k s))) = drop k s"
      "\<forall>sp \<in> set (split_from (pos + k) (drop k s)). pos + k \<le> sp_start sp \<and> sp_start sp \<le> sp_content_end sp \<and> sp_content_end sp \<le> sp_end sp
        \<and> sp_start sp < sp_end sp \<and> sp_end sp \<le> pos + k + length (drop k s)"
      using 1 [OF False refl refl refl] unfolding n_def [symmetric] k_def [symmetric] by blast+
    have eq: "map (\<lambda>sp. take (sp_end sp - sp_start sp) (drop (sp_start sp - pos) s)) (split_from (pos + k) (drop k s))
        = map (\<lambda>sp. take (sp_end sp - sp_start sp) (drop (sp_start sp - (pos + k)) (drop k s))) (split_from (pos + k) (drop k s))"
      using ih(2) by (intro map_cong) (auto simp: add.commute)
    have "concat (map (\<lambda>sp. take (sp_end sp - sp_start sp) (drop (sp_start sp - pos) s)) (split_from pos s)) = s"
      unfolding u list.map concat.simps eq ih(1) by simp
    moreover have "\<forall>sp \<in> set (split_from pos s). pos \<le> sp_start sp \<and> sp_start sp \<le> sp_content_end sp \<and> sp_content_end sp \<le> sp_end sp
        \<and> sp_start sp < sp_end sp \<and> sp_end sp \<le> pos + length s"
      using ih(2) k unfolding u by auto
    ultimately show ?thesis by blast
  qed (simp add: split_from.simps)
qed

section \<open>Tool arguments\<close>

type_synonym tool_args = "(string option \<times> string option) list"

definition agent_tool_arg_value :: "tool_args \<Rightarrow> string \<Rightarrow> string option" where
  "agent_tool_arg_value args name =
     map_option (\<lambda>(n, v). case v of Some s \<Rightarrow> s | None \<Rightarrow> []) (find (\<lambda>(n, v). n = Some name) args)"

definition agent_parse_int_default :: "string option \<Rightarrow> int \<Rightarrow> int \<Rightarrow> int \<Rightarrow> int" where
  "agent_parse_int_default s def mn mx =
     (case s of
        None \<Rightarrow> def
      | Some t \<Rightarrow>
          if t = [] then def
          else case c_strtol t of (v, _, rest) \<Rightarrow>
            if rest = t then def
            else if dropWhile (\<lambda>c. c \<in> {CHR '' '', CHR 0x09, CHR 0x0D, CHR 0x0A}) rest \<noteq> [] then def
            else let v = (if v < mn then mn else v) in if v > mx then mx else v)"

definition agent_parse_bool_default :: "string option \<Rightarrow> bool \<Rightarrow> bool" where
  "agent_parse_bool_default s def =
     (case s of
        None \<Rightarrow> def
      | Some t \<Rightarrow>
          if t = [] then def
          else if map c_tolower t = ''true'' \<or> map c_tolower t = ''yes'' \<or> t = ''1'' then True
          else if map c_tolower t = ''false'' \<or> map c_tolower t = ''no'' \<or> t = ''0'' then False
          else def)"

section \<open>Reading\<close>

text \<open>What the agent remembers to continue a read.\<close>

record more_state =
  more_path :: string
  more_next_line :: int
  more_byte_offset :: nat
  more_mid_line :: bool
  more_bare :: bool
  more_valid :: bool

definition PATH_MAX :: nat where "PATH_MAX = 4096"

text \<open>\<open>snprintf\<close> into \<open>more_path\<close> keeps at most \<open>PATH_MAX - 1\<close> characters.\<close>

definition agent_worker_set_more :: "string option \<Rightarrow> int \<Rightarrow> bool \<Rightarrow> more_state \<Rightarrow> more_state" where
  "agent_worker_set_more path next_line bare m =
     m\<lparr>more_path := take (PATH_MAX - 1) (case path of Some p \<Rightarrow> p | None \<Rightarrow> []),
       more_next_line := next_line, more_bare := bare,
       more_valid := (case path of Some p \<Rightarrow> p \<noteq> [] \<and> next_line > 0 | None \<Rightarrow> False),
       more_byte_offset := 0, more_mid_line := False\<rparr>"

text \<open>\<open>ctx\<close>: the effective context size.\<close>

definition agent_read_default_lines :: "int \<Rightarrow> int" where
  "agent_read_default_lines ctx =
     (if ctx > 0 \<and> ctx \<le> 8192 then 120 else if ctx > 0 \<and> ctx \<le> 16384 then 240 else 500)"

text \<open>The skip to the first line wanted.\<close>

function skip_lines :: "int \<Rightarrow> int \<Rightarrow> string \<Rightarrow> int \<times> string" where
  "skip_lines line start [] = (line, [])"
| "skip_lines line start (c # s) =
     (if line < start
      then let s1 = (if c = CHR 0x0D then (case s of d # t \<Rightarrow> if d = CHR 0x0A then t else s | [] \<Rightarrow> s) else s)
           in skip_lines (if line_end c then line + 1 else line) start s1
      else (line, c # s))"
  by pat_completeness auto
termination by (relation "measure (\<lambda>(line, start, s). length s)") (auto split: list.splits)

record reading =
  rd_body :: string
  rd_line :: int
  rd_lines :: int
  rd_beginning :: bool
  rd_prefix :: bool
  rd_last :: int

datatype read_error = Binary | Line_Overflow

definition READ_BODY_MAX :: nat where "READ_BODY_MAX = AGENT_TOOL_MAX_BYTES - 4096"

text \<open>What one character adds to the body, and what is left to read: a CR takes a LF that follows along.\<close>

definition read_char :: "bool \<Rightarrow> char \<Rightarrow> string \<Rightarrow> string \<times> string" where
  "read_char bare c s =
     (if c = CHR 0x0D
      then case s of
             d # t \<Rightarrow> if d = CHR 0x0A then ((if bare then [c] else []) @ [CHR 0x0A], t)
                      else (if bare then [c] else [CHR 0x0A], s)
           | [] \<Rightarrow> (if bare then [c] else [CHR 0x0A], s)
      else ([c], s))"

lemma read_char_shorter: "read_char bare c s = (out, t) \<Longrightarrow> length t \<le> length s"
  by (auto simp: read_char_def split: if_splits list.splits)

definition read_label :: "bool \<Rightarrow> reading \<Rightarrow> string" where
  "read_label bare r =
     (if rd_prefix r \<and> \<not> bare
      then show_int (rd_line r) @ (if rd_beginning r then [] else '' (continued)'') @ '' '' else [])"

function read_loop :: "bool \<Rightarrow> bool \<Rightarrow> int \<Rightarrow> string \<Rightarrow> reading \<Rightarrow> read_error + (string \<times> reading)" where
  "read_loop whole bare max_lines [] r = Inr ([], r)"
| "read_loop whole bare max_lines (c # s) r =
     (if \<not> (whole \<or> rd_lines r < max_lines) then Inr (c # s, r)
      else if length (rd_body r) \<ge> READ_BODY_MAX \<and> (\<not> utf8_tail c \<or> length (rd_body r) \<ge> READ_BODY_MAX + 3) then Inr (c # s, r)
      else if c = CHR 0x00 then Inl Binary
      else case read_char bare c s of (out, t) \<Rightarrow>
        let r1 = r\<lparr>rd_last := rd_line r, rd_body := rd_body r @ read_label bare r @ out, rd_prefix := False, rd_beginning := False\<rparr>
        in if line_end c
           then if rd_line r = INT_MAX then Inl Line_Overflow
                else read_loop whole bare max_lines t
                       (r1\<lparr>rd_line := rd_line r + 1, rd_lines := rd_lines r + 1, rd_beginning := True, rd_prefix := True\<rparr>)
           else read_loop whole bare max_lines t r1)"
  by pat_completeness auto
termination
  by (relation "measure (\<lambda>(whole, bare, max_lines, s, r). length s)") (auto dest!: read_char_shorter [OF sym] simp: less_Suc_eq_le)

definition binary_error :: string where
  "binary_error = ''Tool error: read encountered binary data'' @ [CHR 0x0A]"

definition read_failed :: "string \<Rightarrow> string" where
  "read_failed reason = ''Tool error: read failed: '' @ reason @ [CHR 0x0A]"

text \<open>One page of an open file: the position is the number of characters of \<open>content\<close> already read.\<close>

definition read_page :: "string \<Rightarrow> int \<Rightarrow> int \<Rightarrow> bool \<Rightarrow> bool \<Rightarrow> nat \<Rightarrow> bool \<Rightarrow> read_error + (string \<times> reading)" where
  "read_page content start_line max_lines whole bare offset mid_line =
     (let (line, rest) = (if offset > 0 then (start_line, drop offset content) else skip_lines 1 start_line content)
      in read_loop whole bare max_lines rest
           \<lparr>rd_body = [], rd_line = line, rd_lines = 0, rd_beginning = \<not> mid_line, rd_prefix = True, rd_last = 0\<rparr>)"

definition agent_read_range_from ::
  "(string \<Rightarrow> string option) \<Rightarrow> (string \<Rightarrow> string) \<Rightarrow> int \<Rightarrow> string option \<Rightarrow> int \<Rightarrow> int \<Rightarrow> bool \<Rightarrow> bool \<Rightarrow> nat \<Rightarrow> bool \<Rightarrow> more_state
     \<Rightarrow> string \<times> more_state" where
  "agent_read_range_from open_file strerror ctx path start_line max_lines whole_file bare offset mid_line m =
     (case path of
        None \<Rightarrow> (''Tool error: read requires path'' @ [CHR 0x0A], m)
      | Some p \<Rightarrow>
          if p = [] then (''Tool error: read requires path'' @ [CHR 0x0A], m)
          else case open_file p of
            None \<Rightarrow> (read_failed (strerror p), agent_worker_set_more None 0 False m)
          | Some content \<Rightarrow>
              let start_line = (if start_line < 1 then 1 else start_line);
                  max_lines = (if max_lines \<le> 0 then agent_read_default_lines ctx else max_lines)
              in case read_page content start_line max_lines whole_file bare offset mid_line of
                   Inl Binary \<Rightarrow> (binary_error, agent_worker_set_more None 0 False m)
                 | Inl Line_Overflow \<Rightarrow> (read_failed (strerror ''EOVERFLOW''), agent_worker_set_more None 0 False m)
                 | Inr (rest, r) \<Rightarrow>
                     let next_offset = length content - length rest; more = (rest \<noteq> [])
                     in if whole_file \<and> more
                        then (''Tool error: whole read exceeds the 128 KiB output limit; use read and more for chunks'' @ [CHR 0x0A],
                              agent_worker_set_more None 0 False m)
                        else
                          ((if bare then []
                            else p @ '': lines '' @ show_int (if rd_last r \<noteq> 0 then start_line else 0) @ ''-'' @ show_int (rd_last r)
                                 @ (if more then '' (partial read)'' else '' (end of file)'') @ [CHR 0x0A])
                           @ rd_body r
                           @ (if more
                              then [CHR 0x0A] @ ''[Read truncated. continue_offset='' @ show_int (rd_line r) @ ''; continue_byte_offset=''
                                   @ show_nat next_offset @ (if rd_beginning r then [] else '' (within line)'')
                                   @ ''. Call more to continue.]'' @ [CHR 0x0A]
                              else []),
                           (agent_worker_set_more (if more then Some p else None) (if more then rd_line r else 0) bare m)
                             \<lparr>more_byte_offset := next_offset, more_mid_line := \<not> rd_beginning r\<rparr>))"

definition agent_tool_read ::
  "(string \<Rightarrow> string option) \<Rightarrow> (string \<Rightarrow> string) \<Rightarrow> int \<Rightarrow> tool_args \<Rightarrow> more_state \<Rightarrow> string \<times> more_state" where
  "agent_tool_read open_file strerror ctx args m =
     agent_read_range_from open_file strerror ctx (agent_tool_arg_value args ''path'')
       (agent_parse_int_default (agent_tool_arg_value args ''start_line'') 1 1 INT_MAX)
       (agent_parse_int_default (agent_tool_arg_value args ''max_lines'') (agent_read_default_lines ctx) 1 INT_MAX)
       (agent_parse_bool_default (agent_tool_arg_value args ''whole'') False)
       (agent_parse_bool_default (agent_tool_arg_value args ''raw'') False) 0 False m"

definition agent_tool_more ::
  "(string \<Rightarrow> string option) \<Rightarrow> (string \<Rightarrow> string) \<Rightarrow> int \<Rightarrow> tool_args \<Rightarrow> more_state \<Rightarrow> string \<times> more_state" where
  "agent_tool_more open_file strerror ctx args m =
     (let count = agent_parse_int_default (agent_tool_arg_value args ''count'') (agent_read_default_lines ctx) 1 INT_MAX
      in if \<not> more_valid m then (''Tool error: no previous output to continue'' @ [CHR 0x0A], m)
         else agent_read_range_from open_file strerror ctx (Some (more_path m)) (more_next_line m) count False (more_bare m)
                (more_byte_offset m) (more_mid_line m) m)"

subsection \<open>Raw reading by pages delivers the file\<close>

lemma read_char_bare: "read_char True c s = (out, t) \<Longrightarrow> out @ t = c # s \<and> out \<noteq> []"
  by (auto simp: read_char_def split: if_splits list.splits)

text \<open>A raw page is a front of what was left to read, and is not empty when there is something left.\<close>

lemma read_loop_bare:
  assumes "CHR 0x00 \<notin> set s" and "rd_line r + int (length s) \<le> INT_MAX" and "1 \<le> rd_line r"
  shows "\<exists>rest r1 got. read_loop False True max_lines s r = Inr (rest, r1) \<and> s = got @ rest \<and> rd_body r1 = rd_body r @ got
    \<and> 1 \<le> rd_line r1 \<and> rd_line r1 + int (length rest) \<le> INT_MAX
    \<and> (s \<noteq> [] \<and> rd_lines r < max_lines \<and> length (rd_body r) < READ_BODY_MAX \<longrightarrow> got \<noteq> [])"
  using assms
proof (induction False True max_lines s r rule: read_loop.induct)
  case (2 max_lines c s r)
  obtain out t where rc: "read_char True c s = (out, t)" by (cases "read_char True c s")
  have out: "out @ t = c # s" "out \<noteq> []" using read_char_bare [OF rc] by simp_all
  have t: "CHR 0x00 \<notin> set t" "length t < length (c # s)" "c \<noteq> CHR 0x00"
    using out 2(3) by (metis Un_iff set_append, metis length_append length_greater_0_conv less_add_same_cancel2, auto)
  let ?stop = "\<not> rd_lines r < max_lines \<or> length (rd_body r) \<ge> READ_BODY_MAX \<and> (\<not> utf8_tail c \<or> length (rd_body r) \<ge> READ_BODY_MAX + 3)"
  show ?case
  proof (cases ?stop)
    case True
    then have "read_loop False True max_lines (c # s) r = Inr (c # s, r)" by auto
    then show ?thesis using 2(4,5) True by auto
  next
    case go: False
    define r1 where "r1 = r\<lparr>rd_last := rd_line r, rd_body := rd_body r @ read_label True r @ out, rd_prefix := False, rd_beginning := False\<rparr>"
    define r2 where "r2 = (if line_end c then r1\<lparr>rd_line := rd_line r + 1, rd_lines := rd_lines r + 1, rd_beginning := True, rd_prefix := True\<rparr> else r1)"
    have ln: "rd_line r \<noteq> INT_MAX" using 2(4) by auto
    then have step: "read_loop False True max_lines (c # s) r = read_loop False True max_lines t r2"
      using go t(3) rc by (auto simp: Let_def r1_def r2_def)
    have body: "rd_body r2 = rd_body r @ out" by (simp add: r1_def r2_def read_label_def)
    have line: "rd_line r2 + int (length t) \<le> INT_MAX" "1 \<le> rd_line r2" using 2(4,5) t(2) by (auto simp: r1_def r2_def)
    have "\<exists>rest r' got. read_loop False True max_lines t r2 = Inr (rest, r') \<and> t = got @ rest \<and> rd_body r' = rd_body r2 @ got
      \<and> 1 \<le> rd_line r' \<and> rd_line r' + int (length rest) \<le> INT_MAX
      \<and> (t \<noteq> [] \<and> rd_lines r2 < max_lines \<and> length (rd_body r2) < READ_BODY_MAX \<longrightarrow> got \<noteq> [])"
    proof (cases "line_end c")
      case True
      show ?thesis using 2(1) [OF _ _ t(3) rc [symmetric] r1_def True ln] go t(1) line True by (auto simp: r2_def)
    next
      case False
      show ?thesis using 2(2) [OF _ _ t(3) rc [symmetric] r1_def False] go t(1) line False by (auto simp: r2_def)
    qed
    then obtain rest r' got where g: "read_loop False True max_lines t r2 = Inr (rest, r')" "t = got @ rest" "rd_body r' = rd_body r2 @ got"
      "1 \<le> rd_line r'" "rd_line r' + int (length rest) \<le> INT_MAX" by blast
    then have "c # s = (out @ got) @ rest" "rd_body r' = rd_body r @ (out @ got)" "out @ got \<noteq> []" using out body by simp_all
    then show ?thesis using g(1,4,5) unfolding step by blast
  qed
qed auto

lemma parse_int_range: "mn \<le> def \<Longrightarrow> mn \<le> mx \<Longrightarrow> mn \<le> agent_parse_int_default s def mn mx"
  by (auto simp: agent_parse_int_default_def Let_def split: option.splits prod.splits)

lemma default_lines_pos: "1 \<le> agent_read_default_lines ctx"
  by (simp add: agent_read_default_lines_def)

definition truncation_note :: string where
  "truncation_note = [CHR 0x0A] @ ''[Read truncated. continue_offset=''"

text \<open>The state between two pages: \<open>done\<close> has been delivered, and what is remembered says where the rest begins.\<close>

definition between_pages :: "string \<Rightarrow> string \<Rightarrow> string \<Rightarrow> more_state \<Rightarrow> bool" where
  "between_pages p content got m \<longleftrightarrow>
     (\<exists>rest. content = got @ rest \<and> more_valid m = (rest \<noteq> [])
       \<and> (rest \<noteq> [] \<longrightarrow> more_path m = p \<and> more_bare m \<and> 1 \<le> more_next_line m \<and> more_next_line m + int (length rest) \<le> INT_MAX
            \<and> more_byte_offset m = length got \<and> got \<noteq> []))"

lemma page_advances:
  assumes f: "open_file p = Some content" "p \<noteq> []" "length p < PATH_MAX" and content: "CHR 0x00 \<notin> set content" "content = got @ rest"
    and at: "if got = [] then start_line = 1 \<and> offset = 0 else offset = length got" and line: "1 \<le> start_line" "start_line + int (length rest) \<le> INT_MAX"
    and count: "1 \<le> count"
    and read: "agent_read_range_from open_file strerror ctx (Some p) start_line count False True offset mid m = (t, m1)"
  shows "\<exists>body note. t = body @ note \<and> between_pages p content (got @ body) m1 \<and> (rest \<noteq> [] \<longrightarrow> body \<noteq> [])
    \<and> (if more_valid m1 then prefix truncation_note note else note = [])"
proof -
  let ?r = "\<lparr>rd_body = [], rd_line = start_line, rd_lines = 0, rd_beginning = \<not> mid, rd_prefix = True, rd_last = 0\<rparr>"
  have skip: "skip_lines 1 1 s = (1, s)" for s by (cases s) simp_all
  have page: "read_page content start_line count False True offset mid = read_loop False True count rest ?r"
    using at content(2) by (auto simp: read_page_def skip split: if_splits)
  have nul: "CHR 0x00 \<notin> set rest" using content by auto
  have bound: "0 < READ_BODY_MAX" by (simp add: READ_BODY_MAX_def AGENT_TOOL_MAX_BYTES_def)
  obtain rest1 r1 body where l: "read_loop False True count rest ?r = Inr (rest1, r1)" "rest = body @ rest1" "rd_body r1 = body"
    "1 \<le> rd_line r1" "rd_line r1 + int (length rest1) \<le> INT_MAX" "rest \<noteq> [] \<longrightarrow> body \<noteq> []"
    using read_loop_bare [OF nul, of ?r count] line count bound by auto
  have off: "length content - length rest1 = length (got @ body)" using content(2) l(2) by simp
  have pth: "take (PATH_MAX - 1) p = p" using f(3) by simp
  have t: "t = body @ (if rest1 \<noteq> [] then truncation_note @ show_int (rd_line r1) @ ''; continue_byte_offset='' @ show_nat (length (got @ body))
        @ (if rd_beginning r1 then [] else '' (within line)'') @ ''. Call more to continue.]'' @ [CHR 0x0A] else [])"
    and m1: "m1 = (agent_worker_set_more (if rest1 \<noteq> [] then Some p else None) (if rest1 \<noteq> [] then rd_line r1 else 0) True m)
        \<lparr>more_byte_offset := length (got @ body), more_mid_line := \<not> rd_beginning r1\<rparr>"
    using read f(1,2) line(1) count off unfolding agent_read_range_from_def by (simp_all add: page l(1,3) truncation_note_def Let_def split: if_splits)
  have "more_valid m1 = (rest1 \<noteq> [])" using l(4) f(2) by (simp add: m1 agent_worker_set_more_def)
  moreover have "between_pages p content (got @ body) m1"
    unfolding between_pages_def using content(2) l f(2) pth by (intro exI [of _ rest1]) (auto simp: m1 agent_worker_set_more_def)
  moreover have "\<exists>tail. t = body @ (if rest1 \<noteq> [] then truncation_note @ tail else [])" unfolding t by blast
  then obtain tail where "t = body @ (if rest1 \<noteq> [] then truncation_note @ tail else [])" ..
  moreover have "prefix truncation_note (truncation_note @ tail)" by simp
  ultimately show ?thesis using l(6)
    by (intro exI [of _ body] exI [of _ "if rest1 \<noteq> [] then truncation_note @ tail else []"]) presburger
qed

primrec more_pages ::
  "(string \<Rightarrow> string option) \<Rightarrow> (string \<Rightarrow> string) \<Rightarrow> int \<Rightarrow> tool_args list \<Rightarrow> more_state \<Rightarrow> string list \<times> more_state" where
  "more_pages open_file strerror ctx [] m = ([], m)"
| "more_pages open_file strerror ctx (args # later) m =
     (if more_valid m
      then case agent_tool_more open_file strerror ctx args m of (t, m1) \<Rightarrow>
        (case more_pages open_file strerror ctx later m1 of (ts, m2) \<Rightarrow> (t # ts, m2))
      else ([], m))"

text \<open>A list of pages: each is a body with the note that says how to go on, except the last, which has none.\<close>

definition pages_deliver :: "string list \<Rightarrow> string \<Rightarrow> bool" where
  "pages_deliver ts content \<longleftrightarrow>
     (\<exists>bodies notes. length bodies = length notes \<and> ts = map2 (@) bodies notes \<and> concat bodies = content
       \<and> notes \<noteq> [] \<and> last notes = [] \<and> (\<forall>n \<in> set (butlast notes). prefix truncation_note n))"

lemma pages_deliver_Cons:
  "pages_deliver ts rest \<Longrightarrow> prefix truncation_note note \<Longrightarrow> pages_deliver ((body @ note) # ts) (body @ rest)"
  unfolding pages_deliver_def by (elim exE, rename_tac bs ns, rule_tac x = "body # bs" in exI, rule_tac x = "note # ns" in exI) auto

lemma pages_deliver_one: "pages_deliver [body] body"
  unfolding pages_deliver_def by (rule exI [of _ "[body]"], rule exI [of _ "[[]]"]) simp

lemma more_pages_deliver:
  assumes f: "open_file p = Some content" "p \<noteq> []" "length p < PATH_MAX" and nul: "CHR 0x00 \<notin> set content"
    and b: "between_pages p content got m" and "length content - length got \<le> length later" and "more_valid m"
    and "more_pages open_file strerror ctx later m = (ts, m2)"
  shows "pages_deliver ts (drop (length got) content) \<and> \<not> more_valid m2"
  using assms(5-)
proof (induction later arbitrary: got m ts)
  case Nil
  then show ?case by (auto simp: between_pages_def)
next
  case (Cons args later)
  from Cons.prems(1,3) obtain rest where s: "content = got @ rest" "rest \<noteq> []" "more_path m = p" "more_bare m" "1 \<le> more_next_line m"
    "more_next_line m + int (length rest) \<le> INT_MAX" "more_byte_offset m = length got" "got \<noteq> []" unfolding between_pages_def by auto
  obtain t m1 where t: "agent_tool_more open_file strerror ctx args m = (t, m1)" by (cases "agent_tool_more open_file strerror ctx args m")
  obtain ts1 where ts: "ts = t # ts1" "more_pages open_file strerror ctx later m1 = (ts1, m2)"
    using Cons.prems(3,4) t by (auto split: prod.splits)
  have count: "1 \<le> agent_parse_int_default (agent_tool_arg_value args ''count'') (agent_read_default_lines ctx) 1 INT_MAX"
    using default_lines_pos by (intro parse_int_range) simp_all
  have at: "if got = [] then more_next_line m = 1 \<and> more_byte_offset m = 0 else more_byte_offset m = length got" using s(7,8) by simp
  have "agent_read_range_from open_file strerror ctx (Some p) (more_next_line m)
      (agent_parse_int_default (agent_tool_arg_value args ''count'') (agent_read_default_lines ctx) 1 INT_MAX) False True
      (more_byte_offset m) (more_mid_line m) m = (t, m1)"
    using t s(3,4) Cons.prems(3) by (simp add: agent_tool_more_def Let_def)
  from page_advances [OF f nul s(1) at s(5,6) count this] s(2) obtain body nt where p: "t = body @ nt" "between_pages p content (got @ body) m1" "body \<noteq> []"
    "if more_valid m1 then prefix truncation_note nt else nt = []" by auto
  show ?case
  proof (cases "more_valid m1")
    case True
    have "length content - length (got @ body) \<le> length later" using Cons.prems(2) p(3) s(1) by (cases body) auto
    from Cons.IH [OF p(2) this True ts(2)] have ih: "pages_deliver ts1 (drop (length (got @ body)) content)" "\<not> more_valid m2" by simp_all
    moreover have "drop (length got) content = body @ drop (length (got @ body)) content"
      using p(2) by (auto simp: between_pages_def)
    ultimately show ?thesis using pages_deliver_Cons [OF ih(1)] p(1,4) True by (simp add: ts(1))
  next
    case False
    then have "content = got @ body" using p(2) by (auto simp: between_pages_def)
    moreover have "ts1 = []" "m2 = m1" using ts(2) False by (cases later; simp)+
    ultimately show ?thesis using p(1,4) False pages_deliver_one [of body] by (simp add: ts(1))
  qed
qed

text \<open>
  (C29) Reading by pages loses nothing. When a text file is read raw from its start and the read is continued until nothing is left to
  continue, the bodies of the pages put together are the file, byte for byte, CR and LF included, whatever page lengths were asked
  for; every page but the last ends with the note that tells how to go on, and the reads end.
\<close>

theorem raw_pages_deliver:
  assumes "open_file p = Some content" and "p \<noteq> []" and "length p < PATH_MAX"
    and "CHR 0x00 \<notin> set content" and "length content < 2147483647"
    and "agent_tool_arg_value args ''path'' = Some p" and "agent_tool_arg_value args ''start_line'' = None"
    and "\<not> agent_parse_bool_default (agent_tool_arg_value args ''whole'') False"
    and "agent_parse_bool_default (agent_tool_arg_value args ''raw'') False"
    and "length content \<le> length later"
    and "agent_tool_read open_file strerror ctx args m = (t, m1)" and "more_pages open_file strerror ctx later m1 = (ts, m2)"
  shows "pages_deliver (t # ts) content \<and> \<not> more_valid m2"
proof -
  let ?count = "agent_parse_int_default (agent_tool_arg_value args ''max_lines'') (agent_read_default_lines ctx) 1 INT_MAX"
  have count: "1 \<le> ?count" using default_lines_pos by (intro parse_int_range) simp_all
  have "agent_read_range_from open_file strerror ctx (Some p) 1 ?count False True 0 False m = (t, m1)"
    using assms(6-9,11) by (simp add: agent_tool_read_def agent_parse_int_default_def [of None])
  from page_advances [OF assms(1-4) append_Nil [symmetric] _ _ _ count this] assms(5)
  obtain body nt where p: "t = body @ nt" "between_pages p content body m1" "if more_valid m1 then prefix truncation_note nt else nt = []" by auto
  show ?thesis
  proof (cases "more_valid m1")
    case True
    have "length content - length body \<le> length later" using assms(10) by simp
    from more_pages_deliver [OF assms(1-4) p(2) this True assms(12)] have "pages_deliver ts (drop (length body) content)" "\<not> more_valid m2" by simp_all
    moreover have "content = body @ drop (length body) content" using p(2) by (auto simp: between_pages_def)
    ultimately show ?thesis using pages_deliver_Cons [of ts "drop (length body) content" nt body] p(1,3) True by simp
  next
    case False
    then have "content = body" using p(2) by (auto simp: between_pages_def)
    moreover have "ts = []" "m2 = m1" using assms(12) False by (cases later; simp)+
    ultimately show ?thesis using p(1,3) False pages_deliver_one [of body] by simp
  qed
qed

definition demo_args :: tool_args where
  "demo_args = [(Some ''path'', Some ''a.txt''), (Some ''raw'', Some ''yes''), (Some ''max_lines'', Some ''1'')]"

definition demo_content :: string where
  "demo_content = ''one'' @ [CHR 0x0D, CHR 0x0A] @ ''two'' @ [CHR 0x0D] @ ''three''"

definition demo_more :: more_state where
  "demo_more = \<lparr>more_path = [], more_next_line = 0, more_byte_offset = 0, more_mid_line = False, more_bare = False, more_valid = False\<rparr>"

theorem raw_pages_deliver_witness:
  "\<exists>t m1 ts m2. agent_tool_read (\<lambda>p. Some demo_content) id 4096 demo_args demo_more = (t, m1)
     \<and> more_pages (\<lambda>p. Some demo_content) id 4096 (replicate 20 [(Some ''count'', Some ''1'')]) m1 = (ts, m2)
     \<and> pages_deliver (t # ts) demo_content"
proof -
  obtain t m1 where r: "agent_tool_read (\<lambda>p. Some demo_content) id 4096 demo_args demo_more = (t, m1)"
    by (cases "agent_tool_read (\<lambda>p. Some demo_content) id 4096 demo_args demo_more")
  obtain ts m2 where p: "more_pages (\<lambda>p. Some demo_content) id 4096 (replicate 20 [(Some ''count'', Some ''1'')]) m1 = (ts, m2)"
    by (cases "more_pages (\<lambda>p. Some demo_content) id 4096 (replicate 20 [(Some ''count'', Some ''1'')]) m1")
  have "pages_deliver (t # ts) demo_content \<and> \<not> more_valid m2"
    by (rule raw_pages_deliver [where p = "''a.txt''", OF _ _ _ _ _ _ _ _ _ _ r p])
      (simp_all add: demo_content_def demo_args_def agent_tool_arg_value_def PATH_MAX_def agent_parse_bool_default_def c_tolower_def)
  then show ?thesis using r p by blast
qed

end
