(* ===== verification/Agent_Edit.thy ===== *)
theory Agent_Edit
  imports Agent_Read
begin

text \<open>
  The agent's edit and write tools (\<open>ds4_agent.c\<close>): finding the text to replace, building the new file, replacing the old one, and the
  reply to the model. A file system is a map from paths to nodes; what the operating system decides, and what other programs do to the
  files while an edit is under way, is the environment record. The temporary file has a name nobody else uses and
  is left out of the map. The main result is that an edit replaces exactly the one passage it names, in the version of the file it
  was computed from, or changes nothing.
\<close>

section \<open>Finding the text to replace\<close>

definition agent_memmem_simple :: "string \<Rightarrow> string \<Rightarrow> nat option" where
  "agent_memmem_simple hay needle =
     (if needle = [] then Some 0
      else if length needle > length hay then None
      else find (\<lambda>i. hay ! i = hd needle \<and> take (length needle) (drop i hay) = needle) [0..<length hay - length needle + 1])"

definition agent_find_unique :: "string \<Rightarrow> string \<Rightarrow> string \<Rightarrow> string + nat" where
  "agent_find_unique data needle label =
     (if needle = [] then Inl (label @ '' anchor is empty'')
      else case agent_memmem_simple data needle of
        None \<Rightarrow> Inl (label @ '' anchor not found'')
      | Some first \<Rightarrow>
          let after_first = first + 1
          in if after_first \<le> length data \<and> agent_memmem_simple (drop after_first data) needle \<noteq> None
             then Inl (label @ '' anchor is not unique'') else Inr first)"

definition agent_find_unique_after :: "string \<Rightarrow> nat \<Rightarrow> string \<Rightarrow> string \<Rightarrow> string + nat" where
  "agent_find_unique_after data start needle label =
     (if needle = [] then Inl (label @ '' anchor is empty'')
      else if start > length data then Inl (label @ '' search starts outside file'')
      else case agent_memmem_simple (drop start data) needle of
        None \<Rightarrow> Inl (label @ '' anchor not found after old head'')
      | Some i \<Rightarrow>
          let after_first = start + i + 1
          in if after_first \<le> length data \<and> agent_memmem_simple (drop after_first data) needle \<noteq> None
             then Inl (label @ '' anchor is not unique after old head'') else Inr (start + i))"

definition agent_span_has_nonspace :: "string \<Rightarrow> bool" where
  "agent_span_has_nonspace s \<longleftrightarrow> (\<exists>c \<in> set s. \<not> c_isspace c)"

definition agent_edit_find_old_span :: "string \<Rightarrow> string \<Rightarrow> bool \<Rightarrow> string + (nat \<times> nat \<times> bool)" where
  "agent_edit_find_old_span data old allow_upto =
     (case (if allow_upto then strstr ''[upto]'' old else None) of
        None \<Rightarrow> (case agent_find_unique data old ''old text'' of Inl e \<Rightarrow> Inl e | Inr i \<Rightarrow> Inr (i, length old, False))
      | Some mark \<Rightarrow>
          if strstr ''[upto]'' (drop (mark + 6) old) \<noteq> None then Inl ''old text contains more than one [upto] marker''
          else
            let head = take mark old; tail = dropWhile (\<lambda>c. c = CHR 0x0A \<or> c = CHR 0x0D) (drop (mark + 6) old)
            in if \<not> agent_span_has_nonspace tail then Inl ''old text after [upto] must include a unique tail anchor''
               else case agent_find_unique data head ''old head'' of
                 Inl e \<Rightarrow> Inl e
               | Inr head_pos \<Rightarrow>
                   (case agent_find_unique_after data (head_pos + length head) tail ''old tail'' of
                      Inl e \<Rightarrow> Inl e
                    | Inr tail_pos \<Rightarrow> Inr (head_pos, tail_pos - head_pos + length tail, True)))"

subsection \<open>What the search finds\<close>

definition occurs_at :: "string \<Rightarrow> string \<Rightarrow> nat \<Rightarrow> bool" where
  "occurs_at needle data i \<longleftrightarrow> prefix needle (drop i data)"

lemma occurs_at_drop: "occurs_at needle (drop n data) i \<longleftrightarrow> occurs_at needle data (n + i)"
  by (simp add: occurs_at_def add.commute)

lemma occurs_at_bound: "occurs_at needle data i \<Longrightarrow> needle \<noteq> [] \<Longrightarrow> i + length needle \<le> length data"
  unfolding occurs_at_def by (cases "i \<le> length data") (auto dest: prefix_length_le)

lemma memmem_first:
  assumes "needle \<noteq> []"
  shows "agent_memmem_simple hay needle = Some i \<longleftrightarrow> occurs_at needle hay i \<and> (\<forall>j < i. \<not> occurs_at needle hay j)"
    and "agent_memmem_simple hay needle = None \<longleftrightarrow> (\<forall>j. \<not> occurs_at needle hay j)"
proof -
  define P where "P = (\<lambda>i. hay ! i = hd needle \<and> take (length needle) (drop i hay) = needle)"
  let ?n = "length hay - length needle + 1"
  have P: "P i \<longleftrightarrow> occurs_at needle hay i" if "i < ?n" "length needle \<le> length hay" for i
  proof -
    have "i < length hay" using that assms by (cases needle) auto
    then have "hay ! i = hd needle" if "take (length needle) (drop i hay) = needle"
      using that assms by (metis hd_drop_conv_nth hd_take length_greater_0_conv)
    then show ?thesis by (auto simp: P_def occurs_at_def prefix_take_iff)
  qed
  have bound: "length needle \<le> length hay \<and> i < ?n" if "occurs_at needle hay i" for i
    using occurs_at_bound [OF that assms] by linarith
  have unfold: "agent_memmem_simple hay needle = (if length needle > length hay then None else find P [0..<?n])"
    using assms by (simp add: agent_memmem_simple_def P_def)
  show "agent_memmem_simple hay needle = Some i \<longleftrightarrow> occurs_at needle hay i \<and> (\<forall>j < i. \<not> occurs_at needle hay j)"
  proof
    assume "agent_memmem_simple hay needle = Some i"
    then have l: "length needle \<le> length hay" and f: "find P [0..<?n] = Some i" unfolding unfold by (simp_all add: not_less split: if_splits)
    then have "i < ?n" "P i" "\<forall>j < i. \<not> P j" unfolding find_Some_iff by (auto simp del: upt_Suc)
    then show "occurs_at needle hay i \<and> (\<forall>j < i. \<not> occurs_at needle hay j)" using P [OF _ l] by (meson less_trans)
  next
    assume o: "occurs_at needle hay i \<and> (\<forall>j < i. \<not> occurs_at needle hay j)"
    then have b: "length needle \<le> length hay" "i < ?n" using bound by blast+
    then have "find P [0..<?n] = Some (0 + i)" using o P by (intro find_upt) auto
    then show "agent_memmem_simple hay needle = Some i" using b(1) by (simp add: unfold)
  qed
  show "agent_memmem_simple hay needle = None \<longleftrightarrow> (\<forall>j. \<not> occurs_at needle hay j)"
  proof (cases "length needle \<le> length hay")
    case True
    then have "agent_memmem_simple hay needle = None \<longleftrightarrow> (\<forall>j < ?n. \<not> P j)" by (auto simp: unfold find_None_iff simp del: upt_Suc)
    then show ?thesis using P bound True by blast
  next
    case False
    then show ?thesis using bound unfold by auto
  qed
qed

text \<open>Exactly one place from \<open>start\<close> on.\<close>

definition unique_from :: "nat \<Rightarrow> string \<Rightarrow> string \<Rightarrow> nat \<Rightarrow> bool" where
  "unique_from start needle data i \<longleftrightarrow> (\<forall>j \<ge> start. occurs_at needle data j \<longleftrightarrow> j = i) \<and> start \<le> i"

lemma second_search:
  assumes "needle \<noteq> []" "occurs_at needle data i"
  shows "(i + 1 \<le> length data \<and> agent_memmem_simple (drop (i + 1) data) needle \<noteq> None) \<longleftrightarrow> (\<exists>j > i. occurs_at needle data j)"
proof -
  have "i + 1 \<le> length data" using occurs_at_bound [OF assms(2,1)] assms(1) by (cases needle) auto
  moreover have "(\<exists>j. occurs_at needle data (i + 1 + j)) \<longleftrightarrow> (\<exists>j > i. occurs_at needle data j)"
    by (metis Suc_eq_plus1 Suc_le_eq le_add1 le_iff_add)
  ultimately show ?thesis unfolding memmem_first(2) [OF assms(1)] occurs_at_drop by blast
qed

lemma find_unique_after_exact: "agent_find_unique_after data start needle label = Inr i \<longleftrightarrow> needle \<noteq> [] \<and> start \<le> length data \<and> unique_from start needle data i"
proof (cases "needle = [] \<or> start > length data")
  case False
  then have ne: "needle \<noteq> []" and st: "start \<le> length data" by auto
  show ?thesis
  proof (cases "agent_memmem_simple (drop start data) needle")
    case None
    then have "\<forall>j. \<not> occurs_at needle data (start + j)" using memmem_first(2) [OF ne] by (simp add: occurs_at_drop)
    then show ?thesis using None ne st unfolding agent_find_unique_after_def unique_from_def by (auto simp: le_iff_add)
  next
    case (Some k)
    then have k: "occurs_at needle data (start + k)" "\<forall>j < k. \<not> occurs_at needle data (start + j)"
      unfolding memmem_first(1) [OF ne] occurs_at_drop by auto
    have "unique_from start needle data i \<longleftrightarrow> i = start + k \<and> \<not> (\<exists>j > start + k. occurs_at needle data j)"
    proof -
      have below: "\<not> occurs_at needle data j" if "start \<le> j" "j < start + k" for j
        using k(2) that by (metis le_add_diff_inverse nat_add_left_cancel_less)
      show ?thesis unfolding unique_from_def
      proof (intro iffI conjI)
        assume u: "(\<forall>j \<ge> start. occurs_at needle data j \<longleftrightarrow> j = i) \<and> start \<le> i"
        show i: "i = start + k" using u k(1) by auto
        show "\<not> (\<exists>j > start + k. occurs_at needle data j)" using u i by auto
      next
        assume r: "i = start + k \<and> \<not> (\<exists>j > start + k. occurs_at needle data j)"
        show "\<forall>j \<ge> start. occurs_at needle data j \<longleftrightarrow> j = i" using r below k(1) by (metis linorder_neqE_nat)
        show "start \<le> i" using r by simp
      qed
    qed
    then show ?thesis using Some ne st second_search [OF ne k(1)] unfolding agent_find_unique_after_def Let_def
      by (auto split: if_splits)
  qed
qed (auto simp: agent_find_unique_after_def)

lemma find_unique_exact: "agent_find_unique data needle label = Inr i \<longleftrightarrow> needle \<noteq> [] \<and> unique_from 0 needle data i"
proof -
  have "agent_find_unique data needle label = Inr i \<longleftrightarrow> agent_find_unique_after data 0 needle label = Inr i"
    by (cases "agent_memmem_simple data needle") (auto simp: agent_find_unique_def agent_find_unique_after_def Let_def)
  then show ?thesis by (simp add: find_unique_after_exact)
qed

text \<open>The passage an edit names: the one occurrence of \<open>old\<close>, or from the one occurrence of the head to the end of the one later
  occurrence of the tail.\<close>

definition names_passage :: "string \<Rightarrow> string \<Rightarrow> nat \<Rightarrow> nat \<Rightarrow> bool \<Rightarrow> bool" where
  "names_passage data old pos len anchored \<longleftrightarrow>
     (if anchored
      then \<exists>head tail tl. old = head @ ''[upto]'' @ tail \<and> \<not> sublist ''[upto]'' tail
             \<and> tl = dropWhile (\<lambda>c. c = CHR 0x0A \<or> c = CHR 0x0D) tail \<and> agent_span_has_nonspace tl \<and> head \<noteq> []
             \<and> unique_from 0 head data pos
             \<and> (\<exists>j. unique_from (pos + length head) tl data j \<and> pos + len = j + length tl)
      else old \<noteq> [] \<and> len = length old \<and> unique_from 0 old data pos)"

lemma find_old_span_sound:
  assumes "agent_edit_find_old_span data old allow_upto = Inr (pos, len, anchored)"
  shows "names_passage data old pos len anchored \<and> pos + len \<le> length data"
proof (cases "if allow_upto then strstr ''[upto]'' old else None")
  case None
  then have u: "agent_find_unique data old ''old text'' = Inr pos" "len = length old" "\<not> anchored"
    using assms by (auto simp: agent_edit_find_old_span_def split: sum.splits)
  then have "old \<noteq> []" "unique_from 0 old data pos" by (simp_all add: find_unique_exact)
  then show ?thesis using u occurs_at_bound [of old data pos] by (simp add: names_passage_def unique_from_def)
next
  case (Some mark)
  define head where "head = take mark old"
  define tail where "tail = drop (mark + 6) old"
  define tl where "tl = dropWhile (\<lambda>c. c = CHR 0x0A \<or> c = CHR 0x0D) tail"
  from Some have "prefix ''[upto]'' (drop mark old)" using strstr_Some_prefix by (auto split: if_splits)
  then have "drop mark old = ''[upto]'' @ drop 6 (drop mark old)" using prefix_drop_append by fastforce
  then have "drop mark old = ''[upto]'' @ tail" by (simp add: tail_def add.commute)
  then have old: "old = head @ ''[upto]'' @ tail" by (metis append_take_drop_id head_def)
  have eq: "agent_edit_find_old_span data old allow_upto =
      (if strstr ''[upto]'' tail \<noteq> None then Inl ''old text contains more than one [upto] marker''
       else if \<not> agent_span_has_nonspace tl then Inl ''old text after [upto] must include a unique tail anchor''
       else case agent_find_unique data head ''old head'' of
              Inl e \<Rightarrow> Inl e
            | Inr p \<Rightarrow> (case agent_find_unique_after data (p + length head) tl ''old tail'' of
                Inl e \<Rightarrow> Inl e | Inr q \<Rightarrow> Inr (p, q - p + length tl, True)))"
    unfolding agent_edit_find_old_span_def Some option.case Let_def tl_def tail_def head_def ..
  from assms obtain j where a: "anchored" "\<not> sublist ''[upto]'' tail" "agent_span_has_nonspace tl"
      "agent_find_unique data head ''old head'' = Inr pos" "agent_find_unique_after data (pos + length head) tl ''old tail'' = Inr j" "len = j - pos + length tl"
    unfolding eq strstr_None [symmetric] by (auto split: if_splits sum.splits)
  have h: "head \<noteq> []" "unique_from 0 head data pos" using a(4) by (simp_all add: find_unique_exact)
  have t: "tl \<noteq> []" "unique_from (pos + length head) tl data j" using a(5) by (simp_all add: find_unique_after_exact)
  have "pos + len = j + length tl" using t(2) a(6) by (simp add: unique_from_def)
  moreover have "occurs_at tl data j" using t(2) by (simp add: unique_from_def)
  ultimately show ?thesis using old a(1-3) h t tl_def occurs_at_bound [of tl data j] by (auto simp: names_passage_def)
qed

section \<open>Files\<close>

text \<open>
  A regular file has its text, its number of hard links and a stamp that stands for its device, inode and the times of its last
  modification and change.
\<close>

record afile =
  fa_data :: string
  fa_nlink :: nat
  fa_stamp :: nat

datatype node = Regular afile | Symlink string | Special

type_synonym afs = "string \<Rightarrow> node option"

text \<open>
  \<open>resolve\<close> is \<open>realpath\<close>; \<open>others\<close> is what other programs do to the files between the first look at the file and the last check
  before the new one takes its place; the flags are calls that fail; \<open>new_stamp\<close> is the stamp of the file created.
\<close>

record edit_env =
  resolve :: "afs \<Rightarrow> string \<Rightarrow> string option"
  others :: "afs \<Rightarrow> afs"
  lstat_fails :: bool
  open_fails :: bool
  read_fails :: bool
  temp_fails :: bool
  write_fails :: bool
  meta_fails :: bool
  rename_fails :: bool
  errno_text :: string
  new_stamp :: nat

definition AGENT_FILE_MAX_BYTES :: nat where "AGENT_FILE_MAX_BYTES = 16777216"

text \<open>The message buffers of the callers hold 255 characters.\<close>

definition err_msg :: "string \<Rightarrow> string" where "err_msg s = take 255 s"

definition agent_read_file_bytes :: "edit_env \<Rightarrow> afs \<Rightarrow> string \<Rightarrow> string + string" where
  "agent_read_file_bytes env fs path =
     (case (if open_fails env then None else resolve env fs path) of
        None \<Rightarrow> Inl (err_msg (''open '' @ path @ '': '' @ errno_text env))
      | Some target \<Rightarrow>
          (case fs target of
             Some (Regular f) \<Rightarrow>
               if length (fa_data f) > AGENT_FILE_MAX_BYTES
               then Inl (err_msg (''file too large: '' @ path @ '' exceeds 16777216 bytes''))
               else if read_fails env then Inl (err_msg (''read '' @ path @ '': '' @ errno_text env))
               else Inr (fa_data f)
           | _ \<Rightarrow> Inl (err_msg (''open '' @ path @ '': '' @ errno_text env))))"

definition agent_same_file_version :: "afile \<Rightarrow> afile \<Rightarrow> bool" where
  "agent_same_file_version a b \<longleftrightarrow>
     fa_stamp a = fa_stamp b \<and> length (fa_data a) = length (fa_data b) \<and> fa_nlink a = fa_nlink b"

text \<open>The result is the error message, if any, and the files afterwards.\<close>

definition agent_replace_file :: "edit_env \<Rightarrow> string \<Rightarrow> string \<Rightarrow> string option \<Rightarrow> afs \<Rightarrow> string option \<times> afs" where
  "agent_replace_file env path data expected fs =
     (let failed = Some (err_msg (''replace '' @ path @ '': '' @ errno_text env));
          changed = Some (err_msg (''file changed while editing; read it again: '' @ path));
          new = Regular \<lparr>fa_data = data, fa_nlink = 1, fa_stamp = new_stamp env\<rparr>;
          fs2 = others env fs
      in if lstat_fails env then (failed, fs)
         else if fs path \<noteq> None
         then
           case resolve env fs path of
             None \<Rightarrow> (failed, fs)
           | Some target \<Rightarrow>
               if open_fails env then (failed, fs)
               else
                 case fs target of
                   Some (Regular before) \<Rightarrow>
                     if fa_nlink before \<noteq> 1
                     then (Some (err_msg (''refusing to replace non-regular or hard-linked file: '' @ path)), fs)
                     else if expected \<noteq> None \<and> length (fa_data before) \<noteq> length (the expected) then (changed, fs)
                     else if expected \<noteq> None \<and> read_fails env then (failed, fs)
                     else if expected \<noteq> None \<and> fa_data before \<noteq> the expected then (changed, fs)
                     else if length target + 11 \<ge> PATH_MAX \<or> temp_fails env \<or> write_fails env \<or> meta_fails env then (failed, fs)
                     else if resolve env fs2 path \<noteq> Some target
                     then (changed, fs2)
                     else
                       (case fs2 target of
                          Some (Regular after) \<Rightarrow>
                            if \<not> agent_same_file_version before after then (changed, fs2)
                            else if rename_fails env then (failed, fs2)
                            else (None, fs2(target \<mapsto> new))
                        | _ \<Rightarrow> (changed, fs2))
                 | Some (Symlink _) \<Rightarrow> (failed, fs)
                 | Some Special \<Rightarrow> (Some (err_msg (''refusing to replace non-regular or hard-linked file: '' @ path)), fs)
                 | None \<Rightarrow> (failed, fs)
         else if expected \<noteq> None then (changed, fs)
         else if length path + 11 \<ge> PATH_MAX \<or> temp_fails env \<or> write_fails env then (failed, fs)
         else if rename_fails env \<or> fs2 path \<noteq> None then (failed, fs2)
         else (None, fs2(path \<mapsto> new)))"

section \<open>The reply\<close>

definition agent_old_new_line_effect :: "string \<Rightarrow> string \<Rightarrow> nat \<Rightarrow> nat \<Rightarrow> (int \<times> int \<times> int) option" where
  "agent_old_new_line_effect old new edit_offset replaced_len =
     (let old_spans = agent_split_lines old; new_spans = agent_split_lines new
      in if old_spans = [] then None
         else let old_last = (if replaced_len > 0 then edit_offset + replaced_len - 1 else edit_offset);
                  old_last = (if old_last \<ge> length old then (if old \<noteq> [] then length old - 1 else 0) else old_last)
              in Some (agent_line_for_offset old_spans edit_offset, agent_line_for_offset old_spans old_last,
                       int (length new_spans) - int (length old_spans)))"

definition agent_edit_result_append_line :: "string \<Rightarrow> agent_line_span \<Rightarrow> int \<Rightarrow> agent_buf \<Rightarrow> agent_buf" where
  "agent_edit_result_append_line data sp line b =
     agent_buf_append
       (agent_buf_append (agent_buf_append b (show_int line @ '' '')) (take (sp_content_end sp - sp_start sp) (drop (sp_start sp) data)))
       [CHR 0x0A]"

definition append_lines :: "string \<Rightarrow> agent_line_span list \<Rightarrow> int \<Rightarrow> int \<Rightarrow> agent_buf \<Rightarrow> agent_buf" where
  "append_lines data spans a z b = fold (\<lambda>line. agent_edit_result_append_line data (spans ! nat (line - 1)) line) [a..z] b"

definition agent_edit_result_append_context :: "string \<Rightarrow> string \<Rightarrow> int \<Rightarrow> int \<Rightarrow> agent_buf \<Rightarrow> agent_buf" where
  "agent_edit_result_append_context path data anchor_start anchor_end b =
     (let spans = agent_split_lines data; n = int (length spans)
      in if spans = [] then b
         else let anchor_start = (if anchor_start < 1 then 1 else anchor_start);
                  anchor_start = (if anchor_start > n then n else anchor_start);
                  anchor_end = (if anchor_end < anchor_start then anchor_start else anchor_end);
                  anchor_end = (if anchor_end > n then n else anchor_end);
                  ctx_start = (if anchor_start - 5 < 1 then 1 else anchor_start - 5);
                  ctx_end = (if anchor_end + 8 > n then n else anchor_end + 8);
                  b = agent_buf_append b (''Current file around edit: '' @ path @ '' lines '' @ show_int ctx_start @ ''-'' @ show_int ctx_end
                        @ '' of '' @ show_int n @ [CHR 0x0A])
              in if anchor_end - anchor_start + 1 \<le> 18 + 18 then append_lines data spans ctx_start ctx_end b
                 else let head_end = anchor_start + 18 - 1; tail_start = anchor_end - 18 + 1;
                          b = append_lines data spans ctx_start head_end b;
                          b = agent_buf_append b (''... '' @ show_int (tail_start - head_end - 1) @ '' edited lines omitted ...'' @ [CHR 0x0A])
                      in append_lines data spans tail_start ctx_end b)"

definition agent_edit_result :: "string \<Rightarrow> int \<Rightarrow> int \<Rightarrow> int \<Rightarrow> string \<Rightarrow> string \<Rightarrow> string" where
  "agent_edit_result path start_line end_line delta new_data kind =
     (let touched = (start_line > 0 \<and> end_line \<ge> start_line);
          b = agent_buf_append (empty_buf\<lparr>buf_limit := AGENT_TOOL_MAX_BYTES\<rparr>) (''Edited '' @ path @ '' using '' @ kind @ [CHR 0x0A]);
          b = (if touched
               then agent_buf_append b (''Touched old lines '' @ show_int start_line @ ''-'' @ show_int end_line
                      @ ''; current post-edit context follows.'' @ [CHR 0x0A]) else b);
          b = (if touched \<and> delta \<noteq> 0
               then agent_buf_append b (''Line shift: old lines after '' @ show_int end_line @ '' moved by ''
                      @ (if delta > 0 then ''+'' else []) @ show_int delta @ '' (old line '' @ show_int (end_line + 1) @ '' is now line ''
                      @ show_int (end_line + 1 + delta) @ ''). Re-read before relying on old line numbers there.'' @ [CHR 0x0A]) else b);
          new_anchor_end = (if end_line + delta < start_line then start_line else end_line + delta)
      in agent_buf_take (if touched then agent_edit_result_append_context path new_data start_line new_anchor_end b else b))"

section \<open>The tools\<close>

definition tool_error :: "string \<Rightarrow> string" where
  "tool_error e = ''Tool error: '' @ e @ [CHR 0x0A]"

definition agent_apply_file_splice ::
  "edit_env \<Rightarrow> string \<Rightarrow> string \<Rightarrow> nat \<Rightarrow> nat \<Rightarrow> string \<Rightarrow> string \<Rightarrow> afs \<Rightarrow> string \<times> afs" where
  "agent_apply_file_splice env path data offset remove_len new_text kind fs =
     (let out = take offset data @ new_text @ drop (offset + remove_len) data
      in case agent_replace_file env path out (Some data) fs of
           (Some e, fs1) \<Rightarrow> (tool_error e, fs1)
         | (None, fs1) \<Rightarrow>
             (case agent_old_new_line_effect data out offset remove_len of
                Some (start_line, end_line, delta) \<Rightarrow> (agent_edit_result path start_line end_line delta out kind, fs1)
              | None \<Rightarrow> (agent_edit_result path 0 0 0 out kind, fs1)))"

text \<open>\<open>fs0\<close> are the files when the tool reads the old text, \<open>fs\<close> when it starts to replace it.\<close>

definition agent_tool_edit :: "edit_env \<Rightarrow> bool \<Rightarrow> tool_args \<Rightarrow> afs \<Rightarrow> afs \<Rightarrow> string \<times> afs" where
  "agent_tool_edit env edit_upto args fs0 fs =
     (case agent_tool_arg_value args ''path'' of
        None \<Rightarrow> (tool_error ''edit requires path'', fs)
      | Some path \<Rightarrow>
     if path = [] then (tool_error ''edit requires path'', fs)
     else case agent_tool_arg_value args ''old'' of
        None \<Rightarrow> (tool_error ''edit requires non-empty old text'', fs)
      | Some old \<Rightarrow>
     if old = [] then (tool_error ''edit requires non-empty old text'', fs)
     else case agent_tool_arg_value args ''new'' of
        None \<Rightarrow> (tool_error ''edit requires new text'', fs)
      | Some new_text \<Rightarrow>
     (case agent_read_file_bytes env fs0 path of
        Inl e \<Rightarrow> (tool_error e, fs)
      | Inr data \<Rightarrow>
     (case agent_edit_find_old_span data old edit_upto of
        Inl e \<Rightarrow> (tool_error (err_msg e), fs)
      | Inr (pos, len, anchored) \<Rightarrow>
          agent_apply_file_splice env path data pos len new_text
            (if anchored then ''anchored old/new replacement'' else ''old/new replacement'') fs)))"

definition agent_tool_write :: "edit_env \<Rightarrow> tool_args \<Rightarrow> afs \<Rightarrow> string \<times> afs" where
  "agent_tool_write env args fs =
     (case agent_tool_arg_value args ''path'' of
        None \<Rightarrow> (tool_error ''write requires path'', fs)
      | Some path \<Rightarrow>
     if path = [] then (tool_error ''write requires path'', fs)
     else case agent_tool_arg_value args ''content'' of
        None \<Rightarrow> (tool_error ''write requires content'', fs)
      | Some content \<Rightarrow>
     (case agent_replace_file env path content None fs of
        (Some e, fs1) \<Rightarrow> (tool_error e, fs1)
      | (None, fs1) \<Rightarrow> (''Wrote '' @ show_nat (length content) @ '' bytes to '' @ path @ [CHR 0x0A], fs1)))"

section \<open>Edits are exact\<close>

text \<open>What a replacement that succeeds has done, and what one that fails has left alone.\<close>

lemma replace_file_effect:
  assumes "agent_replace_file env path data expected fs = (e, fs1)"
  shows "(e \<noteq> None \<longrightarrow> fs1 = fs \<or> fs1 = others env fs)
    \<and> (e = None \<longrightarrow> (\<exists>target. fs1 = (others env fs)(target \<mapsto> Regular \<lparr>fa_data = data, fa_nlink = 1, fa_stamp = new_stamp env\<rparr>)
        \<and> (case expected of
             None \<Rightarrow> True
           | Some old \<Rightarrow> resolve env (others env fs) path = Some target
               \<and> (\<exists>f g. fs target = Some (Regular f) \<and> fa_data f = old \<and> others env fs target = Some (Regular g) \<and> agent_same_file_version f g))))"
  using assms unfolding agent_replace_file_def Let_def
  by (auto split: if_splits option.splits node.splits)

lemma splice_effect:
  assumes "agent_apply_file_splice env path data offset len new_text kind fs = (reply, fs1)"
  shows "(\<exists>e. reply = tool_error e) \<and> (fs1 = fs \<or> fs1 = others env fs)
    \<or> (\<exists>a b c. reply = agent_edit_result path a b c (take offset data @ new_text @ drop (offset + len) data) kind)
       \<and> agent_replace_file env path (take offset data @ new_text @ drop (offset + len) data) (Some data) fs = (None, fs1)"
proof -
  let ?out = "take offset data @ new_text @ drop (offset + len) data"
  obtain e fs2 where r: "agent_replace_file env path ?out (Some data) fs = (e, fs2)" by (cases "agent_replace_file env path ?out (Some data) fs")
  show ?thesis
  proof (cases e)
    case None
    then obtain a b c where "reply = agent_edit_result path a b c ?out kind" "fs1 = fs2"
      using assms r unfolding agent_apply_file_splice_def Let_def by (cases "agent_old_new_line_effect data ?out offset len") auto
    then show ?thesis using r None by blast
  next
    case (Some m)
    then have "reply = tool_error m" "fs1 = fs2" using assms r unfolding agent_apply_file_splice_def Let_def by auto
    then show ?thesis using replace_file_effect [OF r] Some by blast
  qed
qed

text \<open>An edit went through: what it replaced, and with what.\<close>

definition edit_applied :: "edit_env \<Rightarrow> bool \<Rightarrow> tool_args \<Rightarrow> afs \<Rightarrow> string \<Rightarrow> afs \<Rightarrow> bool" where
  "edit_applied env edit_upto args fs reply fs1 \<longleftrightarrow>
     (\<exists>path old new_text target f u m v anchored a b c kind.
         agent_tool_arg_value args ''path'' = Some path \<and> agent_tool_arg_value args ''old'' = Some old
       \<and> agent_tool_arg_value args ''new'' = Some new_text
       \<and> resolve env fs path = Some target \<and> fs target = Some (Regular f) \<and> fa_data f = u @ m @ v
       \<and> names_passage (fa_data f) old (length u) (length m) anchored \<and> (anchored \<longrightarrow> edit_upto)
       \<and> fs1 = fs(target \<mapsto> Regular \<lparr>fa_data = u @ new_text @ v, fa_nlink = 1, fa_stamp = new_stamp env\<rparr>)
       \<and> reply = agent_edit_result path a b c (u @ new_text @ v) kind)"

text \<open>An old text that occurs exactly once is always found.\<close>

lemma find_old_span_complete:
  assumes "old \<noteq> []" "unique_from 0 old data pos" "\<not> allow_upto \<or> \<not> sublist ''[upto]'' old"
  shows "agent_edit_find_old_span data old allow_upto = Inr (pos, length old, False)"
proof -
  have "agent_find_unique data old ''old text'' = Inr pos" using assms(1,2) by (simp add: find_unique_exact)
  moreover have "(if allow_upto then strstr ''[upto]'' old else None) = None" using assms(3) strstr_None by auto
  ultimately show ?thesis by (simp add: agent_edit_find_old_span_def)
qed

text \<open>
  (C28) An edit replaces exactly the passage it names, or nothing. If the operating system stamps every change of a file's contents, then after an edit either the
  reply is an error and no file has been touched by the tool, or one file has changed: the one the path resolves to, whose contents up to
  that moment were text with exactly one passage as named by \<open>old\<close>, and that passage alone is now the new text. What another
  program wrote while the edit was under way is never lost.
\<close>

theorem edit_exact:
  assumes "\<And>t f g. fs t = Some (Regular f) \<Longrightarrow> others env fs t = Some (Regular g) \<Longrightarrow> fa_stamp f = fa_stamp g \<Longrightarrow> fa_data f = fa_data g"
    and "agent_tool_edit env edit_upto args fs0 fs = (reply, fs1)"
  shows "(\<exists>e. reply = tool_error e) \<and> (fs1 = fs \<or> fs1 = others env fs)
    \<or> edit_applied env edit_upto args (others env fs) reply fs1"
proof (cases "(\<exists>e. reply = tool_error e) \<and> (fs1 = fs \<or> fs1 = others env fs)")
  case False
  then obtain path old new_text data pos len anchored kind where a: "agent_tool_arg_value args ''path'' = Some path"
      "agent_tool_arg_value args ''old'' = Some old" "agent_tool_arg_value args ''new'' = Some new_text"
    and span: "agent_edit_find_old_span data old edit_upto = Inr (pos, len, anchored)"
    and splice: "agent_apply_file_splice env path data pos len new_text kind fs = (reply, fs1)"
    using assms(2) unfolding agent_tool_edit_def by (auto split: option.splits if_splits sum.splits prod.splits)
  let ?u = "take pos data" and ?m = "take len (drop pos data)" and ?v = "drop (pos + len) data"
  from splice_effect [OF splice] False obtain l1 l2 l3 where
    reply: "reply = agent_edit_result path l1 l2 l3 (?u @ new_text @ ?v) kind"
    and r: "agent_replace_file env path (?u @ new_text @ ?v) (Some data) fs = (None, fs1)" by blast
  from replace_file_effect [OF r] obtain target f g where t: "resolve env (others env fs) path = Some target"
      "fs1 = (others env fs)(target \<mapsto> Regular \<lparr>fa_data = ?u @ new_text @ ?v, fa_nlink = 1, fa_stamp = new_stamp env\<rparr>)"
      "fs target = Some (Regular f)" "fa_data f = data" "others env fs target = Some (Regular g)" "agent_same_file_version f g" by auto
  have data: "fa_data g = data" using assms(1) [OF t(3,5)] t(4,6) by (simp add: agent_same_file_version_def)
  have p: "names_passage data old pos len anchored" "pos + len \<le> length data" using find_old_span_sound [OF span] by simp_all
  have "anchored \<longrightarrow> edit_upto" using span by (auto simp: agent_edit_find_old_span_def split: if_splits sum.splits)
  moreover have "data = ?u @ ?m @ ?v" by (metis add.commute append_take_drop_id drop_drop)
  moreover have "length ?u = pos" "length ?m = len" using p(2) by simp_all
  ultimately have "fa_data g = ?u @ ?m @ ?v \<and> names_passage (fa_data g) old (length ?u) (length ?m) anchored \<and> (anchored \<longrightarrow> edit_upto)"
    using data p(1) by simp
  then show ?thesis using a t(1,2,5) reply unfolding edit_applied_def by blast
qed simp

definition demo_files :: afs where
  "demo_files = [''a.c'' \<mapsto> Regular \<lparr>fa_data = ''int x = 1;'', fa_nlink = 1, fa_stamp = 7\<rparr>]"

definition demo_edit_env :: edit_env where
  "demo_edit_env = \<lparr>resolve = (\<lambda>fs p. Some p), others = (\<lambda>fs. fs), lstat_fails = False, open_fails = False, read_fails = False,
     temp_fails = False, write_fails = False, meta_fails = False, rename_fails = False, errno_text = [], new_stamp = 8\<rparr>"

definition demo_edit :: "string \<times> afs" where
  "demo_edit = agent_tool_edit demo_edit_env False
     [(Some ''path'', Some ''a.c''), (Some ''old'', Some ''x = 1''), (Some ''new'', Some ''y = 2'')] demo_files demo_files"

lemma demo_edit_files: "snd demo_edit ''a.c'' = Some (Regular \<lparr>fa_data = ''int y = 2;'', fa_nlink = 1, fa_stamp = 8\<rparr>)"
proof -
  have "agent_find_unique ''int x = 1;'' ''x = 1'' ''old text'' = Inr 4" by code_simp
  then have span: "agent_edit_find_old_span ''int x = 1;'' ''x = 1'' False = Inr (4, 5, False)" by (simp add: agent_edit_find_old_span_def)
  show ?thesis
    by (simp add: demo_edit_def agent_tool_edit_def agent_tool_arg_value_def agent_read_file_bytes_def demo_edit_env_def demo_files_def
        AGENT_FILE_MAX_BYTES_def span agent_apply_file_splice_def agent_replace_file_def Let_def PATH_MAX_def agent_same_file_version_def
        split: option.splits)
qed

theorem edit_exact_witness:
  "edit_applied demo_edit_env False [(Some ''path'', Some ''a.c''), (Some ''old'', Some ''x = 1''), (Some ''new'', Some ''y = 2'')]
     demo_files (fst demo_edit) (snd demo_edit)"
proof -
  have o: "others demo_edit_env fs = fs" for fs by (simp add: demo_edit_env_def)
  have "snd demo_edit \<noteq> demo_files" using demo_edit_files by (auto simp: demo_files_def)
  then show ?thesis
    using edit_exact [of demo_files demo_edit_env False "[(Some ''path'', Some ''a.c''), (Some ''old'', Some ''x = 1''), (Some ''new'', Some ''y = 2'')]"
        demo_files "fst demo_edit" "snd demo_edit"] by (auto simp: o demo_edit_def)
qed

end
