(* ===== verification/Image_Layout.thy ===== *)
theory Image_Layout
  imports Prelude
begin

text \<open>
  Image blocks in a DeepSeek prompt (\<open>ds4_image.c\<close>): the token layout of an image, finding the blocks in a token stream, cutting a
  prefill into chunks that split no block, and the attention bounds of every query. A token is an \<open>int\<close>; an image token is the
  vocabulary size plus its type. Sizes are natural numbers with the 32-bit wrap-around written out where an argument
  can reach it. The theory shows that the layout is a well-formed block that carries every patch once, and that the readers of the
  stream treat it as one unit.
\<close>

section \<open>The layout of one image\<close>

abbreviation DS4_DEEPSEEK4_IMAGE_START :: nat where "DS4_DEEPSEEK4_IMAGE_START \<equiv> 0"
abbreviation DS4_DEEPSEEK4_IMAGE_PAD :: nat where "DS4_DEEPSEEK4_IMAGE_PAD \<equiv> 1"
abbreviation DS4_DEEPSEEK4_IMAGE :: nat where "DS4_DEEPSEEK4_IMAGE \<equiv> 2"
abbreviation DS4_DEEPSEEK4_IMAGE_NEWLINE :: nat where "DS4_DEEPSEEK4_IMAGE_NEWLINE \<equiv> 3"
abbreviation DS4_DEEPSEEK4_IMAGE_END :: nat where "DS4_DEEPSEEK4_IMAGE_END \<equiv> 4"

record ds4_deepseek4_image_layout =
  layout_types :: "nat list"
  layout_perm :: "nat list"

text \<open>A cell of the padded grid: its token type and the patch it stands for, -1 for none.\<close>

definition body_cell :: "nat \<Rightarrow> nat \<Rightarrow> nat \<times> nat \<Rightarrow> nat \<times> int" where
  "body_cell grid_height grid_width = (\<lambda>(row, column).
     if row < grid_height \<and> column < grid_width then (DS4_DEEPSEEK4_IMAGE, int (row * grid_width + column))
     else (if row < grid_height then DS4_DEEPSEEK4_IMAGE_NEWLINE else DS4_DEEPSEEK4_IMAGE_PAD, -1))"

definition layout_body :: "nat \<Rightarrow> nat \<Rightarrow> nat \<Rightarrow> nat \<Rightarrow> (nat \<times> int) list" where
  "layout_body grid_height grid_width rows row_length =
     map (body_cell grid_height grid_width) (List.product [0..<rows] [0..<row_length])"

text \<open>The order in which the cells are emitted: row pairs, columns, the two rows of the pair.\<close>

definition layout_order :: "nat \<Rightarrow> nat \<Rightarrow> nat list" where
  "layout_order rows row_length =
     map (\<lambda>(pair, column, row_in_pair). (pair * 2 + row_in_pair) * row_length + column)
       (List.product [0..<rows div 2] (List.product [0..<row_length] [0..<2]))"

definition ds4_deepseek4_image_layout_build :: "nat \<Rightarrow> nat \<Rightarrow> nat \<Rightarrow> string + ds4_deepseek4_image_layout" where
  "ds4_deepseek4_image_layout_build grid_height grid_width start_pos =
     (if grid_height = 0 \<or> grid_width = 0 then Inl ''invalid DeepSeek image token grid''
      else
        let pad_height = grid_height mod 2;
            rows = (grid_height + pad_height) mod 2 ^ 32;
            row_length = (grid_width + 1) mod 2 ^ 32;
            compress_pad = 3 - start_pos mod 4;
            pad_last = (rows div 2 * row_length) mod 2 * 2;
            token_count = compress_pad + 1 + rows * row_length + pad_last + 1;
            image_count = grid_height * grid_width
        in if token_count > 384 \<or> image_count > UINT32_MAX then Inl ''DeepSeek image token layout exceeds its model limit''
           else
             let body = layout_body grid_height grid_width rows row_length;
                 cells = map ((!) body) (layout_order rows row_length);
                 types = replicate compress_pad DS4_DEEPSEEK4_IMAGE_PAD @ [DS4_DEEPSEEK4_IMAGE_START] @ map fst cells
                   @ replicate pad_last DS4_DEEPSEEK4_IMAGE_PAD @ [DS4_DEEPSEEK4_IMAGE_END];
                 perm = map (nat \<circ> snd) (filter (\<lambda>c. snd c \<ge> 0) cells)
             in if length types \<noteq> token_count \<or> length perm \<noteq> image_count then Inl ''internal DeepSeek image token layout mismatch''
                else Inr \<lparr>layout_types = types, layout_perm = perm\<rparr>)"

subsection \<open>Every patch once\<close>

lemma product_index: "i < length xs \<Longrightarrow> j < length ys \<Longrightarrow> List.product xs ys ! (i * length ys + j) = (xs ! i, ys ! j)"
proof -
  assume ij: "i < length xs" "j < length ys"
  then have "i * length ys + j < (i + 1) * length ys" by simp
  also have "\<dots> \<le> length xs * length ys" using ij(1) by (intro mult_le_mono1) simp
  finally have "i * length ys + j < length xs * length ys" .
  moreover have "(i * length ys + j) div length ys = i" using ij(2) by (intro div_nat_eqI) simp_all
  ultimately show ?thesis using ij by (simp add: product_nth)
qed

text \<open>The emitted cells, in terms of the grid.\<close>

definition layout_cells :: "nat \<Rightarrow> nat \<Rightarrow> nat \<Rightarrow> nat \<Rightarrow> (nat \<times> int) list" where
  "layout_cells h w rows row_length =
     map (\<lambda>(pair, column, r). body_cell h w (pair * 2 + r, column)) (List.product [0..<rows div 2] (List.product [0..<row_length] [0..<2]))"

lemma emitted_cells:
  assumes "even rows"
  shows "map ((!) (layout_body h w rows len)) (layout_order rows len) = layout_cells h w rows len"
proof -
  have "layout_body h w rows len ! ((pair * 2 + r) * len + column) = body_cell h w (pair * 2 + r, column)"
    if "pair < rows div 2" "column < len" "r < 2" for pair column r
  proof -
    have row: "pair * 2 + r < rows" using that assms by (auto elim!: evenE)
    then have "(pair * 2 + r) * len + column < (pair * 2 + r + 1) * len" using that(2) by simp
    also have "\<dots> \<le> rows * len" using row by (intro mult_le_mono1) simp
    finally show ?thesis using product_index [of "pair * 2 + r" "[0..<rows]" column "[0..<len]"] row that(2)
      by (simp add: layout_body_def)
  qed
  then show ?thesis by (auto simp: layout_order_def layout_cells_def)
qed

lemma cells_length: "even rows \<Longrightarrow> length (layout_cells h w rows len) = rows * len"
  by (auto simp: layout_cells_def elim!: evenE)

definition layout_patches :: "nat \<Rightarrow> nat \<Rightarrow> nat \<Rightarrow> nat \<Rightarrow> nat list" where
  "layout_patches h w rows len = map (nat \<circ> snd) (filter (\<lambda>c. snd c \<ge> 0) (layout_cells h w rows len))"

lemma no_patches:
  "layout_patches h w 0 len = []" "layout_patches h w rows 0 = []"
  "length (layout_patches h w rows len) \<noteq> 0 \<Longrightarrow> rows \<noteq> 0" "length (layout_patches h w rows len) \<noteq> 0 \<Longrightarrow> len \<noteq> 0"
proof -
  show z: "layout_patches h w 0 len = []" "layout_patches h w rows 0 = []" for rows len
    by (auto simp: layout_patches_def layout_cells_def simp flip: length_0_conv)
  show "length (layout_patches h w rows len) \<noteq> 0 \<Longrightarrow> rows \<noteq> 0" "length (layout_patches h w rows len) \<noteq> 0 \<Longrightarrow> len \<noteq> 0"
    using z(1) [of len] z(2) [of rows] by (metis list.size(3))+
qed

lemma row_column_unique:
  assumes "c < w" "c' < w" "i * w + c = i' * w + (c' :: nat)"
  shows "i = i' \<and> c = c'"
proof -
  have d: "(i * w + c) div w = i" "(i * w + c) mod w = c" if "c < w" for i c using that by simp_all
  show ?thesis using d [OF assms(1), of i] d [OF assms(2), of i'] assms(3) by simp
qed

lemma patches_permutation:
  assumes "h \<le> rows" "even rows" "len = w + 1"
  shows "distinct (layout_patches h w rows len)" "set (layout_patches h w rows len) = {0..<h * w}"
proof -
  let ?t = "List.product [0..<rows div 2] (List.product [0..<len] [0..<2])"
  define keep where "keep = (\<lambda>(pair, column, r :: nat). pair * 2 + r < h \<and> column < w)"
  define patch where "patch = (\<lambda>(pair, column, r). (pair * 2 + r) * w + column)"
  have eq: "layout_patches h w rows len = map patch (filter keep ?t)"
  proof -
    let ?f = "\<lambda>(pair, column, r). body_cell h w (pair * 2 + r, column)"
    have "filter ((\<lambda>c. 0 \<le> snd c) \<circ> ?f) ?t = filter keep ?t" by (rule filter_cong) (auto simp: keep_def body_cell_def split: if_splits)
    moreover have "map ((nat \<circ> snd) \<circ> ?f) (filter keep ?t) = map patch (filter keep ?t)"
      by (rule map_cong) (auto simp: keep_def patch_def body_cell_def simp del: of_nat_add of_nat_mult)
    ultimately show ?thesis unfolding layout_patches_def layout_cells_def filter_map map_map by simp
  qed
  have inj: "inj_on patch (set (filter keep ?t))"
  proof (rule inj_onI, clarsimp simp: keep_def patch_def)
    fix p c p' c' r r' :: nat
    assume a: "c < w" "c' < w" "r < 2" "r' < 2" "(p * 2 + r) * w + c = (p' * 2 + r') * w + c'"
    then have "p * 2 + r = p' * 2 + r' \<and> c = c'"
      by (intro row_column_unique)
    then show "p = p' \<and> c = c' \<and> r = r'" using a(3,4) by presburger
  qed
  show "distinct (layout_patches h w rows len)"
    unfolding eq using inj by (simp add: distinct_map distinct_product)
  show "set (layout_patches h w rows len) = {0..<h * w}"
  proof (intro equalityI subsetI)
    fix k assume "k \<in> set (layout_patches h w rows len)"
    then obtain p c r where "k = (p * 2 + r) * w + c" "p * 2 + r < h" "c < w" unfolding eq by (auto simp: keep_def patch_def)
    moreover from this have "(p * 2 + r + 1) * w \<le> h * w" by (intro mult_le_mono1) simp
    ultimately show "k \<in> {0..<h * w}" by simp
  next
    fix k assume "k \<in> {0..<h * w}"
    then have k: "k < h * w" "0 < w" by (auto intro: gr0I)
    define row where "row = k div w"
    have row: "row < h" using k by (simp add: row_def less_mult_imp_div_less)
    have "row div 2 < rows div 2" using row assms(1,2) by (auto elim!: evenE)
    moreover have "row div 2 * 2 + row mod 2 = row" by simp
    ultimately have "(row div 2, k mod w, row mod 2) \<in> set (filter keep ?t)" "patch (row div 2, k mod w, row mod 2) = k"
      using row k assms(3) by (simp_all add: keep_def patch_def less_Suc_eq row_def)
    then show "k \<in> set (layout_patches h w rows len)" unfolding eq by (metis image_eqI set_map)
  qed
qed

lemma mod_below_or_equal: "n \<le> m \<Longrightarrow> n mod m \<noteq> 0 \<Longrightarrow> n mod m = (n :: nat)"
  by (cases "n = m") simp_all

lemma wrapped_u32: "h < 2 ^ 32 \<Longrightarrow> (h + h mod 2) mod 2 ^ 32 \<noteq> 0 \<Longrightarrow> (h + h mod 2) mod 2 ^ 32 = h + h mod (2 :: nat)"
  by (rule mod_below_or_equal) (auto simp: mod2_eq_if elim!: evenE oddE)

lemma wrapped_u32_suc: "w < 2 ^ 32 \<Longrightarrow> (w + 1) mod 2 ^ 32 \<noteq> 0 \<Longrightarrow> (w + 1) mod 2 ^ 32 = w + (1 :: nat)"
  by (rule mod_below_or_equal) simp_all

lemma build_branch:
  assumes "(if A then Inl m else if n > k \<or> B then Inl m' else if C \<or> D then Inl m'' else Inr L') = Inr L"
  shows "\<not> A" "n \<le> (k :: nat)" "\<not> C" "\<not> D" "L = L'"
  using assms by (auto split: if_splits)

text \<open>What a layout that is delivered looks like: the wrapped sizes are rejected by the final check.\<close>

lemma layout_build_Inr:
  assumes "ds4_deepseek4_image_layout_build h w start = Inr L" and "h < 2 ^ 32" "w < 2 ^ 32"
  defines "rows \<equiv> h + h mod 2" and "cp \<equiv> 3 - start mod 4" and "pad \<equiv> (h + h mod 2) div 2 * (w + 1) mod 2 * 2"
  shows "0 < h" "0 < w" "cp + 1 + rows * (w + 1) + pad + 1 \<le> 384"
    "layout_types L = replicate cp DS4_DEEPSEEK4_IMAGE_PAD @ DS4_DEEPSEEK4_IMAGE_START # map fst (layout_cells h w rows (w + 1))
       @ replicate pad DS4_DEEPSEEK4_IMAGE_PAD @ [DS4_DEEPSEEK4_IMAGE_END]"
    "layout_perm L = layout_patches h w rows (w + 1)"
proof -
  let ?rows = "(h + h mod 2) mod 2 ^ 32" and ?len = "(w + 1) mod 2 ^ 32"
  have even: "even ?rows" by (simp add: dvd_mod_iff)
  have hw: "0 < h" "0 < w" using assms(1) by (auto simp: ds4_deepseek4_image_layout_build_def split: if_splits)
  have cells: "map ((!) (layout_body h w ?rows ?len)) (layout_order ?rows ?len) = layout_cells h w ?rows ?len" by (rule emitted_cells [OF even])
  note build = assms(1) [unfolded ds4_deepseek4_image_layout_build_def Let_def cells layout_patches_def [symmetric], folded cp_def]
  have small: "cp + 1 + ?rows * ?len + ?rows div 2 * ?len mod 2 * 2 + 1 \<le> 384" by (rule build_branch(2) [OF build])
  have count: "length (layout_patches h w ?rows ?len) = h * w" by (rule notnotD) (rule build_branch(4) [OF build])
  have L: "\<lparr>layout_types = replicate cp DS4_DEEPSEEK4_IMAGE_PAD @ [DS4_DEEPSEEK4_IMAGE_START] @ map fst (layout_cells h w ?rows ?len)
        @ replicate (?rows div 2 * ?len mod 2 * 2) DS4_DEEPSEEK4_IMAGE_PAD @ [DS4_DEEPSEEK4_IMAGE_END], layout_perm = layout_patches h w ?rows ?len\<rparr> = L"
    by (rule build_branch(5) [OF build, symmetric])
  have "length (layout_patches h w ?rows ?len) \<noteq> 0" using count hw by simp
  then have "?rows \<noteq> 0" "?len \<noteq> 0" using no_patches by blast+
  then have r: "?rows = rows" "?len = w + 1" unfolding rows_def using wrapped_u32 [of h] wrapped_u32_suc [of w] assms(2,3) by blast+
  show "0 < h" "0 < w" by (fact hw)+
  show "cp + 1 + rows * (w + 1) + pad + 1 \<le> 384" using small unfolding r unfolding pad_def rows_def [symmetric] .
  show "layout_types L = replicate cp DS4_DEEPSEEK4_IMAGE_PAD @ DS4_DEEPSEEK4_IMAGE_START # map fst (layout_cells h w rows (w + 1))
       @ replicate pad DS4_DEEPSEEK4_IMAGE_PAD @ [DS4_DEEPSEEK4_IMAGE_END]"
    unfolding L [symmetric] unfolding r unfolding pad_def rows_def [symmetric] by simp
  show "layout_perm L = layout_patches h w rows (w + 1)" unfolding L [symmetric] unfolding r by simp
qed

lemma cells_inner: "set (map fst (layout_cells h w rows len)) \<subseteq> {DS4_DEEPSEEK4_IMAGE_PAD, DS4_DEEPSEEK4_IMAGE, DS4_DEEPSEEK4_IMAGE_NEWLINE}"
  by (auto simp: layout_cells_def body_cell_def split: if_splits)

text \<open>The count of image tokens among the cells is the count of patches.\<close>

lemma image_cells: "length (filter (\<lambda>t. t = DS4_DEEPSEEK4_IMAGE) (map fst (layout_cells h w rows len))) = length (layout_patches h w rows len)"
proof -
  have "filter (\<lambda>c. 0 \<le> snd c) (layout_cells h w rows len) = filter (\<lambda>c. fst c = DS4_DEEPSEEK4_IMAGE) (layout_cells h w rows len)"
    by (rule filter_cong) (auto simp: layout_cells_def body_cell_def split: if_splits)
  then show ?thesis by (simp add: layout_patches_def filter_map comp_def)
qed

section \<open>Blocks in a token stream\<close>

datatype image_span = Bad | No_Image nat | Image nat nat nat

text \<open>From after the start token to the end token.\<close>

fun scan_image :: "nat \<Rightarrow> nat \<Rightarrow> int list \<Rightarrow> nat option" where
  "scan_image vocab i [] = None"
| "scan_image vocab i (t # ts) =
     (if t < int vocab \<or> t > int (vocab + DS4_DEEPSEEK4_IMAGE_END) \<or> t = int (vocab + DS4_DEEPSEEK4_IMAGE_START) then None
      else if t = int (vocab + DS4_DEEPSEEK4_IMAGE_END) then Some i
      else scan_image vocab (i + 1) ts)"

definition text_token :: "nat \<Rightarrow> int \<Rightarrow> bool" where
  "text_token vocab t \<longleftrightarrow> 0 \<le> t \<and> t < int vocab"

text \<open>On \<open>Image\<close> the cursor moves past the end token, on \<open>No_Image\<close> to the end of the tokens.\<close>

definition ds4_deepseek4_next_image_span :: "int list \<Rightarrow> nat \<Rightarrow> nat \<Rightarrow> image_span" where
  "ds4_deepseek4_next_image_span tokens vocab cursor =
     (if vocab = 0 \<or> cursor > length tokens then Bad
      else
        let i = cursor + length (takeWhile (text_token vocab) (drop cursor tokens))
        in if i = length tokens then No_Image i
           else if tokens ! i < 0 then Bad
           else
             let start = i + length (takeWhile (\<lambda>t. t = int (vocab + DS4_DEEPSEEK4_IMAGE_PAD)) (drop i tokens))
             in if start = length tokens \<or> tokens ! start \<noteq> int (vocab + DS4_DEEPSEEK4_IMAGE_START) then Bad
                else case scan_image vocab (start + 1) (drop (start + 1) tokens) of
                       None \<Rightarrow> Bad
                     | Some e \<Rightarrow> Image i start e)"

lemma scan_image_Some:
  "scan_image vocab i ts = Some e \<Longrightarrow> i \<le> e \<and> e < i + length ts \<and> ts ! (e - i) = int (vocab + DS4_DEEPSEEK4_IMAGE_END)"
proof (induction vocab i ts rule: scan_image.induct)
  case (2 vocab i t ts)
  show ?case
  proof (cases "t = int (vocab + DS4_DEEPSEEK4_IMAGE_END)")
    case False
    then have "scan_image vocab (i + 1) ts = Some e" using 2(2) by (auto split: if_splits)
    then have "i + 1 \<le> e \<and> e < i + 1 + length ts \<and> ts ! (e - (i + 1)) = int (vocab + DS4_DEEPSEEK4_IMAGE_END)" using 2 False by (auto split: if_splits)
    moreover from this have "e - i = Suc (e - (i + 1))" by linarith
    ultimately show ?thesis by simp
  qed (use 2 in auto)
qed simp

lemma next_image_span_bounds:
  assumes "ds4_deepseek4_next_image_span tokens vocab cursor = Image b s e"
  shows "cursor \<le> b" "b \<le> s" "s < e" "e < length tokens"
proof -
  obtain r where r: "scan_image vocab (s + 1) (drop (s + 1) tokens) = Some e" "b = cursor + length (takeWhile (text_token vocab) (drop cursor tokens))"
    "s = b + length (takeWhile (\<lambda>t. t = int (vocab + DS4_DEEPSEEK4_IMAGE_PAD)) (drop b tokens))"
    using assms unfolding ds4_deepseek4_next_image_span_def Let_def by (auto split: if_splits option.splits)
  show "cursor \<le> b" "b \<le> s" using r by simp_all
  show "s < e" "e < length tokens" using scan_image_Some [OF r(1)] by auto
qed

lemma next_image_span_order:
  "ds4_deepseek4_next_image_span tokens vocab cursor = Image b s e \<Longrightarrow> cursor \<le> b \<and> b \<le> s \<and> s < e \<and> e < length tokens"
  by (intro conjI) (erule next_image_span_bounds)+

text \<open>The block of a layout, among text, is found whole.\<close>

definition layout_tokens :: "nat \<Rightarrow> ds4_deepseek4_image_layout \<Rightarrow> int list" where
  "layout_tokens vocab L = map (\<lambda>t. int (vocab + t)) (layout_types L)"

lemma scan_image_block:
  assumes "set mid \<subseteq> {DS4_DEEPSEEK4_IMAGE_PAD, DS4_DEEPSEEK4_IMAGE, DS4_DEEPSEEK4_IMAGE_NEWLINE}"
  shows "scan_image vocab i (map (\<lambda>t. int (vocab + t)) mid @ int (vocab + DS4_DEEPSEEK4_IMAGE_END) # rest) = Some (i + length mid)"
  using assms by (induction mid arbitrary: i) auto

lemma block_found:
  assumes "\<forall>t \<in> set before. text_token vocab t" and "0 < vocab" and "cursor \<le> length before"
    and "set mid \<subseteq> {DS4_DEEPSEEK4_IMAGE_PAD, DS4_DEEPSEEK4_IMAGE, DS4_DEEPSEEK4_IMAGE_NEWLINE}"
    and tokens: "tokens = before @ map (\<lambda>t. int (vocab + t)) (replicate cp DS4_DEEPSEEK4_IMAGE_PAD @ DS4_DEEPSEEK4_IMAGE_START # mid @ [DS4_DEEPSEEK4_IMAGE_END]) @ after"
  shows "ds4_deepseek4_next_image_span tokens vocab cursor
    = Image (length before) (length before + cp) (length before + cp + length mid + 1)"
proof -
  let ?tail = "int (vocab + DS4_DEEPSEEK4_IMAGE_START) # map (\<lambda>t. int (vocab + t)) mid @ int (vocab + DS4_DEEPSEEK4_IMAGE_END) # after"
  let ?block = "replicate cp (int (vocab + DS4_DEEPSEEK4_IMAGE_PAD)) @ ?tail"
  have tk: "tokens = before @ ?block" by (simp add: tokens)
  have "takeWhile (text_token vocab) (drop cursor tokens) = drop cursor before"
    using assms(1,3) unfolding tk by (cases cp) (auto simp: takeWhile_append text_token_def dest: in_set_dropD)
  then have i: "cursor + length (takeWhile (text_token vocab) (drop cursor tokens)) = length before" using assms(3) by simp
  have "takeWhile (\<lambda>t. t = int (vocab + DS4_DEEPSEEK4_IMAGE_PAD)) ?block = replicate cp (int (vocab + DS4_DEEPSEEK4_IMAGE_PAD))"
    by (simp add: takeWhile_append)
  then have s: "length before + length (takeWhile (\<lambda>t. t = int (vocab + DS4_DEEPSEEK4_IMAGE_PAD)) (drop (length before) tokens)) = length before + cp"
    by (simp add: tk)
  have nth: "0 \<le> tokens ! length before" by (cases cp) (simp_all add: tk nth_append)
  have st: "tokens ! (length before + cp) = int (vocab + DS4_DEEPSEEK4_IMAGE_START)" by (simp add: tk nth_append)
  have "drop (length before + cp + 1) tokens = map (\<lambda>t. int (vocab + t)) mid @ int (vocab + DS4_DEEPSEEK4_IMAGE_END) # after" by (simp add: tk)
  then have e: "scan_image vocab (length before + cp + 1) (drop (length before + cp + 1) tokens) = Some (length before + cp + 1 + length mid)"
    using scan_image_block [OF assms(4)] by metis
  have len: "length before + cp < length tokens" "cursor \<le> length tokens" using assms(3) by (simp_all add: tk)
  show ?thesis unfolding ds4_deepseek4_next_image_span_def i Let_def s e option.case using assms(2) nth st len by simp
qed

text \<open>
  (C30) When the layout of an image is built for the position where its block starts, it has at most 384 tokens, its permutation
  lists every patch of the grid once, as many tokens stand for patches, and the block among the tokens of a prompt
  is read back as one image from its padding to its end token, its content starting at a multiple of four.
\<close>
theorem image_block_layout:
  assumes "ds4_deepseek4_image_layout_build h w (length before) = Inr L" and "h < 2 ^ 32" and "w < 2 ^ 32"
    and "\<forall>t \<in> set before. text_token vocab t" and "0 < vocab"
  shows "length (layout_types L) \<le> 384 \<and> distinct (layout_perm L) \<and> set (layout_perm L) = {0..<h * w}
    \<and> length (filter (\<lambda>t. t = DS4_DEEPSEEK4_IMAGE) (layout_types L)) = h * w
    \<and> (\<exists>s. ds4_deepseek4_next_image_span (before @ layout_tokens vocab L @ after) vocab 0
          = Image (length before) s (length before + length (layout_types L) - 1) \<and> (s + 1) mod 4 = 0)"
proof -
  let ?rows = "h + h mod 2" and ?cp = "3 - length before mod 4"
  note L = layout_build_Inr [OF assms(1-3)]
  have rows: "h \<le> ?rows" "even ?rows" by presburger+
  note perm = patches_permutation [OF rows refl, of w, folded L(5)]
  let ?mid = "map fst (layout_cells h w ?rows (w + 1)) @ replicate (?rows div 2 * (w + 1) mod 2 * 2) DS4_DEEPSEEK4_IMAGE_PAD"
  have types: "layout_types L = replicate ?cp DS4_DEEPSEEK4_IMAGE_PAD @ DS4_DEEPSEEK4_IMAGE_START # ?mid @ [DS4_DEEPSEEK4_IMAGE_END]"
    by (simp only: L(4) append.simps append_assoc)
  have len: "length (layout_types L) = ?cp + 1 + ?rows * (w + 1) + ?rows div 2 * (w + 1) mod 2 * 2 + 1"
    unfolding types by (simp only: length_append length_replicate list.size length_map cells_length [OF rows(2)])
  have mid: "set ?mid \<subseteq> {DS4_DEEPSEEK4_IMAGE_PAD, DS4_DEEPSEEK4_IMAGE, DS4_DEEPSEEK4_IMAGE_NEWLINE}"
    using cells_inner [of h w ?rows "w + 1"] by auto
  have tokens: "before @ layout_tokens vocab L @ after
      = before @ map (\<lambda>t. int (vocab + t)) (replicate ?cp DS4_DEEPSEEK4_IMAGE_PAD @ DS4_DEEPSEEK4_IMAGE_START # ?mid @ [DS4_DEEPSEEK4_IMAGE_END]) @ after"
    by (simp only: layout_tokens_def types)
  have "length (filter (\<lambda>t. t = DS4_DEEPSEEK4_IMAGE) (layout_types L)) = length (layout_perm L)"
    using image_cells [of h w ?rows "w + 1"] unfolding L(5) types by simp
  moreover have card: "length (layout_perm L) = h * w" using perm by (metis card_atLeastLessThan diff_zero distinct_card)
  have "length (layout_types L) = ?cp + 1 + length ?mid + 1"
    unfolding types by (simp only: length_append length_replicate list.size add.assoc add_0)
  then have "length before + ?cp + length ?mid + 1 = length before + length (layout_types L) - 1" by linarith
  then have "ds4_deepseek4_next_image_span (before @ layout_tokens vocab L @ after) vocab 0
      = Image (length before) (length before + ?cp) (length before + length (layout_types L) - 1)"
    using block_found [OF assms(4,5) _ mid tokens, of 0] by (simp only: le0 simp_thms)
  moreover have "(length before + ?cp + 1) mod 4 = 0" by presburger
  moreover have "length (layout_types L) \<le> 384" using L(3) unfolding len .
  ultimately show ?thesis using perm card by metis
qed

theorem image_block_layout_witness:
  "(case ds4_deepseek4_image_layout_build 3 2 5 of
      Inr L \<Rightarrow> length (layout_types L) = 16
        \<and> (\<exists>s. ds4_deepseek4_next_image_span ([1, 2, 3, 4, 5] @ layout_tokens 10 L @ [6]) 10 0 = Image 5 s (5 + length (layout_types L) - 1) \<and> (s + 1) mod 4 = 0)
    | Inl e \<Rightarrow> False)"
proof -
  have "map_sum id (\<lambda>L. length (layout_types L)) (ds4_deepseek4_image_layout_build 3 2 5) = Inr 16"
    by (simp add: ds4_deepseek4_image_layout_build_def Let_def layout_body_def layout_order_def body_cell_def upt_rec)
  then obtain L where L: "ds4_deepseek4_image_layout_build 3 2 5 = Inr L" "length (layout_types L) = 16"
    by (cases "ds4_deepseek4_image_layout_build 3 2 5") auto
  have "length [1, 2, 3, 4, 5 :: int] = 5" by simp
  from image_block_layout [of 3 2 "[1, 2, 3, 4, 5]" L 10 "[6]", unfolded this] L show ?thesis by (simp add: text_token_def)
qed

text \<open>Reading the blocks from a cursor on: the ones met, and whether the whole stream is well formed.\<close>

inductive met :: "int list \<Rightarrow> nat \<Rightarrow> nat \<Rightarrow> nat \<Rightarrow> nat \<Rightarrow> nat \<Rightarrow> bool" for tokens vocab where
  here: "ds4_deepseek4_next_image_span tokens vocab c = Image b s e \<Longrightarrow> met tokens vocab c b s e"
| later: "ds4_deepseek4_next_image_span tokens vocab c = Image b' s' e' \<Longrightarrow> met tokens vocab (e' + 1) b s e \<Longrightarrow> met tokens vocab c b s e"

inductive parses :: "int list \<Rightarrow> nat \<Rightarrow> nat \<Rightarrow> bool" for tokens vocab where
  last: "ds4_deepseek4_next_image_span tokens vocab c = No_Image i \<Longrightarrow> parses tokens vocab c"
| step: "ds4_deepseek4_next_image_span tokens vocab c = Image b s e \<Longrightarrow> parses tokens vocab (e + 1) \<Longrightarrow> parses tokens vocab c"

inductive_simps met_simp: "met tokens vocab c b s e"
inductive_simps parses_simp: "parses tokens vocab c"

lemma met_bounds: "met tokens vocab c b s e \<Longrightarrow> c \<le> b \<and> b \<le> s \<and> s < e \<and> e < length tokens"
  by (induction rule: met.induct) (force dest: next_image_span_order)+

lemma met_from:
  assumes "ds4_deepseek4_next_image_span tokens vocab c = Image b s e"
  shows "met tokens vocab c b' s' e' \<longleftrightarrow> b' = b \<and> s' = s \<and> e' = e \<or> met tokens vocab (e + 1) b' s' e'"
  using assms by (subst met_simp) auto

section \<open>A prefill chunk that splits no image\<close>

function prefill_limit :: "int list \<Rightarrow> nat \<Rightarrow> nat \<Rightarrow> nat \<Rightarrow> nat \<Rightarrow> nat \<Rightarrow> nat option" where
  "prefill_limit tokens vocab pos0 cap cursor limit =
     (case ds4_deepseek4_next_image_span tokens vocab cursor of
        Bad \<Rightarrow> None
      | No_Image _ \<Rightarrow> Some limit
      | Image block_start _ image_end \<Rightarrow>
          if block_start \<ge> limit then Some limit
          else
            let after_image = image_end + 1
            in if after_image > limit
               then if after_image - pos0 > cap then if block_start = pos0 then None else Some block_start
                    else prefill_limit tokens vocab pos0 cap after_image after_image
               else prefill_limit tokens vocab pos0 cap after_image limit)"
  by pat_completeness auto
termination
  by (relation "measure (\<lambda>(tokens, vocab, pos0, cap, cursor, limit). length tokens - cursor)") (auto dest!: next_image_span_order)

declare prefill_limit.simps [simp del]

definition ds4_deepseek4_prefill_chunk :: "int list \<Rightarrow> nat \<Rightarrow> nat \<Rightarrow> nat \<Rightarrow> nat option" where
  "ds4_deepseek4_prefill_chunk tokens vocab pos0 cap =
     (if vocab = 0 \<or> cap = 0 \<or> pos0 \<ge> length tokens then None
      else
        case prefill_limit tokens vocab pos0 cap pos0 (pos0 + (if length tokens - pos0 < cap then length tokens - pos0 else cap)) of
          None \<Rightarrow> None
        | Some limit \<Rightarrow> if limit - pos0 \<noteq> 0 then Some (limit - pos0) else None)"

lemma prefill_limit_safe:
  "prefill_limit tokens vocab pos0 cap cursor limit = Some l \<Longrightarrow> pos0 \<le> cursor \<Longrightarrow> cursor \<le> limit \<Longrightarrow> limit \<le> pos0 + cap \<Longrightarrow> limit \<le> length tokens
   \<Longrightarrow> cursor \<le> l \<and> l \<le> pos0 + cap \<and> l \<le> length tokens \<and> (\<forall>b s e. met tokens vocab cursor b s e \<longrightarrow> l \<le> b \<or> e < l)"
proof (induction tokens vocab pos0 cap cursor limit rule: prefill_limit.induct)
  case (1 tokens vocab pos0 cap cursor limit)
  show ?case
  proof (cases "ds4_deepseek4_next_image_span tokens vocab cursor")
    case (No_Image i)
    then have "l = limit" "\<not> met tokens vocab cursor b s e" for b s e
      using "1.prems"(1) by (simp add: prefill_limit.simps [of tokens], subst met_simp, simp)
    then show ?thesis using "1.prems" by simp
  next
    case (Image b s e)
    note bounds = next_image_span_bounds [OF Image] and met = met_from [OF Image]
    have later: "e < b'" if "met tokens vocab (e + 1) b' s' e'" for b' s' e' using met_bounds [OF that] by simp
    consider "limit \<le> b" | "b < limit" "limit < e + 1" "cap < e + 1 - pos0" | "b < limit" "limit < e + 1" "e + 1 - pos0 \<le> cap" | "b < limit" "e + 1 \<le> limit"
      by linarith
    then show ?thesis
    proof cases
      case 1
      then have "l = limit" using "1.prems"(1) Image by (simp add: prefill_limit.simps [of tokens])
      then show ?thesis using 1 "1.prems"(3-5) bounds later by (force simp: met)
    next
      case 2
      then have "l = b" using "1.prems"(1) Image by (auto simp: prefill_limit.simps [of tokens] split: if_splits)
      then show ?thesis using 2 "1.prems"(2-5) bounds later by (force simp: met)
    next
      case 3
      then have "prefill_limit tokens vocab pos0 cap (e + 1) (e + 1) = Some l" using "1.prems"(1) Image by (simp add: prefill_limit.simps [of tokens])
      moreover have "e + 1 \<le> pos0 + cap" using 3 by linarith
      ultimately show ?thesis using "1.IH"(1) [OF Image _ refl] 3 "1.prems" bounds by (auto simp: met)
    next
      case 4
      then have "prefill_limit tokens vocab pos0 cap (e + 1) limit = Some l" using "1.prems"(1) Image by (simp add: prefill_limit.simps [of tokens])
      from "1.IH"(2) [OF Image _ refl _ this] 4 "1.prems" bounds show ?thesis by (auto simp: met)
    qed
  qed (use 1 in \<open>simp add: prefill_limit.simps [of tokens]\<close>)
qed

lemma prefill_limit_total:
  "parses tokens vocab cursor \<Longrightarrow> \<forall>b s e. met tokens vocab cursor b s e \<longrightarrow> e + 1 - b \<le> cap \<Longrightarrow> pos0 \<le> cursor \<Longrightarrow> cursor \<le> limit \<Longrightarrow> pos0 < limit
   \<Longrightarrow> \<exists>l. prefill_limit tokens vocab pos0 cap cursor limit = Some l \<and> pos0 < l"
proof (induction arbitrary: limit rule: parses.induct)
  case (last c i)
  then show ?case by (simp add: prefill_limit.simps [of tokens])
next
  case (step c b s e)
  note bounds = next_image_span_bounds [OF step(1)] and met = met_from [OF step(1)]
  have fits: "e + 1 - b \<le> cap" "\<forall>b s e'. met tokens vocab (e + 1) b s e' \<longrightarrow> e' + 1 - b \<le> cap" using step.prems(1) by (auto simp: met)
  have again: "\<exists>l. prefill_limit tokens vocab pos0 cap (e + 1) m = Some l \<and> pos0 < l" if "e + 1 \<le> m" for m
    using step.IH [OF fits(2)] that step.prems bounds by simp
  consider "limit \<le> b" | "b < limit" "limit < e + 1" "cap < e + 1 - pos0" | "b < limit" "limit < e + 1" "e + 1 - pos0 \<le> cap" | "b < limit" "e + 1 \<le> limit"
    by linarith
  then show ?case
  proof cases
    case 2
    then have "b \<noteq> pos0" using fits(1) by auto
    then show ?thesis using 2 step bounds by (simp add: prefill_limit.simps [of tokens])
  next
    case 3
    then show ?thesis using step(1) again [of "e + 1"] by (simp add: prefill_limit.simps [of tokens vocab pos0 cap c])
  next
    case 4
    then show ?thesis using step(1) again [of limit] by (simp add: prefill_limit.simps [of tokens vocab pos0 cap c])
  qed (use step in \<open>simp add: prefill_limit.simps [of tokens]\<close>)
qed

text \<open>
  (C31) On tokens whose image blocks are well formed and no longer than the cap, a prefill chunk is always found; it is not empty,
  at most the cap, within the tokens, and every block that follows lies wholly in it or wholly after it.
\<close>
theorem prefill_chunk_whole_images:
  assumes "parses tokens vocab pos0" and "\<And>b s e. met tokens vocab pos0 b s e \<Longrightarrow> e + 1 - b \<le> cap"
    and "0 < vocab" and "0 < cap" and "pos0 < length tokens"
  shows "\<exists>n. ds4_deepseek4_prefill_chunk tokens vocab pos0 cap = Some n \<and> 0 < n \<and> n \<le> cap \<and> pos0 + n \<le> length tokens
    \<and> (\<forall>b s e. met tokens vocab pos0 b s e \<longrightarrow> e < pos0 + n \<or> pos0 + n \<le> b)"
proof -
  define limit where "limit = pos0 + (if length tokens - pos0 < cap then length tokens - pos0 else cap)"
  have limit: "pos0 < limit" "limit \<le> pos0 + cap" "limit \<le> length tokens" using assms(3-5) by (auto simp: limit_def)
  obtain l where l: "prefill_limit tokens vocab pos0 cap pos0 limit = Some l" "pos0 < l"
    using prefill_limit_total [OF assms(1), of cap pos0 limit] assms(2) limit by auto
  have "ds4_deepseek4_prefill_chunk tokens vocab pos0 cap = Some (l - pos0)"
    using l assms(3-5) by (simp add: ds4_deepseek4_prefill_chunk_def limit_def [symmetric])
  then show ?thesis using prefill_limit_safe [OF l(1)] limit l(2) by auto
qed

definition block_prompt :: "int list" where
  "block_prompt = [1, 2, 11, 10, 12, 14, 3, 11, 11, 10, 12, 14]"

lemma block_prompt_spans: "ds4_deepseek4_next_image_span block_prompt 10 0 = Image 2 3 5"
  "ds4_deepseek4_next_image_span block_prompt 10 6 = Image 7 9 11" "ds4_deepseek4_next_image_span block_prompt 10 12 = No_Image 12"
  by code_simp+

lemma block_prompt_parses: "parses block_prompt 10 0"
  using parses.step [OF block_prompt_spans(1)] parses.step [OF block_prompt_spans(2)] parses.last [OF block_prompt_spans(3)] by simp

theorem prefill_chunk_whole_images_witness:
  "met block_prompt 10 0 2 3 5 \<and> ds4_deepseek4_prefill_chunk block_prompt 10 0 5 = Some 2
   \<and> (\<exists>n. ds4_deepseek4_prefill_chunk block_prompt 10 0 5 = Some n \<and> 0 < n \<and> n \<le> 5 \<and> 0 + n \<le> length block_prompt)"
proof -
  note spans = block_prompt_spans and p = block_prompt_parses
  have met: "met block_prompt 10 0 b s e \<longleftrightarrow> (b, s, e) = (2, 3, 5) \<or> (b, s, e) = (7, 9, 11)" for b s e
    using met_from [OF spans(1), of b s e] met_from [OF spans(2), of b s e] spans(3) met_simp [of block_prompt 10 12] by auto
  then have m: "met block_prompt 10 0 b s e \<Longrightarrow> e + 1 - b \<le> 5" for b s e by auto
  have "ds4_deepseek4_prefill_chunk block_prompt 10 0 5 = Some 2"
    by (simp add: ds4_deepseek4_prefill_chunk_def prefill_limit.simps [of block_prompt] spans) (simp add: block_prompt_def)
  then show ?thesis using prefill_chunk_whole_images [OF p m] met by (auto simp: block_prompt_def)
qed

section \<open>The attention bounds of the queries\<close>

definition causal_bounds :: "nat \<Rightarrow> nat \<Rightarrow> nat \<Rightarrow> nat \<Rightarrow> nat \<times> nat" where
  "causal_bounds first_raw_pos last_raw_pos window qpos =
     (let window_lo = qpos + 1 - window
      in (if window \<noteq> 0 \<and> qpos + 1 > window \<and> window_lo > first_raw_pos then window_lo else first_raw_pos,
          if qpos < last_raw_pos then qpos else last_raw_pos))"

definition image_bounds :: "nat \<Rightarrow> nat \<Rightarrow> nat \<Rightarrow> nat \<Rightarrow> nat \<Rightarrow> nat \<Rightarrow> nat \<Rightarrow> nat \<times> nat" where
  "image_bounds pos0 first_raw_pos last_raw_pos window image_start image_end q =
     (let qpos = pos0 + q;
          left = if q - image_start < 383 then q - image_start else 383;
          right = if image_end - q < 384 then image_end - q else 384;
          left_add = if window \<noteq> 0 \<and> left \<ge> window then left - (window - 1) else 0;
          back = window - 1 + left_add;
          lo = if window \<noteq> 0 then if qpos > back then qpos - back else 0 else 0;
          hi = qpos + right
      in (if lo < first_raw_pos then first_raw_pos else lo, if hi > last_raw_pos then last_raw_pos else hi))"

function bounds_loop :: "int list \<Rightarrow> nat \<Rightarrow> (nat \<Rightarrow> nat \<Rightarrow> nat \<Rightarrow> nat \<times> nat) \<Rightarrow> nat \<Rightarrow> (nat \<times> nat) list \<Rightarrow> (nat \<times> nat) list option" where
  "bounds_loop tokens vocab f cursor bounds =
     (case ds4_deepseek4_next_image_span tokens vocab cursor of
        Bad \<Rightarrow> None
      | No_Image _ \<Rightarrow> Some bounds
      | Image _ image_start image_end \<Rightarrow>
          bounds_loop tokens vocab f (image_end + 1) (fold (\<lambda>q bs. bs[q := f image_start image_end q]) [image_start..<image_end + 1] bounds))"
  by pat_completeness auto
termination
  by (relation "measure (\<lambda>(tokens, vocab, f, cursor, bounds). length tokens - cursor)") (auto dest!: next_image_span_order)

declare bounds_loop.simps [simp del]

definition ds4_deepseek4_attention_bounds :: "int list \<Rightarrow> nat \<Rightarrow> nat \<Rightarrow> nat \<Rightarrow> nat \<Rightarrow> (nat \<times> nat) list option" where
  "ds4_deepseek4_attention_bounds tokens vocab pos0 n_raw window =
     (if tokens = [] \<or> vocab = 0 \<or> pos0 > UINT32_MAX - length tokens \<or> n_raw = 0 \<or> n_raw > pos0 + length tokens then None
      else
        let first_raw_pos = pos0 + length tokens - n_raw;
            last_raw_pos = first_raw_pos + n_raw - 1
        in bounds_loop tokens vocab (image_bounds pos0 first_raw_pos last_raw_pos window) 0
             (map (\<lambda>q. causal_bounds first_raw_pos last_raw_pos window (pos0 + q)) [0..<length tokens]))"

lemma fold_list_update:
  assumes "e \<le> length bs"
  shows "length (fold (\<lambda>q bs. bs[q := f q]) [s..<e] bs) = length bs"
    "k < length bs \<Longrightarrow> fold (\<lambda>q bs. bs[q := f q]) [s..<e] bs ! k = (if s \<le> k \<and> k < e then f k else bs ! k)"
proof -
  have "length (fold (\<lambda>q bs. bs[q := f q]) [s..<e] bs) = length bs
    \<and> (\<forall>k < length bs. fold (\<lambda>q bs. bs[q := f q]) [s..<e] bs ! k = (if s \<le> k \<and> k < e then f k else bs ! k))"
    using assms by (induction e) (auto simp: less_Suc_eq nth_list_update)
  then show "length (fold (\<lambda>q bs. bs[q := f q]) [s..<e] bs) = length bs"
    "k < length bs \<Longrightarrow> fold (\<lambda>q bs. bs[q := f q]) [s..<e] bs ! k = (if s \<le> k \<and> k < e then f k else bs ! k)" by simp_all
qed

lemma image_bounds_whole:
  assumes "s \<le> q" "q \<le> e" "e - s < 384" "pos0 + e \<le> bound"
  shows "first \<le> fst (image_bounds pos0 first bound window s e q)" "snd (image_bounds pos0 first bound window s e q) = pos0 + e"
    "fst (image_bounds pos0 first bound window s e q) \<le> max (pos0 + s) first"
proof -
  have sides: "(if q - s < 383 then q - s else 383) = q - s" "(if e - q < 384 then e - q else 384) = e - q" using assms by auto
  note b = image_bounds_def [of pos0 first bound window s e q, unfolded sides Let_def]
  show "first \<le> fst (image_bounds pos0 first bound window s e q)" unfolding b by simp
  show "snd (image_bounds pos0 first bound window s e q) = pos0 + e" unfolding b using assms(2,4) by simp
  define reach where "reach = window - 1 + (if window \<noteq> 0 \<and> q - s \<ge> window then q - s - (window - 1) else 0)"
  have "window \<noteq> 0 \<Longrightarrow> q - s \<le> reach" unfolding reach_def by simp linarith
  then have "(if window \<noteq> 0 then if reach < pos0 + q then pos0 + q - reach else 0 else 0) \<le> pos0 + s" using assms(1) by auto
  then show "fst (image_bounds pos0 first bound window s e q) \<le> max (pos0 + s) first"
    unfolding b reach_def [symmetric] fst_conv by simp
qed

text \<open>A query in a block that is met gets the image's bounds, any other keeps its own.\<close>

lemma bounds_loop_nth:
  "parses tokens vocab cursor \<Longrightarrow> length bs = length tokens \<Longrightarrow>
   \<exists>r. bounds_loop tokens vocab f cursor bs = Some r \<and> length r = length tokens
     \<and> (\<forall>b s e q. met tokens vocab cursor b s e \<longrightarrow> s \<le> q \<longrightarrow> q \<le> e \<longrightarrow> r ! q = f s e q)
     \<and> (\<forall>q < length tokens. (\<forall>b s e. met tokens vocab cursor b s e \<longrightarrow> q < s \<or> e < q) \<longrightarrow> r ! q = bs ! q)"
proof (induction arbitrary: bs rule: parses.induct)
  case (last c i)
  then have "\<not> met tokens vocab c b s e" for b s e by (subst met_simp) simp
  then show ?case using last by (simp add: bounds_loop.simps [of tokens])
next
  case (step c b s e)
  note bounds = next_image_span_bounds [OF step(1)] and met = met_from [OF step(1)]
  let ?bs = "fold (\<lambda>q bs. bs[q := f s e q]) [s..<e + 1] bs"
  have upd: "length ?bs = length tokens" "\<And>k. k < length tokens \<Longrightarrow> ?bs ! k = (if s \<le> k \<and> k \<le> e then f s e k else bs ! k)"
    using fold_list_update [where e = "e + 1" and bs = bs and f = "f s e" and s = s] bounds(4) step.prems by auto
  obtain r where r: "bounds_loop tokens vocab f (e + 1) ?bs = Some r" "length r = length tokens"
    and blocks: "\<And>b' s' e' q. met tokens vocab (e + 1) b' s' e' \<Longrightarrow> s' \<le> q \<Longrightarrow> q \<le> e' \<Longrightarrow> r ! q = f s' e' q"
    and rest: "\<And>q. q < length tokens \<Longrightarrow> (\<And>b' s' e'. met tokens vocab (e + 1) b' s' e' \<Longrightarrow> q < s' \<or> e' < q) \<Longrightarrow> r ! q = ?bs ! q"
    using step.IH [OF upd(1)] by blast
  have this_block: "r ! q = f s e q" if "s \<le> q" "q \<le> e" for q
  proof -
    have "r ! q = ?bs ! q" using that bounds by (intro rest) (auto dest: met_bounds)
    then show ?thesis using upd(2) [of q] that bounds(4) by simp
  qed
  have outside: "r ! q = bs ! q" if "q < length tokens" "\<And>b' s' e'. met tokens vocab c b' s' e' \<Longrightarrow> q < s' \<or> e' < q" for q
  proof -
    have "r ! q = ?bs ! q" using that by (intro rest) (auto simp: met)
    then show ?thesis using upd(2) [OF that(1)] that(2) [of b s e] met by auto
  qed
  have "bounds_loop tokens vocab f c bs = Some r" using r(1) step(1) by (simp add: bounds_loop.simps [where cursor = c and tokens = tokens])
  moreover have "r ! q = f s' e' q" if "met tokens vocab c b' s' e'" "s' \<le> q" "q \<le> e'" for b' s' e' q
    using that blocks this_block unfolding met by blast
  ultimately show ?case using r(2) outside by blast
qed



end
