(* ===== verification/Dist_Wire.thy ===== *)
theory Dist_Wire
  imports Clib
begin

text \<open>
  The messages of the distributed mode (\<open>ds4_distributed.c\<close>): the fixed structs in network byte order, frames, the rolling hash of
  token prefixes, and the widths of activations. A struct after \<open>to_wire\<close> is its memory image: its fields in order, each
  big-endian. The structs share an interface, a writer, a reader and a size, whose law is that reading gives back what was written.
\<close>

section \<open>Network byte order\<close>

definition htonl :: "u32 \<Rightarrow> bytes" where
  "htonl v = [ucast (drop_bit 24 v), ucast (drop_bit 16 v), ucast (drop_bit 8 v), ucast v]"

text \<open>\<open>ntohl\<close> of the field \<open>i\<close> of a struct in memory.\<close>

definition ntohl :: "bytes \<Rightarrow> nat \<Rightarrow> u32" where
  "ntohl b i = push_bit 24 (ucast (b ! (4 * i))) OR push_bit 16 (ucast (b ! (4 * i + 1)))
     OR push_bit 8 (ucast (b ! (4 * i + 2))) OR ucast (b ! (4 * i + 3))"

lemma length_htonl [simp]: "length (htonl v) = 4"
  by (simp add: htonl_def)

lemma ntohl_Cons: "ntohl (htonl v @ b) 0 = v" "ntohl (htonl v @ b) (Suc i) = ntohl b i"
proof -
  show "ntohl (htonl v @ b) 0 = v"
  proof (rule bit_word_eqI)
    fix n assume "n < LENGTH(32)"
    then show "bit (ntohl (htonl v @ b) 0) n = bit v n"
      by (cases "n < 8"; cases "n < 16"; cases "n < 24") (auto simp: ntohl_def htonl_def bit_simps less_diff_conv2 not_less)
  qed
  show "ntohl (htonl v @ b) (Suc i) = ntohl b i"
    by (simp add: ntohl_def nth_append htonl_def add.commute)
qed

lemma ntohl_htonl: "i < length ws \<Longrightarrow> ntohl (concat (map htonl ws)) i = ws ! i"
proof (induction ws arbitrary: i)
  case (Cons w ws)
  then show ?case by (cases i) (simp_all add: ntohl_Cons)
qed simp

section \<open>The structs of the messages\<close>

text \<open>Reading \<open>len\<close> bytes of a connection: its remaining bytes, \<open>None\<close> when it ends before.\<close>

definition dist_read_full :: "nat \<Rightarrow> bytes \<Rightarrow> (bytes \<times> bytes) option" where
  "dist_read_full len s = (if len \<le> length s then Some (take len s, drop len s) else None)"

locale wire_struct =
  fixes to_wire :: "'s \<Rightarrow> bytes" and from_wire :: "bytes \<Rightarrow> 's" and struct_size :: nat
  assumes length_to_wire: "length (to_wire s) = struct_size"
    and from_to_wire: "from_wire (to_wire s) = s"
begin

lemma read_struct: "dist_read_full struct_size (to_wire s @ rest) = Some (to_wire s, rest)"
  by (simp add: dist_read_full_def length_to_wire)

lemma to_wire_inject: "to_wire s = to_wire s' \<longleftrightarrow> s = s'"
  by (metis from_to_wire)

end

text \<open>Registration of a worker.\<close>

record ds4_dist_hello_fixed =
  h_model_id :: u32
  h_quant_bits :: u32
  h_layer_start :: u32
  h_layer_end :: u32
  h_has_output :: u32
  h_has_hidden :: u32
  h_ctx_size :: u32
  h_n_layers :: u32
  h_listen_port :: u32
  h_model_name_len :: u32

definition dist_hello_to_wire :: "ds4_dist_hello_fixed \<Rightarrow> bytes" where
  "dist_hello_to_wire s = concat (map htonl
     [h_model_id s, h_quant_bits s, h_layer_start s, h_layer_end s, h_has_output s, h_has_hidden s, h_ctx_size s, h_n_layers s,
      h_listen_port s, h_model_name_len s])"

definition dist_hello_from_wire :: "bytes \<Rightarrow> ds4_dist_hello_fixed" where
  "dist_hello_from_wire b =
     \<lparr>h_model_id = ntohl b 0, h_quant_bits = ntohl b 1, h_layer_start = ntohl b 2, h_layer_end = ntohl b 3,
      h_has_output = ntohl b 4, h_has_hidden = ntohl b 5, h_ctx_size = ntohl b 6, h_n_layers = ntohl b 7, h_listen_port = ntohl b 8,
      h_model_name_len = ntohl b 9\<rparr>"

interpretation hello: wire_struct dist_hello_to_wire dist_hello_from_wire 40
  by unfold_locales (simp add: dist_hello_to_wire_def, simp add: dist_hello_to_wire_def dist_hello_from_wire_def ntohl_htonl del: concat.simps list.map)

text \<open>A work request.\<close>

record ds4_dist_work_fixed =
  w_model_id :: u32
  w_session_hi :: u32
  w_session_lo :: u32
  w_request_hi :: u32
  w_request_lo :: u32
  w_prefix_hash_hi :: u32
  w_prefix_hash_lo :: u32
  w_result_hash_hi :: u32
  w_result_hash_lo :: u32
  w_pos0 :: u32
  w_n_tokens :: u32
  w_layer_start :: u32
  w_layer_end :: u32
  w_flags :: u32
  w_token_bytes :: u32
  w_input_hc_bytes :: u32
  w_input_hc_bits :: u32
  w_route_count :: u32
  w_route_index :: u32
  w_route_bytes :: u32

definition dist_work_to_wire :: "ds4_dist_work_fixed \<Rightarrow> bytes" where
  "dist_work_to_wire s = concat (map htonl
     [w_model_id s, w_session_hi s, w_session_lo s, w_request_hi s, w_request_lo s, w_prefix_hash_hi s, w_prefix_hash_lo s,
      w_result_hash_hi s, w_result_hash_lo s, w_pos0 s, w_n_tokens s, w_layer_start s, w_layer_end s, w_flags s, w_token_bytes s,
      w_input_hc_bytes s, w_input_hc_bits s, w_route_count s, w_route_index s, w_route_bytes s])"

definition dist_work_from_wire :: "bytes \<Rightarrow> ds4_dist_work_fixed" where
  "dist_work_from_wire b =
     \<lparr>w_model_id = ntohl b 0, w_session_hi = ntohl b 1, w_session_lo = ntohl b 2, w_request_hi = ntohl b 3,
      w_request_lo = ntohl b 4, w_prefix_hash_hi = ntohl b 5, w_prefix_hash_lo = ntohl b 6, w_result_hash_hi = ntohl b 7,
      w_result_hash_lo = ntohl b 8, w_pos0 = ntohl b 9, w_n_tokens = ntohl b 10, w_layer_start = ntohl b 11,
      w_layer_end = ntohl b 12, w_flags = ntohl b 13, w_token_bytes = ntohl b 14, w_input_hc_bytes = ntohl b 15,
      w_input_hc_bits = ntohl b 16, w_route_count = ntohl b 17, w_route_index = ntohl b 18, w_route_bytes = ntohl b 19\<rparr>"

interpretation work: wire_struct dist_work_to_wire dist_work_from_wire 80
  by unfold_locales (simp add: dist_work_to_wire_def, simp add: dist_work_to_wire_def dist_work_from_wire_def ntohl_htonl del: concat.simps list.map)

text \<open>One hop of a route, followed by its host.\<close>

record ds4_dist_route_fixed =
  r_host_len :: u32
  r_port :: u32
  r_layer_start :: u32
  r_layer_end :: u32
  r_flags :: u32

definition dist_route_to_wire :: "ds4_dist_route_fixed \<Rightarrow> bytes" where
  "dist_route_to_wire s = concat (map htonl
     [r_host_len s, r_port s, r_layer_start s, r_layer_end s, r_flags s])"

definition dist_route_from_wire :: "bytes \<Rightarrow> ds4_dist_route_fixed" where
  "dist_route_from_wire b =
     \<lparr>r_host_len = ntohl b 0, r_port = ntohl b 1, r_layer_start = ntohl b 2, r_layer_end = ntohl b 3, r_flags = ntohl b 4\<rparr>"

interpretation route: wire_struct dist_route_to_wire dist_route_from_wire 20
  by unfold_locales (simp add: dist_route_to_wire_def, simp add: dist_route_to_wire_def dist_route_from_wire_def ntohl_htonl del: concat.simps list.map)

text \<open>The destination of the result, after the hops.\<close>

record ds4_dist_route_return_fixed =
  rr_kind :: u32
  rr_host_len :: u32
  rr_port :: u32

definition dist_route_return_to_wire :: "ds4_dist_route_return_fixed \<Rightarrow> bytes" where
  "dist_route_return_to_wire s = concat (map htonl
     [rr_kind s, rr_host_len s, rr_port s])"

definition dist_route_return_from_wire :: "bytes \<Rightarrow> ds4_dist_route_return_fixed" where
  "dist_route_return_from_wire b =
     \<lparr>rr_kind = ntohl b 0, rr_host_len = ntohl b 1, rr_port = ntohl b 2\<rparr>"

interpretation route_return: wire_struct dist_route_return_to_wire dist_route_return_from_wire 12
  by unfold_locales (simp add: dist_route_return_to_wire_def, simp add: dist_route_return_to_wire_def dist_route_return_from_wire_def ntohl_htonl del: concat.simps list.map)

text \<open>A result.\<close>

record ds4_dist_result_fixed =
  res_request_hi :: u32
  res_request_lo :: u32
  res_result_hash_hi :: u32
  res_result_hash_lo :: u32
  res_status :: u32
  res_result_kind :: u32
  res_telemetry_count :: u32
  res_telemetry_bytes :: u32
  res_payload_bytes :: u32
  res_payload_bits :: u32

definition dist_result_to_wire :: "ds4_dist_result_fixed \<Rightarrow> bytes" where
  "dist_result_to_wire s = concat (map htonl
     [res_request_hi s, res_request_lo s, res_result_hash_hi s, res_result_hash_lo s, res_status s, res_result_kind s,
      res_telemetry_count s, res_telemetry_bytes s, res_payload_bytes s, res_payload_bits s])"

definition dist_result_from_wire :: "bytes \<Rightarrow> ds4_dist_result_fixed" where
  "dist_result_from_wire b =
     \<lparr>res_request_hi = ntohl b 0, res_request_lo = ntohl b 1, res_result_hash_hi = ntohl b 2, res_result_hash_lo = ntohl b 3,
      res_status = ntohl b 4, res_result_kind = ntohl b 5, res_telemetry_count = ntohl b 6, res_telemetry_bytes = ntohl b 7,
      res_payload_bytes = ntohl b 8, res_payload_bits = ntohl b 9\<rparr>"

interpretation result: wire_struct dist_result_to_wire dist_result_from_wire 40
  by unfold_locales (simp add: dist_result_to_wire_def, simp add: dist_result_to_wire_def dist_result_from_wire_def ntohl_htonl del: concat.simps list.map)

text \<open>The timings of one hop.\<close>

record ds4_dist_telemetry_fixed =
  t_layer_start :: u32
  t_layer_end :: u32
  t_route_index :: u32
  t_pos0 :: u32
  t_n_tokens :: u32
  t_eval_usec :: u32
  t_downstream_wait_usec :: u32
  t_forward_send_usec :: u32
  t_input_bytes :: u32
  t_output_bytes :: u32

definition dist_telemetry_to_wire :: "ds4_dist_telemetry_fixed \<Rightarrow> bytes" where
  "dist_telemetry_to_wire s = concat (map htonl
     [t_layer_start s, t_layer_end s, t_route_index s, t_pos0 s, t_n_tokens s, t_eval_usec s, t_downstream_wait_usec s,
      t_forward_send_usec s, t_input_bytes s, t_output_bytes s])"

definition dist_telemetry_from_wire :: "bytes \<Rightarrow> ds4_dist_telemetry_fixed" where
  "dist_telemetry_from_wire b =
     \<lparr>t_layer_start = ntohl b 0, t_layer_end = ntohl b 1, t_route_index = ntohl b 2, t_pos0 = ntohl b 3, t_n_tokens = ntohl b 4,
      t_eval_usec = ntohl b 5, t_downstream_wait_usec = ntohl b 6, t_forward_send_usec = ntohl b 7, t_input_bytes = ntohl b 8,
      t_output_bytes = ntohl b 9\<rparr>"

interpretation telemetry: wire_struct dist_telemetry_to_wire dist_telemetry_from_wire 40
  by unfold_locales (simp add: dist_telemetry_to_wire_def, simp add: dist_telemetry_to_wire_def dist_telemetry_from_wire_def ntohl_htonl del: concat.simps list.map)

text \<open>The snapshot messages.\<close>

record ds4_dist_snapshot_req_fixed =
  sq_model_id :: u32
  sq_session_hi :: u32
  sq_session_lo :: u32
  sq_request_hi :: u32
  sq_request_lo :: u32
  sq_token_hash_hi :: u32
  sq_token_hash_lo :: u32
  sq_token_count :: u32
  sq_layer_start :: u32
  sq_layer_end :: u32

definition dist_snapshot_req_to_wire :: "ds4_dist_snapshot_req_fixed \<Rightarrow> bytes" where
  "dist_snapshot_req_to_wire s = concat (map htonl
     [sq_model_id s, sq_session_hi s, sq_session_lo s, sq_request_hi s, sq_request_lo s, sq_token_hash_hi s, sq_token_hash_lo s,
      sq_token_count s, sq_layer_start s, sq_layer_end s])"

definition dist_snapshot_req_from_wire :: "bytes \<Rightarrow> ds4_dist_snapshot_req_fixed" where
  "dist_snapshot_req_from_wire b =
     \<lparr>sq_model_id = ntohl b 0, sq_session_hi = ntohl b 1, sq_session_lo = ntohl b 2, sq_request_hi = ntohl b 3,
      sq_request_lo = ntohl b 4, sq_token_hash_hi = ntohl b 5, sq_token_hash_lo = ntohl b 6, sq_token_count = ntohl b 7,
      sq_layer_start = ntohl b 8, sq_layer_end = ntohl b 9\<rparr>"

interpretation snapshot_req: wire_struct dist_snapshot_req_to_wire dist_snapshot_req_from_wire 40
  by unfold_locales (simp add: dist_snapshot_req_to_wire_def, simp add: dist_snapshot_req_to_wire_def dist_snapshot_req_from_wire_def ntohl_htonl del: concat.simps list.map)

record ds4_dist_snapshot_begin_fixed =
  sb_model_id :: u32
  sb_session_hi :: u32
  sb_session_lo :: u32
  sb_request_hi :: u32
  sb_request_lo :: u32
  sb_token_hash_hi :: u32
  sb_token_hash_lo :: u32
  sb_token_count :: u32
  sb_layer_start :: u32
  sb_layer_end :: u32
  sb_payload_hi :: u32
  sb_payload_lo :: u32
  sb_status :: u32
  sb_token_bytes :: u32
  sb_message_bytes :: u32

definition dist_snapshot_begin_to_wire :: "ds4_dist_snapshot_begin_fixed \<Rightarrow> bytes" where
  "dist_snapshot_begin_to_wire s = concat (map htonl
     [sb_model_id s, sb_session_hi s, sb_session_lo s, sb_request_hi s, sb_request_lo s, sb_token_hash_hi s, sb_token_hash_lo s,
      sb_token_count s, sb_layer_start s, sb_layer_end s, sb_payload_hi s, sb_payload_lo s, sb_status s, sb_token_bytes s,
      sb_message_bytes s])"

definition dist_snapshot_begin_from_wire :: "bytes \<Rightarrow> ds4_dist_snapshot_begin_fixed" where
  "dist_snapshot_begin_from_wire b =
     \<lparr>sb_model_id = ntohl b 0, sb_session_hi = ntohl b 1, sb_session_lo = ntohl b 2, sb_request_hi = ntohl b 3,
      sb_request_lo = ntohl b 4, sb_token_hash_hi = ntohl b 5, sb_token_hash_lo = ntohl b 6, sb_token_count = ntohl b 7,
      sb_layer_start = ntohl b 8, sb_layer_end = ntohl b 9, sb_payload_hi = ntohl b 10, sb_payload_lo = ntohl b 11,
      sb_status = ntohl b 12, sb_token_bytes = ntohl b 13, sb_message_bytes = ntohl b 14\<rparr>"

interpretation snapshot_begin: wire_struct dist_snapshot_begin_to_wire dist_snapshot_begin_from_wire 60
  by unfold_locales (simp add: dist_snapshot_begin_to_wire_def, simp add: dist_snapshot_begin_to_wire_def dist_snapshot_begin_from_wire_def ntohl_htonl del: concat.simps list.map)

record ds4_dist_snapshot_chunk_fixed =
  sc_request_hi :: u32
  sc_request_lo :: u32
  sc_chunk_bytes :: u32

definition dist_snapshot_chunk_to_wire :: "ds4_dist_snapshot_chunk_fixed \<Rightarrow> bytes" where
  "dist_snapshot_chunk_to_wire s = concat (map htonl
     [sc_request_hi s, sc_request_lo s, sc_chunk_bytes s])"

definition dist_snapshot_chunk_from_wire :: "bytes \<Rightarrow> ds4_dist_snapshot_chunk_fixed" where
  "dist_snapshot_chunk_from_wire b =
     \<lparr>sc_request_hi = ntohl b 0, sc_request_lo = ntohl b 1, sc_chunk_bytes = ntohl b 2\<rparr>"

interpretation snapshot_chunk: wire_struct dist_snapshot_chunk_to_wire dist_snapshot_chunk_from_wire 12
  by unfold_locales (simp add: dist_snapshot_chunk_to_wire_def, simp add: dist_snapshot_chunk_to_wire_def dist_snapshot_chunk_from_wire_def ntohl_htonl del: concat.simps list.map)

record ds4_dist_snapshot_done_fixed =
  sd_request_hi :: u32
  sd_request_lo :: u32
  sd_status :: u32
  sd_message_bytes :: u32

definition dist_snapshot_done_to_wire :: "ds4_dist_snapshot_done_fixed \<Rightarrow> bytes" where
  "dist_snapshot_done_to_wire s = concat (map htonl
     [sd_request_hi s, sd_request_lo s, sd_status s, sd_message_bytes s])"

definition dist_snapshot_done_from_wire :: "bytes \<Rightarrow> ds4_dist_snapshot_done_fixed" where
  "dist_snapshot_done_from_wire b =
     \<lparr>sd_request_hi = ntohl b 0, sd_request_lo = ntohl b 1, sd_status = ntohl b 2, sd_message_bytes = ntohl b 3\<rparr>"

interpretation snapshot_done: wire_struct dist_snapshot_done_to_wire dist_snapshot_done_from_wire 16
  by unfold_locales (simp add: dist_snapshot_done_to_wire_def, simp add: dist_snapshot_done_to_wire_def dist_snapshot_done_from_wire_def ntohl_htonl del: concat.simps list.map)

section \<open>Halves, hashes, NUL bytes\<close>

definition dist_u64_from_halves :: "u32 \<Rightarrow> u32 \<Rightarrow> u64" where
  "dist_u64_from_halves hi lo = push_bit 32 (ucast hi) OR ucast lo"

definition dist_u64_to_halves :: "u64 \<Rightarrow> u32 \<times> u32" where
  "dist_u64_to_halves v = (ucast (drop_bit 32 v), ucast v)"

lemma from_to_halves [simp]: "dist_u64_from_halves (fst (dist_u64_to_halves v)) (snd (dist_u64_to_halves v)) = v"
  by (rule bit_word_eqI) (auto simp: dist_u64_from_halves_def dist_u64_to_halves_def bit_simps)

definition DS4_DIST_TOKEN_HASH_INIT :: u64 where "DS4_DIST_TOKEN_HASH_INIT = 1469598103934665603"
definition DS4_DIST_TOKEN_HASH_PRIME :: u64 where "DS4_DIST_TOKEN_HASH_PRIME = 1099511628211"

text \<open>A token is an \<open>int\<close> of the C program, here as its 32 bits.\<close>

definition dist_token_hash_update :: "u64 \<Rightarrow> u32 \<Rightarrow> u64" where
  "dist_token_hash_update h token =
     fold (\<lambda>i h. (h XOR ucast (drop_bit (i * 8) token AND 0xff)) * DS4_DIST_TOKEN_HASH_PRIME) [0..<4] h"

definition dist_token_hash_update_span :: "u64 \<Rightarrow> u32 list \<Rightarrow> u64" where
  "dist_token_hash_update_span h tokens = fold (\<lambda>t h. dist_token_hash_update h t) tokens h"

definition dist_token_hash_prefix :: "u32 list \<Rightarrow> u64" where
  "dist_token_hash_prefix tokens = dist_token_hash_update_span DS4_DIST_TOKEN_HASH_INIT tokens"

text \<open>The hash rolls: a span after a prefix gives the hash of the longer prefix.\<close>

lemma token_hash_append [simp]:
  "dist_token_hash_update_span (dist_token_hash_prefix pre) tokens = dist_token_hash_prefix (pre @ tokens)"
  by (simp add: dist_token_hash_prefix_def dist_token_hash_update_span_def)

lemma token_hash_Nil [simp]: "dist_token_hash_prefix [] = DS4_DIST_TOKEN_HASH_INIT"
  by (simp add: dist_token_hash_prefix_def dist_token_hash_update_span_def)

definition dist_session_token_hash_prefix :: "u32 list \<Rightarrow> nat \<Rightarrow> u64 option" where
  "dist_session_token_hash_prefix checkpoint n_tokens =
     (if length checkpoint < n_tokens then None else Some (dist_token_hash_prefix (take n_tokens checkpoint)))"

definition dist_bytes_have_nul :: "bytes \<Rightarrow> bool" where
  "dist_bytes_have_nul p \<longleftrightarrow> 0 \<in> set p"

section \<open>Activation widths\<close>

definition dist_activation_bits_or_default :: "u32 \<Rightarrow> u32" where
  "dist_activation_bits_or_default bits = (if bits \<noteq> 0 then bits else 32)"

definition dist_activation_bits_valid :: "u32 \<Rightarrow> bool" where
  "dist_activation_bits_valid bits0 \<longleftrightarrow> (let bits = dist_activation_bits_or_default bits0 in bits = 32 \<or> bits = 16 \<or> bits = 8)"

definition dist_activation_wire_bytes :: "u32 \<Rightarrow> u64 \<Rightarrow> u32 option" where
  "dist_activation_wire_bytes bits0 values =
     (let bits = dist_activation_bits_or_default bits0
      in if \<not> dist_activation_bits_valid bits \<or> bits mod 8 \<noteq> 0 then None
         else
           let n = values * ucast (bits div 8)
           in if n > 0xffffffff then None else Some (ucast n))"

definition dist_activation_values_from_wire_bytes :: "u32 \<Rightarrow> u32 \<Rightarrow> u64 option" where
  "dist_activation_values_from_wire_bytes bits0 n =
     (let bits = dist_activation_bits_or_default bits0
      in if \<not> dist_activation_bits_valid bits \<or> bits mod 8 \<noteq> 0 then None
         else if bits div 8 = 0 \<or> n mod (bits div 8) \<noteq> 0 then None
         else Some (ucast (n div (bits div 8))))"

definition dist_activation_wire_bytes_from_f32_bytes :: "u32 \<Rightarrow> u32 \<Rightarrow> u32 option" where
  "dist_activation_wire_bytes_from_f32_bytes bits f32_bytes =
     (if f32_bytes mod 4 \<noteq> 0 then None else dist_activation_wire_bytes bits (ucast (f32_bytes div 4)))"

lemma activation_bits_cases:
  assumes "dist_activation_bits_valid bits"
  obtains "dist_activation_bits_or_default bits = 32" | "dist_activation_bits_or_default bits = 16" | "dist_activation_bits_or_default bits = 8"
  using assms by (auto simp: dist_activation_bits_valid_def Let_def)

section \<open>Frames\<close>

text \<open>What a read gives: the peer closed the connection, an error, or a value and the bytes that follow. Error texts leave out the numbers.\<close>

datatype 'a recv = Closed | Failed string | Got 'a bytes

definition DS4_DIST_MAGIC :: u32 where "DS4_DIST_MAGIC = 0x44533444"
definition DS4_DIST_MSG_HELLO :: u32 where "DS4_DIST_MSG_HELLO = 1"
definition DS4_DIST_MSG_WORK :: u32 where "DS4_DIST_MSG_WORK = 3"
definition DS4_DIST_MSG_RESULT :: u32 where "DS4_DIST_MSG_RESULT = 4"
definition DS4_DIST_MAX_MODEL_NAME :: nat where "DS4_DIST_MAX_MODEL_NAME = 127"

definition dist_write_frame_header :: "u32 \<Rightarrow> u32 \<Rightarrow> bytes" where
  "dist_write_frame_header type n = concat (map htonl [DS4_DIST_MAGIC, type, n])"

definition dist_read_frame_header :: "bytes \<Rightarrow> (u32 \<times> u32) recv" where
  "dist_read_frame_header s =
     (case dist_read_full 12 s of
        None \<Rightarrow> Closed
      | Some (h, s) \<Rightarrow>
          if ntohl h 0 \<noteq> DS4_DIST_MAGIC then Failed ''bad frame magic''
          else Got (ntohl h 1, ntohl h 2) s)"

lemma read_frame_header: "dist_read_frame_header (dist_write_frame_header type n @ rest) = Got (type, n) rest"
proof -
  have h: "length (dist_write_frame_header type n) = 12" by (simp add: dist_write_frame_header_def)
  have "ntohl (dist_write_frame_header type n) 0 = DS4_DIST_MAGIC \<and> ntohl (dist_write_frame_header type n) 1 = type
      \<and> ntohl (dist_write_frame_header type n) 2 = n"
    by (simp add: dist_write_frame_header_def ntohl_htonl del: concat.simps list.map)
  then show ?thesis by (simp add: dist_read_frame_header_def dist_read_full_def h)
qed

section \<open>HELLO\<close>

text \<open>The engine's values are arguments: model id, quantisation, layer count, name; so is the worker's slice of layers.\<close>

definition dist_send_hello :: "u32 \<Rightarrow> u32 \<Rightarrow> u32 \<Rightarrow> bytes option \<Rightarrow> u32 \<Rightarrow> u32 \<Rightarrow> bool \<Rightarrow> int \<Rightarrow> u32 \<Rightarrow> bytes" where
  "dist_send_hello model_id quant_bits n_layers name layer_start layer_end has_output ctx_size listen_port =
     (let model_name = (case name of None \<Rightarrow> map of_char ''unknown'' | Some m \<Rightarrow> m);
          model_name_len = (if length model_name > DS4_DIST_MAX_MODEL_NAME then DS4_DIST_MAX_MODEL_NAME else length model_name);
          h = \<lparr>h_model_id = model_id, h_quant_bits = quant_bits, h_layer_start = layer_start,
               h_layer_end = (if has_output then n_layers - 1 else layer_end),
               h_has_output = (if has_output then 1 else 0), h_has_hidden = 1, h_ctx_size = (if ctx_size > 0 then of_int ctx_size else 0),
               h_n_layers = n_layers, h_listen_port = listen_port, h_model_name_len = of_nat model_name_len\<rparr>
      in dist_write_frame_header DS4_DIST_MSG_HELLO (of_nat (40 + model_name_len)) @ dist_hello_to_wire h @ take model_name_len model_name)"

definition dist_recv_hello :: "bytes \<Rightarrow> (ds4_dist_hello_fixed \<times> bytes) recv" where
  "dist_recv_hello s =
     (case dist_read_frame_header s of
        Closed \<Rightarrow> Closed
      | Failed e \<Rightarrow> Failed e
      | Got (type, n) s \<Rightarrow>
          if type \<noteq> DS4_DIST_MSG_HELLO then Failed ''expected HELLO frame''
          else if n < 40 \<or> n > 40 + of_nat DS4_DIST_MAX_MODEL_NAME then Failed ''invalid HELLO payload length''
          else
            case dist_read_full 40 s of
              None \<Rightarrow> Closed
            | Some (b, s) \<Rightarrow>
                let hello = dist_hello_from_wire b
                in if h_model_name_len hello \<noteq> n - 40 \<or> h_model_name_len hello > of_nat DS4_DIST_MAX_MODEL_NAME
                   then Failed ''invalid HELLO model name length''
                   else if h_model_name_len hello = 0 then Got (hello, []) s
                   else
                     case dist_read_full (unat (h_model_name_len hello)) s of
                       None \<Rightarrow> Closed
                     | Some (tmp, s) \<Rightarrow>
                         if dist_bytes_have_nul tmp then Failed ''HELLO model family contains NUL bytes'' else Got (hello, tmp) s)"

lemma recv_hello_frame:
  assumes "h_model_name_len h = of_nat (length name)" "length name \<le> DS4_DIST_MAX_MODEL_NAME" "\<not> dist_bytes_have_nul name"
  shows "dist_recv_hello (dist_write_frame_header DS4_DIST_MSG_HELLO (of_nat (40 + length name)) @ dist_hello_to_wire h @ name @ rest) = Got (h, name) rest"
proof -
  have n: "unat (of_nat (length name) :: u32) = length name" "unat (of_nat (40 + length name) :: u32) = 40 + length name"
    using assms(2) by (simp_all add: DS4_DIST_MAX_MODEL_NAME_def unat_of_nat_u32 del: of_nat_add)
  have sizes: "\<not> (of_nat (40 + length name) :: u32) < 40" "\<not> 40 + of_nat DS4_DIST_MAX_MODEL_NAME < (of_nat (40 + length name) :: u32)"
    "\<not> of_nat DS4_DIST_MAX_MODEL_NAME < (of_nat (length name) :: u32)" "(of_nat (40 + length name) :: u32) - 40 = of_nat (length name)"
    using assms(2) n by (simp_all add: word_less_nat_alt DS4_DIST_MAX_MODEL_NAME_def del: of_nat_add) simp
  have zero: "(of_nat (length name) :: u32) = 0 \<longleftrightarrow> name = []" using n(1) by (metis length_0_conv unat_0 unat_eq_zero)
  have "dist_read_full (length name) (name @ rest) = Some (name, rest)" by (simp add: dist_read_full_def)
  then show ?thesis
    using assms(3) sizes
    by (simp add: dist_recv_hello_def read_frame_header hello.read_struct hello.from_to_wire assms(1) n(1) zero Let_def del: of_nat_add)
qed

end
