(* ===== verification/Dist_Route.thy ===== *)
theory Dist_Route
  imports Dist_Wire C_Sort "HOL-Library.Product_Lexorder"
begin

text \<open>
  The coordinator of the distributed mode (\<open>ds4_distributed.c\<close>): the registry of workers with the checks of their HELLO, the search for
  a chain of slices from the coordinator's last layer to the model's last, the route plan with the bytes sent along with the work, and the
  functions with which a worker reads and validates those bytes. The registry is the linked list, newest first; memory is assumed to be
  available. The theory shows that every registered worker passed the checks, that the search finds a chain exactly when there is
  one, and that the workers accept and read back the plan that was built.
\<close>

section \<open>The registry of workers\<close>

record ds4_dist_worker_entry =
  we_fd :: int
  we_peer_host :: bytes
  we_peer_port :: bytes
  we_model_name :: bytes
  we_model_id :: u32
  we_quant_bits :: u32
  we_layer_start :: u32
  we_layer_end :: u32
  we_has_output :: u32
  we_has_hidden :: u32
  we_ctx_size :: u32
  we_n_layers :: u32
  we_listen_port :: u32

record ds4_dist_coordinator_state =
  co_model_id :: u32
  co_model_name :: bytes
  co_n_layers :: u32
  co_local_start :: u32
  co_local_end :: u32
  co_ctx_size :: u32
  co_local_has_output :: bool
  co_local_can_output_head :: bool
  co_use_control_for_work :: bool
  co_activation_bits :: u32
  co_generation :: u64
  co_workers :: "ds4_dist_worker_entry list"
  co_shutting_down :: bool

text \<open>The checks of a HELLO: the error sent to the worker, or none.\<close>

definition dist_check_hello :: "ds4_dist_coordinator_state \<Rightarrow> ds4_dist_hello_fixed \<Rightarrow> bytes \<Rightarrow> string option" where
  "dist_check_hello st hello model_name =
     (if h_model_id hello \<noteq> co_model_id st then Some ''model id mismatch''
      else if model_name \<noteq> co_model_name st then Some ''model family mismatch''
      else if h_n_layers hello \<noteq> co_n_layers st then Some ''layer count mismatch''
      else if h_quant_bits hello \<noteq> 2 \<and> h_quant_bits hello \<noteq> 4 then Some ''unsupported worker quant profile''
      else if h_has_output hello > 1 then Some ''invalid worker output-head flag''
      else if h_has_hidden hello > 1 then Some ''invalid worker hidden-state flag''
      else if h_layer_start hello \<ge> h_n_layers hello \<or> h_layer_end hello \<ge> h_n_layers hello \<or> h_layer_end hello < h_layer_start hello
           then Some ''invalid worker layer range''
      else if h_has_output hello \<noteq> 0 \<and> h_layer_end hello + 1 \<noteq> h_n_layers hello then Some ''worker output head requires final layer''
      else if co_ctx_size st \<noteq> 0 \<and> h_ctx_size hello < co_ctx_size st then Some ''worker context too small''
      else if h_listen_port hello = 0 \<or> h_listen_port hello > 65535 then Some ''invalid worker data listen port''
      else None)"

text \<open>A worker replaces the stale entries with its host, model and slice.\<close>

definition same_worker :: "bytes \<Rightarrow> ds4_dist_hello_fixed \<Rightarrow> ds4_dist_worker_entry \<Rightarrow> bool" where
  "same_worker peer_host hello old \<longleftrightarrow> we_peer_host old = peer_host \<and> we_model_id old = h_model_id hello
     \<and> we_layer_start old = h_layer_start hello \<and> we_layer_end old = h_layer_end hello \<and> we_has_output old = h_has_output hello"

definition dist_coordinator_add_worker ::
    "ds4_dist_coordinator_state \<Rightarrow> int \<Rightarrow> bytes \<Rightarrow> bytes \<Rightarrow> ds4_dist_hello_fixed \<Rightarrow> bytes \<Rightarrow> ds4_dist_coordinator_state" where
  "dist_coordinator_add_worker st fd peer_host peer_port hello model_name =
     (let entry = \<lparr>we_fd = fd, we_peer_host = peer_host, we_peer_port = peer_port, we_model_name = model_name,
            we_model_id = h_model_id hello, we_quant_bits = h_quant_bits hello, we_layer_start = h_layer_start hello,
            we_layer_end = h_layer_end hello, we_has_output = h_has_output hello, we_has_hidden = h_has_hidden hello,
            we_ctx_size = h_ctx_size hello, we_n_layers = h_n_layers hello, we_listen_port = h_listen_port hello\<rparr>
      in if co_shutting_down st then st
         else st\<lparr>co_workers := entry # filter (\<lambda>old. \<not> same_worker peer_host hello old) (co_workers st),
                 co_generation := co_generation st + 1\<rparr>)"

text \<open>The control connection of a worker, up to its registration.\<close>

definition dist_coordinator_client_main ::
    "ds4_dist_coordinator_state \<Rightarrow> int \<Rightarrow> bytes \<Rightarrow> bytes \<Rightarrow> bytes \<Rightarrow> ds4_dist_coordinator_state \<times> string option" where
  "dist_coordinator_client_main st fd peer_host peer_port s =
     (case dist_recv_hello s of
        Got (hello, model_name) _ \<Rightarrow>
          (case dist_check_hello st hello model_name of
             Some e \<Rightarrow> (st, Some e)
           | None \<Rightarrow> (dist_coordinator_add_worker st fd peer_host peer_port hello model_name, None))
      | _ \<Rightarrow> (st, None))"

text \<open>Removal of the first entry that satisfies a condition.\<close>

fun remove_first :: "('a \<Rightarrow> bool) \<Rightarrow> 'a list \<Rightarrow> 'a list option" where
  "remove_first P [] = None"
| "remove_first P (x # xs) = (if P x then Some xs else map_option ((#) x) (remove_first P xs))"

definition dist_coordinator_remove_worker :: "ds4_dist_coordinator_state \<Rightarrow> int \<Rightarrow> ds4_dist_coordinator_state" where
  "dist_coordinator_remove_worker st fd =
     (case remove_first (\<lambda>e. we_fd e = fd) (co_workers st) of
        None \<Rightarrow> st
      | Some ws \<Rightarrow> st\<lparr>co_workers := ws, co_generation := co_generation st + 1\<rparr>)"

section \<open>The search for a route\<close>

definition dist_worker_route_cmp :: "ds4_dist_worker_entry \<Rightarrow> ds4_dist_worker_entry \<Rightarrow> int" where
  "dist_worker_route_cmp ea eb =
     (if we_layer_start ea < we_layer_start eb then -1
      else if we_layer_start ea > we_layer_start eb then 1
      else if we_has_output ea \<noteq> we_has_output eb then (if we_has_output ea \<noteq> 0 then -1 else 1)
      else if we_layer_end ea > we_layer_end eb then -1
      else if we_layer_end ea < we_layer_end eb then 1
      else 0)"

definition dist_worker_route_candidate_ok :: "ds4_dist_coordinator_state \<Rightarrow> ds4_dist_worker_entry \<Rightarrow> u32 \<Rightarrow> bool" where
  "dist_worker_route_candidate_ok st w last_layer \<longleftrightarrow>
     \<not> ((we_layer_end w < last_layer \<or> we_has_output w = 0) \<and> we_has_hidden w = 0)
     \<and> \<not> (we_layer_end w \<ge> last_layer \<and> we_has_output w = 0 \<and> \<not> co_local_can_output_head st)"

text \<open>
  The loop over the workers \<open>ws\<close> that are left, with the flag \<open>saw_start\<close>, the path so far and the \<open>missing_layer\<close> out-parameter;
  the recursive call starts again from all the workers with a \<open>missing_layer\<close> of its own. The result is the verdict, the path and the
  missing layer; \<open>None\<close> stands for a search that does not return.
\<close>

partial_function (option) dist_route_search_workers ::
    "ds4_dist_coordinator_state \<Rightarrow> ds4_dist_worker_entry list \<Rightarrow> u32 \<Rightarrow> ds4_dist_worker_entry list \<Rightarrow> bool \<Rightarrow> u32
     \<Rightarrow> ds4_dist_worker_entry list \<Rightarrow> u32 \<Rightarrow> (bool \<times> ds4_dist_worker_entry list \<times> u32) option" where
  "dist_route_search_workers st workers last_layer ws saw_start nxt path missing =
     (case ws of
        [] \<Rightarrow> Some (False, path, if \<not> saw_start \<and> nxt > missing then nxt else missing)
      | w # ws' \<Rightarrow>
          if we_layer_start w < nxt then dist_route_search_workers st workers last_layer ws' saw_start nxt path missing
          else if we_layer_start w > nxt then Some (False, path, if \<not> saw_start \<and> nxt > missing then nxt else missing)
          else if \<not> dist_worker_route_candidate_ok st w last_layer then dist_route_search_workers st workers last_layer ws' True nxt path missing
          else if we_layer_end w \<ge> last_layer then Some (True, path @ [w], missing)
          else
            Option.bind (dist_route_search_workers st workers last_layer workers False (we_layer_end w + 1) (path @ [w]) (we_layer_end w + 1))
              (\<lambda>r. if fst r then Some (True, fst (snd r), missing)
                   else dist_route_search_workers st workers last_layer ws' True nxt path
                          (if snd (snd r) > missing then snd (snd r) else missing)))"

declare dist_route_search_workers.simps [code]

text \<open>What a route is: a chain of registered slices that starts at \<open>nxt\<close> and ends with the first that reaches the last layer.\<close>

fun route_ok :: "ds4_dist_coordinator_state \<Rightarrow> ds4_dist_worker_entry set \<Rightarrow> u32 \<Rightarrow> u32 \<Rightarrow> ds4_dist_worker_entry list \<Rightarrow> bool" where
  "route_ok st W last_layer nxt [] = False"
| "route_ok st W last_layer nxt (w # p) \<longleftrightarrow> w \<in> W \<and> we_layer_start w = nxt \<and> dist_worker_route_candidate_ok st w last_layer
     \<and> (if we_layer_end w \<ge> last_layer then p = [] else route_ok st W last_layer (we_layer_end w + 1) p)"

lemma word_suc_less: "(a :: u32) < b \<Longrightarrow> unat (a + 1) = Suc (unat a)"
proof -
  assume "a < b"
  moreover have "unat b < 2 ^ LENGTH(32)" by (rule unsigned_less)
  ultimately show ?thesis using unat_add_lem [of a 1] by (simp add: word_less_nat_alt)
qed

lemma search_complete:
  assumes "\<forall>w \<in> set workers. we_layer_start w \<le> we_layer_end w" and "sorted_wrt (\<lambda>x y. we_layer_start x \<le> we_layer_start y) workers"
  shows "set ws \<subseteq> set workers \<Longrightarrow> sorted_wrt (\<lambda>x y. we_layer_start x \<le> we_layer_start y) ws \<Longrightarrow>
    \<exists>r. dist_route_search_workers st workers last_layer ws saw nxt path missing = Some r
      \<and> (fst r \<longrightarrow> (\<exists>p. fst (snd r) = path @ p \<and> route_ok st (set workers) last_layer nxt p))
      \<and> (\<not> fst r \<longrightarrow> (\<forall>p. route_ok st (set workers) last_layer nxt p \<longrightarrow> hd p \<notin> set ws))"
proof (induction "unat last_layer - unat nxt" arbitrary: nxt ws saw path missing rule: less_induct)
  case less
  show ?case using less.prems
  proof (induction ws arbitrary: saw missing)
    case Nil
    show ?case by (subst dist_route_search_workers.simps) simp
  next
    case (Cons w ws)
    note step = dist_route_search_workers.simps [of st workers last_layer "w # ws" saw nxt path missing]
    have head: "\<not> route_ok st (set workers) last_layer nxt p \<or> hd p \<noteq> w"
      if "we_layer_start w \<noteq> nxt \<or> \<not> dist_worker_route_candidate_ok st w last_layer" for p
      using that by (cases p) auto
    have skip: ?case
      if "dist_route_search_workers st workers last_layer (w # ws) saw nxt path missing
            = dist_route_search_workers st workers last_layer ws saw' nxt path missing'"
        and "\<And>p. \<not> route_ok st (set workers) last_layer nxt p \<or> hd p \<noteq> w" for saw' missing'
    proof -
      obtain r where "dist_route_search_workers st workers last_layer ws saw' nxt path missing' = Some r"
        "fst r \<longrightarrow> (\<exists>p. fst (snd r) = path @ p \<and> route_ok st (set workers) last_layer nxt p)"
        "\<not> fst r \<longrightarrow> (\<forall>p. route_ok st (set workers) last_layer nxt p \<longrightarrow> hd p \<notin> set ws)"
        using Cons.IH [of saw' missing'] Cons.prems by auto
      then show ?thesis using that by (metis set_ConsD)
    qed
    consider "we_layer_start w < nxt" | "nxt < we_layer_start w"
      | "we_layer_start w = nxt" "\<not> dist_worker_route_candidate_ok st w last_layer"
      | "we_layer_start w = nxt" "dist_worker_route_candidate_ok st w last_layer" "last_layer \<le> we_layer_end w"
      | "we_layer_start w = nxt" "dist_worker_route_candidate_ok st w last_layer" "we_layer_end w < last_layer"
      by (meson less_linear not_le)
    then show ?case
    proof cases
      case 1
      then show ?thesis using head by (intro skip [of saw missing]) (auto simp: step)
    next
      case 2
      then have "hd p \<notin> set (w # ws)" if "route_ok st (set workers) last_layer nxt p" for p
        using that Cons.prems(2) by (cases p) auto
      moreover have "\<not> we_layer_start w < nxt" using 2 by simp
      ultimately show ?thesis using 2 by (simp add: step)
    next
      case 3
      then show ?thesis using head by (intro skip [of True missing]) (auto simp: step)
    next
      case 4
      then have "route_ok st (set workers) last_layer nxt [w]" using Cons.prems by simp
      then show ?thesis using 4 by (simp add: step)
    next
      case 5
      have w: "w \<in> set workers" "nxt \<le> we_layer_end w" using Cons.prems(1) assms(1) 5 by auto
      then have "unat last_layer - unat (we_layer_end w + 1) < unat last_layer - unat nxt"
        using 5 by (simp add: word_suc_less word_less_nat_alt word_le_nat_alt)
      from less.hyps [OF this subset_refl assms(2), of False "path @ [w]" "we_layer_end w + 1"]
      obtain r where r: "dist_route_search_workers st workers last_layer workers False (we_layer_end w + 1) (path @ [w]) (we_layer_end w + 1) = Some r"
        "fst r \<Longrightarrow> \<exists>p. fst (snd r) = (path @ [w]) @ p \<and> route_ok st (set workers) last_layer (we_layer_end w + 1) p"
        "\<not> fst r \<Longrightarrow> \<forall>p. route_ok st (set workers) last_layer (we_layer_end w + 1) p \<longrightarrow> hd p \<notin> set workers" by blast
      show ?thesis
      proof (cases "fst r")
        case True
        obtain p where "fst (snd r) = path @ w # p" "route_ok st (set workers) last_layer (we_layer_end w + 1) p" using r(2) True by auto
        then have "fst (snd r) = path @ (w # p) \<and> route_ok st (set workers) last_layer nxt (w # p)" using 5 w by auto
        then show ?thesis using 5 r(1) True by (auto simp: step)
      next
        case False
        have "\<not> route_ok st (set workers) last_layer nxt p \<or> hd p \<noteq> w" for p
        proof (cases p)
          case (Cons v q)
          have "hd q \<in> set workers" if "route_ok st (set workers) last_layer (we_layer_end w + 1) q" using that by (cases q) auto
          then show ?thesis using Cons r(3) [OF False] 5(3) by auto
        qed simp
        then show ?thesis using 5 r(1) False
          by (intro skip [of True "if snd (snd r) > missing then snd (snd r) else missing"]) (auto simp: step)
      qed
    qed
  qed
qed

section \<open>The route plan\<close>

record ds4_dist_route_entry =
  re_host :: bytes
  re_port :: u32
  re_layer_start :: u32
  re_layer_end :: u32
  re_flags :: u32
  re_fd :: int

record ds4_dist_route_plan =
  pl_entry :: "ds4_dist_route_entry list"
  pl_blob :: bytes

definition NI_MAXHOST :: nat where "NI_MAXHOST = 1025"
definition DS4_DIST_ROUTE_F_OUTPUT_LOGITS :: u32 where "DS4_DIST_ROUTE_F_OUTPUT_LOGITS = 1"
definition DS4_DIST_ROUTE_RETURN_UPSTREAM :: u32 where "DS4_DIST_ROUTE_RETURN_UPSTREAM = 1"

definition route_fixed :: "ds4_dist_route_entry \<Rightarrow> ds4_dist_route_fixed" where
  "route_fixed entry = \<lparr>r_host_len = of_nat (length (re_host entry)), r_port = re_port entry, r_layer_start = re_layer_start entry,
     r_layer_end = re_layer_end entry, r_flags = re_flags entry\<rparr>"

definition dist_route_plan_append_blob :: "bytes \<Rightarrow> ds4_dist_route_entry \<Rightarrow> string + bytes" where
  "dist_route_plan_append_blob blob entry =
     (let host_len = length (re_host entry); add = 20 + host_len
      in if host_len = 0 \<or> host_len \<ge> NI_MAXHOST then Inl ''invalid route host''
         else if add > UINT32_MAX \<or> length blob > UINT32_MAX - add then Inl ''route payload is too large''
         else Inr (blob @ dist_route_to_wire (route_fixed entry) @ re_host entry))"

definition dist_route_plan_append_return_upstream :: "bytes \<Rightarrow> string + bytes" where
  "dist_route_plan_append_return_upstream blob =
     (if length blob > UINT32_MAX - 12 then Inl ''route payload is too large''
      else Inr (blob @ dist_route_return_to_wire \<lparr>rr_kind = DS4_DIST_ROUTE_RETURN_UPSTREAM, rr_host_len = 0, rr_port = 0\<rparr>))"

definition worker_route_entry :: "int \<Rightarrow> ds4_dist_worker_entry \<Rightarrow> ds4_dist_route_entry" where
  "worker_route_entry fd w = \<lparr>re_host = we_peer_host w, re_port = we_listen_port w, re_layer_start = we_layer_start w,
     re_layer_end = we_layer_end w, re_flags = (if we_has_output w \<noteq> 0 then DS4_DIST_ROUTE_F_OUTPUT_LOGITS else 0), re_fd = fd\<rparr>"

text \<open>The entries of a path; the first takes a duplicate of the worker's control connection (\<open>dup\<close>) when work goes over it.\<close>

fun plan_entries :: "ds4_dist_coordinator_state \<Rightarrow> (int \<Rightarrow> int) \<Rightarrow> ds4_dist_worker_entry list \<Rightarrow> ds4_dist_route_plan \<Rightarrow> string + ds4_dist_route_plan" where
  "plan_entries st dup [] plan = Inr plan"
| "plan_entries st dup (w # path) plan =
     (let first = co_use_control_for_work st \<and> pl_entry plan = [];
          entry = worker_route_entry (if first then dup (we_fd w) else -1) w
      in if first \<and> re_fd entry < 0 then Inl ''failed to duplicate first-hop worker connection''
         else
           case dist_route_plan_append_blob (pl_blob plan) entry of
             Inl e \<Rightarrow> Inl e
           | Inr blob \<Rightarrow> plan_entries st dup path \<lparr>pl_entry = pl_entry plan @ [entry], pl_blob = blob\<rparr>)"

text \<open>The plan and the generation of the registry it was built from.\<close>

definition dist_coordinator_build_route_plan ::
    "ds4_dist_coordinator_state \<Rightarrow> (int \<Rightarrow> int) \<Rightarrow> (string + ds4_dist_route_plan \<times> u64) option" where
  "dist_coordinator_build_route_plan st dup =
     (let workers = qsort dist_worker_route_cmp (co_workers st);
          last_layer = co_n_layers st - 1;
          empty = \<lparr>pl_entry = [], pl_blob = []\<rparr>
      in if co_local_start st \<noteq> 0 then Some (Inl ''coordinator route does not start at layer 0'')
         else if co_local_end st = last_layer \<and> (co_local_has_output st \<or> co_local_can_output_head st) then Some (Inr (empty, co_generation st))
         else
           let nxt = co_local_end st + 1
           in case dist_route_search_workers st workers last_layer workers False nxt [] nxt of
                None \<Rightarrow> None
              | Some (found, path, missing) \<Rightarrow>
                  if \<not> found then Some (Inl ''distributed route incomplete'')
                  else
                    case plan_entries st dup path empty of
                      Inl e \<Rightarrow> Some (Inl e)
                    | Inr plan \<Rightarrow>
                        if pl_entry plan = [] then Some (Inr (plan, co_generation st))
                        else
                          case dist_route_plan_append_return_upstream (pl_blob plan) of
                            Inl e \<Rightarrow> Some (Inl e)
                          | Inr blob \<Rightarrow> Some (Inr (plan\<lparr>pl_blob := blob\<rparr>, co_generation st)))"

definition dist_route_entry_matches_worker :: "ds4_dist_route_entry \<Rightarrow> ds4_dist_worker_entry \<Rightarrow> bool" where
  "dist_route_entry_matches_worker route worker \<longleftrightarrow>
     re_port route = we_listen_port worker \<and> re_host route = we_peer_host worker \<and> re_layer_start route = we_layer_start worker
     \<and> re_layer_end route = we_layer_end worker
     \<and> (re_flags route AND DS4_DIST_ROUTE_F_OUTPUT_LOGITS \<noteq> 0) = (we_has_output worker \<noteq> 0)"

definition dist_coordinator_forget_route_workers :: "ds4_dist_coordinator_state \<Rightarrow> ds4_dist_route_plan \<Rightarrow> ds4_dist_coordinator_state" where
  "dist_coordinator_forget_route_workers st plan =
     (let step = (\<lambda>route (ws, removed_any).
            case remove_first (dist_route_entry_matches_worker route) ws of None \<Rightarrow> (ws, removed_any) | Some ws' \<Rightarrow> (ws', True));
          (ws, removed_any) = fold step (pl_entry plan) (co_workers st, False)
      in if removed_any then st\<lparr>co_workers := ws, co_generation := co_generation st + 1\<rparr> else st)"

section \<open>Reading a route at a worker\<close>

text \<open>No route bytes is a null pointer at the callers.\<close>

definition route_hop :: "bytes \<Rightarrow> string + (ds4_dist_route_fixed \<times> bytes \<times> bytes)" where
  "route_hop p =
     (if length p < 20 then Inl ''truncated route entry''
      else
        let fixed = dist_route_from_wire (take 20 p); p = drop 20 p; host_len = unat (r_host_len fixed)
        in if host_len = 0 \<or> host_len \<ge> NI_MAXHOST \<or> host_len > length p then Inl ''invalid route host length''
           else if dist_bytes_have_nul (take host_len p) then Inl ''route host contains NUL bytes''
           else Inr (fixed, take host_len p, drop host_len p))"

fun get_entry_loop :: "nat \<Rightarrow> nat \<Rightarrow> bytes \<Rightarrow> string + ds4_dist_route_entry" where
  "get_entry_loop 0 target p = Inl (if p \<noteq> [] then ''route payload has trailing bytes'' else ''route entry not found'')"
| "get_entry_loop (Suc n) target p =
     (case route_hop p of
        Inl e \<Rightarrow> Inl e
      | Inr (fixed, host, p) \<Rightarrow>
          if target = 0 then Inr \<lparr>re_host = host, re_port = r_port fixed, re_layer_start = r_layer_start fixed, re_layer_end = r_layer_end fixed,
                                  re_flags = r_flags fixed, re_fd = -1\<rparr>
          else get_entry_loop n (target - 1) p)"

definition dist_route_get_entry :: "bytes \<Rightarrow> u32 \<Rightarrow> u32 \<Rightarrow> string + ds4_dist_route_entry" where
  "dist_route_get_entry route_blob route_count target_index =
     (if route_blob = [] \<or> target_index \<ge> route_count then Inl ''invalid route entry index''
      else get_entry_loop (unat route_count) (unat target_index) route_blob)"

record ds4_dist_route_return =
  rt_host :: bytes
  rt_port :: u32
  rt_kind :: u32

definition route_return :: "bytes \<Rightarrow> string + (ds4_dist_route_return_fixed \<times> bytes \<times> bytes)" where
  "route_return p =
     (if length p < 12 then Inl ''route payload missing final destination''
      else
        let fixed = dist_route_return_from_wire (take 12 p); p = drop 12 p; host_len = unat (rr_host_len fixed)
        in if host_len \<ge> NI_MAXHOST \<or> host_len > length p then Inl ''invalid route final destination host length''
           else if dist_bytes_have_nul (take host_len p) then Inl ''route final destination host contains NUL bytes''
           else Inr (fixed, take host_len p, drop host_len p))"

fun skip_hops :: "nat \<Rightarrow> bytes \<Rightarrow> string + bytes" where
  "skip_hops 0 p = Inr p"
| "skip_hops (Suc n) p =
     (if length p < 20 then Inl ''truncated route entry''
      else
        let fixed = dist_route_from_wire (take 20 p); p = drop 20 p; host_len = unat (r_host_len fixed)
        in if host_len > length p then Inl ''invalid route host length''
           else if dist_bytes_have_nul (take host_len p) then Inl ''route host contains NUL bytes''
           else skip_hops n (drop host_len p))"

definition dist_route_get_return_target :: "bytes \<Rightarrow> u32 \<Rightarrow> string + ds4_dist_route_return" where
  "dist_route_get_return_target route_blob route_count =
     (if route_blob = [] \<or> route_count = 0 then Inl ''invalid route final destination''
      else
        case skip_hops (unat route_count) route_blob of
          Inl e \<Rightarrow> Inl e
        | Inr p \<Rightarrow>
            (case route_return p of
               Inl e \<Rightarrow> Inl e
             | Inr (fixed, host, p) \<Rightarrow>
                 if p \<noteq> [] then Inl ''route payload has trailing bytes''
                 else Inr \<lparr>rt_host = host, rt_port = rr_port fixed, rt_kind = rr_kind fixed\<rparr>))"

fun validate_hops :: "u32 \<Rightarrow> bool \<Rightarrow> u32 \<Rightarrow> nat \<Rightarrow> bytes \<Rightarrow> string + bytes" where
  "validate_hops n_layers first prev_end 0 p = Inr p"
| "validate_hops n_layers first prev_end (Suc n) p =
     (case route_hop p of
        Inl e \<Rightarrow> Inl e
      | Inr (fixed, host, p) \<Rightarrow>
          if r_port fixed = 0 \<or> r_port fixed > 65535 then Inl ''invalid route port''
          else if r_layer_start fixed \<ge> n_layers \<or> r_layer_end fixed \<ge> n_layers \<or> r_layer_end fixed < r_layer_start fixed
               then Inl ''invalid route layer range''
          else if r_flags fixed AND NOT DS4_DIST_ROUTE_F_OUTPUT_LOGITS \<noteq> 0 then Inl ''invalid route flags''
          else if r_flags fixed AND DS4_DIST_ROUTE_F_OUTPUT_LOGITS \<noteq> 0 \<and> r_layer_end fixed + 1 \<noteq> n_layers
               then Inl ''route logits require final layer''
          else if \<not> first \<and> r_layer_start fixed \<noteq> prev_end + 1 then Inl ''route layer ranges are not contiguous''
          else validate_hops n_layers False (r_layer_end fixed) n p)"

definition dist_route_validate_blob :: "bytes \<Rightarrow> u32 \<Rightarrow> u32 \<Rightarrow> string option" where
  "dist_route_validate_blob route_blob route_count n_layers =
     (if route_count = 0 then (if route_blob = [] then None else Some ''route payload has entries without a route count'')
      else if route_blob = [] then Some ''route payload is missing''
      else
        case validate_hops n_layers True 0xffffffff (unat route_count) route_blob of
          Inl e \<Rightarrow> Some e
        | Inr p \<Rightarrow>
            (case route_return p of
               Inl e \<Rightarrow> Some e
             | Inr (ret, host, p) \<Rightarrow>
                 if rr_kind ret \<noteq> DS4_DIST_ROUTE_RETURN_UPSTREAM then Some ''unsupported route final destination''
                 else if rr_host_len ret \<noteq> 0 \<or> rr_port ret \<noteq> 0 then Some ''invalid upstream route final destination''
                 else if p \<noteq> [] then Some ''route payload has trailing bytes''
                 else None))"

section \<open>A plan is read back\<close>

definition host_ok :: "bytes \<Rightarrow> bool" where
  "host_ok host \<longleftrightarrow> host \<noteq> [] \<and> length host < NI_MAXHOST \<and> \<not> dist_bytes_have_nul host"

definition hop_bytes :: "ds4_dist_route_entry \<Rightarrow> bytes" where
  "hop_bytes e = dist_route_to_wire (route_fixed e) @ re_host e"

lemma route_fixed_fields:
  "r_host_len (route_fixed e) = of_nat (length (re_host e))" "r_port (route_fixed e) = re_port e"
  "r_layer_start (route_fixed e) = re_layer_start e" "r_layer_end (route_fixed e) = re_layer_end e" "r_flags (route_fixed e) = re_flags e"
  by (simp_all add: route_fixed_def)

lemma host_length: "host_ok host \<Longrightarrow> unat (of_nat (length host) :: u32) = length host"
  by (simp add: host_ok_def NI_MAXHOST_def unat_of_nat_u32)

lemma route_struct [simp]:
  "length (dist_route_to_wire s) = 20" "dist_route_from_wire (dist_route_to_wire s) = s"
  "length (dist_route_return_to_wire u) = 12" "dist_route_return_from_wire (dist_route_return_to_wire u) = u"
  by (simp_all add: route.length_to_wire route.from_to_wire route_return.length_to_wire route_return.from_to_wire)

lemma route_hop_bytes: "host_ok (re_host e) \<Longrightarrow> route_hop (hop_bytes e @ rest) = Inr (route_fixed e, re_host e, rest)"
  using host_length [of "re_host e"] by (auto simp: route_hop_def hop_bytes_def Let_def route_fixed_def host_ok_def)

lemma get_entry_hops:
  "\<forall>e \<in> set es. host_ok (re_host e) \<Longrightarrow> i < length es \<Longrightarrow>
   get_entry_loop (length es) i (concat (map hop_bytes es) @ rest) = Inr ((es ! i)\<lparr>re_fd := -1\<rparr>)"
proof (induction es arbitrary: i)
  case (Cons e es)
  then show ?case by (cases i) (simp_all add: route_hop_bytes, simp add: route_fixed_def)
qed simp

lemma skip_hops_bytes: "\<forall>e \<in> set es. host_ok (re_host e) \<Longrightarrow> skip_hops (length es) (concat (map hop_bytes es) @ rest) = Inr rest"
proof (induction es)
  case (Cons e es)
  then show ?case using host_length [of "re_host e"] by (simp add: hop_bytes_def Let_def route_fixed_def host_ok_def)
qed simp

text \<open>The hops that a worker accepts.\<close>

fun hops_ok :: "u32 \<Rightarrow> bool \<Rightarrow> u32 \<Rightarrow> ds4_dist_route_entry list \<Rightarrow> bool" where
  "hops_ok n_layers first prev_end [] \<longleftrightarrow> True"
| "hops_ok n_layers first prev_end (e # es) \<longleftrightarrow> host_ok (re_host e) \<and> re_port e \<noteq> 0 \<and> re_port e \<le> 65535
     \<and> re_layer_start e \<le> re_layer_end e \<and> re_layer_end e < n_layers
     \<and> (re_flags e = 0 \<or> re_flags e = DS4_DIST_ROUTE_F_OUTPUT_LOGITS \<and> re_layer_end e + 1 = n_layers)
     \<and> (first \<or> re_layer_start e = prev_end + 1) \<and> hops_ok n_layers False (re_layer_end e) es"

lemma hops_ok_hosts: "hops_ok n first prev es \<Longrightarrow> \<forall>e \<in> set es. host_ok (re_host e)"
  by (induction n first prev es rule: hops_ok.induct) auto

lemma validate_hops_ok: "hops_ok n first prev es \<Longrightarrow> validate_hops n first prev (length es) (concat (map hop_bytes es) @ rest) = Inr rest"
proof (induction n first prev es rule: hops_ok.induct)
  case (2 n first prev e es)
  then have h: "host_ok (re_host e)" and ports: "re_port e \<noteq> 0" "\<not> 65535 < re_port e"
    and range: "\<not> n \<le> re_layer_start e" "\<not> n \<le> re_layer_end e" "\<not> re_layer_end e < re_layer_start e"
    and start: "\<not> (\<not> first \<and> re_layer_start e \<noteq> prev + 1)" and tl: "hops_ok n False (re_layer_end e) es"
    and fl: "re_flags e = 0 \<or> re_flags e = DS4_DIST_ROUTE_F_OUTPUT_LOGITS \<and> re_layer_end e + 1 = n"
    by (auto simp: not_less)
  have flags: "re_flags e AND NOT DS4_DIST_ROUTE_F_OUTPUT_LOGITS = 0"
    "\<not> (re_flags e AND DS4_DIST_ROUTE_F_OUTPUT_LOGITS \<noteq> 0 \<and> re_layer_end e + 1 \<noteq> n)"
    using fl by (auto simp: DS4_DIST_ROUTE_F_OUTPUT_LOGITS_def)
  have step: "validate_hops n first prev (Suc (length es)) (hop_bytes e @ concat (map hop_bytes es) @ rest)
      = validate_hops n False (re_layer_end e) (length es) (concat (map hop_bytes es) @ rest)"
    unfolding validate_hops.simps route_hop_bytes [OF h] sum.case prod.case route_fixed_fields
    by (simp only: ports range flags start simp_thms if_False)
  show ?case using "2.IH" [OF tl] by (simp only: length_Cons list.map concat.simps append_assoc step)
qed simp

lemma hops_contiguous: "hops_ok n first prev es \<Longrightarrow> Suc i < length es \<Longrightarrow> re_layer_start (es ! Suc i) = re_layer_end (es ! i) + 1"
proof (induction n first prev es arbitrary: i rule: hops_ok.induct)
  case (2 n first prev e es)
  then show ?case by (cases i; cases es) auto
qed simp

lemma hops_ok_nth:
  "hops_ok n first prev es \<Longrightarrow> i < length es \<Longrightarrow> re_layer_end (es ! i) < n \<and> re_layer_start (es ! i) \<le> re_layer_end (es ! i)
    \<and> (re_flags (es ! i) = 0 \<or> re_flags (es ! i) = DS4_DIST_ROUTE_F_OUTPUT_LOGITS \<and> re_layer_end (es ! i) + 1 = n)"
proof (induction n first prev es arbitrary: i rule: hops_ok.induct)
  case (2 n first prev e es)
  then show ?case by (cases i) auto
qed simp

definition upstream_bytes :: bytes where
  "upstream_bytes = dist_route_return_to_wire \<lparr>rr_kind = DS4_DIST_ROUTE_RETURN_UPSTREAM, rr_host_len = 0, rr_port = 0\<rparr>"

lemma route_return_upstream: "route_return upstream_bytes = Inr (\<lparr>rr_kind = DS4_DIST_ROUTE_RETURN_UPSTREAM, rr_host_len = 0, rr_port = 0\<rparr>, [], [])"
  by (simp add: route_return_def upstream_bytes_def Let_def NI_MAXHOST_def dist_bytes_have_nul_def)

text \<open>What the plan of a path holds.\<close>

lemma append_blob_Inr: "dist_route_plan_append_blob blob e = Inr b \<Longrightarrow> b = blob @ hop_bytes e"
  by (auto simp: dist_route_plan_append_blob_def hop_bytes_def Let_def split: if_splits)

lemma plan_entries_Inr:
  "plan_entries st dup path plan = Inr plan' \<Longrightarrow>
   \<exists>es. pl_entry plan' = pl_entry plan @ es \<and> pl_blob plan' = pl_blob plan @ concat (map hop_bytes es)
      \<and> list_all2 (\<lambda>e w. e = worker_route_entry (re_fd e) w) es path"
proof (induction st dup path plan rule: plan_entries.induct)
  case (2 st dup w path plan)
  define first where "first = (co_use_control_for_work st \<and> pl_entry plan = [])"
  define entry where "entry = worker_route_entry (if first then dup (we_fd w) else -1) w"
  obtain blob where b: "dist_route_plan_append_blob (pl_blob plan) entry = Inr blob" "\<not> (first \<and> re_fd entry < 0)"
    "plan_entries st dup path \<lparr>pl_entry = pl_entry plan @ [entry], pl_blob = blob\<rparr> = Inr plan'"
    using 2(2) unfolding plan_entries.simps Let_def first_def [symmetric] entry_def [symmetric] by (auto split: if_splits sum.splits)
  obtain es where "pl_entry plan' = pl_entry plan @ entry # es" "pl_blob plan' = blob @ concat (map hop_bytes es)"
    "list_all2 (\<lambda>e w. e = worker_route_entry (re_fd e) w) es path"
    using "2.IH" [OF first_def entry_def b(2,1,3)] by auto
  moreover have "entry = worker_route_entry (re_fd entry) w" by (simp add: entry_def worker_route_entry_def)
  ultimately show ?case using append_blob_Inr [OF b(1)] by (intro exI [of _ "entry # es"]) simp
qed simp

section \<open>The registry invariant\<close>

text \<open>What the checks of a HELLO establish; the host is the peer's address as the C library prints it.\<close>

definition worker_ok :: "ds4_dist_coordinator_state \<Rightarrow> ds4_dist_worker_entry \<Rightarrow> bool" where
  "worker_ok st w \<longleftrightarrow> host_ok (we_peer_host w) \<and> we_model_id w = co_model_id st \<and> we_model_name w = co_model_name st
     \<and> we_n_layers w = co_n_layers st \<and> we_layer_start w \<le> we_layer_end w \<and> we_layer_end w < co_n_layers st \<and> we_has_output w \<le> 1
     \<and> (we_has_output w \<noteq> 0 \<longrightarrow> we_layer_end w + 1 = co_n_layers st) \<and> we_listen_port w \<noteq> 0 \<and> we_listen_port w \<le> 65535
     \<and> (co_ctx_size st \<noteq> 0 \<longrightarrow> co_ctx_size st \<le> we_ctx_size w)"

definition registry_ok :: "ds4_dist_coordinator_state \<Rightarrow> bool" where
  "registry_ok st \<longleftrightarrow> (\<forall>w \<in> set (co_workers st). worker_ok st w)"

text \<open>The shutdown, as far as the registry sees it; the connections it closes leave the registry by themselves.\<close>

definition ds4_dist_session_free :: "ds4_dist_coordinator_state \<Rightarrow> ds4_dist_coordinator_state" where
  "ds4_dist_session_free st = st\<lparr>co_shutting_down := True\<rparr>"

text \<open>What happens to the registry: a connection with its bytes, the end of a connection, a failed plan, the shutdown.\<close>

datatype coordinator_event =
    Connected int bytes bytes bytes
  | Disconnected int
  | Route_Failed ds4_dist_route_plan
  | Shut_Down

fun coordinator_step :: "coordinator_event \<Rightarrow> ds4_dist_coordinator_state \<Rightarrow> ds4_dist_coordinator_state" where
  "coordinator_step (Connected fd host port s) st = fst (dist_coordinator_client_main st fd host port s)"
| "coordinator_step (Disconnected fd) st = dist_coordinator_remove_worker st fd"
| "coordinator_step (Route_Failed plan) st = dist_coordinator_forget_route_workers st plan"
| "coordinator_step Shut_Down st = ds4_dist_session_free st"

fun event_ok :: "coordinator_event \<Rightarrow> bool" where
  "event_ok (Connected fd host port s) \<longleftrightarrow> host_ok host"
| "event_ok (Disconnected fd) \<longleftrightarrow> True"
| "event_ok (Route_Failed plan) \<longleftrightarrow> True"
| "event_ok Shut_Down \<longleftrightarrow> True"

lemma remove_first_subset: "remove_first P xs = Some ys \<Longrightarrow> set ys \<subseteq> set xs"
  by (induction xs arbitrary: ys) (auto split: if_splits)

lemma forget_subset:
  "set (fst (fold (\<lambda>route (ws, r). case remove_first (dist_route_entry_matches_worker route) ws of None \<Rightarrow> (ws, r) | Some ws' \<Rightarrow> (ws', True)) es (ws0, r0)))
   \<subseteq> set ws0"
proof (induction es arbitrary: ws0 r0)
  case (Cons e es)
  show ?case
  proof (cases "remove_first (dist_route_entry_matches_worker e) ws0")
    case (Some ws')
    then show ?thesis using Cons.IH [of ws' True] remove_first_subset [OF Some] by simp
  qed (simp add: Cons.IH)
qed simp

text \<open>Every step keeps the fixed parts of the state and adds at most one checked worker.\<close>

definition same_config :: "ds4_dist_coordinator_state \<Rightarrow> ds4_dist_coordinator_state \<Rightarrow> bool" where
  "same_config st st' \<longleftrightarrow>
     st' = st\<lparr>co_workers := co_workers st', co_generation := co_generation st', co_shutting_down := co_shutting_down st'\<rparr>"

lemma same_config_worker_ok: "same_config st st' \<Longrightarrow> worker_ok st' w = worker_ok st w"
  unfolding same_config_def by (cases st; cases st') (simp add: worker_ok_def)

lemma check_hello_worker_ok:
  assumes "dist_check_hello st hello name = None" "host_ok host"
  shows "worker_ok st \<lparr>we_fd = fd, we_peer_host = host, we_peer_port = port, we_model_name = name,
            we_model_id = h_model_id hello, we_quant_bits = h_quant_bits hello, we_layer_start = h_layer_start hello,
            we_layer_end = h_layer_end hello, we_has_output = h_has_output hello, we_has_hidden = h_has_hidden hello,
            we_ctx_size = h_ctx_size hello, we_n_layers = h_n_layers hello, we_listen_port = h_listen_port hello\<rparr>"
  using assms unfolding dist_check_hello_def worker_ok_def by (auto split: if_splits simp: not_less not_le)

lemma coordinator_step_config: "same_config st (coordinator_step e st)"
  by (cases e) (auto simp: same_config_def dist_coordinator_client_main_def dist_coordinator_add_worker_def Let_def
      dist_coordinator_remove_worker_def dist_coordinator_forget_route_workers_def ds4_dist_session_free_def split: recv.splits option.splits prod.splits)

lemma coordinator_step_ok:
  assumes "registry_ok st" "event_ok e"
  shows "registry_ok (coordinator_step e st)"
proof -
  have "\<forall>w \<in> set (co_workers (coordinator_step e st)). worker_ok st w"
  proof (cases e)
    case (Connected fd host port s)
    then show ?thesis using assms
      by (auto simp: registry_ok_def dist_coordinator_client_main_def dist_coordinator_add_worker_def Let_def
          intro!: check_hello_worker_ok split: recv.splits option.splits if_splits)
  next
    case (Disconnected fd)
    then show ?thesis using assms by (auto simp: registry_ok_def dist_coordinator_remove_worker_def split: option.splits dest: remove_first_subset)
  next
    case (Route_Failed plan)
    then show ?thesis using assms forget_subset [of "pl_entry plan" "co_workers st" False]
      by (auto simp: registry_ok_def dist_coordinator_forget_route_workers_def Let_def split: prod.splits)
  next
    case Shut_Down
    then show ?thesis using assms by (simp add: registry_ok_def ds4_dist_session_free_def)
  qed
  then show ?thesis using same_config_worker_ok [OF coordinator_step_config] by (simp add: registry_ok_def)
qed

lemma coordinator_run_ok: "registry_ok st \<Longrightarrow> \<forall>e \<in> set es. event_ok e \<Longrightarrow> registry_ok (fold coordinator_step es st)"
  by (induction es arbitrary: st) (auto intro: coordinator_step_ok)

section \<open>Routes\<close>

lemma route_cmp_sorted:
  assumes "\<forall>w \<in> set ws. we_has_output w \<le> 1"
  shows "sorted_wrt (\<lambda>x y. we_layer_start x \<le> we_layer_start y) (qsort dist_worker_route_cmp ws)"
proof -
  define key where "key w = (- uint (we_layer_start w), uint (we_has_output w), uint (we_layer_end w))" for w :: ds4_dist_worker_entry
  have bin: "we_has_output w = 0 \<or> we_has_output w = 1" if "w \<in> set ws" for w
    using assms that by (metis word_less_1 order_le_less)
  have "dist_worker_route_cmp x y \<le> 0 \<longleftrightarrow> key y \<le> key x" if "x \<in> set ws" "y \<in> set ws" for x y
    using bin [OF that(1)] bin [OF that(2)]
    by (elim disjE) (auto simp: dist_worker_route_cmp_def key_def word_less_def word_uint_eq_iff split: if_splits)
  then have "\<forall>x \<in> set ws. \<forall>y \<in> set ws. dist_worker_route_cmp x y \<le> 0 \<longleftrightarrow> key y \<le> key x" by blast
  from qsort_sorted [OF this] show ?thesis
    by (rule sorted_wrt_mono_rel [rotated]) (auto simp: key_def word_le_def)
qed

lemma plan_entries_error: "plan_entries st dup path plan \<noteq> Inl ''distributed route incomplete''"
  by (induction st dup path plan rule: plan_entries.induct)
    (auto simp: Let_def dist_route_plan_append_blob_def split: sum.splits if_splits)

text \<open>
  (C8) With a registry whose workers passed the checks, building a route always returns; it reports an incomplete route exactly when no
  chain of registered slices leads from the coordinator's last layer to the model's.
\<close>
theorem route_found_iff:
  assumes "registry_ok st" and "co_local_start st = 0"
    and "\<not> (co_local_end st = co_n_layers st - 1 \<and> (co_local_has_output st \<or> co_local_can_output_head st))"
  shows "\<exists>r. dist_coordinator_build_route_plan st dup = Some r
    \<and> (r = Inl ''distributed route incomplete'' \<longleftrightarrow> (\<nexists>p. route_ok st (set (co_workers st)) (co_n_layers st - 1) (co_local_end st + 1) p))"
proof -
  let ?ws = "qsort dist_worker_route_cmp (co_workers st)" and ?last = "co_n_layers st - 1" and ?nxt = "co_local_end st + 1"
  have ok: "\<forall>w \<in> set ?ws. we_layer_start w \<le> we_layer_end w" using assms(1) by (simp add: registry_ok_def worker_ok_def)
  have sorted: "sorted_wrt (\<lambda>x y. we_layer_start x \<le> we_layer_start y) ?ws"
    using assms(1) by (intro route_cmp_sorted) (simp add: registry_ok_def worker_ok_def)
  obtain found path missing where s: "dist_route_search_workers st ?ws ?last ?ws False ?nxt [] ?nxt = Some (found, path, missing)"
    and yes: "found \<Longrightarrow> route_ok st (set (co_workers st)) ?last ?nxt path"
    and no: "\<not> found \<Longrightarrow> route_ok st (set (co_workers st)) ?last ?nxt p \<Longrightarrow> hd p \<notin> set (co_workers st)" for p
    using search_complete [OF ok sorted subset_refl sorted, of st ?last False ?nxt "[]" ?nxt] by auto
  have "\<not> route_ok st (set (co_workers st)) ?last ?nxt p" if "\<not> found" for p
    using no [OF that, of p] by (cases p) auto
  moreover have "dist_coordinator_build_route_plan st dup \<noteq> Some (Inl ''distributed route incomplete'')" if found
    using s that assms(2,3) plan_entries_error [of st dup path]
    by (auto simp: dist_coordinator_build_route_plan_def Let_def dist_route_plan_append_return_upstream_def split: sum.splits)
  moreover have "dist_coordinator_build_route_plan st dup = Some (Inl ''distributed route incomplete'')" if "\<not> found"
    using s that assms(2,3) by (auto simp: dist_coordinator_build_route_plan_def Let_def)
  moreover have "dist_coordinator_build_route_plan st dup \<noteq> None"
    using s assms(2,3) by (auto simp: dist_coordinator_build_route_plan_def Let_def split: sum.splits)
  ultimately show ?thesis using yes by (cases found) auto
qed

lemma suc_last: "(e :: u32) < n \<Longrightarrow> n - 1 \<le> e \<Longrightarrow> e + 1 = n"
proof -
  assume a: "e < n" "n - 1 \<le> e"
  then have "n \<noteq> 0" by auto
  then have "unat (n - 1) = unat n - 1" by (rule unat_minus_one)
  then have "unat e + 1 = unat n" using a by (simp add: word_less_nat_alt word_le_nat_alt)
  then show "e + 1 = n" using word_suc_less [OF a(1)] by (simp add: word_unat_eq_iff)
qed

lemma route_hops:
  assumes "\<forall>w \<in> W. worker_ok st w" and "first \<or> nxt = prev + 1"
  shows "route_ok st W (co_n_layers st - 1) nxt p \<Longrightarrow> list_all2 (\<lambda>e w. e = worker_route_entry (re_fd e) w) es p
    \<Longrightarrow> hops_ok (co_n_layers st) first prev es \<and> es \<noteq> [] \<and> re_layer_start (hd es) = nxt \<and> re_layer_end (last es) + 1 = co_n_layers st
      \<and> length es \<le> unat (co_n_layers st) - unat nxt \<and> (\<forall>e \<in> set es. \<exists>w \<in> W. dist_route_entry_matches_worker e w)"
  using assms(2)
proof (induction p arbitrary: es nxt prev first)
  case (Cons w p)
  obtain e es' where es: "es = e # es'" "e = worker_route_entry (re_fd e) w" "list_all2 (\<lambda>e w. e = worker_route_entry (re_fd e) w) es' p"
    using Cons.prems(2) by (auto simp: list_all2_Cons2)
  have w: "w \<in> W" "we_layer_start w = nxt" using Cons.prems(1) by simp_all
  have ok: "worker_ok st w" using assms(1) w(1) by blast
  have e: "re_host e = we_peer_host w" "re_port e = we_listen_port w" "re_layer_start e = nxt" "re_layer_end e = we_layer_end w"
    "re_flags e = (if we_has_output w \<noteq> 0 then DS4_DIST_ROUTE_F_OUTPUT_LOGITS else 0)"
    by (subst es(2), simp add: worker_route_entry_def w(2))+
  have range: "nxt \<le> we_layer_end w" "we_layer_end w < co_n_layers st" using ok w(2) by (auto simp: worker_ok_def)
  have matches: "dist_route_entry_matches_worker e w" using e w(2) by (simp add: dist_route_entry_matches_worker_def DS4_DIST_ROUTE_F_OUTPUT_LOGITS_def)
  have hop: "hops_ok (co_n_layers st) first prev es \<longleftrightarrow> hops_ok (co_n_layers st) False (we_layer_end w) es'"
    using ok e range Cons.prems(3) by (auto simp: es(1) worker_ok_def)
  show ?case
  proof (cases "we_layer_end w \<ge> co_n_layers st - 1")
    case True
    then have "es' = []" using Cons.prems(1) es(3) by simp
    then show ?thesis using hop e suc_last [OF range(2) True] matches w(1) range es(1) by (auto simp: word_le_nat_alt word_less_nat_alt)
  next
    case False
    then have "route_ok st W (co_n_layers st - 1) (we_layer_end w + 1) p" using Cons.prems(1) by simp
    from Cons.IH [OF this es(3), of False "we_layer_end w"]
    show ?thesis using hop e matches w(1) range es(1) word_suc_less [OF range(2)] by (auto simp: word_le_nat_alt word_less_nat_alt)
  qed
qed simp

lemma build_plan_path:
  assumes "registry_ok st" and "dist_coordinator_build_route_plan st dup = Some (Inr (plan, g))" and "pl_entry plan \<noteq> []"
  obtains path where "route_ok st (set (co_workers st)) (co_n_layers st - 1) (co_local_end st + 1) path"
    and "list_all2 (\<lambda>e w. e = worker_route_entry (re_fd e) w) (pl_entry plan) path"
    and "pl_blob plan = concat (map hop_bytes (pl_entry plan)) @ upstream_bytes" and "g = co_generation st"
proof -
  let ?ws = "qsort dist_worker_route_cmp (co_workers st)" and ?last = "co_n_layers st - 1" and ?nxt = "co_local_end st + 1"
  have ok: "\<forall>w \<in> set ?ws. we_layer_start w \<le> we_layer_end w" using assms(1) by (simp add: registry_ok_def worker_ok_def)
  have sorted: "sorted_wrt (\<lambda>x y. we_layer_start x \<le> we_layer_start y) ?ws"
    using assms(1) by (intro route_cmp_sorted) (simp add: registry_ok_def worker_ok_def)
  obtain found path missing where r: "dist_route_search_workers st ?ws ?last ?ws False ?nxt [] ?nxt = Some (found, path, missing)"
    and yes: "found \<Longrightarrow> route_ok st (set (co_workers st)) ?last ?nxt path"
    using search_complete [OF ok sorted subset_refl sorted, of st ?last False ?nxt "[]" ?nxt] by auto
  obtain plan0 where p: found "plan_entries st dup path \<lparr>pl_entry = [], pl_blob = []\<rparr> = Inr plan0"
    "pl_entry plan = pl_entry plan0" "pl_blob plan = pl_blob plan0 @ upstream_bytes" "g = co_generation st"
    using assms(2,3) r
    by (auto simp: dist_coordinator_build_route_plan_def Let_def dist_route_plan_append_return_upstream_def upstream_bytes_def
        split: if_splits sum.splits)
  show ?thesis using that [OF yes [OF p(1)]] plan_entries_Inr [OF p(2)] p(3-5) by auto
qed

lemma plan_hops:
  assumes "registry_ok st" and "dist_coordinator_build_route_plan st dup = Some (Inr (plan, g))" and "pl_entry plan \<noteq> []"
  shows "hops_ok (co_n_layers st) True 0xffffffff (pl_entry plan)" and "length (pl_entry plan) < 2 ^ 32"
    and "re_layer_start (hd (pl_entry plan)) = co_local_end st + 1"
    and "re_layer_end (last (pl_entry plan)) + 1 = co_n_layers st"
    and "\<forall>e \<in> set (pl_entry plan). \<exists>w \<in> set (co_workers st). dist_route_entry_matches_worker e w"
    and "pl_blob plan = concat (map hop_bytes (pl_entry plan)) @ upstream_bytes"
proof -
  obtain path where path: "route_ok st (set (co_workers st)) (co_n_layers st - 1) (co_local_end st + 1) path"
    "list_all2 (\<lambda>e w. e = worker_route_entry (re_fd e) w) (pl_entry plan) path"
    and blob: "pl_blob plan = concat (map hop_bytes (pl_entry plan)) @ upstream_bytes"
    by (rule build_plan_path [OF assms(1-3)])
  have W: "\<forall>w \<in> set (co_workers st). worker_ok st w" using assms(1) by (simp add: registry_ok_def)
  note hops = route_hops [where prev = "0xffffffff", OF W disjI1 [OF TrueI] path]
  have "length (pl_entry plan) \<le> unat (co_n_layers st) - unat (co_local_end st + 1)" using hops by (elim conjE)
  also have "\<dots> \<le> unat (co_n_layers st)" by (rule diff_le_self)
  also have "\<dots> < 2 ^ LENGTH(32)" by (rule unsigned_less)
  finally show "length (pl_entry plan) < 2 ^ 32" by simp
  show "hops_ok (co_n_layers st) True 0xffffffff (pl_entry plan)" "re_layer_start (hd (pl_entry plan)) = co_local_end st + 1"
    "re_layer_end (last (pl_entry plan)) + 1 = co_n_layers st"
    "\<forall>e \<in> set (pl_entry plan). \<exists>w \<in> set (co_workers st). dist_route_entry_matches_worker e w"
    using hops by blast+
  show "pl_blob plan = concat (map hop_bytes (pl_entry plan)) @ upstream_bytes" by (fact blob)
qed

lemma plan_entries_read_back:
  assumes "registry_ok st" and "dist_coordinator_build_route_plan st dup = Some (Inr (plan, g))" and "pl_entry plan \<noteq> []"
  defines "n_hops \<equiv> of_nat (length (pl_entry plan)) :: u32"
  shows "dist_route_validate_blob (pl_blob plan) n_hops (co_n_layers st) = None
    \<and> (\<forall>i < length (pl_entry plan). dist_route_get_entry (pl_blob plan) n_hops (of_nat i) = Inr ((pl_entry plan ! i)\<lparr>re_fd := -1\<rparr>))
    \<and> dist_route_get_return_target (pl_blob plan) n_hops = Inr \<lparr>rt_host = [], rt_port = 0, rt_kind = DS4_DIST_ROUTE_RETURN_UPSTREAM\<rparr>
    \<and> re_layer_start (hd (pl_entry plan)) = co_local_end st + 1 \<and> re_layer_end (last (pl_entry plan)) + 1 = co_n_layers st
    \<and> (\<forall>i. Suc i < length (pl_entry plan) \<longrightarrow> re_layer_start (pl_entry plan ! Suc i) = re_layer_end (pl_entry plan ! i) + 1)
    \<and> (\<forall>e \<in> set (pl_entry plan). \<exists>w \<in> set (co_workers st). dist_route_entry_matches_worker e w)"
proof -
  note ph = plan_hops [OF assms(1-3)]
  note ok = ph(1) and len = ph(2) and blob = ph(6)
  have "length upstream_bytes = 12" by (simp add: upstream_bytes_def)
  then have "pl_blob plan \<noteq> []" unfolding blob by auto
  moreover have "unat n_hops = length (pl_entry plan)" unfolding n_hops_def by (rule unat_of_nat_u32 [OF len])
  moreover from this have "n_hops \<noteq> 0" using assms(3) by auto
  ultimately have n_hops: "unat n_hops = length (pl_entry plan)" "n_hops \<noteq> 0" "pl_blob plan \<noteq> []" by blast+
  note hosts = hops_ok_hosts [OF ok]
  have "dist_route_validate_blob (pl_blob plan) n_hops (co_n_layers st) = None"
    unfolding dist_route_validate_blob_def using n_hops(2,3)
    by (simp add: n_hops(1)) (simp add: blob validate_hops_ok [OF ok] route_return_upstream)
  moreover have "dist_route_get_entry (pl_blob plan) n_hops (of_nat i) = Inr ((pl_entry plan ! i)\<lparr>re_fd := -1\<rparr>)"
    if "i < length (pl_entry plan)" for i
  proof -
    have "unat (of_nat i :: u32) = i" using that len by (intro unat_of_nat_u32) simp
    then show ?thesis using that n_hops
      by (simp add: dist_route_get_entry_def word_le_nat_alt) (simp add: blob get_entry_hops [OF hosts])
  qed
  moreover have "dist_route_get_return_target (pl_blob plan) n_hops = Inr \<lparr>rt_host = [], rt_port = 0, rt_kind = DS4_DIST_ROUTE_RETURN_UPSTREAM\<rparr>"
    unfolding dist_route_get_return_target_def using n_hops(2,3)
    by (simp add: n_hops(1)) (simp add: blob skip_hops_bytes [OF hosts] route_return_upstream)
  ultimately show ?thesis using ph(3-5) hops_contiguous [OF ok] by blast
qed

text \<open>
  (C9) A route plan that was built is accepted by every worker it is sent to: its bytes validate, every entry and the destination are
  read back from them as they were planned, and its slices are registered workers that follow each other from the coordinator's
  last layer to the model's.
\<close>
theorem plan_read_back:
  assumes "registry_ok st" and "dist_coordinator_build_route_plan st dup = Some (Inr (plan, g))" and "pl_entry plan \<noteq> []"
  defines "n_hops \<equiv> of_nat (length (pl_entry plan)) :: u32"
  shows "dist_route_validate_blob (pl_blob plan) n_hops (co_n_layers st) = None
    \<and> (\<forall>i < length (pl_entry plan). dist_route_get_entry (pl_blob plan) n_hops (of_nat i) = Inr ((pl_entry plan ! i)\<lparr>re_fd := -1\<rparr>))
    \<and> dist_route_get_return_target (pl_blob plan) n_hops = Inr \<lparr>rt_host = [], rt_port = 0, rt_kind = DS4_DIST_ROUTE_RETURN_UPSTREAM\<rparr>
    \<and> re_layer_start (hd (pl_entry plan)) = co_local_end st + 1 \<and> re_layer_end (last (pl_entry plan)) + 1 = co_n_layers st
    \<and> (\<forall>i. Suc i < length (pl_entry plan) \<longrightarrow> re_layer_start (pl_entry plan ! Suc i) = re_layer_end (pl_entry plan ! i) + 1)
    \<and> (\<forall>e \<in> set (pl_entry plan). \<exists>w \<in> set (co_workers st). dist_route_entry_matches_worker e w)"
  unfolding n_hops_def by (rule plan_entries_read_back [OF assms(1-3)])

section \<open>The registry, over its events\<close>

text \<open>
  Whatever workers connect, disconnect or fail, in any order, every registered worker has passed the checks of its HELLO for this
  coordinator's model: its slice lies within the model, an output head comes with the last layer, and its port and context size are usable.
\<close>
lemma registry_stays_checked:
  assumes "\<forall>e \<in> set events. event_ok e"
  shows "registry_ok (fold coordinator_step events (st\<lparr>co_workers := []\<rparr>))"
proof -
  have "registry_ok (st\<lparr>co_workers := []\<rparr>)" by (simp add: registry_ok_def)
  then show ?thesis using assms by (rule coordinator_run_ok)
qed

text \<open>An example: ten layers, four at the coordinator, two workers with three each; a third is refused.\<close>

definition example_coordinator :: ds4_dist_coordinator_state where
  "example_coordinator = \<lparr>co_model_id = 7, co_model_name = [109], co_n_layers = 10, co_local_start = 0, co_local_end = 3, co_ctx_size = 100,
     co_local_has_output = False, co_local_can_output_head = False, co_use_control_for_work = True, co_activation_bits = 16,
     co_generation = 0, co_workers = [], co_shutting_down = False\<rparr>"

definition example_events :: "coordinator_event list" where
  "example_events =
     [Connected 5 [97] [49] (dist_send_hello 7 4 10 (Some [109]) 7 9 True 200 9001),
      Connected 6 [98] [50] (dist_send_hello 7 4 10 (Some [109]) 4 6 False 200 9002),
      Connected 8 [99] [51] (dist_send_hello 6 4 10 (Some [109]) 4 9 False 200 9003)]"

lemma example_events_registered:
  "map we_fd (co_workers (fold coordinator_step (example_events @ [Shut_Down, Disconnected 5]) example_coordinator)) = [6]"
  by code_simp

definition example_worker :: "int \<Rightarrow> bytes \<Rightarrow> u32 \<Rightarrow> u32 \<Rightarrow> u32 \<Rightarrow> u32 \<Rightarrow> ds4_dist_worker_entry" where
  "example_worker fd host first_layer last_layer has_output port =
     \<lparr>we_fd = fd, we_peer_host = host, we_peer_port = [], we_model_name = [109], we_model_id = 7, we_quant_bits = 4,
      we_layer_start = first_layer, we_layer_end = last_layer, we_has_output = has_output, we_has_hidden = 1, we_ctx_size = 200,
      we_n_layers = 10, we_listen_port = port\<rparr>"

definition example_registry :: ds4_dist_coordinator_state where
  "example_registry = example_coordinator\<lparr>co_generation := 3,
     co_workers := [example_worker 6 [98] 4 6 0 9002, example_worker 9 [100] 4 5 0 9004, example_worker 5 [97] 7 9 1 9001]\<rparr>"

lemma example_registry_ok: "registry_ok example_registry"
  by (simp add: registry_ok_def example_registry_def example_coordinator_def example_worker_def worker_ok_def host_ok_def NI_MAXHOST_def
      dist_bytes_have_nul_def)

definition example_plan :: "(string + ds4_dist_route_plan \<times> u64) option" where
  "example_plan = dist_coordinator_build_route_plan example_registry (\<lambda>fd. fd + 100)"

lemma example_plan_built:
  "\<exists>plan. example_plan = Some (Inr (plan, 3)) \<and> map re_host (pl_entry plan) = [[98], [97]] \<and> map re_fd (pl_entry plan) = [106, -1]
     \<and> map re_layer_start (pl_entry plan) = [4, 7] \<and> map re_layer_end (pl_entry plan) = [6, 9] \<and> map re_flags (pl_entry plan) = [0, 1]
     \<and> length (pl_blob plan) = 54"
proof -
  let ?ws = "[example_worker 6 [98] 4 6 0 9002, example_worker 9 [100] 4 5 0 9004, example_worker 5 [97] 7 9 1 9001]"
  have sorted: "qsort dist_worker_route_cmp (co_workers example_registry) = ?ws" by code_simp
  have search: "dist_route_search_workers example_registry ?ws 9 ?ws False 4 [] 4
      = Some (True, [example_worker 6 [98] 4 6 0 9002, example_worker 5 [97] 7 9 1 9001], 4)" by code_simp
  have fields: "co_local_start example_registry = 0" "co_local_end example_registry = 3" "co_n_layers example_registry = 10"
    "co_generation example_registry = 3" "co_use_control_for_work example_registry"
    by (simp_all add: example_registry_def example_coordinator_def)
  show ?thesis unfolding example_plan_def dist_coordinator_build_route_plan_def sorted fields
    by (simp add: search Let_def fields)
      (simp add: example_worker_def dist_route_plan_append_blob_def dist_route_plan_append_return_upstream_def worker_route_entry_def
        fields NI_MAXHOST_def Let_def DS4_DIST_ROUTE_F_OUTPUT_LOGITS_def)
qed

theorem route_found_iff_witness:
  "(\<exists>r. example_plan = Some r \<and> (r = Inl ''distributed route incomplete'' \<longleftrightarrow>
      (\<nexists>p. route_ok example_registry (set (co_workers example_registry)) (co_n_layers example_registry - 1) (co_local_end example_registry + 1) p)))
   \<and> (\<exists>plan. example_plan = Some (Inr (plan, 3)))"
proof -
  have "co_local_start example_registry = 0" "co_local_end example_registry \<noteq> co_n_layers example_registry - 1"
    by (simp_all add: example_registry_def example_coordinator_def)
  then show ?thesis
    using route_found_iff [OF example_registry_ok, of "\<lambda>fd. fd + 100"] example_plan_built unfolding example_plan_def by blast
qed

theorem plan_read_back_witness:
  "\<exists>plan. example_plan = Some (Inr (plan, 3)) \<and> length (pl_entry plan) = 2
     \<and> dist_route_validate_blob (pl_blob plan) (of_nat (length (pl_entry plan))) (co_n_layers example_registry) = None"
proof -
  from example_plan_built obtain plan where plan: "example_plan = Some (Inr (plan, 3))" "map re_host (pl_entry plan) = [[98], [97]]"
    by (elim exE conjE) (rule that)
  have "length (map re_host (pl_entry plan)) = 2" unfolding plan(2) by simp
  then have "length (pl_entry plan) = 2" by (simp only: length_map)
  moreover from this have "pl_entry plan \<noteq> []" by auto
  from conjunct1 [OF plan_read_back [OF example_registry_ok plan(1) [unfolded example_plan_def] this]]
  have "dist_route_validate_blob (pl_blob plan) (of_nat (length (pl_entry plan))) (co_n_layers example_registry) = None" .
  ultimately show ?thesis using plan(1) by (intro exI [of _ plan]) simp
qed

end
