(* ===== verification/Dist_Activation.thy ===== *)
theory Dist_Activation
  imports Dist_Wire
begin

text \<open>
  Activations on the wire (\<open>ds4_distributed.c\<close>): floats of 32 bits as they are in memory, or packed to 16 or 8 bits. A float is its bit
  pattern. The 16-bit conversions are integer code and are modelled; the 8-bit ones compute with floats and are parameters.
\<close>

section \<open>Half precision\<close>

definition dist_f32_to_f16 :: "u32 \<Rightarrow> u16" where
  "dist_f32_to_f16 bits =
     (let sign = drop_bit 16 bits AND 0x8000;
          biased = drop_bit 23 bits AND 0xff;
          exp = sint biased - 127 + 15;
          mant = bits AND 0x7fffff
      in if exp \<le> 0 then
           (if exp < -10 then ucast sign
            else
              let mant = mant OR 0x800000;
                  shift = nat (14 - exp);
                  half_mant = drop_bit shift mant;
                  round_bit = drop_bit (shift - 1) mant AND 1;
                  sticky = mant AND (push_bit (shift - 1) 1 - 1);
                  half_mant = (if round_bit \<noteq> 0 \<and> (sticky \<noteq> 0 \<or> half_mant AND 1 \<noteq> 0) then half_mant + 1 else half_mant)
              in ucast (sign OR half_mant))
         else if exp \<ge> 31 then
           (if biased = 0xff \<and> mant \<noteq> 0 then ucast (sign OR 0x7e00) else ucast (sign OR 0x7c00))
         else
           let half = sign OR push_bit 10 (of_int exp) OR drop_bit 13 mant;
               round = mant AND 0x1fff;
               half = (if round > 0x1000 \<or> (round = 0x1000 \<and> half AND 1 \<noteq> 0) then half + 1 else half)
           in ucast half)"

text \<open>The loop that normalises a subnormal mantissa: at most ten steps, since it is not zero and has ten bits.\<close>

fun f16_normalise :: "nat \<Rightarrow> int \<Rightarrow> u32 \<Rightarrow> int \<times> u32" where
  "f16_normalise 0 exp mant = (exp, mant)"
| "f16_normalise (Suc n) exp mant = (if mant AND 0x400 = 0 then f16_normalise n (exp - 1) (push_bit 1 mant) else (exp, mant))"

definition dist_f16_to_f32 :: "u16 \<Rightarrow> u32" where
  "dist_f16_to_f32 h =
     (let sign = push_bit 16 (ucast (h AND 0x8000));
          exp = uint (drop_bit 10 h AND 0x1f);
          mant = ucast (h AND 0x03ff)
      in if exp = 0 then
           (if mant = 0 then sign
            else
              let (exp, mant) = f16_normalise 10 1 mant; mant = mant AND 0x03ff
              in sign OR push_bit 23 (of_int (exp + 127 - 15)) OR push_bit 13 mant)
         else if exp = 31 then sign OR 0x7f800000 OR push_bit 13 mant
         else sign OR push_bit 23 (of_int (exp + 127 - 15)) OR push_bit 13 mant)"

section \<open>Payloads\<close>

text \<open>Memory is little-endian: the floats and the half floats of a buffer.\<close>

definition mem_word :: "bytes \<Rightarrow> nat \<Rightarrow> u32" where
  "mem_word b i = ucast (b ! (4 * i)) OR push_bit 8 (ucast (b ! (4 * i + 1))) OR push_bit 16 (ucast (b ! (4 * i + 2))) OR push_bit 24 (ucast (b ! (4 * i + 3)))"

definition mem_half :: "bytes \<Rightarrow> nat \<Rightarrow> u16" where
  "mem_half b i = ucast (b ! (2 * i)) OR push_bit 8 (ucast (b ! (2 * i + 1)))"

definition word_mem :: "u32 \<Rightarrow> bytes" where
  "word_mem w = [ucast w, ucast (drop_bit 8 w), ucast (drop_bit 16 w), ucast (drop_bit 24 w)]"

definition half_mem :: "u16 \<Rightarrow> bytes" where
  "half_mem w = [ucast w, ucast (drop_bit 8 w)]"

text \<open>The 8-bit conversions.\<close>

record f8_codec =
  dist_f32_to_f8_e4m3 :: "u32 \<Rightarrow> u8"
  dist_f8_e4m3_to_f32 :: "u8 \<Rightarrow> u32"

definition dist_write_activation_payload :: "f8_codec \<Rightarrow> bytes \<Rightarrow> nat \<Rightarrow> u32 \<Rightarrow> bytes option" where
  "dist_write_activation_payload f8 src values bits0 =
     (let bits = dist_activation_bits_or_default bits0
      in if \<not> dist_activation_bits_valid bits then None
         else if values = 0 then Some []
         else if bits = 32 then map_option (\<lambda>n. take (unat n) src) (dist_activation_wire_bytes bits (of_nat values))
         else if bits = 16 then Some (concat (map (\<lambda>i. half_mem (dist_f32_to_f16 (mem_word src i))) [0..<values]))
         else Some (map (\<lambda>i. dist_f32_to_f8_e4m3 f8 (mem_word src i)) [0..<values]))"

text \<open>The result is the size of the floats and the floats.\<close>

definition dist_decode_activation_payload :: "f8_codec \<Rightarrow> bytes \<Rightarrow> u32 \<Rightarrow> string + (u32 \<times> bytes)" where
  "dist_decode_activation_payload f8 wire bits0 =
     (let bits = dist_activation_bits_or_default bits0
      in if \<not> dist_activation_bits_valid bits then Inl ''invalid distributed activation width''
         else
           case dist_activation_values_from_wire_bytes bits (of_nat (length wire)) of
             None \<Rightarrow> Inl ''invalid distributed activation payload size''
           | Some values \<Rightarrow>
               if values * 4 > 0xffffffff then Inl ''distributed activation payload is too large''
               else if bits = 32 then Inr (ucast (values * 4), wire)
               else if bits = 16 then Inr (ucast (values * 4), concat (map (\<lambda>i. word_mem (dist_f16_to_f32 (mem_half wire i))) [0..<unat values]))
               else Inr (ucast (values * 4), concat (map (\<lambda>i. word_mem (dist_f8_e4m3_to_f32 f8 (wire ! i))) [0..<unat values])))"

section \<open>Sizes\<close>

lemma div_bits: "dist_activation_bits_valid bits \<Longrightarrow>
  unat (dist_activation_bits_or_default bits div 8) \<in> {1, 2, 4} \<and> unat (dist_activation_bits_or_default bits) = 8 * unat (dist_activation_bits_or_default bits div 8)"
  by (erule activation_bits_cases) simp_all

definition bytes_per_value :: "u32 \<Rightarrow> nat" where
  "bytes_per_value bits = unat (dist_activation_bits_or_default bits) div 8"

lemma bits_default_twice [simp]: "dist_activation_bits_or_default (dist_activation_bits_or_default bits) = dist_activation_bits_or_default bits"
  "dist_activation_bits_valid (dist_activation_bits_or_default bits) = dist_activation_bits_valid bits"
  by (simp_all add: dist_activation_bits_or_default_def dist_activation_bits_valid_def Let_def)

lemma wire_bytes_exact:
  assumes "dist_activation_bits_valid bits" and "values * bytes_per_value bits < 2 ^ 32"
  shows "dist_activation_wire_bytes bits (of_nat values) = Some (of_nat (values * bytes_per_value bits))"
proof -
  have bp: "bytes_per_value bits \<in> {1, 2, 4}" using assms(1) by (elim activation_bits_cases) (simp_all add: bytes_per_value_def)
  have w: "(ucast (dist_activation_bits_or_default bits div 8) :: u64) = of_nat (bytes_per_value bits)"
    "dist_activation_bits_or_default bits mod 8 = 0"
    using assms(1) by (elim activation_bits_cases; simp add: bytes_per_value_def)+
  have "(of_nat values * of_nat (bytes_per_value bits) :: u64) = of_nat (values * bytes_per_value bits)" by simp
  moreover have "unat (of_nat (values * bytes_per_value bits) :: u64) = values * bytes_per_value bits"
    using assms(2) by (intro unat_of_nat_u64) simp
  moreover have "take_bit 64 (values * bytes_per_value bits) = values * bytes_per_value bits"
    using assms(2) by (intro take_bit_nat_eq_self) simp
  then have "(ucast (of_nat (values * bytes_per_value bits) :: u64) :: u32) = of_nat (values * bytes_per_value bits)"
    by (simp add: unsigned_of_nat del: of_nat_mult)
  ultimately show ?thesis
    using assms w by (simp add: dist_activation_wire_bytes_def Let_def word_less_nat_alt del: of_nat_mult)
qed

end
