(* ===== verification/Dist_Work.thy ===== *)
theory Dist_Work
  imports Dist_Route Dist_Activation
begin

text \<open>
  Work in the distributed mode (\<open>ds4_distributed.c\<close>): the frame the coordinator sends to the first hop, how a worker checks it, evaluates
  its slice of layers on the session the frame names and answers or forwards it, and the token hash each worker session keeps. The
  timeline of a session's slice is that of \<open>ds4.c\<close>. What the model computes is a parameter: a run of the layers that fails or gives
  bytes, the reset of the graph, the 8-bit conversion of activations. The theory shows that the hash of a session is always that of
  its timeline as long as resets succeed, that a worker evaluates only a span that continues its own timeline, and that the
  frames of the coordinator and of the forwarding workers pass the checks.
\<close>

section \<open>Sessions of a worker\<close>

record slice_session =
  sl_tokens :: "u32 list"
  sl_valid :: bool

text \<open>The model as a worker sees it; \<open>en_run\<close> gives an error, with whether it invalidates the session, or the bytes computed.\<close>

record slice_engine =
  en_n_layers :: u32
  en_vocab_size :: u32
  en_hidden_values :: u64
  en_reset :: "slice_session \<Rightarrow> string option"
  en_run :: "slice_session \<Rightarrow> u32 list \<Rightarrow> u32 \<Rightarrow> u32 \<Rightarrow> u32 \<Rightarrow> bytes option \<Rightarrow> bool \<Rightarrow> bool \<Rightarrow> string \<times> bool + bytes"
  en_f8 :: f8_codec

definition ds4_session_layer_slice_reset :: "slice_engine \<Rightarrow> slice_session \<Rightarrow> slice_session \<times> string option" where
  "ds4_session_layer_slice_reset en s = (\<lparr>sl_tokens = [], sl_valid = False\<rparr>, en_reset en s)"

definition ds4_session_slice_check_timeline :: "u32 \<Rightarrow> slice_session \<Rightarrow> u32 \<Rightarrow> u32 \<Rightarrow> string option" where
  "ds4_session_slice_check_timeline ctx_size s n_tokens pos0 =
     (if n_tokens = 0 then Some ''invalid layer-slice token span''
      else if pos0 > 0x7fffffff \<or> n_tokens > 0x7fffffff \<or> pos0 > ctx_size \<or> n_tokens > ctx_size - pos0
           then Some ''layer-slice token span exceeds context''
      else if \<not> sl_valid s then (if pos0 \<noteq> 0 then Some ''layer-slice session needs reset'' else None)
      else if of_nat (length (sl_tokens s)) \<noteq> pos0 then Some ''layer-slice KV position mismatch''
      else None)"

definition ds4_session_slice_commit_timeline :: "slice_session \<Rightarrow> u32 list \<Rightarrow> slice_session" where
  "ds4_session_slice_commit_timeline s tokens = s\<lparr>sl_tokens := sl_tokens s @ tokens, sl_valid := True\<rparr>"

text \<open>The checks of the arguments against the loaded model do not look at the session and are among the failures of \<open>en_run\<close>.\<close>

definition ds4_session_eval_layer_slice ::
    "slice_engine \<Rightarrow> u32 \<Rightarrow> slice_session \<Rightarrow> u32 list \<Rightarrow> u32 \<Rightarrow> u32 \<Rightarrow> u32 \<Rightarrow> u32 \<Rightarrow> bytes option \<Rightarrow> bool \<Rightarrow> bool
     \<Rightarrow> slice_session \<times> (string + bytes)" where
  "ds4_session_eval_layer_slice en ctx_size s tokens n_tokens pos0 layer_start layer_end input_hc output_hc output_logits =
     (case ds4_session_slice_check_timeline ctx_size s n_tokens pos0 of
        Some e \<Rightarrow> (s, Inl e)
      | None \<Rightarrow>
          (case en_run en s tokens pos0 layer_start layer_end input_hc output_hc output_logits of
             Inl (e, invalidates) \<Rightarrow> (if invalidates then s\<lparr>sl_valid := False\<rparr> else s, Inl e)
           | Inr out \<Rightarrow> (ds4_session_slice_commit_timeline s tokens, Inr out)))"

record ds4_dist_worker_session =
  se_id :: u64
  se_token_hash :: u64
  se_hash_valid :: bool
  se_session :: slice_session

record ds4_dist_worker_state =
  ws_model_id :: u32
  ws_layer_start :: u32
  ws_layer_end :: u32
  ws_has_output :: bool
  ws_ctx_size :: u32
  ws_sessions :: "ds4_dist_worker_session list"

definition dist_worker_find_session :: "ds4_dist_worker_state \<Rightarrow> u64 \<Rightarrow> ds4_dist_worker_session option" where
  "dist_worker_find_session ws session_id = find (\<lambda>it. se_id it = session_id) (ws_sessions ws)"

definition new_session :: "u64 \<Rightarrow> ds4_dist_worker_session" where
  "new_session session_id = \<lparr>se_id = session_id, se_token_hash = 0, se_hash_valid = False, se_session = \<lparr>sl_tokens = [], sl_valid = False\<rparr>\<rparr>"

definition dist_worker_get_session_locked :: "ds4_dist_worker_state \<Rightarrow> u64 \<Rightarrow> ds4_dist_worker_state \<times> ds4_dist_worker_session" where
  "dist_worker_get_session_locked ws session_id =
     (case dist_worker_find_session ws session_id of
        Some se \<Rightarrow> (ws, se)
      | None \<Rightarrow> (ws\<lparr>ws_sessions := new_session session_id # ws_sessions ws\<rparr>, new_session session_id))"

definition dist_worker_clear_sessions :: "ds4_dist_worker_state \<Rightarrow> ds4_dist_worker_state \<times> nat" where
  "dist_worker_clear_sessions ws = (ws\<lparr>ws_sessions := []\<rparr>, length (ws_sessions ws))"

text \<open>Writing through the pointer to a session of the list.\<close>

definition put_session :: "ds4_dist_worker_session \<Rightarrow> ds4_dist_worker_state \<Rightarrow> ds4_dist_worker_state" where
  "put_session se ws = ws\<lparr>ws_sessions := map (\<lambda>it. if se_id it = se_id se then se else it) (ws_sessions ws)\<rparr>"

section \<open>WORK frames\<close>

definition DS4_DIST_WORK_F_INPUT_HC :: u32 where "DS4_DIST_WORK_F_INPUT_HC = 1"
definition DS4_DIST_WORK_F_OUTPUT_LOGITS :: u32 where "DS4_DIST_WORK_F_OUTPUT_LOGITS = 2"
definition DS4_DIST_WORK_F_RESET_SESSION :: u32 where "DS4_DIST_WORK_F_RESET_SESSION = 4"
definition DS4_DIST_WORK_F_ACK_ONLY :: u32 where "DS4_DIST_WORK_F_ACK_ONLY = 8"
definition DS4_DIST_WORK_F_VALID_MASK :: u32 where "DS4_DIST_WORK_F_VALID_MASK = 15"

lemmas work_flags = DS4_DIST_WORK_F_INPUT_HC_def DS4_DIST_WORK_F_OUTPUT_LOGITS_def DS4_DIST_WORK_F_RESET_SESSION_def
  DS4_DIST_WORK_F_ACK_ONLY_def DS4_DIST_WORK_F_VALID_MASK_def DS4_DIST_ROUTE_F_OUTPUT_LOGITS_def

definition DS4_DIST_RESULT_ACK :: u32 where "DS4_DIST_RESULT_ACK = 0"
definition DS4_DIST_RESULT_HIDDEN_STATE :: u32 where "DS4_DIST_RESULT_HIDDEN_STATE = 1"
definition DS4_DIST_RESULT_LOGITS :: u32 where "DS4_DIST_RESULT_LOGITS = 2"

text \<open>The payload of the frame that is sent, \<open>None\<close> when the function refuses to send it. \<open>input_hc\<close> are the bytes of the floats.\<close>

definition dist_send_work_frame :: "f8_codec \<Rightarrow> ds4_dist_work_fixed \<Rightarrow> u32 list \<Rightarrow> bytes \<Rightarrow> bytes \<Rightarrow> bytes option" where
  "dist_send_work_frame f8 work tokens input_hc route_blob =
     (if w_n_tokens work = 0 then None
      else if 4 * unat (w_n_tokens work) > UINT32_MAX \<or> unat (w_token_bytes work) \<noteq> 4 * unat (w_n_tokens work) then None
      else
        case (if w_input_hc_bytes work \<noteq> 0 then dist_activation_values_from_wire_bytes (w_input_hc_bits work) (w_input_hc_bytes work) else Some 0) of
          None \<Rightarrow> None
        | Some input_hc_values \<Rightarrow>
            if 80 + unat (w_token_bytes work) + unat (w_input_hc_bytes work) + unat (w_route_bytes work) > UINT32_MAX then None
            else
              map_option (\<lambda>activations. dist_work_to_wire work @ concat (map htonl tokens) @ activations
                  @ (if w_route_bytes work \<noteq> 0 then route_blob else []))
                (if w_input_hc_bytes work \<noteq> 0
                 then dist_write_activation_payload f8 input_hc (unat input_hc_values) (w_input_hc_bits work) else Some []))"

definition dist_coordinator_send_remote_work_on_fd ::
    "f8_codec \<Rightarrow> ds4_dist_coordinator_state \<Rightarrow> ds4_dist_route_plan \<Rightarrow> u32 list \<Rightarrow> u32 \<Rightarrow> u64 \<Rightarrow> u64 \<Rightarrow> u64 \<Rightarrow> u64
     \<Rightarrow> bool \<Rightarrow> bool \<Rightarrow> bytes \<Rightarrow> string + bytes" where
  "dist_coordinator_send_remote_work_on_fd f8 st plan tokens pos0 session_id request_id prefix_hash result_hash reset_session ack_only hidden_hc =
     (case pl_entry plan of
        [] \<Rightarrow> Inl ''distributed route has no remote worker''
      | first # _ \<Rightarrow>
          (case dist_activation_wire_bytes_from_f32_bytes (co_activation_bits st) (of_nat (length hidden_hc)) of
             None \<Rightarrow> Inl ''invalid distributed hidden-state size''
           | Some wire_hidden_hc_bytes \<Rightarrow>
               let flags = DS4_DIST_WORK_F_INPUT_HC;
                   flags = (if reset_session then flags OR DS4_DIST_WORK_F_RESET_SESSION else flags);
                   flags = (if ack_only then flags OR DS4_DIST_WORK_F_ACK_ONLY else flags);
                   flags = (if re_flags first AND DS4_DIST_ROUTE_F_OUTPUT_LOGITS \<noteq> 0 then flags OR DS4_DIST_WORK_F_OUTPUT_LOGITS else flags);
                   work = \<lparr>w_model_id = co_model_id st,
                     w_session_hi = fst (dist_u64_to_halves session_id), w_session_lo = snd (dist_u64_to_halves session_id),
                     w_request_hi = fst (dist_u64_to_halves request_id), w_request_lo = snd (dist_u64_to_halves request_id),
                     w_prefix_hash_hi = fst (dist_u64_to_halves prefix_hash), w_prefix_hash_lo = snd (dist_u64_to_halves prefix_hash),
                     w_result_hash_hi = fst (dist_u64_to_halves result_hash), w_result_hash_lo = snd (dist_u64_to_halves result_hash),
                     w_pos0 = pos0, w_n_tokens = of_nat (length tokens), w_layer_start = re_layer_start first, w_layer_end = re_layer_end first,
                     w_flags = flags, w_token_bytes = of_nat (length tokens) * 4, w_input_hc_bytes = wire_hidden_hc_bytes,
                     w_input_hc_bits = co_activation_bits st, w_route_count = of_nat (length (pl_entry plan)), w_route_index = 0,
                     w_route_bytes = of_nat (length (pl_blob plan))\<rparr>
               in case dist_send_work_frame f8 work tokens hidden_hc (pl_blob plan) of
                    None \<Rightarrow> Inl ''failed to send distributed work''
                  | Some frame \<Rightarrow> Inr frame))"

section \<open>A worker and its WORK\<close>

text \<open>
  What the worker does with a request: nothing (the connection fails), an error or a result to the sender with the request's id, or a frame to the
  next worker.
\<close>

datatype work_reply =
    Aborted
  | Error_Reply u64 string
  | Result_Reply u64 u64 u32 u32 bytes
  | Forward_Reply ds4_dist_route_entry ds4_dist_work_fixed "u32 list" bytes bytes

text \<open>The checks of the header, given the bytes that follow it. The numbers that messages print are left out.\<close>

definition dist_worker_check_work :: "slice_engine \<Rightarrow> ds4_dist_worker_state \<Rightarrow> ds4_dist_work_fixed \<Rightarrow> nat \<Rightarrow> string option" where
  "dist_worker_check_work en ws work remaining =
     (if unat (w_token_bytes work) \<noteq> 4 * unat (w_n_tokens work)
         \<or> unat (w_token_bytes work) + unat (w_input_hc_bytes work) + unat (w_route_bytes work) \<noteq> remaining
      then Some ''invalid distributed WORK payload sizes''
      else if w_route_count work = 0 then Some ''WORK frame is missing distributed route''
      else if w_route_index work \<ge> w_route_count work then Some ''invalid distributed WORK route metadata''
      else if w_model_id work \<noteq> ws_model_id ws then Some ''model id mismatch''
      else if w_layer_start work \<noteq> ws_layer_start ws \<or> w_layer_end work \<noteq> ws_layer_end ws then Some ''worker is assigned other layers''
      else if w_flags work AND NOT DS4_DIST_WORK_F_VALID_MASK \<noteq> 0 then Some ''invalid distributed WORK flags''
      else if w_n_tokens work = 0 then Some ''WORK frame has no tokens''
      else if w_pos0 work > ws_ctx_size ws \<or> w_n_tokens work > ws_ctx_size ws - w_pos0 work then Some ''WORK token span exceeds worker context''
      else
        let output_logits = w_flags work AND DS4_DIST_WORK_F_OUTPUT_LOGITS \<noteq> 0;
            input_hc_present = w_flags work AND DS4_DIST_WORK_F_INPUT_HC \<noteq> 0
        in if input_hc_present \<and> w_layer_start work = 0 then Some ''layer 0 WORK must not provide input hidden-state''
           else if \<not> input_hc_present \<and> w_layer_start work \<noteq> 0 then Some ''nonzero layer WORK requires input hidden-state''
           else if output_logits \<and> \<not> ws_has_output ws then Some ''worker was not assigned the output head''
           else if output_logits \<and> w_layer_end work + 1 \<noteq> en_n_layers en then Some ''WORK logits require final transformer layer''
           else None)"

text \<open>The checks of the route: the next hop when there is one.\<close>

definition dist_worker_check_route :: "slice_engine \<Rightarrow> ds4_dist_work_fixed \<Rightarrow> bytes \<Rightarrow> string + ds4_dist_route_entry option" where
  "dist_worker_check_route en work route_blob =
     (let output_logits = w_flags work AND DS4_DIST_WORK_F_OUTPUT_LOGITS \<noteq> 0;
          has_next = w_route_index work + 1 < w_route_count work
      in case dist_route_validate_blob route_blob (w_route_count work) (en_n_layers en) of
           Some e \<Rightarrow> Inl e
         | None \<Rightarrow>
             (case dist_route_get_entry route_blob (w_route_count work) (w_route_index work) of
                Inl e \<Rightarrow> Inl e
              | Inr current_route \<Rightarrow>
                  if re_layer_start current_route \<noteq> w_layer_start work \<or> re_layer_end current_route \<noteq> w_layer_end work
                  then Inl ''WORK layer range does not match route entry''
                  else if (re_flags current_route AND DS4_DIST_ROUTE_F_OUTPUT_LOGITS \<noteq> 0) \<noteq> output_logits
                  then Inl ''WORK logits flag does not match route entry''
                  else if has_next then
                    (case dist_route_get_entry route_blob (w_route_count work) (w_route_index work + 1) of
                       Inl e \<Rightarrow> Inl e
                     | Inr next_route \<Rightarrow> if output_logits then Inl ''non-final route entry requested logits'' else Inr (Some next_route))
                  else
                    (case dist_route_get_return_target route_blob (w_route_count work) of
                       Inl e \<Rightarrow> Inl e
                     | Inr ret \<Rightarrow>
                         if rt_kind ret \<noteq> DS4_DIST_ROUTE_RETURN_UPSTREAM then Inl ''unsupported final result destination'' else Inr None)))"

text \<open>The checked contents of a frame: tokens, activations as sent, route.\<close>

definition dist_worker_read_work :: "slice_engine \<Rightarrow> ds4_dist_work_fixed \<Rightarrow> bytes \<Rightarrow> string + (u32 list \<times> bytes \<times> bytes)" where
  "dist_worker_read_work en work p =
     (let n = unat (w_n_tokens work);
          tokens = map (ntohl p) [0..<n];
          p = drop (4 * n) p;
          prefix_hash = dist_u64_from_halves (w_prefix_hash_hi work) (w_prefix_hash_lo work);
          result_hash = dist_u64_from_halves (w_result_hash_hi work) (w_result_hash_lo work);
          input_hc_present = w_flags work AND DS4_DIST_WORK_F_INPUT_HC \<noteq> 0;
          values = ucast (w_n_tokens work) * en_hidden_values en;
          bits = dist_activation_bits_or_default (w_input_hc_bits work)
      in if \<exists>t \<in> set tokens. t > 0x7fffffff \<or> t \<ge> en_vocab_size en then Inl ''WORK token id is outside the model vocabulary''
         else if dist_token_hash_update_span prefix_hash tokens \<noteq> result_hash then Inl ''WORK token prefix hash metadata mismatch''
         else if values * 4 > 0xffffffff then Inl ''distributed hidden-state payload is too large''
         else if input_hc_present then
           (if \<not> dist_activation_bits_valid bits then Inl ''invalid distributed activation width''
            else case dist_activation_wire_bytes bits values of
              None \<Rightarrow> Inl ''invalid distributed activation width''
            | Some expected \<Rightarrow>
                if w_input_hc_bytes work \<noteq> expected then Inl ''input hidden-state size does not match token span''
                else Inr (tokens, take (unat (w_input_hc_bytes work)) p, drop (unat (w_input_hc_bytes work)) p))
         else if w_input_hc_bytes work \<noteq> 0 then Inl ''WORK frame has hidden bytes without input flag''
         else Inr (tokens, [], p))"

text \<open>The header of the forwarded frame.\<close>

definition dist_forward_work_to_next :: "ds4_dist_route_entry \<Rightarrow> ds4_dist_work_fixed \<Rightarrow> u32 \<Rightarrow> string + ds4_dist_work_fixed" where
  "dist_forward_work_to_next next_hop work hidden_hc_bytes =
     (let bits = dist_activation_bits_or_default (w_input_hc_bits work)
      in case dist_activation_wire_bytes_from_f32_bytes bits hidden_hc_bytes of
           None \<Rightarrow> Inl ''invalid forwarded hidden-state size''
         | Some n \<Rightarrow>
             Inr (work\<lparr>w_layer_start := re_layer_start next_hop, w_layer_end := re_layer_end next_hop, w_route_index := w_route_index work + 1,
               w_flags := (if re_flags next_hop AND DS4_DIST_ROUTE_F_OUTPUT_LOGITS \<noteq> 0
                           then w_flags work OR DS4_DIST_WORK_F_INPUT_HC OR DS4_DIST_WORK_F_OUTPUT_LOGITS
                           else (w_flags work OR DS4_DIST_WORK_F_INPUT_HC) AND NOT DS4_DIST_WORK_F_OUTPUT_LOGITS),
               w_input_hc_bits := bits, w_input_hc_bytes := n\<rparr>))"

text \<open>The session part of the handler, under the worker's lock: the reset, the check of the prefix, the evaluation.\<close>

definition dist_worker_eval_work ::
    "slice_engine \<Rightarrow> ds4_dist_worker_state \<Rightarrow> ds4_dist_work_fixed \<Rightarrow> u32 list \<Rightarrow> bytes option \<Rightarrow> bool \<Rightarrow> bool \<Rightarrow> ds4_dist_worker_state \<times> (string + bytes)" where
  "dist_worker_eval_work en ws work tokens input_hc produce_hidden output_logits =
     (let (ws, se) = dist_worker_get_session_locked ws (dist_u64_from_halves (w_session_hi work) (w_session_lo work));
          prefix_hash = dist_u64_from_halves (w_prefix_hash_hi work) (w_prefix_hash_lo work);
          result_hash = dist_u64_from_halves (w_result_hash_hi work) (w_result_hash_lo work);
          reset = w_flags work AND DS4_DIST_WORK_F_RESET_SESSION \<noteq> 0;
          (sl, reset_error) = (if reset then ds4_session_layer_slice_reset en (se_session se) else (se_session se, None));
          se = se\<lparr>se_session := sl\<rparr>
      in case reset_error of
           Some e \<Rightarrow> (put_session se ws, Inl e)
         | None \<Rightarrow>
             let se = (if reset then se\<lparr>se_token_hash := DS4_DIST_TOKEN_HASH_INIT, se_hash_valid := True\<rparr>
                       else if \<not> se_hash_valid se then se\<lparr>se_token_hash := dist_token_hash_prefix (sl_tokens (se_session se)), se_hash_valid := True\<rparr>
                       else se)
             in if se_token_hash se \<noteq> prefix_hash then (put_session se ws, Inl ''worker KV prefix hash mismatch'')
                else
                  (case ds4_session_eval_layer_slice en (ws_ctx_size ws) (se_session se) tokens (w_n_tokens work) (w_pos0 work)
                          (w_layer_start work) (w_layer_end work) input_hc produce_hidden output_logits of
                     (sl, Inr out) \<Rightarrow> (put_session (se\<lparr>se_session := sl, se_token_hash := result_hash, se_hash_valid := True\<rparr>) ws, Inr out)
                   | (sl, Inl e) \<Rightarrow> (put_session (se\<lparr>se_session := sl, se_hash_valid := False\<rparr>) ws, Inl e)))"

text \<open>What the request asks this worker for: only the side effect, logits, or hidden states.\<close>

definition work_result_kind :: "ds4_dist_work_fixed \<Rightarrow> bool \<Rightarrow> u32" where
  "work_result_kind work has_next =
     (let output_logits = w_flags work AND DS4_DIST_WORK_F_OUTPUT_LOGITS \<noteq> 0;
          ack_only = w_flags work AND DS4_DIST_WORK_F_ACK_ONLY \<noteq> 0;
          final_ack_only = ack_only \<and> \<not> has_next;
          local_output_logits = output_logits \<and> \<not> has_next \<and> \<not> final_ack_only
      in if final_ack_only then DS4_DIST_RESULT_ACK
         else if local_output_logits then DS4_DIST_RESULT_LOGITS else DS4_DIST_RESULT_HIDDEN_STATE)"

definition expected_hc_bytes :: "slice_engine \<Rightarrow> ds4_dist_work_fixed \<Rightarrow> u32" where
  "expected_hc_bytes en work = ucast (ucast (w_n_tokens work) * en_hidden_values en * 4)"

text \<open>The input of the slice.\<close>

definition work_input_hc :: "slice_engine \<Rightarrow> ds4_dist_work_fixed \<Rightarrow> bytes \<Rightarrow> string + bytes option" where
  "work_input_hc en work input_wire =
     (if w_flags work AND DS4_DIST_WORK_F_INPUT_HC \<noteq> 0
      then
        (case dist_decode_activation_payload (en_f8 en) input_wire (dist_activation_bits_or_default (w_input_hc_bits work)) of
           Inl e \<Rightarrow> Inl e
         | Inr (decoded_bytes, hc) \<Rightarrow>
             if decoded_bytes \<noteq> expected_hc_bytes en work then Inl ''decoded input hidden-state size does not match token span''
             else Inr (Some hc))
      else Inr None)"

text \<open>The answer to an evaluated request.\<close>

definition work_answer :: "slice_engine \<Rightarrow> ds4_dist_work_fixed \<Rightarrow> u32 list \<Rightarrow> bytes \<Rightarrow> ds4_dist_route_entry option \<Rightarrow> bytes \<Rightarrow> work_reply" where
  "work_answer en work tokens route_blob next_route out =
     (let request_id = dist_u64_from_halves (w_request_hi work) (w_request_lo work);
          result_kind = work_result_kind work (next_route \<noteq> None);
          bits = dist_activation_bits_or_default (w_input_hc_bits work);
          result_bytes = (if result_kind = DS4_DIST_RESULT_ACK then 0
            else if result_kind = DS4_DIST_RESULT_LOGITS then ucast (ucast (en_vocab_size en) * 4 :: u64) else expected_hc_bytes en work);
          result = take (unat result_bytes) out
      in if result_kind = DS4_DIST_RESULT_HIDDEN_STATE \<and> dist_activation_wire_bytes_from_f32_bytes bits result_bytes = None
         then Error_Reply request_id ''invalid output hidden-state size''
         else
           case next_route of
             None \<Rightarrow> Result_Reply request_id (dist_u64_from_halves (w_result_hash_hi work) (w_result_hash_lo work)) result_kind
               (if result_kind = DS4_DIST_RESULT_HIDDEN_STATE then bits else 32) result
           | Some next_hop \<Rightarrow>
               (case dist_forward_work_to_next next_hop work result_bytes of
                  Inl e \<Rightarrow> Error_Reply request_id e
                | Inr forwarded \<Rightarrow> Forward_Reply next_hop forwarded tokens result route_blob))"

text \<open>The handler of a WORK payload.\<close>

definition dist_worker_process_work_payload :: "slice_engine \<Rightarrow> ds4_dist_worker_state \<Rightarrow> bytes \<Rightarrow> ds4_dist_worker_state \<times> work_reply" where
  "dist_worker_process_work_payload en ws payload =
     (case dist_read_full 80 payload of
        None \<Rightarrow> (ws, Error_Reply 0 ''truncated distributed WORK frame'')
      | Some (h, p) \<Rightarrow>
          let work = dist_work_from_wire h; request_id = dist_u64_from_halves (w_request_hi work) (w_request_lo work)
          in case dist_worker_check_work en ws work (length p) of
               Some e \<Rightarrow> (ws, Error_Reply request_id e)
             | None \<Rightarrow>
                 (case dist_worker_read_work en work p of
                    Inl e \<Rightarrow> (ws, Error_Reply request_id e)
                  | Inr (tokens, input_wire, route_blob) \<Rightarrow>
                      (case dist_worker_check_route en work route_blob of
                         Inl e \<Rightarrow> (ws, Error_Reply request_id e)
                       | Inr next_route \<Rightarrow>
                           (case work_input_hc en work input_wire of
                              Inl e \<Rightarrow> (ws, Error_Reply request_id e)
                            | Inr hc \<Rightarrow>
                                let result_kind = work_result_kind work (next_route \<noteq> None)
                                in case dist_worker_eval_work en ws work tokens hc (result_kind = DS4_DIST_RESULT_HIDDEN_STATE)
                                          (result_kind = DS4_DIST_RESULT_LOGITS) of
                                     (ws, Inl e) \<Rightarrow> (ws, Error_Reply request_id e)
                                   | (ws, Inr out) \<Rightarrow> (ws, work_answer en work tokens route_blob next_route out)))))"

section \<open>The hash of a session is that of its timeline\<close>

definition hash_ok :: "ds4_dist_worker_session \<Rightarrow> bool" where
  "hash_ok se \<longleftrightarrow> (se_hash_valid se \<longrightarrow> se_token_hash se = dist_token_hash_prefix (sl_tokens (se_session se)))"

definition sessions_ok :: "ds4_dist_worker_state \<Rightarrow> bool" where
  "sessions_ok ws \<longleftrightarrow> (\<forall>se \<in> set (ws_sessions ws). hash_ok se)"

lemma sessions_ok_put: "sessions_ok ws \<Longrightarrow> hash_ok se \<Longrightarrow> sessions_ok (put_session se ws)"
  by (auto simp: sessions_ok_def put_session_def)

lemma find_session_member: "find P xs = Some x \<Longrightarrow> x \<in> set xs \<and> P x"
  by (induction xs) (auto split: if_splits)

lemma get_session_ok:
  assumes "sessions_ok ws" "dist_worker_get_session_locked ws i = (ws', se)"
  shows "sessions_ok ws'" "hash_ok se" "se_id se = i" "\<exists>s \<in> set (ws_sessions ws'). se_id s = i"
  using assms find_session_member [of "\<lambda>it. se_id it = i" "ws_sessions ws"]
  by (auto simp: dist_worker_get_session_locked_def dist_worker_find_session_def sessions_ok_def hash_ok_def new_session_def
      split: option.splits)

lemma put_session_member: "\<exists>s \<in> set (ws_sessions ws). se_id s = se_id se \<Longrightarrow> se \<in> set (ws_sessions (put_session se ws))"
  by (force simp: put_session_def)

text \<open>What an evaluation does to the timeline.\<close>

lemma eval_slice_cases:
  assumes "ds4_session_eval_layer_slice en ctx s tokens n pos0 a b i h l = (s', r)"
  shows "(\<exists>out. r = Inr out \<and> s' = ds4_session_slice_commit_timeline s tokens \<and> ds4_session_slice_check_timeline ctx s n pos0 = None)
    \<or> (\<exists>e. r = Inl e \<and> sl_tokens s' = sl_tokens s)"
  using assms by (auto simp: ds4_session_eval_layer_slice_def split: option.splits sum.splits prod.splits if_splits)

text \<open>The session after its reset or with its hash made valid: the timeline and its hash agree.\<close>

lemma eval_work_continues:
  assumes "\<And>s. en_reset en s = None" and "sessions_ok ws"
    and "dist_token_hash_update_span (dist_u64_from_halves (w_prefix_hash_hi work) (w_prefix_hash_lo work)) tokens
      = dist_u64_from_halves (w_result_hash_hi work) (w_result_hash_lo work)"
    and "dist_worker_eval_work en ws work tokens i h l = (ws', r)"
  shows "sessions_ok ws' \<and> (\<forall>out. r = Inr out \<longrightarrow>
    (\<exists>se \<in> set (ws_sessions ws'). \<exists>prefix. se_id se = dist_u64_from_halves (w_session_hi work) (w_session_lo work)
       \<and> sl_tokens (se_session se) = prefix @ tokens
       \<and> dist_token_hash_prefix prefix = dist_u64_from_halves (w_prefix_hash_hi work) (w_prefix_hash_lo work)
       \<and> (w_pos0 work \<noteq> 0 \<longrightarrow> of_nat (length prefix) = w_pos0 work)))"
proof -
  let ?id = "dist_u64_from_halves (w_session_hi work) (w_session_lo work)"
  let ?prefix_hash = "dist_u64_from_halves (w_prefix_hash_hi work) (w_prefix_hash_lo work)"
  obtain ws1 se where get: "dist_worker_get_session_locked ws ?id = (ws1, se)" by fastforce
  note got = get_session_ok [OF assms(2) get]
  define reset where "reset = (w_flags work AND DS4_DIST_WORK_F_RESET_SESSION \<noteq> 0)"
  define sl where "sl = (if reset then \<lparr>sl_tokens = [], sl_valid = False\<rparr> else se_session se)"
  define se2 where "se2 = (let se = se\<lparr>se_session := sl\<rparr> in if reset then se\<lparr>se_token_hash := DS4_DIST_TOKEN_HASH_INIT, se_hash_valid := True\<rparr>
     else if \<not> se_hash_valid se then se\<lparr>se_token_hash := dist_token_hash_prefix (sl_tokens (se_session se)), se_hash_valid := True\<rparr> else se)"
  have se2: "se_token_hash se2 = dist_token_hash_prefix (sl_tokens sl)" "se_session se2 = sl" "se_id se2 = ?id" "se_hash_valid se2"
    using got(2,3) by (auto simp: se2_def sl_def hash_ok_def Let_def)
  have ev: "(if se_token_hash se2 \<noteq> ?prefix_hash then (put_session se2 ws1, Inl ''worker KV prefix hash mismatch'')
      else case ds4_session_eval_layer_slice en (ws_ctx_size ws1) sl tokens (w_n_tokens work) (w_pos0 work)
             (w_layer_start work) (w_layer_end work) i h l of
          (sl, Inr out) \<Rightarrow> (put_session (se2\<lparr>se_session := sl, se_token_hash :=
             dist_u64_from_halves (w_result_hash_hi work) (w_result_hash_lo work), se_hash_valid := True\<rparr>) ws1, Inr out)
        | (sl, Inl e) \<Rightarrow> (put_session (se2\<lparr>se_session := sl, se_hash_valid := False\<rparr>) ws1, Inl e)) = (ws', r)"
    using assms(4) unfolding dist_worker_eval_work_def get Let_def prod.case reset_def [symmetric]
    by (cases reset; cases "se_hash_valid se") (simp_all add: ds4_session_layer_slice_reset_def assms(1) se2_def sl_def
        cong del: if_weak_cong prod.case_cong_weak sum.case_cong_weak option.case_cong_weak)
  show ?thesis
  proof (cases "se_token_hash se2 = ?prefix_hash")
    case False
    then have "ws' = put_session se2 ws1" "r = Inl ''worker KV prefix hash mismatch''" using ev by auto
    moreover have "hash_ok se2" using se2 by (simp add: hash_ok_def)
    ultimately show ?thesis using sessions_ok_put [OF got(1)] by simp
  next
    case True
    obtain sl' r' where e: "ds4_session_eval_layer_slice en (ws_ctx_size ws1) sl tokens (w_n_tokens work) (w_pos0 work)
             (w_layer_start work) (w_layer_end work) i h l = (sl', r')" by fastforce
    show ?thesis
    proof (cases r')
      case (Inl err)
      then have "ws' = put_session (se2\<lparr>se_session := sl', se_hash_valid := False\<rparr>) ws1" "r = Inl err" using ev True e by auto
      then show ?thesis using sessions_ok_put [OF got(1)] by (simp add: hash_ok_def)
    next
      case (Inr out)
      define se3 where "se3 = se2\<lparr>se_session := sl', se_token_hash :=
             dist_u64_from_halves (w_result_hash_hi work) (w_result_hash_lo work), se_hash_valid := True\<rparr>"
      have ws': "ws' = put_session se3 ws1" "r = Inr out" using ev True e Inr by (auto simp: se3_def)
      have sl': "sl' = ds4_session_slice_commit_timeline sl tokens" "ds4_session_slice_check_timeline (ws_ctx_size ws1) sl (w_n_tokens work) (w_pos0 work) = None"
        using eval_slice_cases [OF e] Inr by auto
      have tl: "sl_tokens (se_session se3) = sl_tokens sl @ tokens" by (simp add: se3_def sl' ds4_session_slice_commit_timeline_def)
      have "se_token_hash se3 = dist_token_hash_update_span (dist_token_hash_prefix (sl_tokens sl)) tokens"
        using assms(3) True se2(1) by (simp add: se3_def)
      then have ok: "hash_ok se3" using tl by (simp add: hash_ok_def)
      have "w_pos0 work \<noteq> 0 \<longrightarrow> of_nat (length (sl_tokens sl)) = w_pos0 work"
        using sl'(2) by (auto simp: ds4_session_slice_check_timeline_def split: if_splits)
      moreover have "se3 \<in> set (ws_sessions ws')" "se_id se3 = ?id"
        using put_session_member [of ws1 se3] got(4) se2(3) by (simp_all add: ws' se3_def)
      moreover have "dist_token_hash_prefix (sl_tokens sl) = ?prefix_hash" using True se2(1) by simp
      ultimately show ?thesis using tl sessions_ok_put [OF got(1) ok] ws' by blast
    qed
  qed
qed

definition evaluated :: "work_reply \<Rightarrow> bool" where
  "evaluated reply \<longleftrightarrow> (case reply of Result_Reply _ _ _ _ _ \<Rightarrow> True | Forward_Reply _ _ _ _ _ \<Rightarrow> True | _ \<Rightarrow> False)"

definition payload_work :: "bytes \<Rightarrow> ds4_dist_work_fixed" where
  "payload_work payload = dist_work_from_wire (take 80 payload)"

lemma read_work_hash:
  "dist_worker_read_work en work p = Inr (tokens, i, b) \<Longrightarrow>
   dist_token_hash_update_span (dist_u64_from_halves (w_prefix_hash_hi work) (w_prefix_hash_lo work)) tokens
     = dist_u64_from_halves (w_result_hash_hi work) (w_result_hash_lo work)
   \<and> tokens = map (ntohl p) [0..<unat (w_n_tokens work)]"
  by (auto simp: dist_worker_read_work_def Let_def split: if_splits option.splits)

lemma process_work_cases:
  assumes "dist_worker_process_work_payload en ws payload = (ws', reply)"
  shows "(ws' = ws \<and> \<not> evaluated reply) \<or>
    (\<exists>tokens i b hc h l r. dist_worker_read_work en (payload_work payload) (drop 80 payload) = Inr (tokens, i, b)
       \<and> dist_worker_eval_work en ws (payload_work payload) tokens hc h l = (ws', r) \<and> (evaluated reply \<longrightarrow> (\<exists>out. r = Inr out)))"
proof (cases "80 \<le> length payload")
  case False
  then show ?thesis using assms by (auto simp: dist_worker_process_work_payload_def dist_read_full_def evaluated_def)
next
  case True
  then have read: "dist_read_full 80 payload = Some (take 80 payload, drop 80 payload)" by (simp add: dist_read_full_def)
  note p = assms [unfolded dist_worker_process_work_payload_def read option.case prod.case Let_def, folded payload_work_def]
  show ?thesis
  proof (cases "dist_worker_check_work en ws (payload_work payload) (length (drop 80 payload))")
    case (Some e)
    then show ?thesis using p by (auto simp: evaluated_def)
  next
    case None
    note p = p [unfolded None option.case]
    show ?thesis
    proof (cases "dist_worker_read_work en (payload_work payload) (drop 80 payload)")
      case (Inl e)
      then show ?thesis using p by (auto simp: evaluated_def)
    next
      case (Inr c)
      obtain tokens i b where c: "c = (tokens, i, b)" by (cases c) auto
      note p = p [unfolded Inr c sum.case prod.case]
      show ?thesis
      proof (cases "dist_worker_check_route en (payload_work payload) b")
        case (Inl e)
        then show ?thesis using p by (auto simp: evaluated_def)
      next
        case route: (Inr next_route)
        note p = p [unfolded route sum.case]
        show ?thesis
        proof (cases "work_input_hc en (payload_work payload) i")
          case (Inl e)
          then show ?thesis using p by (auto simp: evaluated_def)
        next
          case hc: (Inr hc)
          let ?kind = "work_result_kind (payload_work payload) (next_route \<noteq> None)"
          obtain ws1 r where e: "dist_worker_eval_work en ws (payload_work payload) tokens hc (?kind = DS4_DIST_RESULT_HIDDEN_STATE)
              (?kind = DS4_DIST_RESULT_LOGITS) = (ws1, r)" by fastforce
          have "ws' = ws1 \<and> (evaluated reply \<longrightarrow> (\<exists>out. r = Inr out))"
            using p [unfolded hc sum.case e prod.case] by (cases r) (auto simp: evaluated_def)
          then show ?thesis using Inr c e by blast
        qed
      qed
    qed
  qed
qed

lemma process_work_ok:
  assumes "\<And>s. en_reset en s = None" "sessions_ok ws"
  shows "sessions_ok (fst (dist_worker_process_work_payload en ws payload))"
proof -
  obtain ws' reply where p: "dist_worker_process_work_payload en ws payload = (ws', reply)" by fastforce
  from process_work_cases [OF p] show ?thesis
  proof
    assume "\<exists>tokens i b hc h l r. dist_worker_read_work en (payload_work payload) (drop 80 payload) = Inr (tokens, i, b)
       \<and> dist_worker_eval_work en ws (payload_work payload) tokens hc h l = (ws', r) \<and> (evaluated reply \<longrightarrow> (\<exists>out. r = Inr out))"
    then obtain tokens i b hc h l r where "dist_worker_read_work en (payload_work payload) (drop 80 payload) = Inr (tokens, i, b)"
      "dist_worker_eval_work en ws (payload_work payload) tokens hc h l = (ws', r)" by blast
    from eval_work_continues [OF assms conjunct1 [OF read_work_hash [OF this(1)]] this(2)] show ?thesis by (simp add: p)
  qed (simp add: p assms(2))
qed

text \<open>The worker after a history of payloads, well formed or not, from its start without sessions.\<close>

definition worker_after :: "slice_engine \<Rightarrow> ds4_dist_worker_state \<Rightarrow> bytes list \<Rightarrow> ds4_dist_worker_state" where
  "worker_after en ws payloads = fold (\<lambda>payload ws. fst (dist_worker_process_work_payload en ws payload)) payloads (ws\<lparr>ws_sessions := []\<rparr>)"

text \<open>
  As long as resets of the graph succeed, every session whose token hash is marked valid holds the hash of exactly the tokens of
  its timeline.
\<close>
lemma worker_hashes_true:
  assumes "\<And>s. en_reset en s = None"
  shows "sessions_ok (worker_after en ws payloads)"
proof -
  have "sessions_ok (ws\<lparr>ws_sessions := []\<rparr>)" by (simp add: sessions_ok_def)
  then show ?thesis using process_work_ok [OF assms] by (induction payloads arbitrary: ws rule: rev_induct) (simp_all add: worker_after_def)
qed

text \<open>
  A reset that fails is the exception: it has emptied the timeline, and the old hash stays marked valid. The check of the
  position refuses what would follow, unless the next request starts at position 0 with the old hash as its prefix.
\<close>
lemma failed_reset_keeps_hash:
  assumes "en_reset en (se_session se) = Some e" "w_flags work AND DS4_DIST_WORK_F_RESET_SESSION \<noteq> 0"
    and "dist_worker_find_session ws (dist_u64_from_halves (w_session_hi work) (w_session_lo work)) = Some se"
  shows "\<exists>se' \<in> set (ws_sessions (fst (dist_worker_eval_work en ws work tokens hc h l))).
    se_id se' = se_id se \<and> sl_tokens (se_session se') = [] \<and> se_token_hash se' = se_token_hash se \<and> se_hash_valid se' = se_hash_valid se"
proof -
  let ?s = "se\<lparr>se_session := \<lparr>sl_tokens = [], sl_valid = False\<rparr>\<rparr>"
  have "se \<in> set (ws_sessions ws)" using assms(3) find_session_member by (fastforce simp: dist_worker_find_session_def)
  then have "?s \<in> set (ws_sessions (put_session ?s ws))" by (intro put_session_member) auto
  then show ?thesis using assms
    by (intro bexI [of _ ?s]) (simp_all add: dist_worker_eval_work_def dist_worker_get_session_locked_def ds4_session_layer_slice_reset_def)
qed

lemma evaluated_continues:
  assumes "\<And>s. en_reset en s = None" and "sessions_ok ws"
    and "dist_worker_process_work_payload en ws payload = (ws', reply)" and "evaluated reply"
  defines "work \<equiv> payload_work payload"
  shows "\<exists>se \<in> set (ws_sessions ws'). \<exists>prefix tokens. se_id se = dist_u64_from_halves (w_session_hi work) (w_session_lo work)
    \<and> sl_tokens (se_session se) = prefix @ tokens \<and> length tokens = unat (w_n_tokens work)
    \<and> dist_token_hash_prefix prefix = dist_u64_from_halves (w_prefix_hash_hi work) (w_prefix_hash_lo work)
    \<and> dist_token_hash_prefix (prefix @ tokens) = dist_u64_from_halves (w_result_hash_hi work) (w_result_hash_lo work)
    \<and> (w_pos0 work \<noteq> 0 \<longrightarrow> of_nat (length prefix) = w_pos0 work)"
proof -
  obtain tokens i b hc h l out where r: "dist_worker_read_work en work (drop 80 payload) = Inr (tokens, i, b)"
    "dist_worker_eval_work en ws work tokens hc h l = (ws', Inr out)"
    using process_work_cases [OF assms(3)] assms(4) unfolding work_def by blast
  note hash = read_work_hash [OF r(1)]
  obtain se prefix where se: "se \<in> set (ws_sessions ws')" "se_id se = dist_u64_from_halves (w_session_hi work) (w_session_lo work)"
    "sl_tokens (se_session se) = prefix @ tokens" "dist_token_hash_prefix prefix = dist_u64_from_halves (w_prefix_hash_hi work) (w_prefix_hash_lo work)"
    "w_pos0 work \<noteq> 0 \<longrightarrow> of_nat (length prefix) = w_pos0 work"
    using eval_work_continues [OF assms(1,2) conjunct1 [OF hash] r(2)] by blast
  have "dist_token_hash_prefix (prefix @ tokens) = dist_token_hash_update_span (dist_token_hash_prefix prefix) tokens" by simp
  also have "\<dots> = dist_u64_from_halves (w_result_hash_hi work) (w_result_hash_lo work)" unfolding se(4) using hash by blast
  finally have "dist_token_hash_prefix (prefix @ tokens) = dist_u64_from_halves (w_result_hash_hi work) (w_result_hash_lo work)" .
  moreover have "length tokens = unat (w_n_tokens work)" using hash by simp
  ultimately show ?thesis using se by blast
qed


section \<open>A request along its route\<close>

text \<open>
  The header of the request for the hop \<open>i\<close> of a plan: \<open>hv\<close> is the number of floats of a token's hidden state. The hashes, the position
  and the session stay as the coordinator set them.
\<close>

definition work_at :: "ds4_dist_coordinator_state \<Rightarrow> ds4_dist_route_plan \<Rightarrow> u32 list \<Rightarrow> nat \<Rightarrow> nat \<Rightarrow> ds4_dist_work_fixed \<Rightarrow> bool" where
  "work_at st plan tokens hv i work \<longleftrightarrow>
     w_model_id work = co_model_id st \<and> w_n_tokens work = of_nat (length tokens) \<and> w_token_bytes work = of_nat (4 * length tokens)
     \<and> w_layer_start work = re_layer_start (pl_entry plan ! i) \<and> w_layer_end work = re_layer_end (pl_entry plan ! i)
     \<and> w_route_count work = of_nat (length (pl_entry plan)) \<and> w_route_index work = of_nat i \<and> w_route_bytes work = of_nat (length (pl_blob plan))
     \<and> w_flags work AND DS4_DIST_WORK_F_INPUT_HC \<noteq> 0 \<and> w_flags work AND NOT DS4_DIST_WORK_F_VALID_MASK = 0
     \<and> (w_flags work AND DS4_DIST_WORK_F_OUTPUT_LOGITS \<noteq> 0 \<longleftrightarrow> re_flags (pl_entry plan ! i) AND DS4_DIST_ROUTE_F_OUTPUT_LOGITS \<noteq> 0)
     \<and> dist_activation_bits_valid (w_input_hc_bits work)
     \<and> w_input_hc_bytes work = of_nat (length tokens * hv * bytes_per_value (w_input_hc_bits work))
     \<and> dist_token_hash_update_span (dist_u64_from_halves (w_prefix_hash_hi work) (w_prefix_hash_lo work)) tokens
         = dist_u64_from_halves (w_result_hash_hi work) (w_result_hash_lo work)"

text \<open>The worker of the hop, for a span of tokens.\<close>

definition worker_at ::
    "ds4_dist_coordinator_state \<Rightarrow> ds4_dist_route_plan \<Rightarrow> u32 list \<Rightarrow> u32 \<Rightarrow> nat \<Rightarrow> nat \<Rightarrow> slice_engine \<Rightarrow> ds4_dist_worker_state \<Rightarrow> bool" where
  "worker_at st plan tokens pos0 hv i en ws \<longleftrightarrow>
     ws_model_id ws = co_model_id st \<and> ws_layer_start ws = re_layer_start (pl_entry plan ! i) \<and> ws_layer_end ws = re_layer_end (pl_entry plan ! i)
     \<and> (re_flags (pl_entry plan ! i) AND DS4_DIST_ROUTE_F_OUTPUT_LOGITS \<noteq> 0 \<longrightarrow> ws_has_output ws)
     \<and> en_n_layers en = co_n_layers st \<and> ws_ctx_size ws \<le> 0x7fffffff \<and> unat pos0 + length tokens \<le> unat (ws_ctx_size ws)
     \<and> unat (en_hidden_values en) = hv \<and> (\<forall>t \<in> set tokens. t \<le> 0x7fffffff \<and> t < en_vocab_size en)"

text \<open>The session is reset by the request, or its timeline is the prefix.\<close>

definition session_ready :: "ds4_dist_worker_state \<Rightarrow> ds4_dist_work_fixed \<Rightarrow> bool" where
  "session_ready ws work \<longleftrightarrow>
     (let prefix_hash = dist_u64_from_halves (w_prefix_hash_hi work) (w_prefix_hash_lo work)
      in if w_flags work AND DS4_DIST_WORK_F_RESET_SESSION \<noteq> 0 then w_pos0 work = 0 \<and> prefix_hash = DS4_DIST_TOKEN_HASH_INIT
         else \<exists>se. dist_worker_find_session ws (dist_u64_from_halves (w_session_hi work) (w_session_lo work)) = Some se \<and> hash_ok se
           \<and> sl_valid (se_session se) \<and> of_nat (length (sl_tokens (se_session se))) = w_pos0 work
           \<and> dist_token_hash_prefix (sl_tokens (se_session se)) = prefix_hash)"

lemma ntohl_append: "4 * i + 3 < length b \<Longrightarrow> ntohl (b @ r) i = ntohl b i"
  by (simp add: ntohl_def nth_append)

lemma length_htonls [simp]: "length (concat (map htonl ws)) = 4 * length ws"
  by (induction ws) simp_all

lemma read_tokens: "map (ntohl (concat (map htonl ws) @ r)) [0..<length ws] = ws"
  by (rule nth_equalityI) (simp_all add: ntohl_append ntohl_htonl)

lemma values_exact:
  assumes "dist_activation_bits_valid bits" "nv * bytes_per_value bits < 2 ^ 32"
  shows "dist_activation_values_from_wire_bytes bits (of_nat (nv * bytes_per_value bits)) = Some (of_nat nv)"
proof -
  have u: "unat (of_nat (nv * bytes_per_value bits) :: u32) = nv * bytes_per_value bits" using assms(2) by (rule unat_of_nat_u32)
  have bp: "unat (dist_activation_bits_or_default bits div 8) = bytes_per_value bits" "bytes_per_value bits \<noteq> 0"
    "dist_activation_bits_or_default bits mod 8 = 0" "dist_activation_bits_or_default bits div 8 \<noteq> 0"
    using assms(1) by (elim activation_bits_cases; simp add: bytes_per_value_def)+
  have v: "nv < 2 ^ 32" using assms(2) bp(2) by (cases "bytes_per_value bits") auto
  have "unat ((of_nat (nv * bytes_per_value bits) :: u32) div (dist_activation_bits_or_default bits div 8)) = nv"
    unfolding unat_div_distrib u using bp(2) by (simp flip: bytes_per_value_def)
  then have d: "(of_nat (nv * bytes_per_value bits) :: u32) div (dist_activation_bits_or_default bits div 8) = of_nat nv"
    by (simp only: word_unat_eq_iff unat_of_nat_u32 [OF v])
  have m: "(of_nat (nv * bytes_per_value bits) :: u32) mod (dist_activation_bits_or_default bits div 8) = 0"
    unfolding word_unat_eq_iff unat_mod_distrib unat_div_distrib u by (simp flip: bytes_per_value_def)
  show ?thesis
    using assms(1) bp d m ucast_of_nat_u32 [OF v] by (simp add: dist_activation_values_from_wire_bytes_def Let_def del: of_nat_mult)
qed

text \<open>What is written for the activations has the announced size and decodes.\<close>

lemma write_activation_size:
  assumes "dist_activation_bits_valid bits" "0 < nv" "nv * bytes_per_value bits < 2 ^ 32" "length hc = 4 * nv"
  shows "\<exists>a. dist_write_activation_payload f8 hc nv bits = Some a \<and> length a = nv * bytes_per_value bits"
proof -
  have valid: "dist_activation_bits_valid (dist_activation_bits_or_default bits)" using assms(1) by simp
  note w = wire_bytes_exact [OF valid, of nv]
  show ?thesis
    using assms(1)
  proof (cases rule: activation_bits_cases)
    case 1
    then have "bytes_per_value bits = 4" by (simp add: bytes_per_value_def)
    moreover from this have "bytes_per_value (dist_activation_bits_or_default bits) = 4" by (simp add: bytes_per_value_def)
    ultimately show ?thesis using assms w valid 1 unat_of_nat_u32 [of "nv * 4"] by (simp add: dist_write_activation_payload_def Let_def del: of_nat_mult)
  next
    case 2
    have "length (concat (map (\<lambda>i. half_mem (dist_f32_to_f16 (mem_word hc i))) [0..<n])) = n * 2" for n
      by (induction n) (simp_all add: half_mem_def)
    then show ?thesis using assms 2 by (simp add: dist_write_activation_payload_def bytes_per_value_def Let_def dist_activation_bits_valid_def dist_activation_bits_or_default_def)
  next
    case 3
    then show ?thesis using assms by (simp add: dist_write_activation_payload_def bytes_per_value_def Let_def dist_activation_bits_valid_def dist_activation_bits_or_default_def)
  qed
qed

lemma decode_activation_size:
  assumes "dist_activation_bits_valid bits" "nv * 4 < 2 ^ 32" "length a = nv * bytes_per_value bits"
  shows "\<exists>hc. dist_decode_activation_payload f8 a (dist_activation_bits_or_default bits) = Inr (of_nat (nv * 4), hc)"
proof -
  have "bytes_per_value bits \<le> 4" using assms(1) by (elim activation_bits_cases) (simp_all add: bytes_per_value_def)
  then have "nv * bytes_per_value bits \<le> nv * 4" by (rule mult_le_mono2)
  then have small: "nv * bytes_per_value bits < 2 ^ 32" using assms(2) by linarith
  have v: "dist_activation_values_from_wire_bytes (dist_activation_bits_or_default bits) (of_nat (length a)) = Some (of_nat nv)"
    using values_exact [of "dist_activation_bits_or_default bits" nv] assms(1) small by (simp add: assms(3) bytes_per_value_def)
  have u: "unat ((of_nat nv :: u64) * 4) = nv * 4"
    using assms(2) unat_of_nat_u64 [of "nv * 4"] by (simp add: mult.commute)
  then have "\<not> (of_nat nv :: u64) * 4 > 0xffffffff" using assms(2) by (simp add: word_less_nat_alt)
  moreover have "(ucast ((of_nat nv :: u64) * 4) :: u32) = of_nat (nv * 4)"
    unfolding word_unat_eq_iff unat_of_nat_u32 [OF assms(2)] unsigned_ucast_eq u using assms(2) by (simp add: take_bit_nat_eq_self)
  ultimately show ?thesis using assms(1) v by (auto simp: dist_decode_activation_payload_def Let_def)
qed

text \<open>The frame of a hop, and that the worker of the hop accepts it.\<close>

lemma send_frame:
  assumes "work_at st plan tokens hv i work" "tokens \<noteq> []" "0 < hv" "length tokens * hv * 4 < 2 ^ 32" "length hc = 4 * (length tokens * hv)"
    and "80 + 4 * length tokens + 4 * (length tokens * hv) + length (pl_blob plan) \<le> UINT32_MAX"
  shows "\<exists>a. dist_send_work_frame f8 work tokens hc (pl_blob plan) = Some (dist_work_to_wire work @ concat (map htonl tokens) @ a @ pl_blob plan)
    \<and> length a = length tokens * hv * bytes_per_value (w_input_hc_bits work) \<and> unat (w_input_hc_bytes work) = length a
    \<and> unat (w_token_bytes work) = 4 * length tokens \<and> unat (w_n_tokens work) = length tokens \<and> unat (w_route_bytes work) = length (pl_blob plan)"
proof -
  let ?bits = "w_input_hc_bits work" and ?nv = "length tokens * hv"
  have bits: "dist_activation_bits_valid ?bits" using assms(1) by (simp add: work_at_def)
  then have bp: "bytes_per_value ?bits \<le> 4" "0 < bytes_per_value ?bits" by (elim activation_bits_cases; simp add: bytes_per_value_def)+
  have nv: "0 < ?nv" using assms(2,3) by simp
  have le: "?nv * bytes_per_value ?bits \<le> 4 * ?nv" using bp(1) by (simp add: mult.commute mult_le_mono2)
  then have small: "?nv * bytes_per_value ?bits < 2 ^ 32" using assms(4) by linarith
  obtain a where a: "dist_write_activation_payload f8 hc ?nv ?bits = Some a" "length a = ?nv * bytes_per_value ?bits"
    using write_activation_size [OF bits nv small assms(5)] by blast
  have sizes: "unat (w_token_bytes work) = 4 * length tokens" "unat (w_n_tokens work) = length tokens"
    "unat (w_input_hc_bytes work) = ?nv * bytes_per_value ?bits" "unat (w_route_bytes work) = length (pl_blob plan)"
  proof -
    have w: "w_token_bytes work = of_nat (4 * length tokens)" "w_n_tokens work = of_nat (length tokens)"
      "w_input_hc_bytes work = of_nat (?nv * bytes_per_value ?bits)" "w_route_bytes work = of_nat (length (pl_blob plan))"
      using assms(1) by (simp_all add: work_at_def)
    show "unat (w_token_bytes work) = 4 * length tokens" unfolding w using assms(6) by (intro unat_of_nat_u32) simp
    show "unat (w_n_tokens work) = length tokens" unfolding w using assms(6) by (intro unat_of_nat_u32) simp
    show "unat (w_input_hc_bytes work) = ?nv * bytes_per_value ?bits" unfolding w(3) using small by (rule unat_of_nat_u32)
    show "unat (w_route_bytes work) = length (pl_blob plan)" unfolding w using assms(6) by (intro unat_of_nat_u32) simp
  qed
  have pos: "w_n_tokens work \<noteq> 0" "w_input_hc_bytes work \<noteq> 0"
    using sizes(2,3) assms(2) nv bp(2) by (auto simp: unat_eq_zero dest: arg_cong [where f = unat])
  have v: "dist_activation_values_from_wire_bytes ?bits (w_input_hc_bytes work) = Some (of_nat ?nv)"
    using values_exact [OF bits small] assms(1) by (simp add: work_at_def del: of_nat_mult)
  have nv64: "unat (of_nat ?nv :: u64) = ?nv"
  proof (rule unat_of_nat_u64)
    have "?nv < 2 ^ 32" using assms(4) by linarith
    then show "?nv < 2 ^ 64" by (rule less_trans) simp
  qed
  have rb: "(if w_route_bytes work \<noteq> 0 then pl_blob plan else []) = pl_blob plan" using sizes(4) by (auto simp: unat_eq_zero)
  have fits: "\<not> 80 + unat (w_token_bytes work) + unat (w_input_hc_bytes work) + unat (w_route_bytes work) > UINT32_MAX"
    "\<not> (4 * unat (w_n_tokens work) > UINT32_MAX \<or> unat (w_token_bytes work) \<noteq> 4 * unat (w_n_tokens work))"
    unfolding sizes using assms(6) le by linarith+
  have "dist_send_work_frame f8 work tokens hc (pl_blob plan) = Some (dist_work_to_wire work @ concat (map htonl tokens) @ a @ pl_blob plan)"
    unfolding dist_send_work_frame_def rb using pos fits v a(1) nv64 by simp
  then show ?thesis using a(2) sizes by simp
qed

lemma check_work_passes:
  assumes "work_at st plan tokens hv i work" "worker_at st plan tokens (w_pos0 work) hv i en ws"
    and "tokens \<noteq> []" "i < length (pl_entry plan)" "length (pl_entry plan) < 2 ^ 32" "re_layer_start (pl_entry plan ! i) \<noteq> 0"
    and "re_flags (pl_entry plan ! i) = 0 \<or> re_layer_end (pl_entry plan ! i) + 1 = co_n_layers st"
    and "unat (w_token_bytes work) = 4 * length tokens" "unat (w_n_tokens work) = length tokens"
    and "unat (w_token_bytes work) + unat (w_input_hc_bytes work) + unat (w_route_bytes work) = remaining"
  shows "dist_worker_check_work en ws work remaining = None"
proof -
  note w = assms(1) [unfolded work_at_def] and ws = assms(2) [unfolded worker_at_def]
  have "unat (w_route_count work) = length (pl_entry plan)" "unat (w_route_index work) = i"
    using w assms(4,5) by (auto intro: unat_of_nat_u32)
  then have route: "w_route_count work \<noteq> 0" "\<not> w_route_count work \<le> w_route_index work"
    using assms(4) by (auto simp: word_le_nat_alt)
  have "w_pos0 work \<le> ws_ctx_size ws" using ws by (simp add: word_le_nat_alt)
  moreover from this have "unat (ws_ctx_size ws - w_pos0 work) = unat (ws_ctx_size ws) - unat (w_pos0 work)" by (simp add: unat_sub)
  ultimately have span: "\<not> (w_pos0 work > ws_ctx_size ws \<or> w_n_tokens work > ws_ctx_size ws - w_pos0 work)"
    using ws assms(9) by (auto simp: word_less_nat_alt word_le_nat_alt)
  have n: "w_n_tokens work \<noteq> 0" using assms(3,9) by auto
  have out: "w_flags work AND DS4_DIST_WORK_F_OUTPUT_LOGITS \<noteq> 0 \<Longrightarrow> ws_has_output ws \<and> w_layer_end work + 1 = en_n_layers en"
    using w ws assms(7) by auto
  have sizes: "\<not> (unat (w_token_bytes work) \<noteq> 4 * unat (w_n_tokens work)
      \<or> unat (w_token_bytes work) + unat (w_input_hc_bytes work) + unat (w_route_bytes work) \<noteq> remaining)" using assms(8-10) by simp
  have "w_model_id work = ws_model_id ws" "w_layer_start work = ws_layer_start ws" "w_layer_end work = ws_layer_end ws"
    "w_flags work AND NOT DS4_DIST_WORK_F_VALID_MASK = 0" "w_flags work AND DS4_DIST_WORK_F_INPUT_HC \<noteq> 0" "ws_layer_start ws \<noteq> 0"
    using w ws assms(6) by simp_all
  then show ?thesis unfolding dist_worker_check_work_def Let_def
    using sizes route span n out by auto
qed

lemma pow32: "(2 :: nat) ^ 32 = 4294967296"
  by simp

lemma read_work_passes:
  assumes "work_at st plan tokens hv i work" "worker_at st plan tokens (w_pos0 work) hv i en ws" "length tokens * hv * 4 < 2 ^ 32"
    and "unat (w_n_tokens work) = length tokens" "unat (w_input_hc_bytes work) = length a"
  shows "dist_worker_read_work en work (concat (map htonl tokens) @ a @ blob) = Inr (tokens, a, blob)"
    and "expected_hc_bytes en work = of_nat (length tokens * hv * 4)"
proof -
  note w = assms(1) [unfolded work_at_def] and ws = assms(2) [unfolded worker_at_def]
  let ?nv = "length tokens * hv" and ?bits = "w_input_hc_bits work"
  have "(ucast (w_n_tokens work) :: u64) = of_nat (length tokens)" "en_hidden_values en = of_nat hv"
  proof -
    have "unat (w_n_tokens work) < 2 ^ LENGTH(32)" by (rule unsigned_less)
    then have "length tokens < 2 ^ 32" by (simp add: assms(4))
    then show "(ucast (w_n_tokens work) :: u64) = of_nat (length tokens)" using w ucast_of_nat_u32 by simp
    show "en_hidden_values en = of_nat hv" using ws by (metis of_nat_unat ucast_id)
  qed
  then have v: "ucast (w_n_tokens work) * en_hidden_values en = (of_nat ?nv :: u64)" by simp
  have u: "unat ((of_nat ?nv :: u64) * 4) = ?nv * 4" using unat_of_nat_u64 [of "?nv * 4"] assms(3) by (simp add: mult.commute)
  have "unat (0xffffffff :: u64) = 4294967295" by simp
  moreover have "?nv * 4 \<le> 4294967295" using assms(3) unfolding pow32 by linarith
  ultimately have big: "\<not> (of_nat ?nv :: u64) * 4 > 0xffffffff" unfolding word_less_nat_alt u by linarith
  have bits: "dist_activation_bits_valid ?bits" using w by simp
  have "bytes_per_value ?bits \<le> 4" using bits by (elim activation_bits_cases; simp add: bytes_per_value_def)
  then have "?nv * bytes_per_value ?bits \<le> ?nv * 4" by (rule mult_le_mono2)
  then have small: "?nv * bytes_per_value ?bits < 2 ^ 32" using assms(3) by linarith
  have wb: "dist_activation_wire_bytes (dist_activation_bits_or_default ?bits) (of_nat ?nv) = Some (w_input_hc_bytes work)"
    using wire_bytes_exact [of "dist_activation_bits_or_default ?bits" ?nv] bits small w by (simp add: bytes_per_value_def del: of_nat_mult)
  have vocab: "\<not> (\<exists>t \<in> set tokens. t > 0x7fffffff \<or> t \<ge> en_vocab_size en)" using ws by (auto simp: not_le not_less)
  have drop: "drop (4 * length tokens) (concat (map htonl tokens) @ a @ blob) = a @ blob" by simp
  have hash: "dist_token_hash_update_span (dist_u64_from_halves (w_prefix_hash_hi work) (w_prefix_hash_lo work)) tokens
      = dist_u64_from_halves (w_result_hash_hi work) (w_result_hash_lo work)" and inp: "w_flags work AND DS4_DIST_WORK_F_INPUT_HC \<noteq> 0"
    using w by blast+
  show "dist_worker_read_work en work (concat (map htonl tokens) @ a @ blob) = Inr (tokens, a, blob)"
    unfolding dist_worker_read_work_def Let_def assms(4) read_tokens drop v using vocab hash big inp bits wb assms(5) by simp
  show "expected_hc_bytes en work = of_nat (?nv * 4)"
    unfolding expected_hc_bytes_def v word_unat_eq_iff unat_of_nat_u32 [OF assms(3)] unsigned_ucast_eq u
    using assms(3) by (simp add: take_bit_nat_eq_self)
qed

definition next_hop_of :: "ds4_dist_route_plan \<Rightarrow> nat \<Rightarrow> ds4_dist_route_entry option" where
  "next_hop_of plan i = (if Suc i < length (pl_entry plan) then Some ((pl_entry plan ! Suc i)\<lparr>re_fd := -1\<rparr>) else None)"

lemma check_route_passes:
  assumes "registry_ok st" "dist_coordinator_build_route_plan st dup = Some (Inr (plan, g))" "i < length (pl_entry plan)"
    and "work_at st plan tokens hv i work" "en_n_layers en = co_n_layers st"
  shows "dist_worker_check_route en work (pl_blob plan) = Inr (next_hop_of plan i)"
proof -
  have ne: "pl_entry plan \<noteq> []" using assms(3) by auto
  note hops = plan_hops [OF assms(1,2) ne] and read_back = plan_entries_read_back [OF assms(1,2) ne]
  let ?n = "of_nat (length (pl_entry plan)) :: u32"
  have len: "unat ?n = length (pl_entry plan)" using hops(2) by (rule unat_of_nat_u32)
  have w: "w_route_count work = ?n" "w_route_index work = of_nat i" "w_layer_start work = re_layer_start (pl_entry plan ! i)"
    "w_layer_end work = re_layer_end (pl_entry plan ! i)"
    "(w_flags work AND DS4_DIST_WORK_F_OUTPUT_LOGITS \<noteq> 0) = (re_flags (pl_entry plan ! i) AND DS4_DIST_ROUTE_F_OUTPUT_LOGITS \<noteq> 0)"
    using assms(4) by (simp_all add: work_at_def)
  have "i < 2 ^ 32" "Suc i < 2 ^ 32" using assms(3) hops(2) by linarith+
  note i = this [THEN unat_of_nat_u32]
  have suc: "(of_nat i :: u32) + 1 = of_nat (Suc i)" by simp
  have has_next: "(of_nat i :: u32) + 1 < ?n \<longleftrightarrow> Suc i < length (pl_entry plan)" unfolding suc word_less_nat_alt i len ..
  have valid: "dist_route_validate_blob (pl_blob plan) ?n (co_n_layers st) = None" using read_back by blast
  have entry: "dist_route_get_entry (pl_blob plan) ?n (of_nat k) = Inr ((pl_entry plan ! k)\<lparr>re_fd := -1\<rparr>)" if "k < length (pl_entry plan)" for k
    using read_back that by blast
  have ret: "dist_route_get_return_target (pl_blob plan) ?n = Inr \<lparr>rt_host = [], rt_port = 0, rt_kind = DS4_DIST_ROUTE_RETURN_UPSTREAM\<rparr>"
    using read_back by blast
  show ?thesis
  proof (cases "Suc i < length (pl_entry plan)")
    case True
    note e = hops_ok_nth [OF hops(1)] and c = hops_contiguous [OF hops(1) True]
    have "re_layer_end (pl_entry plan ! i) + 1 < co_n_layers st" using e [OF True] c by (simp add: word_le_nat_alt word_less_nat_alt)
    then have "re_flags (pl_entry plan ! i) AND DS4_DIST_ROUTE_F_OUTPUT_LOGITS = 0" using e [OF assms(3)] by auto
    then show ?thesis unfolding dist_worker_check_route_def Let_def w assms(5) valid option.case has_next entry [OF assms(3)] sum.case
      using True entry [OF True] by (simp add: next_hop_of_def suc del: of_nat_Suc)
  next
    case False
    then show ?thesis unfolding dist_worker_check_route_def Let_def w assms(5) valid option.case has_next entry [OF assms(3)] sum.case
      by (simp add: next_hop_of_def ret)
  qed
qed

lemma eval_work_runs:
  assumes "session_ready ws work" "\<And>s. en_reset en s = None" "\<And>s i h l. en_run en s tokens (w_pos0 work) (w_layer_start work) (w_layer_end work) i h l = Inr out"
    and "unat (w_n_tokens work) = length tokens" "tokens \<noteq> []" "ws_ctx_size ws \<le> 0x7fffffff" "unat (w_pos0 work) + length tokens \<le> unat (ws_ctx_size ws)"
  shows "\<exists>ws'. dist_worker_eval_work en ws work tokens i h l = (ws', Inr out)"
proof -
  have "w_pos0 work \<le> ws_ctx_size ws" using assms(7) by (simp add: word_le_nat_alt)
  moreover from this have "unat (ws_ctx_size ws - w_pos0 work) = unat (ws_ctx_size ws) - unat (w_pos0 work)" by (simp add: unat_sub)
  ultimately have span: "w_n_tokens work \<noteq> 0"
    "\<not> (w_pos0 work > 0x7fffffff \<or> w_n_tokens work > 0x7fffffff \<or> w_pos0 work > ws_ctx_size ws \<or> w_n_tokens work > ws_ctx_size ws - w_pos0 work)"
    using assms(4-7) by (auto simp: word_less_nat_alt word_le_nat_alt)
  have run: "\<exists>s'. ds4_session_eval_layer_slice en (ws_ctx_size ws) s tokens (w_n_tokens work) (w_pos0 work) (w_layer_start work) (w_layer_end work) i h l = (s', Inr out)"
    if "if sl_valid s then of_nat (length (sl_tokens s)) = w_pos0 work else w_pos0 work = 0" for s i h l
  proof -
    have "ds4_session_slice_check_timeline (ws_ctx_size ws) s (w_n_tokens work) (w_pos0 work) = None"
      using span that by (auto simp: ds4_session_slice_check_timeline_def split: if_splits)
    then show ?thesis by (simp add: ds4_session_eval_layer_slice_def assms(3))
  qed
  obtain ws1 se where get: "dist_worker_get_session_locked ws (dist_u64_from_halves (w_session_hi work) (w_session_lo work)) = (ws1, se)" by fastforce
  have ctx: "ws_ctx_size ws1 = ws_ctx_size ws"
    using get by (auto simp: dist_worker_get_session_locked_def split: option.splits)
  show ?thesis
  proof (cases "w_flags work AND DS4_DIST_WORK_F_RESET_SESSION \<noteq> 0")
    case True
    then have p: "w_pos0 work = 0" "dist_u64_from_halves (w_prefix_hash_hi work) (w_prefix_hash_lo work) = DS4_DIST_TOKEN_HASH_INIT"
      using assms(1) by (simp_all add: session_ready_def Let_def)
    from p(1) have "if sl_valid \<lparr>sl_tokens = [], sl_valid = False\<rparr>
      then of_nat (length (sl_tokens \<lparr>sl_tokens = [], sl_valid = False\<rparr>)) = w_pos0 work else w_pos0 work = 0" by simp
    from run [OF this] obtain s' where "ds4_session_eval_layer_slice en (ws_ctx_size ws) \<lparr>sl_tokens = [], sl_valid = False\<rparr> tokens
        (w_n_tokens work) (w_pos0 work) (w_layer_start work) (w_layer_end work) i h l = (s', Inr out)" ..
    then show ?thesis
      by (simp add: dist_worker_eval_work_def get Let_def True ds4_session_layer_slice_reset_def assms(2) p(2) ctx)
  next
    case False
    then obtain s where s: "dist_worker_find_session ws (dist_u64_from_halves (w_session_hi work) (w_session_lo work)) = Some s" "hash_ok s"
      "sl_valid (se_session s)" "of_nat (length (sl_tokens (se_session s))) = w_pos0 work"
      "dist_token_hash_prefix (sl_tokens (se_session s)) = dist_u64_from_halves (w_prefix_hash_hi work) (w_prefix_hash_lo work)"
      using assms(1) by (auto simp: session_ready_def Let_def)
    then have "se = s" using get by (simp add: dist_worker_get_session_locked_def)
    from s(3,4) have "if sl_valid (se_session s) then of_nat (length (sl_tokens (se_session s))) = w_pos0 work else w_pos0 work = 0" by simp
    from run [OF this] obtain s' where "ds4_session_eval_layer_slice en (ws_ctx_size ws) (se_session s) tokens (w_n_tokens work) (w_pos0 work)
        (w_layer_start work) (w_layer_end work) i h l = (s', Inr out)" ..
    then show ?thesis using False s(2,5) \<open>se = s\<close> ctx
      by (cases "se_hash_valid s") (simp_all add: dist_worker_eval_work_def get Let_def hash_ok_def)
  qed
qed

text \<open>The hops start after layer 0.\<close>

lemma hop_start_nonzero:
  assumes "registry_ok st" "dist_coordinator_build_route_plan st dup = Some (Inr (plan, g))" "i < length (pl_entry plan)"
    and "co_local_end st < co_n_layers st"
  shows "re_layer_start (pl_entry plan ! i) \<noteq> 0"
proof -
  have ne: "pl_entry plan \<noteq> []" using assms(3) by auto
  note hops = plan_hops [OF assms(1,2) ne]
  have suc: "a + 1 \<noteq> 0" if "a < n" for a n :: u32 using word_suc_less [OF that] by auto
  show ?thesis
  proof (cases i)
    case 0
    then show ?thesis using hops(3) ne suc [OF assms(4)] by (simp add: hd_conv_nth)
  next
    case (Suc k)
    then have "re_layer_start (pl_entry plan ! i) = re_layer_end (pl_entry plan ! k) + 1" "re_layer_end (pl_entry plan ! k) < co_n_layers st"
      using hops_contiguous [OF hops(1), of k] hops_ok_nth [OF hops(1), of k] assms(3) by auto
    then show ?thesis using suc by metis
  qed
qed

text \<open>The flags of the forwarded header.\<close>

lemma forward_flags:
  fixes f :: u32
  assumes "f AND DS4_DIST_WORK_F_INPUT_HC \<noteq> 0" "f AND NOT DS4_DIST_WORK_F_VALID_MASK = 0"
  defines "g1 \<equiv> f OR DS4_DIST_WORK_F_INPUT_HC OR DS4_DIST_WORK_F_OUTPUT_LOGITS"
    and "g0 \<equiv> (f OR DS4_DIST_WORK_F_INPUT_HC) AND NOT DS4_DIST_WORK_F_OUTPUT_LOGITS"
  shows "g1 AND DS4_DIST_WORK_F_INPUT_HC \<noteq> 0" "g1 AND NOT DS4_DIST_WORK_F_VALID_MASK = 0" "g1 AND DS4_DIST_WORK_F_OUTPUT_LOGITS \<noteq> 0"
    "g0 AND DS4_DIST_WORK_F_INPUT_HC \<noteq> 0" "g0 AND NOT DS4_DIST_WORK_F_VALID_MASK = 0" "g0 AND DS4_DIST_WORK_F_OUTPUT_LOGITS = 0"
proof -
  have masks: "bit DS4_DIST_WORK_F_INPUT_HC n \<longleftrightarrow> n = 0" "bit DS4_DIST_WORK_F_OUTPUT_LOGITS n \<longleftrightarrow> n = 1" for n
  proof -
    have exp: "DS4_DIST_WORK_F_INPUT_HC = 2 ^ 0" "DS4_DIST_WORK_F_OUTPUT_LOGITS = 2 ^ 1" by (simp_all add: work_flags)
    show "bit DS4_DIST_WORK_F_INPUT_HC n \<longleftrightarrow> n = 0" "bit DS4_DIST_WORK_F_OUTPUT_LOGITS n \<longleftrightarrow> n = 1"
      unfolding exp bit_exp_iff possible_bit_word by auto
  qed
  have meet: "x AND c = 0 \<longleftrightarrow> (\<forall>n. \<not> (bit x n \<and> bit c n))" for x c :: u32
  proof
    show "\<forall>n. \<not> (bit x n \<and> bit c n)" if "x AND c = 0" using that by (simp flip: bit_and_iff)
    show "x AND c = 0" if "\<forall>n. \<not> (bit x n \<and> bit c n)" using that by (intro bit_word_eqI) (simp add: bit_and_iff)
  qed
  have mask4: "DS4_DIST_WORK_F_VALID_MASK = mask 4" by (simp add: work_flags mask_eq_exp_minus_1)
  have valid: "bit (NOT DS4_DIST_WORK_F_VALID_MASK) n \<longleftrightarrow> 4 \<le> n \<and> n < 32" for n
    unfolding mask4 bit_not_iff bit_mask_iff possible_bit_word by auto
  have bits: "x AND DS4_DIST_WORK_F_INPUT_HC \<noteq> 0 \<longleftrightarrow> bit x 0" "x AND DS4_DIST_WORK_F_OUTPUT_LOGITS \<noteq> 0 \<longleftrightarrow> bit x 1"
    "x AND NOT DS4_DIST_WORK_F_VALID_MASK = 0 \<longleftrightarrow> (\<forall>n. 4 \<le> n \<longrightarrow> \<not> bit x n)" for x :: u32
    using bit_imp_le_length [of x] unfolding meet masks valid by auto
  have f: "bit f 0" "\<forall>n. 4 \<le> n \<longrightarrow> \<not> bit f n" using assms(1,2) by (simp_all only: bits simp_thms)
  show "g1 AND DS4_DIST_WORK_F_INPUT_HC \<noteq> 0" "g1 AND NOT DS4_DIST_WORK_F_VALID_MASK = 0" "g1 AND DS4_DIST_WORK_F_OUTPUT_LOGITS \<noteq> 0"
    "g0 AND DS4_DIST_WORK_F_INPUT_HC \<noteq> 0" "g0 AND NOT DS4_DIST_WORK_F_VALID_MASK = 0"
    using f by (simp_all only: bits) (auto simp: g1_def g0_def bit_or_iff bit_and_iff bit_not_iff masks)
  have "\<not> bit g0 1" by (simp add: g0_def bit_and_iff bit_not_iff masks)
  then show "g0 AND DS4_DIST_WORK_F_OUTPUT_LOGITS = 0" using bits(2) by metis
qed

lemma f32_wire_bytes:
  assumes "dist_activation_bits_valid bits" "nv * 4 < 2 ^ 32"
  shows "dist_activation_wire_bytes_from_f32_bytes bits (of_nat (nv * 4)) = Some (of_nat (nv * bytes_per_value bits))"
proof -
  have "bytes_per_value bits \<le> 4" using assms(1) by (elim activation_bits_cases; simp add: bytes_per_value_def)
  then have "nv * bytes_per_value bits \<le> nv * 4" by (rule mult_le_mono2)
  then have small: "nv * bytes_per_value bits < 2 ^ 32" using assms(2) by linarith
  have u: "unat (of_nat (nv * 4) :: u32) = nv * 4" using assms(2) by (rule unat_of_nat_u32)
  have "unat ((of_nat (nv * 4) :: u32) mod 4) = 0" unfolding unat_mod_distrib u by simp
  then have m: "(of_nat (nv * 4) :: u32) mod 4 = 0" by (simp only: unat_eq_zero)
  have "unat ((of_nat (nv * 4) :: u32) div 4) = nv" unfolding unat_div_distrib u by simp
  moreover have nv: "nv < 2 ^ 32" using assms(2) by linarith
  ultimately have d: "(of_nat (nv * 4) :: u32) div 4 = of_nat nv" by (simp only: word_unat_eq_iff unat_of_nat_u32)
  show ?thesis
    unfolding dist_activation_wire_bytes_from_f32_bytes_def m d ucast_of_nat_u32 [OF nv] wire_bytes_exact [OF assms(1) small] by simp
qed

lemma forward_work_at:
  assumes "work_at st plan tokens hv i work" "Suc i < length (pl_entry plan)" "length tokens * hv * 4 < 2 ^ 32"
  shows "\<exists>fw. dist_forward_work_to_next ((pl_entry plan ! Suc i)\<lparr>re_fd := -1\<rparr>) work (of_nat (length tokens * hv * 4)) = Inr fw
    \<and> work_at st plan tokens hv (Suc i) fw
    \<and> (w_session_hi fw, w_session_lo fw, w_request_hi fw, w_request_lo fw, w_prefix_hash_hi fw, w_prefix_hash_lo fw, w_result_hash_hi fw, w_result_hash_lo fw, w_pos0 fw)
      = (w_session_hi work, w_session_lo work, w_request_hi work, w_request_lo work, w_prefix_hash_hi work, w_prefix_hash_lo work,
         w_result_hash_hi work, w_result_hash_lo work, w_pos0 work)"
proof -
  let ?nv = "length tokens * hv" and ?bits = "dist_activation_bits_or_default (w_input_hc_bits work)"
  note w = assms(1) [unfolded work_at_def]
  have bits: "dist_activation_bits_valid ?bits" "bytes_per_value ?bits = bytes_per_value (w_input_hc_bits work)"
    using w by (simp_all add: bytes_per_value_def)
  note wb = f32_wire_bytes [OF bits(1) assms(3)]
  note flags = forward_flags [of "w_flags work"]
  have f: "w_flags work AND DS4_DIST_WORK_F_INPUT_HC \<noteq> 0" "w_flags work AND NOT DS4_DIST_WORK_F_VALID_MASK = 0" using w by blast+
  have idx: "w_route_index work + 1 = of_nat (Suc i)" using w by simp
  show ?thesis
    unfolding dist_forward_work_to_next_def Let_def wb option.case
    using w bits flags [OF f] idx by (auto simp: work_at_def)
qed

lemma request_passes:
  assumes plan: "registry_ok st" "dist_coordinator_build_route_plan st dup = Some (Inr (plan, g))" "i < length (pl_entry plan)" "co_local_end st < co_n_layers st"
    and header: "work_at st plan tokens hv i work" "dist_send_work_frame f8 work tokens hc (pl_blob plan) = Some frame"
    and worker: "worker_at st plan tokens (w_pos0 work) hv i en ws" "session_ready ws work" "\<And>s. en_reset en s = None"
    and run: "\<And>s i h l. en_run en s tokens (w_pos0 work) (w_layer_start work) (w_layer_end work) i h l = Inr out"
    and sizes: "tokens \<noteq> []" "0 < hv" "length hc = 4 * (length tokens * hv)" "length tokens * hv * 4 < 2 ^ 32"
      "80 + 4 * length tokens + 4 * (length tokens * hv) + length (pl_blob plan) \<le> UINT32_MAX"
  shows "\<exists>ws' reply. dist_worker_process_work_payload en ws frame = (ws', reply)
    \<and> (if Suc i < length (pl_entry plan)
       then \<exists>fw r. reply = Forward_Reply ((pl_entry plan ! Suc i)\<lparr>re_fd := -1\<rparr>) fw tokens r (pl_blob plan) \<and> work_at st plan tokens hv (Suc i) fw
         \<and> (w_session_hi fw, w_session_lo fw, w_request_hi fw, w_request_lo fw, w_prefix_hash_hi fw, w_prefix_hash_lo fw, w_result_hash_hi fw, w_result_hash_lo fw, w_pos0 fw)
           = (w_session_hi work, w_session_lo work, w_request_hi work, w_request_lo work, w_prefix_hash_hi work, w_prefix_hash_lo work,
              w_result_hash_hi work, w_result_hash_lo work, w_pos0 work)
       else \<exists>kind bits r. reply = Result_Reply (dist_u64_from_halves (w_request_hi work) (w_request_lo work))
              (dist_u64_from_halves (w_result_hash_hi work) (w_result_hash_lo work)) kind bits r)"
proof -
  have ne: "pl_entry plan \<noteq> []" using plan(3) by auto
  note hops = plan_hops [OF plan(1,2) ne]
  obtain a where frame: "frame = dist_work_to_wire work @ concat (map htonl tokens) @ a @ pl_blob plan"
    and a: "length a = length tokens * hv * bytes_per_value (w_input_hc_bits work)" "unat (w_input_hc_bytes work) = length a"
    and n: "unat (w_token_bytes work) = 4 * length tokens" "unat (w_n_tokens work) = length tokens" "unat (w_route_bytes work) = length (pl_blob plan)"
    using send_frame [OF header(1) sizes(1,2,4,3,5), of f8] header(2) by auto
  have w: "en_n_layers en = co_n_layers st" "ws_ctx_size ws \<le> 0x7fffffff" "unat (w_pos0 work) + length tokens \<le> unat (ws_ctx_size ws)"
    "dist_activation_bits_valid (w_input_hc_bits work)" "w_flags work AND DS4_DIST_WORK_F_INPUT_HC \<noteq> 0"
    using worker(1) header(1) by (simp_all add: worker_at_def work_at_def)
  let ?p = "concat (map htonl tokens) @ a @ pl_blob plan"
  have flag: "re_flags (pl_entry plan ! i) = 0 \<or> re_layer_end (pl_entry plan ! i) + 1 = co_n_layers st"
    using hops_ok_nth [OF hops(1) plan(3)] by blast
  have read: "dist_read_full 80 frame = Some (dist_work_to_wire work, ?p)" unfolding frame by (rule work.read_struct)
  have check: "dist_worker_check_work en ws work (length ?p) = None"
    using check_work_passes [OF header(1) worker(1) sizes(1) plan(3) hops(2) hop_start_nonzero [OF plan] flag n(1,2)] n a(2) by (simp add: add.assoc)
  note reads = read_work_passes [OF header(1) worker(1) sizes(4) n(2) a(2)]
  note route = check_route_passes [OF plan(1-3) header(1) w(1)]
  obtain hc' where dec: "dist_decode_activation_payload (en_f8 en) a (dist_activation_bits_or_default (w_input_hc_bits work)) = Inr (of_nat (length tokens * hv * 4), hc')"
    using decode_activation_size [OF w(4) sizes(4) a(1)] by blast
  have hcin: "work_input_hc en work a = Inr (Some hc')" using w(5) by (simp only: work_input_hc_def dec reads(2) if_True sum.case prod.case) simp
  let ?kind = "work_result_kind work (next_hop_of plan i \<noteq> None)"
  obtain ws' where ev: "dist_worker_eval_work en ws work tokens (Some hc') (?kind = DS4_DIST_RESULT_HIDDEN_STATE) (?kind = DS4_DIST_RESULT_LOGITS) = (ws', Inr out)"
    using eval_work_runs [OF worker(2,3) run n(2) sizes(1) w(2,3)] by blast
  have proc: "dist_worker_process_work_payload en ws frame = (ws', work_answer en work tokens (pl_blob plan) (next_hop_of plan i) out)"
    unfolding dist_worker_process_work_payload_def read option.case prod.case work.from_to_wire Let_def check reads(1) sum.case route hcin ev ..
  have wire: "dist_activation_wire_bytes_from_f32_bytes (dist_activation_bits_or_default (w_input_hc_bits work)) (expected_hc_bytes en work) \<noteq> None"
    unfolding reads(2) using f32_wire_bytes [of "dist_activation_bits_or_default (w_input_hc_bits work)" "length tokens * hv"] w(4) sizes(4)
    by (simp del: of_nat_mult)
  show ?thesis
  proof (cases "Suc i < length (pl_entry plan)")
    case True
    obtain fw where fw: "dist_forward_work_to_next ((pl_entry plan ! Suc i)\<lparr>re_fd := -1\<rparr>) work (of_nat (length tokens * hv * 4)) = Inr fw"
      "work_at st plan tokens hv (Suc i) fw"
      "(w_session_hi fw, w_session_lo fw, w_request_hi fw, w_request_lo fw, w_prefix_hash_hi fw, w_prefix_hash_lo fw, w_result_hash_hi fw, w_result_hash_lo fw, w_pos0 fw)
      = (w_session_hi work, w_session_lo work, w_request_hi work, w_request_lo work, w_prefix_hash_hi work, w_prefix_hash_lo work,
         w_result_hash_hi work, w_result_hash_lo work, w_pos0 work)"
      using forward_work_at [OF header(1) True sizes(4)] by blast
    have kind: "work_result_kind work True = DS4_DIST_RESULT_HIDDEN_STATE" by (simp add: work_result_kind_def)
    have answer: "work_answer en work tokens (pl_blob plan) (Some ((pl_entry plan ! Suc i)\<lparr>re_fd := -1\<rparr>)) out
        = Forward_Reply ((pl_entry plan ! Suc i)\<lparr>re_fd := -1\<rparr>) fw tokens (take (unat (expected_hc_bytes en work)) out) (pl_blob plan)"
      using wire fw(1) kind
      by (simp add: work_answer_def Let_def reads(2) DS4_DIST_RESULT_HIDDEN_STATE_def DS4_DIST_RESULT_ACK_def DS4_DIST_RESULT_LOGITS_def del: of_nat_mult)
    show ?thesis using proc True answer fw(2,3) by (auto simp: next_hop_of_def)
  next
    case False
    have "\<exists>kind bits r. work_answer en work tokens (pl_blob plan) None out = Result_Reply (dist_u64_from_halves (w_request_hi work) (w_request_lo work))
              (dist_u64_from_halves (w_result_hash_hi work) (w_result_hash_lo work)) kind bits r"
      using wire by (auto simp: work_answer_def Let_def DS4_DIST_RESULT_HIDDEN_STATE_def DS4_DIST_RESULT_ACK_def DS4_DIST_RESULT_LOGITS_def)
    then show ?thesis using proc False by (auto simp: next_hop_of_def)
  qed
qed


text \<open>What the coordinator sends has the header of the first hop.\<close>

lemma coordinator_sends_first_hop:
  assumes "dist_coordinator_send_remote_work_on_fd f8 st plan tokens pos0 session_id request_id prefix_hash result_hash reset_session ack_only hidden_hc = Inr frame"
    and "length hidden_hc = length tokens * hv * 4" "length tokens * hv * 4 < 2 ^ 32" "dist_activation_bits_valid (co_activation_bits st)"
    and "result_hash = dist_token_hash_update_span prefix_hash tokens"
  shows "\<exists>work. work_at st plan tokens hv 0 work \<and> dist_send_work_frame f8 work tokens hidden_hc (pl_blob plan) = Some frame \<and> w_pos0 work = pos0
    \<and> dist_u64_from_halves (w_session_hi work) (w_session_lo work) = session_id
    \<and> dist_u64_from_halves (w_request_hi work) (w_request_lo work) = request_id
    \<and> dist_u64_from_halves (w_prefix_hash_hi work) (w_prefix_hash_lo work) = prefix_hash
    \<and> (w_flags work AND DS4_DIST_WORK_F_RESET_SESSION \<noteq> 0 \<longleftrightarrow> reset_session)"
proof -
  obtain first rest where plan: "pl_entry plan = first # rest"
    using assms(1) by (cases "pl_entry plan") (auto simp: dist_coordinator_send_remote_work_on_fd_def)
  have wb: "dist_activation_wire_bytes_from_f32_bytes (co_activation_bits st) (of_nat (length hidden_hc))
      = Some (of_nat (length tokens * hv * bytes_per_value (co_activation_bits st)))"
    unfolding assms(2) by (rule f32_wire_bytes [OF assms(4,3)])
  have four: "(of_nat (length tokens) * 4 :: u32) = of_nat (4 * length tokens)" by simp
  show ?thesis
    using assms(1) unfolding dist_coordinator_send_remote_work_on_fd_def plan list.case wb option.case Let_def four
    by (cases reset_session; cases ack_only; cases "re_flags first AND DS4_DIST_ROUTE_F_OUTPUT_LOGITS = 0")
      (auto split: option.splits simp: work_at_def plan assms(4,5) work_flags simp del: of_nat_mult intro!: exI conjI)
qed

section \<open>An example request\<close>

definition example_engine :: slice_engine where
  "example_engine = \<lparr>en_n_layers = 10, en_vocab_size = 100, en_hidden_values = 2, en_reset = (\<lambda>_. None),
     en_run = (\<lambda>_ _ _ _ _ _ _ _. Inr (replicate 16 0)),
     en_f8 = \<lparr>dist_f32_to_f8_e4m3 = (\<lambda>_. 0), dist_f8_e4m3_to_f32 = (\<lambda>_. 0)\<rparr>\<rparr>"

definition example_worker_state :: ds4_dist_worker_state where
  "example_worker_state = \<lparr>ws_model_id = 7, ws_layer_start = 4, ws_layer_end = 6, ws_has_output = False, ws_ctx_size = 200, ws_sessions = []\<rparr>"

lemma example_request:
  "\<exists>plan work frame. example_plan = Some (Inr (plan, 3)) \<and> length (pl_entry plan) = 2 \<and> work_at example_registry plan [1, 2] 2 0 work
     \<and> dist_send_work_frame (en_f8 example_engine) work [1, 2] (replicate 16 1) (pl_blob plan) = Some frame
     \<and> worker_at example_registry plan [1, 2] (w_pos0 work) 2 0 example_engine example_worker_state \<and> session_ready example_worker_state work
     \<and> length (pl_blob plan) = 54"
proof -
  from example_plan_built obtain plan where plan: "example_plan = Some (Inr (plan, 3))" "map re_layer_start (pl_entry plan) = [4, 7]"
    "map re_layer_end (pl_entry plan) = [6, 9]" "map re_flags (pl_entry plan) = [0, 1]" "length (pl_blob plan) = 54"
    by (elim exE conjE) (rule that)
  obtain e0 e1 where e: "pl_entry plan = [e0, e1]" "re_layer_start e0 = 4" "re_layer_end e0 = 6" "re_flags e0 = 0"
    using plan(2-4) by (auto simp: map_eq_Cons_conv)
  define h where "h = dist_token_hash_update_span DS4_DIST_TOKEN_HASH_INIT [1, 2]"
  define work where "work = \<lparr>w_model_id = 7, w_session_hi = 0, w_session_lo = 5, w_request_hi = 0, w_request_lo = 9,
     w_prefix_hash_hi = fst (dist_u64_to_halves DS4_DIST_TOKEN_HASH_INIT), w_prefix_hash_lo = snd (dist_u64_to_halves DS4_DIST_TOKEN_HASH_INIT),
     w_result_hash_hi = fst (dist_u64_to_halves h), w_result_hash_lo = snd (dist_u64_to_halves h),
     w_pos0 = 0, w_n_tokens = 2, w_layer_start = 4, w_layer_end = 6, w_flags = 5, w_token_bytes = 8, w_input_hc_bytes = 8,
     w_input_hc_bits = 16, w_route_count = 2, w_route_index = 0, w_route_bytes = 54\<rparr>"
  have st: "co_model_id example_registry = 7" "co_n_layers example_registry = 10" by (simp_all add: example_registry_def example_coordinator_def)
  have at: "work_at example_registry plan [1, 2] 2 0 work"
    by (simp add: work_at_def work_def st e plan(5) work_flags dist_activation_bits_valid_def dist_activation_bits_or_default_def Let_def
        bytes_per_value_def h_def)
  obtain frame where "dist_send_work_frame (en_f8 example_engine) work [1, 2] (replicate 16 1) (pl_blob plan) = Some frame"
    using send_frame [OF at, of "replicate 16 1" "en_f8 example_engine"] plan(5) by auto
  moreover have "worker_at example_registry plan [1, 2] (w_pos0 work) 2 0 example_engine example_worker_state"
    by (simp add: worker_at_def work_def st e example_engine_def example_worker_state_def DS4_DIST_ROUTE_F_OUTPUT_LOGITS_def)
  moreover have "session_ready example_worker_state work" by (simp add: session_ready_def work_def work_flags)
  moreover have "length (pl_entry plan) = 2" by (simp add: e(1))
  ultimately show ?thesis using at plan(1,5) by blast
qed



end
