(* ===== verification/Spec2Isabelle.thy ===== *)
theory Spec2Isabelle
  imports Kv_Store Layer_Pack Ssd Gpu_Args Prompt_Prefix Json Model_Exec Job_Queue Tool_Replay Http Tool_Stream Chat_Tokens Top_K
    Agent_Edit Image_Layout Dist_Work
begin

text \<open>
  A verification library for \<open>ds4\<close>, an inference server for two families of language models (DeepSeek and GLM). It models the
  parts of the program that decide something: which bytes become which tokens, which request runs where and when, what is
  remembered, what is written to disk and found again, and what is sent to a client. Numerical kernels are outside it.

  \<^bold>\<open>The program and its parts.\<close> \<open>ds4_server.c\<close> accepts HTTP requests, renders a conversation to text, and hands a job to one of several
  resident slots, each with an engine session. \<open>ds4.c\<close> reads the model file, holds the vocabulary, turns text into tokens and
  back, evaluates the model and chooses the next token. \<open>ds4_kvstore.c\<close> keeps engine sessions as checkpoint files named by the
  SHA-1 of the text they stand for; a request whose text extends a stored one resumes from it. Sampled tool calls are streamed to the
  client while they are generated, remembered byte for byte, written next to checkpoints and put back into later prompts.
  \<open>ds4_distributed.c\<close> spreads the layers of a model over several machines, \<open>ds4_image.c\<close> lays images out among the tokens of a prompt, and
  \<open>ds4_agent.c\<close> is a terminal agent whose tools read and edit files. Smaller parts parse arguments, plan memory and place layers on devices.

  \<^bold>\<open>Foundations.\<close> \<open>Prelude\<close> has the machine types, prefixes and first occurrences, and the locale \<open>inductive_invariant\<close>. \<open>Clib\<close> has the
  C library functions that parsers and printers call.

  \<^bold>\<open>Model file, tokenizer and token choice\<close> (\<open>ds4.c\<close>).
  \<^item> \<open>Gguf\<close>: cursor, metadata, tensor directory, \<open>model_open\<close>, typed access. The mapped file is a byte list and a pointer
    into it is an offset. Everything an accepted file refers to lies inside it, and a written file is read back.
  \<^item> \<open>Token_Table\<close>: \<open>table_init\<close>, \<open>table_put\<close>, \<open>table_get\<close> with open addressing. It refines a finite map (locale \<open>lookup_table\<close>); its loops end
    exactly as long as a slot is free.
  \<^item> \<open>Bpe\<close>, \<open>Pretokenizer\<close>: the byte alphabet, the merge loop, both pre-tokenizers (locale \<open>cutter\<close>). The loop computes the greedy merge;
    the pieces are a partition of the text.
  \<^item> \<open>Chat_Tokens\<close>: \<open>vocab_load\<close>, markers, rendered chats, messages, tool results, stop tokens. Tokens spell the text they came from,
    message texts cannot forge turn markers, and a tool result cannot close its frame.
  \<^item> \<open>Sampler\<close>, \<open>Top_K\<close>: the greedy choice with its eight lanes, the random generator, and the heap of the best candidates
    (locale \<open>bounded_selection\<close>), sorted by \<open>C_Sort\<close>, the library's \<open>qsort\<close>. A float is its bit pattern with the IEEE order.

  \<^bold>\<open>Checkpoint store\<close> (\<open>ds4_kvstore.c\<close>). \<open>Kv_Codec\<close> is the file header (locale \<open>byte_codec\<close>), \<open>Sha1\<close> the hash, \<open>Kv_Policy\<close> when to store and how much room
    is needed, \<open>Kv_Disk\<close> the directory, eviction and longest-prefix lookup (locale \<open>file_store\<close>), \<open>Kv_Store\<close> storing and loading.
    The engine session is a record of functions (\<open>ds4_api\<close>), the operating system an environment record. A file
    appears complete or not at all, what was stored is found, and a load is sound. The last section of this theory
    puts the modelled tokenizer into that record and shows that a resumed prompt spells the request.

  \<^bold>\<open>Server\<close> (\<open>ds4_server.c\<close>, \<open>ds4_tool_text.h\<close>).
  \<^item> \<open>Model_Exec\<close>: who may run the model in batched mode, as an interleaved step relation whose steps are the critical sections of
    \<open>model_mu\<close>; exclusion, progress, bounded bypass.
  \<^item> \<open>Live_State\<close>, \<open>Job_Queue\<close>: what a slot remembers, the linked job list (locale \<open>fifo\<close>), scoring and dispatch, workers, cancellation and
    shutdown as a step relation; every accepted job is in exactly one place.
  \<^item> \<open>Tool_Text\<close>, \<open>Stream_Text\<close>, \<open>Json\<close>, \<open>Http\<close>, \<open>Tool_Stream\<close>: escaping, streaming guards, JSON, request and response framing, and the
    state machine of the tool-call stream. Round trips, and independence of how input arrives in pieces.
  \<^item> \<open>Tool_Memory\<close>, \<open>Tool_Map\<close>, \<open>Tool_Replay\<close>: the remembered tool calls, their section in a checkpoint file (locale \<open>honest_trailer\<close>), and their replay
    into messages, also by a restarted server.

  \<^bold>\<open>Distributed mode\<close> (\<open>ds4_distributed.c\<close>, the timeline of a layer slice in \<open>ds4.c\<close>). A coordinator evaluates the first layers and sends hidden
  states along a route of workers.
  \<^item> \<open>Dist_Wire\<close>, \<open>Dist_Activation\<close>: the fixed structures of the protocol (locale \<open>wire_struct\<close>, interpreted for each), frame headers, HELLO, token
    hashes, and activations packed to 16 bits. What was sent is read back.
  \<^item> \<open>Dist_Route\<close>: the registry of workers with its checks, the depth-first route search, and route plans as bytes. A route is found
    exactly when there is one, and every worker reads a plan as it was built.
  \<^item> \<open>Dist_Work\<close>: the WORK frame, its handler \<open>dist_worker_process_work_payload\<close>, the sessions of a worker and the forwarded frame. A request passes
    along its whole route, and a worker only ever extends the timeline that the request names. These facts assume that a
    reset of the engine's state succeeds; \<open>failed_reset_keeps_hash\<close> shows what a failed one leaves behind.

  \<^bold>\<open>Images in prompts\<close> (\<open>ds4_image.c\<close>). \<open>Image_Layout\<close>: the block of tokens of an image, the search for blocks, prefill chunks and attention
  bounds. A block carries every patch once, is found whole and is never split.

  \<^bold>\<open>Agent tools\<close> (\<open>ds4_agent.c\<close>). \<open>Agent_Read\<close>: the output buffer, lines and paging; the pages of a file are the file. \<open>Agent_Edit\<close>: the search for
  the passage an edit names and the atomic replacement of the file, with other programs acting in between; an edit
  replaces exactly that passage or nothing.

  \<^bold>\<open>Start-up\<close>. \<open>Layer_Pack\<close>, \<open>Ssd\<close>, \<open>Gpu_Args\<close>, \<open>Prompt_Prefix\<close> model the files of the same names.

  \<^bold>\<open>Conventions.\<close> A C structure is a record, an enum a datatype, a NUL-terminated string a \<^typ>\<open>string\<close>, a counted block a list of bytes.
  An error path is a value of a sum or option type. Machine words are kept where the code can wrap; elsewhere a
  number is a \<^typ>\<open>nat\<close> or \<^typ>\<open>int\<close> and the text says why it stays in range. Allocation failure ends the C program and
  is left out, except in \<open>Prompt_Prefix\<close> where the code handles it.

  \<^bold>\<open>Loops and bounds.\<close> Loops are recursive functions with a termination proof. Three kinds may run forever in C and are
  \<open>partial_function (option)\<close>: probing a hash table, doubling its capacity, and walking a linked list; that they return is a
  theorem about well-formed states. The only depth bounds are those of the code: 256 levels of JSON and 8 of GGUF
  arrays; the model recurses on that number of levels, so no other fuel appears.

  \<^bold>\<open>What is not modelled.\<close> Tensor kernels, device back ends and vendored libraries; floating-point sums (softmax, top-p and
  min-p filters), since no theory of IEEE arithmetic is used here; the terminal, shell jobs and searches of the agent, web
  fetching, evaluation and bench drivers, which are input and output around the modelled parts; the per-endpoint request
  parsers of the server; of distributed runs the sockets, forwarder threads, pipelined prefill and snapshot transfer, and tensor
  parallelism; decoding and resampling of images. Log lines are left out throughout.
\<close>

section \<open>The checkpoint store with the modelled tokenizer\<close>

text \<open>
  The store is written against the functions the engine exports. Here the two text functions among them are the modelled
  tokenizer of the loaded vocabulary; the session functions stay parameters.
\<close>

definition engine_tokenizer :: "ds4_model_family \<Rightarrow> ds4_vocab \<Rightarrow> 's ds4_api \<Rightarrow> 's ds4_api" where
  "engine_tokenizer fam v api = api\<lparr>
     token_text := (\<lambda>t. str_bytes (ds4_token_text v t)),
     tokenize_rendered_chat := (\<lambda>text. tokenize_rendered_chat_vocab fam v (bytes_str text))\<rparr>"

lemma engine_tokenizer_simps [simp]:
  "token_text (engine_tokenizer fam v api) = (\<lambda>t. str_bytes (ds4_token_text v t))"
  "tokenize_rendered_chat (engine_tokenizer fam v api) = (\<lambda>text. tokenize_rendered_chat_vocab fam v (bytes_str text))"
  "routed_quant_bits (engine_tokenizer fam v api) = routed_quant_bits api"
  "engine_model_id (engine_tokenizer fam v api) = engine_model_id api"
  "session_tokens (engine_tokenizer fam v api) = session_tokens api"
  "session_ctx (engine_tokenizer fam v api) = session_ctx api"
  "load_payload (engine_tokenizer fam v api) = load_payload api"
  "session_invalidate (engine_tokenizer fam v api) = session_invalidate api"
  by (simp_all add: engine_tokenizer_def)

lemma render_engine_tokens: "ds4_kvstore_render_tokens_text (engine_tokenizer fam v api) toks = str_bytes (tokens_text v toks)"
  by (simp add: ds4_kvstore_render_tokens_text_def tokens_text_def str_bytes_def map_concat comp_def)

lemma str_bytes_str [simp]: "str_bytes (bytes_str b) = b"
proof -
  have "of_nat (unat x) = x" for x :: u8 by simp
  moreover have "unat x < 256" for x :: u8 using unsigned_less [of x, where ?'a = nat] by simp
  ultimately show ?thesis by (simp add: str_bytes_def bytes_str_def comp_def map_idI)
qed

lemma bytes_str_drop: "bytes_str (drop n b) = drop n (bytes_str b)"
  by (simp add: bytes_str_def drop_map)

text \<open>
  What the engine owes the store: a payload that loads restores tokens whose texts are the text the checkpoint was filed under.
\<close>

definition payloads_honest :: "'s ds4_api \<Rightarrow> 's \<Rightarrow> disk \<Rightarrow> bool" where
  "payloads_honest api ses d \<longleftrightarrow>
     (\<forall>p content hdr tb rest ses1 left toks. fs_lookup d p = Some content \<and> ds4_kvstore_read_header content = Some (hdr, tb, rest)
        \<and> load_payload api ses (drop (unat tb) rest) (payload_bytes hdr) = (None, ses1, left) \<and> session_tokens api ses1 = Some toks
        \<longrightarrow> ds4_kvstore_render_tokens_text api toks = take (unat tb) rest)"


lemma load_ignores_tokenizer:
  "ld_loaded (ds4_kvstore_try_load_text env (engine_tokenizer fam v api) kc ses text hooks ud d)
     = ld_loaded (ds4_kvstore_try_load_text env api kc ses text hooks ud d)"
  by (auto simp: ds4_kvstore_try_load_text_def Let_def split: option.splits prod.splits sum.splits)

lemma small_token_text:
  assumes "token v = small_tokens"
  shows "ds4_token_text v 111 = ''h''" "ds4_token_text v 112 = ''i''"
proof -
  have nth: "small_tokens ! (7 + n) = byte_symbol (char_of n)" if "n < 256" for n
    using that by (simp add: small_tokens_def required_markers_def nth_append)
  have plain: "ds4_token_text v (int (7 + n)) = [char_of n]" if "n < 256" for n
  proof -
    have "\<not> vocab_token_is_literal_special (byte_symbol (char_of n))"
      using byte_symbol_low [of "CHR 0xEF" "char_of n"] set_mono_sublist by (fastforce simp: vocab_token_is_literal_special_def)
    moreover have "decode_token (byte_symbol (char_of n)) = [char_of n]"
      using decode_encode [of "[char_of n]"] by (simp add: byte_encode_symbols)
    moreover have "nat (int (7 + n)) = 7 + n" by (rule nat_int)
    ultimately show ?thesis using assms nth [OF that] small_tokens_length(1) that by (simp add: ds4_token_text_def Let_def del: of_nat_add)
  qed
  show "ds4_token_text v 111 = ''h''" using plain [of 104] by (simp add: char_of_eq_iff take_bit_eq_mod)
  show "ds4_token_text v 112 = ''i''" using plain [of 105] by (simp add: char_of_eq_iff take_bit_eq_mod)
qed

lemma demo_payloads_honest:
  assumes "token v = small_tokens"
  shows "payloads_honest (engine_tokenizer fam v demo_api) [] [(demo_path, demo_stored_file)]"
proof -
  have "ds4_kvstore_read_header demo_stored_file = Some (header_entry 0 2 1 0 2 0 4096 7 7 2 2, 2, [104, 105, 111, 112])"
    unfolding demo_stored_file_def by (subst read_stored_header) (simp_all add: demo_api_def demo_env_def demo_text_def)
  then show ?thesis using small_token_text [OF assms]
    by (auto simp: payloads_honest_def fs_lookup_def header_entry_def demo_api_def ds4_kvstore_render_tokens_text_def str_bytes_def split: if_splits)
qed


end
